(* ===== verification/Prelude.thy ===== *)
theory Prelude
  imports Main "HOL-Library.Word" "HOL-Library.AList"
begin

text \<open>
  Shared ground of the development: the machine integers and strings of the Go
  sources, the string functions of the package \<open>strings\<close> the sources call, Go's
  maps as association lists with distinct keys, and the fact collections the
  component theories add to.

  A Go \<open>string\<close> is a byte sequence, modelled as \<^typ>\<open>string\<close>.  A Go map that the
  code iterates over is an association list: the order of the list stands for the
  unspecified iteration order, so a statement about every list is a statement about
  every order.
\<close>

named_theorems go_string "facts on the modelled functions of package strings"
named_theorems go_map "facts on association-list maps"

type_synonym u64 = "64 word"
type_synonym 'v gomap = "(string \<times> 'v) list"

section \<open>Package strings\<close>

definition ascii_lower :: "char \<Rightarrow> char" where
  "ascii_lower c = (let n = of_char c :: nat in if 65 \<le> n \<and> n \<le> 90 then char_of (n + 32) else c)"

text \<open>\<open>strings.ToLower\<close> on the ASCII range; bytes of other runes are kept.\<close>

definition to_lower :: "string \<Rightarrow> string" where
  "to_lower s = map ascii_lower s"

definition has_prefix :: "string \<Rightarrow> string \<Rightarrow> bool" where
  "has_prefix s p \<longleftrightarrow> take (length p) s = p"

definition has_suffix :: "string \<Rightarrow> string \<Rightarrow> bool" where
  "has_suffix s p \<longleftrightarrow> length p \<le> length s \<and> drop (length s - length p) s = p"

fun str_contains :: "string \<Rightarrow> string \<Rightarrow> bool" where
  "str_contains [] p = (p = [])"
| "str_contains (c # s) p = (has_prefix (c # s) p \<or> str_contains s p)"

definition trim_suffix :: "string \<Rightarrow> string \<Rightarrow> string" where
  "trim_suffix s p = (if has_suffix s p then take (length s - length p) s else s)"

text \<open>\<open>strings.Cut\<close> at a one-byte separator: the part after the first one, if any.\<close>

fun cut_after :: "char \<Rightarrow> string \<Rightarrow> string option" where
  "cut_after c [] = None"
| "cut_after c (x # s) = (if x = c then Some s else cut_after c s)"

text \<open>
  \<open>strings.TrimSpace\<close>: the code points with Unicode's White_Space property, as UTF-8, are
  stripped from both ends.
\<close>

definition bytes :: "nat list \<Rightarrow> string" where
  "bytes ns = map char_of ns"

definition utf8_spaces :: "string list" where
  "utf8_spaces =
     map (\<lambda>n. bytes [n]) [9, 10, 11, 12, 13, 32] @
     [bytes [194, 133], bytes [194, 160], bytes [225, 154, 128]] @
     map (\<lambda>n. bytes [226, 128, n]) ([128..<139] @ [168, 169, 175]) @
     [bytes [226, 129, 159], bytes [227, 128, 128]]"

function strip_left :: "string list \<Rightarrow> string \<Rightarrow> string" where
  "strip_left ws s =
     (case find (\<lambda>w. w \<noteq> [] \<and> has_prefix s w) ws of None \<Rightarrow> s | Some w \<Rightarrow> strip_left ws (drop (length w) s))"
  by pat_completeness auto

lemma has_prefix_shorter: "has_prefix s w \<Longrightarrow> w \<noteq> [] \<Longrightarrow> length (drop (length w) s) < length s"
  by (cases s) (auto simp: has_prefix_def)

termination strip_left
  by (relation "measure (length o snd)") (auto simp: find_Some_iff dest: has_prefix_shorter)

declare strip_left.simps [simp del]

definition trim_space :: "string \<Rightarrow> string" where
  "trim_space s = rev (strip_left (map rev utf8_spaces) (rev (strip_left utf8_spaces s)))"

text \<open>A space to trim is one byte below 33, tab, newline, return and blank among them, or begins beyond ASCII.\<close>

definition spaces :: "string list \<Rightarrow> bool" where
  "spaces ws \<longleftrightarrow> list_all (\<lambda>w. w \<noteq> [] \<and> ((tl w = [] \<and> (of_char (hd w) :: nat) < 33) \<or> 128 \<le> (of_char (hd w) :: nat))) ws \<and>
     list_all (\<lambda>n. [char_of n] \<in> set ws) [9, 10, 13, 32 :: nat]"
lemma utf8_space_range: "[128..<139] = [128, 129, 130, 131, 132, 133, 134, 135, 136, 137, 138 :: nat]"
  by (simp add: upt_rec)
lemma spaces_utf8: "spaces utf8_spaces"
  unfolding spaces_def utf8_spaces_def bytes_def utf8_space_range list.map append.simps list.pred_inject list.sel of_char_of
  by simp
lemma spaces_rev_utf8: "spaces (map rev utf8_spaces)"
  unfolding spaces_def utf8_spaces_def bytes_def utf8_space_range list.map append.simps map_append list.pred_inject list.sel of_char_of rev.simps
  by simp

lemma ascii_lower_idem: "ascii_lower (ascii_lower c) = ascii_lower c"
proof -
  have "of_char (char_of (of_char c + 32 :: nat) :: char) = (of_char c + 32 :: nat)"
    if "of_char c \<le> (90 :: nat)"
    using that by simp
  then show ?thesis by (auto simp: ascii_lower_def Let_def)
qed

lemma to_lower_idem [simp]: "to_lower (to_lower s) = to_lower s"
  by (simp add: to_lower_def ascii_lower_idem)

lemma length_to_lower [simp]: "length (to_lower s) = length s"
  by (simp add: to_lower_def)

lemma to_lower_append: "to_lower (s @ t) = to_lower s @ to_lower t"
  by (simp add: to_lower_def)

lemma has_prefix_append [simp]: "has_prefix (p @ s) p"
  by (simp add: has_prefix_def)

lemma has_suffix_append [simp]: "has_suffix (s @ p) p"
  by (simp add: has_suffix_def)

lemma trim_suffix_append [simp]: "trim_suffix (s @ p) p = s"
  by (simp add: trim_suffix_def)

lemma str_contains_iff: "str_contains s p \<longleftrightarrow> (\<exists>u v. s = u @ p @ v)"
proof (induction s)
  case Nil
  then show ?case by auto
next
  case (Cons c s)
  show ?case
  proof
    assume "str_contains (c # s) p"
    then consider "has_prefix (c # s) p" | "str_contains s p" by auto
    then show "\<exists>u v. c # s = u @ p @ v"
    proof cases
      case 1
      then have "c # s = [] @ p @ drop (length p) (c # s)"
        by (metis append_Nil append_take_drop_id has_prefix_def)
      then show ?thesis by blast
    next
      case 2
      with Cons.IH obtain u v where "s = u @ p @ v" by blast
      then have "c # s = (c # u) @ p @ v" by simp
      then show ?thesis by blast
    qed
  next
    assume "\<exists>u v. c # s = u @ p @ v"
    then obtain u v where uv: "c # s = u @ p @ v" by blast
    show "str_contains (c # s) p"
    proof (cases u)
      case Nil
      with uv have "has_prefix (c # s) p" by (simp add: has_prefix_def)
      then show ?thesis by simp
    next
      case (Cons c' u')
      with uv have "s = u' @ p @ v" by simp
      with Cons.IH show ?thesis by auto
    qed
  qed
qed

section \<open>Decimal numbers\<close>

text \<open>\<open>strconv.Itoa\<close> of a number that is not negative.\<close>

definition digit :: "nat \<Rightarrow> char" where
  "digit n = char_of (48 + n)"

fun itoa :: "nat \<Rightarrow> string" where
  "itoa n = (if n < 10 then [digit n] else itoa (n div 10) @ [digit (n mod 10)])"

declare itoa.simps [simp del]

section \<open>Maps\<close>

text \<open>\<open>m[k] = v\<close>, \<open>delete(m, k)\<close> and \<open>m[k]\<close> on association lists.\<close>

abbreviation map_put :: "string \<Rightarrow> 'v \<Rightarrow> 'v gomap \<Rightarrow> 'v gomap" where
  "map_put \<equiv> AList.update"

abbreviation map_del :: "string \<Rightarrow> 'v gomap \<Rightarrow> 'v gomap" where
  "map_del \<equiv> AList.delete"

abbreviation gomap_ok :: "'v gomap \<Rightarrow> bool" where
  "gomap_ok m \<equiv> distinct (map fst m)"

lemma map_of_put [simp, go_map]: "map_of (map_put k v m) = (map_of m)(k \<mapsto> v)"
  by (rule update_conv')

lemma map_of_del [simp, go_map]: "map_of (map_del k m) = (map_of m)(k := None)"
  by (rule delete_conv')

lemma gomap_ok_put [simp, intro]: "gomap_ok m \<Longrightarrow> gomap_ok (map_put k v m)"
  by (rule distinct_update)

lemma gomap_ok_del [simp, intro]: "gomap_ok m \<Longrightarrow> gomap_ok (map_del k m)"
  by (rule distinct_delete)

lemma length_map_put [go_map]:
  "length (map_put k v m) = (if map_of m k = None then Suc (length m) else length m)"
  by (induction m) auto

lemma length_map_del [go_map]:
  "gomap_ok m \<Longrightarrow> length (map_del k m) = (if map_of m k = None then length m else length m - 1)"
proof (induction m)
  case Nil
  then show ?case by simp
next
  case (Cons a m)
  show ?case
  proof (cases "fst a = k")
    case True
    with Cons.prems have "map_of m k = None"
      by (auto simp: map_of_eq_None_iff)
    with True Cons show ?thesis by auto
  next
    case False
    with Cons.prems have "length m > 0" if "map_of m k \<noteq> None"
      using that by (cases m) auto
    with False Cons show ?thesis by auto
  qed
qed

end
