(* ===== verification/Tis_Scope.thy ===== *)
theory Tis_Scope
  imports Prelude
begin

text \<open>
  The scope algebra of \<open>proxy/internal/tis/scope.go\<close>: a task scope has three set
  dimensions with the singleton \<open>*\<close> as top and a purpose ordered by equality with
  \<open>*\<close> as top.  \<open>Narrows\<close> decides whether a child scope may be derived from a parent.
  The abstract side is what a scope permits; the locale \<open>attenuation\<close> is the contract a
  chain of derivations relies on, and \<open>narrows\<close> provides it.
\<close>

record scope =
  compartments :: "string list"
  resource_types :: "string list"
  actions :: "string list"
  purpose :: string

definition star :: string where
  "star = ''*''"

text \<open>The loops of \<open>subsetOrTop\<close>: over the child's entries, then over the parent's.\<close>

fun found_in :: "string \<Rightarrow> string list \<Rightarrow> bool" where
  "found_in c [] = False"
| "found_in c (p # ps) = (if c = p then True else found_in c ps)"

fun all_found :: "string list \<Rightarrow> string list \<Rightarrow> bool" where
  "all_found [] parent = True"
| "all_found (c # cs) parent =
     (if c = star then False
      else if \<not> found_in c parent then False
      else all_found cs parent)"

definition subset_or_top :: "string list \<Rightarrow> string list \<Rightarrow> bool" where
  "subset_or_top child parent =
     (if length parent = 1 \<and> parent ! 0 = star then True else all_found child parent)"

definition narrows :: "scope \<Rightarrow> scope \<Rightarrow> bool" where
  "narrows child parent \<longleftrightarrow>
     subset_or_top (compartments child) (compartments parent) \<and>
     subset_or_top (resource_types child) (resource_types parent) \<and>
     subset_or_top (actions child) (actions parent) \<and>
     (purpose parent = star \<or> purpose child = purpose parent)"

section \<open>What a scope permits\<close>

definition top_dim :: "string list \<Rightarrow> bool" where
  "top_dim xs \<longleftrightarrow> xs = [star]"

definition dim_permits :: "string list \<Rightarrow> string set" where
  "dim_permits xs = (if top_dim xs then UNIV else set xs)"

definition purpose_permits :: "string \<Rightarrow> string set" where
  "purpose_permits p = (if p = star then UNIV else {p})"

definition permits :: "scope \<Rightarrow> (string \<times> string \<times> string \<times> string) set" where
  "permits s = dim_permits (compartments s) \<times> dim_permits (resource_types s)
     \<times> dim_permits (actions s) \<times> purpose_permits (purpose s)"

lemma found_in_iff [simp]: "found_in c ps \<longleftrightarrow> c \<in> set ps"
  by (induction ps) auto

lemma all_found_iff: "all_found cs ps \<longleftrightarrow> star \<notin> set cs \<and> set cs \<subseteq> set ps"
  by (induction cs) auto

lemma subset_or_top_iff:
  "subset_or_top child parent \<longleftrightarrow>
     top_dim parent \<or> (star \<notin> set child \<and> set child \<subseteq> set parent)"
  by (cases parent) (auto simp: subset_or_top_def top_dim_def all_found_iff)

lemma subset_or_top_sound: "subset_or_top c p \<Longrightarrow> dim_permits c \<subseteq> dim_permits p"
  by (auto simp: subset_or_top_iff dim_permits_def top_dim_def)

lemma subset_or_top_trans:
  "subset_or_top a b \<Longrightarrow> subset_or_top b c \<Longrightarrow> subset_or_top a c"
  by (auto simp: subset_or_top_iff top_dim_def)

lemma narrows_sound: "narrows c p \<Longrightarrow> permits c \<subseteq> permits p"
  unfolding narrows_def permits_def purpose_permits_def
  by (intro Sigma_mono subset_or_top_sound) auto

lemma narrows_trans: "narrows a b \<Longrightarrow> narrows b c \<Longrightarrow> narrows a c"
  unfolding narrows_def by (auto intro: subset_or_top_trans)

section \<open>Attenuation along a chain\<close>

text \<open>
  The contract between the scope algebra and whoever derives credentials with it: a
  derivation test that composes and never enlarges what is permitted.
\<close>

locale attenuation =
  fixes le :: "'s \<Rightarrow> 's \<Rightarrow> bool" and sem :: "'s \<Rightarrow> 'p set"
  assumes le_trans: "le a b \<Longrightarrow> le b c \<Longrightarrow> le a c"
    and le_sound: "le a b \<Longrightarrow> sem a \<subseteq> sem b"
begin

lemma chain_le:
  "successively (\<lambda>p c. le c p) (root # xs) \<Longrightarrow> x \<in> set xs \<Longrightarrow> le x root"
proof (induction xs arbitrary: root)
  case Nil
  then show ?case by simp
next
  case (Cons y ys)
  from Cons.prems(1) have step: "le y root" and rest: "successively (\<lambda>p c. le c p) (y # ys)"
    by (cases ys; simp)+
  show ?case
  proof (cases "x = y")
    case True
    with step show ?thesis by simp
  next
    case False
    with Cons.prems(2) have "x \<in> set ys" by simp
    with rest have "le x y" by (rule Cons.IH)
    with step show ?thesis by (rule le_trans [rotated])
  qed
qed

lemma chain_sound:
  "successively (\<lambda>p c. le c p) (root # xs) \<Longrightarrow> x \<in> set xs \<Longrightarrow> sem x \<subseteq> sem root"
  using chain_le le_sound by blast

end

interpretation scopes: attenuation narrows permits
  by unfold_locales (auto intro: narrows_trans dest: narrows_sound)

text \<open>
  C31. A scope is a narrowing exactly when, in every dimension, the parent is the top or
  the child names no \<open>*\<close> and only entries of the parent: nothing else passes.
\<close>

theorem narrows_exact:
  "narrows c p \<longleftrightarrow>
     (\<forall>d \<in> {compartments, resource_types, actions}.
        d p = [star] \<or> (star \<notin> set (d c) \<and> set (d c) \<subseteq> set (d p))) \<and>
     (purpose p = star \<or> purpose c = purpose p)"
  by (auto simp: narrows_def subset_or_top_iff top_dim_def)

theorem narrows_exact_witness:
  "narrows \<lparr>compartments = [''a''], resource_types = [], actions = [''r''], purpose = ''p''\<rparr>
     \<lparr>compartments = [''*''], resource_types = [''t''], actions = [''r'', ''w''], purpose = ''*''\<rparr>"
  by (subst narrows_exact) (simp add: star_def)

end
