(* ===== verification/Shim_Pending.thy ===== *)
theory Shim_Pending
  imports Prelude
begin

text \<open>
  The response correlator of the stdio shim (\<open>pending\<close>, \<open>slot\<close>, \<open>track\<close>, \<open>claim\<close> and
  \<open>trackable\<close> in \<open>proxy/cmd/gurdy-proxy/shim.go\<close>).  The input relay tracks a call under
  its JSON-RPC id before the frame reaches the child, the output relay claims the id when
  a frame answers it.  Each operation holds the mutex for its whole body, so an execution
  of the two goroutines is a sequence of these operations in some order.

  The specification \<open>epoch\<close> is written over the history alone: the calls tracked under an
  id since nothing was outstanding for it, and how many are still unanswered.
\<close>

record slot =
  s_callID :: string
  s_inflight :: int
  s_ambiguous :: bool

record pending =
  p_m :: "slot gomap"
  p_off :: bool

definition maxPending :: nat where "maxPending = 4096"
definition maxIDLen :: nat where "maxIDLen = 512"

definition trackable :: "string \<Rightarrow> bool" where
  "trackable i \<longleftrightarrow> i \<noteq> '''' \<and> length i \<le> maxIDLen"

definition pending_init :: pending where
  "pending_init = \<lparr>p_m = [], p_off = False\<rparr>"

text \<open>The part of \<open>track\<close> after the slot is found or made: the count and the latch.\<close>

definition join_slot :: "string \<Rightarrow> slot \<Rightarrow> slot" where
  "join_slot callID s =
     (let s = s\<lparr>s_inflight := s_inflight s + 1\<rparr> in
      if s_inflight s > 1 then s\<lparr>s_ambiguous := True, s_callID := ''''\<rparr>
      else s\<lparr>s_callID := callID\<rparr>)"

definition track :: "string \<Rightarrow> string \<Rightarrow> pending \<Rightarrow> pending" where
  "track i callID p =
     (if \<not> trackable i then p
      else if p_off p then p
      else case map_of (p_m p) i of
        Some s \<Rightarrow> p\<lparr>p_m := map_put i (join_slot callID s) (p_m p)\<rparr>
      | None \<Rightarrow>
          if length (p_m p) \<ge> maxPending then p\<lparr>p_off := True, p_m := []\<rparr>
          else p\<lparr>p_m := map_put i
                   (join_slot callID \<lparr>s_callID = '''', s_inflight = 0, s_ambiguous = False\<rparr>)
                   (p_m p)\<rparr>)"

definition claim :: "string \<Rightarrow> pending \<Rightarrow> string \<times> pending" where
  "claim i p =
     (if \<not> trackable i then ('''', p)
      else case map_of (p_m p) i of
        None \<Rightarrow> ('''', p)
      | Some s \<Rightarrow>
          let s = s\<lparr>s_inflight := s_inflight s - 1\<rparr>;
              put = (\<lambda>s. if s_inflight s \<le> 0 then p\<lparr>p_m := map_del i (p_m p)\<rparr>
                          else p\<lparr>p_m := map_put i s (p_m p)\<rparr>)
          in if s_ambiguous s then ('''', put s)
             else (s_callID s, put (s\<lparr>s_callID := ''''\<rparr>)))"

section \<open>The history and what it leaves outstanding\<close>

datatype event = Track string string | Claim string

text \<open>Histories are written most recent event first.\<close>

definition pend_step :: "event \<Rightarrow> pending \<Rightarrow> pending" where
  "pend_step e p = (case e of Track i c \<Rightarrow> track i c p | Claim i \<Rightarrow> snd (claim i p))"

fun after :: "('e \<Rightarrow> 's \<Rightarrow> 's) \<Rightarrow> 's \<Rightarrow> 'e list \<Rightarrow> 's" where
  "after st s [] = s"
| "after st s (e # es) = st e (after st s es)"

fun epoch :: "event list \<Rightarrow> string \<Rightarrow> string list \<times> nat" where
  "epoch [] i = ([], 0)"
| "epoch (Track j c # es) i =
     (if j = i then (fst (epoch es i) @ [c], snd (epoch es i) + 1) else epoch es i)"
| "epoch (Claim j # es) i =
     (if j = i then (if snd (epoch es i) \<le> 1 then ([], 0)
                     else (fst (epoch es i), snd (epoch es i) - 1))
      else epoch es i)"

fun tracked :: "event list \<Rightarrow> string list" where
  "tracked [] = []"
| "tracked (Track j c # es) = c # tracked es"
| "tracked (Claim j # es) = tracked es"

text \<open>The answers a history of operations produced, as (id, call) pairs.\<close>

fun answers :: "(string \<Rightarrow> 's \<Rightarrow> string \<times> 's) \<Rightarrow> (event list \<Rightarrow> 's) \<Rightarrow> event list
    \<Rightarrow> (string \<times> string) list" where
  "answers clm st [] = []"
| "answers clm st (Track j c # es) = answers clm st es"
| "answers clm st (Claim j # es) =
     (if fst (clm j (st es)) = '''' then answers clm st es
      else (j, fst (clm j (st es))) # answers clm st es)"

section \<open>The contract and its client\<close>

text \<open>
  What a correlator promises its relay: a claim that names a call names the only call
  outstanding under that id.  Inside, what the relay gets from it: no call is answered
  twice, and every answer goes to a call tracked under the answering frame's id.
\<close>

locale correlator =
  fixes start :: 's and trk :: "string \<Rightarrow> string \<Rightarrow> 's \<Rightarrow> 's"
    and clm :: "string \<Rightarrow> 's \<Rightarrow> string \<times> 's"
    and stp :: "event \<Rightarrow> 's \<Rightarrow> 's"
  assumes stp_track: "stp (Track i c) s = trk i c s"
    and stp_claim: "stp (Claim i) s = snd (clm i s)"
    and claim_exact: "fst (clm i (after stp start es)) = c \<Longrightarrow> c \<noteq> '''' \<Longrightarrow> epoch es i = ([c], 1)"
begin

lemma epoch_tracked: "c \<in> set (fst (epoch es i)) \<Longrightarrow> Track i c \<in> set es"
proof (induction es)
  case Nil
  then show ?case by simp
next
  case (Cons e es)
  then show ?case by (cases e) (auto split: if_splits)
qed

lemma answers_tracked: "(i, c) \<in> set (answers clm (after stp start) es) \<Longrightarrow> Track i c \<in> set es"
proof (induction es)
  case Nil
  then show ?case by simp
next
  case (Cons e es)
  show ?case
  proof (cases e)
    case (Claim j)
    let ?c = "fst (clm j (after stp start es))"
    from Cons.prems Claim consider "(i, c) \<in> set (answers clm (after stp start) es)" | "(i, c) = (j, ?c)" "?c \<noteq> ''''"
      by (auto simp: Let_def split: if_splits)
    then show ?thesis
    proof cases
      case 1
      with Cons.IH show ?thesis by simp
    next
      case 2
      then have "epoch es j = ([?c], 1)" by (intro claim_exact) simp_all
      with 2 show ?thesis using epoch_tracked [of c es i] by simp
    qed
  qed (use Cons in auto)
qed

lemma tracked_mem: "Track i c \<in> set es \<Longrightarrow> c \<in> set (tracked es)"
  by (induction es rule: tracked.induct) auto

lemma tracked_unique_id:
  "distinct (tracked es) \<Longrightarrow> Track i c \<in> set es \<Longrightarrow> Track j c \<in> set es \<Longrightarrow> i = j"
  by (induction es rule: tracked.induct) (auto dest: tracked_mem)

lemma answered_not_in_epoch:
  "distinct (tracked es) \<Longrightarrow> c \<in> set (fst (epoch es i)) \<Longrightarrow> c \<notin> snd ` set (answers clm (after stp start) es)"
proof (induction es arbitrary: i)
  case Nil
  then show ?case by simp
next
  case (Cons e es)
  show ?case
  proof (cases e)
    case (Track j d)
    with Cons.prems have d: "d \<notin> set (tracked es)" and dist: "distinct (tracked es)" by auto
    from d have nd: "d \<notin> snd ` set (answers clm (after stp start) es)" using answers_tracked tracked_mem by fastforce
    show ?thesis
    proof (cases "c \<in> set (fst (epoch es i))")
      case True
      with Cons.IH [OF dist] show ?thesis by (simp add: Track)
    next
      case False
      with Cons.prems Track have "c = d" by (auto split: if_splits)
      with nd show ?thesis by (simp add: Track)
    qed
  next
    case (Claim j)
    with Cons.prems have dist: "distinct (tracked es)" and ci: "c \<in> set (fst (epoch es i))"
      by (auto split: if_splits)
    let ?c = "fst (clm j (after stp start es))"
    have "?c = '''' \<or> c \<noteq> ?c"
    proof (rule ccontr)
      assume "\<not> ?thesis"
      then have ne: "?c \<noteq> ''''" and eq: "c = ?c" by auto
      then have ep: "epoch es j = ([c], 1)" by (intro claim_exact) simp_all
      then have "Track j c \<in> set es" by (intro epoch_tracked) simp
      with ci dist have "i = j" using epoch_tracked tracked_unique_id by blast
      with Cons.prems Claim ep show False by simp
    qed
    with Cons.IH [OF dist ci] show ?thesis by (auto simp: Claim Let_def)
  qed
qed

lemma answered_once: "distinct (tracked es) \<Longrightarrow> distinct (map snd (answers clm (after stp start) es))"
proof (induction es rule: tracked.induct)
  case (3 j es)
  let ?c = "fst (clm j (after stp start es))"
  from 3 have dist: "distinct (tracked es)" and IH: "distinct (map snd (answers clm (after stp start) es))"
    by auto
  show ?case
  proof (cases "?c = ''''")
    case True
    with IH show ?thesis by simp
  next
    case False
    then have "epoch es j = ([?c], 1)" by (intro claim_exact) simp_all
    then have "?c \<in> set (fst (epoch es j))" by simp
    with dist have "?c \<notin> snd ` set (answers clm (after stp start) es)" by (rule answered_not_in_epoch)
    with IH False show ?thesis by (simp add: Let_def image_image)
  qed
qed auto

end

section \<open>The shim's table provides the contract\<close>

text \<open>The slot a history's epoch is stored as.\<close>

definition slot_of :: "string list \<times> nat \<Rightarrow> slot option" where
  "slot_of e = (case e of (cs, n) \<Rightarrow>
     if n = 0 then None
     else Some \<lparr>s_callID = (if length cs = 1 then hd cs else ''''),
                s_inflight = int n, s_ambiguous = (length cs > 1)\<rparr>)"

definition pend_inv :: "event list \<Rightarrow> pending \<Rightarrow> bool" where
  "pend_inv es p \<longleftrightarrow> (p_off p \<longrightarrow> p_m p = []) \<and>
     (\<not> p_off p \<longrightarrow> (\<forall>i. trackable i \<longrightarrow> map_of (p_m p) i = slot_of (epoch es i)))"

lemma epoch_len: "snd (epoch es i) \<le> length (fst (epoch es i))"
  by (induction es i rule: epoch.induct) auto

lemma epoch_empty: "snd (epoch es i) = 0 \<Longrightarrow> fst (epoch es i) = []"
  by (induction es i rule: epoch.induct) (auto split: if_splits)

lemma join_slot_of:
  "n = 0 \<longrightarrow> cs = [] \<Longrightarrow> n \<le> length cs \<Longrightarrow>
   slot_of (cs @ [c], n + 1) = Some (join_slot c (case slot_of (cs, n) of
      Some s \<Rightarrow> s | None \<Rightarrow> \<lparr>s_callID = '''', s_inflight = 0, s_ambiguous = False\<rparr>))"
  by (cases cs) (auto simp: slot_of_def join_slot_def Let_def)

lemma track_inv:
  assumes "pend_inv es p"
  shows "pend_inv (Track i c # es) (track i c p)"
proof (cases "trackable i \<and> \<not> p_off p")
  case False
  with assms show ?thesis by (auto simp: pend_inv_def track_def)
next
  case True
  then have t: "trackable i" and off: "\<not> p_off p" by auto
  with assms have look: "\<And>j. trackable j \<Longrightarrow> map_of (p_m p) j = slot_of (epoch es j)"
    by (simp add: pend_inv_def)
  obtain cs n where e: "epoch es i = (cs, n)" by fastforce
  have js: "slot_of (cs @ [c], n + 1) = Some (join_slot c (case slot_of (cs, n) of
      Some s \<Rightarrow> s | None \<Rightarrow> \<lparr>s_callID = '''', s_inflight = 0, s_ambiguous = False\<rparr>))"
    using epoch_empty [of es i] epoch_len [of es i] e by (intro join_slot_of) auto
  show ?thesis
    using True look [OF t] look e js
    by (auto simp: pend_inv_def track_def split: option.splits)
qed

lemma claim_inv:
  assumes "pend_inv es p"
  shows "pend_inv (Claim i # es) (snd (claim i p))"
proof (cases "trackable i")
  case False
  with assms show ?thesis by (auto simp: pend_inv_def claim_def)
next
  case t: True
  show ?thesis
  proof (cases "p_off p")
    case True
    with assms show ?thesis by (auto simp: pend_inv_def claim_def)
  next
    case False
    with assms have look: "\<And>j. trackable j \<Longrightarrow> map_of (p_m p) j = slot_of (epoch es j)"
      by (simp add: pend_inv_def)
    obtain cs n where e: "epoch es i = (cs, n)" by fastforce
    then have len: "n \<le> length cs" using epoch_len [of es i] by simp
    show ?thesis
      using t False look [OF t] look e len
      by (auto simp: pend_inv_def claim_def slot_of_def Let_def of_nat_diff split: if_splits)
  qed
qed

lemma pend_inv_after: "pend_inv es (after pend_step pending_init es)"
proof (induction es)
  case Nil
  show ?case by (simp add: pend_inv_def pending_init_def slot_of_def)
next
  case (Cons e es)
  then show ?case
    by (cases e) (simp_all add: pend_step_def track_inv claim_inv)
qed

lemma claim_of_inv:
  assumes "pend_inv es p" and "fst (claim i p) = c" and "c \<noteq> ''''"
  shows "epoch es i = ([c], 1)"
proof -
  obtain cs n where e: "epoch es i = (cs, n)" by fastforce
  then have len: "n \<le> length cs" using epoch_len [of es i] by simp
  from assms(2,3) obtain s where s: "trackable i" "map_of (p_m p) i = Some s"
    "\<not> s_ambiguous s" "s_callID s = c"
    by (auto simp: claim_def Let_def split: if_splits option.splits)
  moreover from s have "\<not> p_off p" using assms(1) by (auto simp: pend_inv_def)
  ultimately have "slot_of (cs, n) = Some s" using assms(1) e by (simp add: pend_inv_def)
  with s len e assms(3) show ?thesis
    by (cases cs) (auto simp: slot_of_def split: if_splits)
qed

interpretation shim: correlator pending_init track claim pend_step
  by unfold_locales (simp_all add: pend_step_def claim_of_inv [OF pend_inv_after])

text \<open>The other direction, and the bounds on the table.\<close>

lemma claim_complete:
  assumes "pend_inv es p" and "\<not> p_off p" and "trackable i" and "epoch es i = ([c], 1)"
  shows "fst (claim i p) = c"
  using assms by (auto simp: pend_inv_def claim_def slot_of_def Let_def)

definition pend_bounded :: "pending \<Rightarrow> bool" where
  "pend_bounded p \<longleftrightarrow> gomap_ok (p_m p) \<and> length (p_m p) \<le> maxPending \<and>
     (\<forall>i \<in> set (map fst (p_m p)). trackable i)"

lemma keys_put: "set (map fst (map_put k v m)) = insert k (set (map fst m))"
  by (induction m) auto

lemma keys_del: "set (map fst (map_del k m)) \<subseteq> set (map fst m)"
  by (induction m) auto

lemma put_existing_len: "map_of m k = Some v \<Longrightarrow> length (map_put k w m) = length m"
  by (simp add: length_map_put)

lemma del_len: "length (map_del k m) \<le> length m"
  by (induction m) auto

lemma put_bounded:
  assumes "pend_bounded p" and "trackable i"
    and "map_of (p_m p) i \<noteq> None \<or> length (p_m p) < maxPending"
  shows "pend_bounded (p\<lparr>p_m := map_put i s (p_m p)\<rparr>)"
  using assms unfolding pend_bounded_def
  by (auto simp: keys_put length_map_put simp del: set_map)

lemma del_bounded: "pend_bounded p \<Longrightarrow> pend_bounded (p\<lparr>p_m := map_del i (p_m p)\<rparr>)"
  using del_len [of i "p_m p"] keys_del [of i "p_m p"]
  by (auto simp: pend_bounded_def simp del: set_map)

lemma track_bounded: "pend_bounded p \<Longrightarrow> pend_bounded (track i c p)"
  by (auto simp: track_def intro!: put_bounded split: option.splits) (simp add: pend_bounded_def)

lemma claim_bounded: "pend_bounded p \<Longrightarrow> pend_bounded (snd (claim i p))"
  by (auto simp: claim_def Let_def intro!: put_bounded del_bounded split: option.splits)

lemma after_bounded: "pend_bounded (after pend_step pending_init es)"
proof (induction es)
  case Nil
  show ?case by (simp add: pend_bounded_def pending_init_def)
next
  case (Cons e es)
  then show ?case
    by (cases e) (simp_all add: pend_step_def track_bounded claim_bounded)
qed

section \<open>Properties\<close>

text \<open>
  In every interleaving of the two relays, a frame is joined to a call only when that
  call is the one and only call outstanding under the frame's id (since the id was last
  free, nothing else was tracked under it), and, while correlation has not been switched
  off, whenever that is so for a trackable id, the frame is joined to it.
\<close>

theorem claim_exactly_sole_outstanding:
  "(let p = after pend_step pending_init es; c = fst (claim i p) in
      (c \<noteq> '''' \<longrightarrow> epoch es i = ([c], 1)) \<and>
      (\<not> p_off p \<and> trackable i \<and> snd (epoch es i) = 1 \<and> length (fst (epoch es i)) = 1
         \<longrightarrow> epoch es i = ([c], 1)))"
proof -
  let ?p = "after pend_step pending_init es"
  have inv: "pend_inv es ?p" by (rule pend_inv_after)
  have "epoch es i = ([fst (claim i ?p)], 1)"
    if h: "\<not> p_off ?p" "trackable i" "snd (epoch es i) = 1" "length (fst (epoch es i)) = 1"
  proof -
    from h(3,4) obtain d where "epoch es i = ([d], 1)"
      by (cases "epoch es i") (auto simp: length_Suc_conv)
    with claim_complete [OF inv h(1,2)] show ?thesis by simp
  qed
  then show ?thesis using claim_of_inv [OF inv] by (simp add: Let_def)
qed

theorem claim_exactly_sole_outstanding_witness:
  "fst (claim ''1'' (after pend_step pending_init [Track ''1'' ''a'', Track ''2'' ''b''])) = ''a'' \<and>
   epoch [Track ''1'' ''a'', Track ''2'' ''b''] ''1'' = ([''a''], 1) \<and>
   fst (claim ''1'' (after pend_step pending_init [Claim ''1'', Track ''1'' ''b'', Track ''1'' ''a''])) = ''''"
  using claim_exactly_sole_outstanding [of "[Track ''1'' ''a'', Track ''2'' ''b'']" "''1''"]
  by (simp add: pend_step_def track_def claim_def pending_init_def trackable_def maxIDLen_def
      maxPending_def join_slot_def Let_def)

text \<open>
  Over any run in which call ids are fresh, no call is answered twice and every
  recorded answer goes to a call that was tracked under the answering frame's id.
\<close>

theorem responses_join_once:
  assumes "distinct (tracked es)"
  shows "distinct (map snd (answers claim (after pend_step pending_init) es)) \<and>
    (\<forall>(i, c) \<in> set (answers claim (after pend_step pending_init) es). Track i c \<in> set es)"
  using shim.answered_once [OF assms] shim.answers_tracked by blast

theorem responses_join_once_witness:
  "answers claim (after pend_step pending_init)
      [Claim ''1'', Claim ''1'', Track ''1'' ''a''] = [(''1'', ''a'')] \<and>
   distinct (map snd (answers claim (after pend_step pending_init)
      [Claim ''1'', Claim ''1'', Track ''1'' ''a'']))"
  using responses_join_once [of "[Claim ''1'', Claim ''1'', Track ''1'' ''a'']"]
  by (simp add: pend_step_def track_def claim_def pending_init_def trackable_def maxIDLen_def
      maxPending_def join_slot_def Let_def)

text \<open>
  The table is bounded in every reachable state: at most 4096 ids, each a non-empty
  key of at most 512 bytes, whatever the two peers send.
\<close>

theorem pending_table_bounded:
  "let p = after pend_step pending_init es in
     length (p_m p) \<le> 4096 \<and> (\<forall>i \<in> set (map fst (p_m p)). i \<noteq> '''' \<and> length i \<le> 512)"
  using after_bounded [of es]
  by (auto simp: pend_bounded_def Let_def maxPending_def maxIDLen_def trackable_def simp del: set_map)

theorem pending_table_bounded_witness:
  "length (p_m (after pend_step pending_init [Track ''1'' ''a''])) \<le> 4096"
  using pending_table_bounded [of "[Track ''1'' ''a'']"] by (simp add: Let_def)

end
