(* ===== verification/Policy.thy ===== *)
theory Policy
  imports Prelude
begin

text \<open>
  \<open>proxy/internal/policy\<close>: loading a Cedar policy document (\<open>Load\<close>, \<open>oneOf\<close>), evaluating
  one call (\<open>Evaluate\<close>), and the versioned store with rollback (\<open>store.go\<close>).  The Cedar
  engine is third-party code and a parameter: a parser, the annotations of a policy and
  \<open>Authorize\<close>.
\<close>

datatype decision = Allow | Flag | Block | Indeterminate

definition EnforceFlag :: string where "EnforceFlag = ''flag''"
definition EnforceBlock :: string where "EnforceBlock = ''block''"
definition OnErrorOpen :: string where "OnErrorOpen = ''open''"
definition OnErrorClosed :: string where "OnErrorClosed = ''closed''"
definition PolicyMonitor :: string where "PolicyMonitor = ''monitor''"

record policy_input =
  in_Principal :: string
  in_AssertedPrincipal :: string
  in_AssertionStatus :: string
  in_Tool :: string
  in_Action :: string
  in_Resource :: string
  in_Context :: "string gomap"

record effect =
  ef_PolicyID :: string
  ef_Decision :: decision
  ef_Mode :: string
  ef_EnforceAction :: string
  ef_OnError :: string

record policy_result =
  pr_Decision :: decision
  pr_Effects :: "effect list"

record policy_meta =
  pm_enforce :: string
  pm_onError :: string

text \<open>A Cedar request, and what \<open>Authorize\<close> answers.\<close>

record cedar_request =
  cr_Principal :: string
  cr_Action :: string
  cr_Resource :: string
  cr_Context :: "string \<rightharpoonup> string"

record cedar_answer =
  ca_allow :: bool
  ca_reasons :: "string list"
  ca_errors :: nat

record 'pol cedar =
  cedar_parse :: "string \<Rightarrow> string \<Rightarrow> (string \<times> 'pol) list option"
  cedar_annotations :: "'pol \<Rightarrow> string gomap"
  cedar_authorize :: "'pol gomap \<Rightarrow> cedar_request \<Rightarrow> cedar_answer"

record 'pol evaluator =
  ev_ps :: "'pol gomap"
  ev_meta :: "policy_meta gomap"
  ev_Version :: string

datatype load_error = BadDocument | BadAnnotation string string string | DuplicateID string

section \<open>Load\<close>

definition oneOf :: "string \<Rightarrow> string list \<Rightarrow> string option" where
  "oneOf v allowed = (if v = '''' then Some (hd allowed) else if v \<in> set allowed then Some v else None)"

definition ann_of :: "string gomap \<Rightarrow> string \<Rightarrow> string" where
  "ann_of m k = (case map_of m k of None \<Rightarrow> '''' | Some v \<Rightarrow> v)"

text \<open>The \<open>@id\<close> annotation, else the positional name.\<close>

definition policy_id :: "string gomap \<Rightarrow> string \<Rightarrow> string" where
  "policy_id ann pos = (case map_of ann ''id'' of Some named \<Rightarrow> named | None \<Rightarrow> pos)"

definition load_one :: "'pol cedar \<Rightarrow> string \<times> 'pol \<Rightarrow> 'pol gomap \<times> policy_meta gomap
    \<Rightarrow> load_error + 'pol gomap \<times> policy_meta gomap" where
  "load_one c ip pm = (case (ip, pm) of ((pos, p), (ps, meta)) \<Rightarrow>
     let ann = cedar_annotations c p;
         i = policy_id ann pos
     in case oneOf (ann_of ann ''enforce_action'') [EnforceFlag, EnforceBlock] of
          None \<Rightarrow> Inl (BadAnnotation i ''enforce_action'' (ann_of ann ''enforce_action''))
        | Some act \<Rightarrow>
            (case oneOf (ann_of ann ''on_error'') [OnErrorOpen, OnErrorClosed] of
               None \<Rightarrow> Inl (BadAnnotation i ''on_error'' (ann_of ann ''on_error''))
             | Some onErr \<Rightarrow>
                 if map_of ps i \<noteq> None then Inl (DuplicateID i)
                 else Inr (map_put i p ps, map_put i \<lparr>pm_enforce = act, pm_onError = onErr\<rparr> meta)))"

fun load_all :: "'pol cedar \<Rightarrow> (string \<times> 'pol) list \<Rightarrow> 'pol gomap \<times> policy_meta gomap
    \<Rightarrow> load_error + 'pol gomap \<times> policy_meta gomap" where
  "load_all c [] pm = Inr pm"
| "load_all c (ip # ips) pm =
     (case load_one c ip pm of Inl e \<Rightarrow> Inl e | Inr pm' \<Rightarrow> load_all c ips pm')"

text \<open>The order of \<open>parsed.All()\<close> is that of the list the parser parameter gives.\<close>

definition Load :: "'pol cedar \<Rightarrow> string \<Rightarrow> string \<Rightarrow> load_error + 'pol evaluator" where
  "Load c version document =
     (case cedar_parse c (version @ ''.cedar'') document of
        None \<Rightarrow> Inl BadDocument
      | Some ips \<Rightarrow>
          (case load_all c ips ([], []) of
             Inl e \<Rightarrow> Inl e
           | Inr (ps, meta) \<Rightarrow> Inr \<lparr>ev_ps = ps, ev_meta = meta, ev_Version = version\<rparr>))"

section \<open>Evaluate\<close>

definition reservedContextKeys :: "string list" where
  "reservedContextKeys = [''tool'', ''asserted_principal'', ''assertion_status'']"

fun put_context :: "string gomap \<Rightarrow> (string \<rightharpoonup> string) \<Rightarrow> (string \<rightharpoonup> string)" where
  "put_context [] ctx = ctx"
| "put_context ((k, v) # kvs) ctx =
     (if k \<in> set reservedContextKeys then put_context kvs ctx
      else put_context kvs (ctx(k \<mapsto> to_lower v)))"

definition eval_context :: "policy_input \<Rightarrow> (string \<rightharpoonup> string)" where
  "eval_context i =
     (let ctx = put_context (in_Context i) Map.empty;
          ctx = ctx(''tool'' \<mapsto> to_lower (in_Tool i));
          ctx = ctx(''assertion_status'' \<mapsto> in_AssertionStatus i)
      in if in_AssertedPrincipal i \<noteq> ''''
         then ctx(''asserted_principal'' \<mapsto> to_lower (in_AssertedPrincipal i)) else ctx)"

definition eval_request :: "policy_input \<Rightarrow> cedar_request" where
  "eval_request i = \<lparr>cr_Principal = to_lower (in_Principal i), cr_Action = in_Action i,
     cr_Resource = to_lower (in_Resource i), cr_Context = eval_context i\<rparr>"

definition meta_of :: "'pol evaluator \<Rightarrow> string \<Rightarrow> policy_meta" where
  "meta_of e i = (case map_of (ev_meta e) i of
     Some m \<Rightarrow> m | None \<Rightarrow> \<lparr>pm_enforce = '''', pm_onError = ''''\<rparr>)"

definition effect_of :: "'pol evaluator \<Rightarrow> decision \<Rightarrow> string \<Rightarrow> effect" where
  "effect_of e agg i =
     (let m = meta_of e i;
          d = (if agg = Flag then if pm_enforce m = EnforceBlock then Block else Flag else agg)
      in \<lparr>ef_PolicyID = i, ef_Decision = d, ef_Mode = PolicyMonitor,
          ef_EnforceAction = pm_enforce m, ef_OnError = pm_onError m\<rparr>)"

definition Evaluate :: "'pol cedar \<Rightarrow> 'pol evaluator \<Rightarrow> policy_input \<Rightarrow> policy_result" where
  "Evaluate c e i =
     (let ans = cedar_authorize c (ev_ps e) (eval_request i);
          agg = (if ca_errors ans > 0 then Indeterminate else if ca_allow ans then Allow else Flag);
          effects = map (effect_of e agg) (ca_reasons ans);
          agg = (if agg = Flag \<and> (\<exists>ef \<in> set effects. ef_Decision ef = Block) then Block else agg)
      in \<lparr>pr_Decision = agg, pr_Effects = effects\<rparr>)"

definition IDs :: "policy_result \<Rightarrow> string list" where
  "IDs r = map ef_PolicyID (pr_Effects r)"

section \<open>The store\<close>

definition maxHistory :: nat where "maxHistory = 5"

record 'e store =
  st_current :: 'e
  st_history :: "'e list"

definition NewStore :: "'e \<Rightarrow> 'e store" where
  "NewStore ev = \<lparr>st_current = ev, st_history = []\<rparr>"

definition Swap :: "'e \<Rightarrow> 'e store \<Rightarrow> 'e store" where
  "Swap ev s =
     (let h = st_history s @ [st_current s];
          h = (if length h > maxHistory then tl h else h)
      in \<lparr>st_current = ev, st_history = h\<rparr>)"

definition Rollback :: "'e store \<Rightarrow> 'e option \<times> 'e store" where
  "Rollback s =
     (if st_history s = [] then (None, s)
      else (Some (last (st_history s)),
            \<lparr>st_current = last (st_history s), st_history = butlast (st_history s)\<rparr>))"

definition Versions :: "'pol evaluator store \<Rightarrow> string \<times> string list" where
  "Versions s = (ev_Version (st_current s), map ev_Version (st_history s))"

section \<open>Loading keeps every rule\<close>

definition meta_ok :: "policy_meta \<Rightarrow> bool" where
  "meta_ok m \<longleftrightarrow> pm_enforce m \<in> {EnforceFlag, EnforceBlock} \<and> pm_onError m \<in> {OnErrorOpen, OnErrorClosed}"

lemma oneOf_in: "oneOf v allowed = Some w \<Longrightarrow> allowed \<noteq> [] \<Longrightarrow> w \<in> set allowed"
  by (auto simp: oneOf_def split: if_splits)

lemma dom_put: "map_of m i = None \<Longrightarrow> map fst (map_put i v m) = map fst m @ [i]"
  by (induction m) auto

lemma map_put_new: "map_of m i = None \<Longrightarrow> map_put i v m = m @ [(i, v)]"
  by (induction m) auto

definition loaded_ok :: "'pol gomap \<times> policy_meta gomap \<Rightarrow> bool" where
  "loaded_ok pm \<longleftrightarrow> map fst (fst pm) = map fst (snd pm) \<and> gomap_ok (fst pm) \<and> (\<forall>m \<in> set (map snd (snd pm)). meta_ok m)"

lemma load_one_ok:
  assumes "load_one c (pos, p) pm = Inr pm'" and "loaded_ok pm"
  shows "loaded_ok pm' \<and> map snd (fst pm') = map snd (fst pm) @ [p]"
proof -
  obtain ps meta where pm: "pm = (ps, meta)" by force
  let ?ann = "cedar_annotations c p"
  let ?i = "policy_id ?ann pos"
  from assms(1) obtain act onErr where
    a: "oneOf (ann_of ?ann ''enforce_action'') [EnforceFlag, EnforceBlock] = Some act"
    "oneOf (ann_of ?ann ''on_error'') [OnErrorOpen, OnErrorClosed] = Some onErr"
    and new: "map_of ps ?i = None"
    and pm': "pm' = (map_put ?i p ps, map_put ?i \<lparr>pm_enforce = act, pm_onError = onErr\<rparr> meta)"
    by (auto simp: load_one_def pm Let_def split: option.splits if_splits)
  have same: "map fst ps = map fst meta" using assms(2) pm by (simp add: loaded_ok_def)
  then have new': "map_of meta ?i = None" using new by (metis map_of_eq_None_iff list.set_map)
  have "meta_ok \<lparr>pm_enforce = act, pm_onError = onErr\<rparr>"
    using oneOf_in [OF a(1)] oneOf_in [OF a(2)] by (simp add: meta_ok_def)
  with assms(2) pm new new' same show ?thesis
    by (auto simp: loaded_ok_def pm' map_put_new map_of_eq_None_iff)
qed

lemma load_all_ok:
  "load_all c ips pm = Inr pm' \<Longrightarrow> loaded_ok pm \<Longrightarrow>
     loaded_ok pm' \<and> map snd (fst pm') = map snd (fst pm) @ map snd ips"
proof (induction ips arbitrary: pm)
  case Nil
  then show ?case by simp
next
  case (Cons ip ips)
  obtain pos p where ip: "ip = (pos, p)" by force
  from Cons.prems obtain pm1 where 1: "load_one c ip pm = Inr pm1" "load_all c ips pm1 = Inr pm'"
    by (auto split: sum.splits)
  from load_one_ok [OF 1(1) [unfolded ip] Cons.prems(2)] Cons.IH [OF 1(2)] ip show ?case by simp
qed

section \<open>The context\<close>

lemma put_context_cong:
  "map (\<lambda>(k, v). (k, to_lower v)) (filter (\<lambda>(k, v). k \<notin> set reservedContextKeys) kvs) =
   map (\<lambda>(k, v). (k, to_lower v)) (filter (\<lambda>(k, v). k \<notin> set reservedContextKeys) kvs') \<Longrightarrow>
   put_context kvs ctx = put_context kvs' ctx"
proof -
  have n: "put_context xs ctx = fold (\<lambda>(k, v) c. c(k \<mapsto> v))
      (map (\<lambda>(k, v). (k, to_lower v)) (filter (\<lambda>(k, v). k \<notin> set reservedContextKeys) xs)) ctx" for xs
    by (induction xs arbitrary: ctx) auto
  show "?thesis" if "map (\<lambda>(k, v). (k, to_lower v)) (filter (\<lambda>(k, v). k \<notin> set reservedContextKeys) kvs) =
   map (\<lambda>(k, v). (k, to_lower v)) (filter (\<lambda>(k, v). k \<notin> set reservedContextKeys) kvs')"
    using that by (simp add: n)
qed

lemma put_context_reserved:
  "k \<in> set reservedContextKeys \<Longrightarrow> put_context kvs ctx k = ctx k"
  by (induction kvs arbitrary: ctx) auto

section \<open>The store as a history of bundles\<close>

text \<open>Specification: the bundles installed, most recent first, cut to the current one and the
  five before it.\<close>

definition store_abs :: "'e store \<Rightarrow> 'e list" where
  "store_abs s = st_current s # rev (st_history s)"

definition store_ok :: "'e store \<Rightarrow> bool" where
  "store_ok s \<longleftrightarrow> length (st_history s) \<le> maxHistory"

datatype 'e store_op = SwapTo 'e | RollBack

definition store_step :: "'e store_op \<Rightarrow> 'e store \<Rightarrow> 'e store" where
  "store_step opn s = (case opn of SwapTo ev \<Rightarrow> Swap ev s | RollBack \<Rightarrow> snd (Rollback s))"

definition spec_step :: "'e store_op \<Rightarrow> 'e list \<Rightarrow> 'e list" where
  "spec_step opn bs = (case opn of
     SwapTo ev \<Rightarrow> take (Suc maxHistory) (ev # bs)
   | RollBack \<Rightarrow> if length bs \<le> 1 then bs else tl bs)"

lemma Swap_abs: "store_ok s \<Longrightarrow> store_abs (Swap ev s) = take (Suc maxHistory) (ev # store_abs s) \<and> store_ok (Swap ev s)"
  by (auto simp: store_ok_def store_abs_def Swap_def Let_def rev_take tl_append split: list.splits)
    (auto simp: take_Cons' rev_take)

lemma Rollback_abs:
  "store_abs (snd (Rollback s)) = (if length (store_abs s) \<le> 1 then store_abs s else tl (store_abs s)) \<and>
   (store_ok s \<longrightarrow> store_ok (snd (Rollback s)))"
proof (cases "st_history s" rule: rev_cases)
  case Nil
  then show ?thesis by (simp add: store_abs_def Rollback_def store_ok_def)
next
  case (snoc h e)
  then show ?thesis by (simp add: store_abs_def Rollback_def store_ok_def)
qed

lemma store_refines:
  "store_ok s \<Longrightarrow> store_abs (fold store_step ops s) = fold spec_step ops (store_abs s) \<and> store_ok (fold store_step ops s)"
proof (induction ops arbitrary: s)
  case Nil
  then show ?case by simp
next
  case (Cons opn ops)
  have "store_abs (store_step opn s) = spec_step opn (store_abs s) \<and> store_ok (store_step opn s)"
    using Swap_abs [OF Cons.prems] Rollback_abs [of s] Cons.prems
    by (cases opn) (simp_all add: store_step_def spec_step_def)
  with Cons.IH [of "store_step opn s"] show ?case by simp
qed

section \<open>Properties\<close>

text \<open>
   Matching is blind to case.  Two calls that differ only in ASCII case, in the tool, the
  principal, the resource, the claimed principal or any extracted attribute value, get the
  same decision and the same effects, whatever Cedar concludes.
\<close>

theorem evaluate_case_blind:
  assumes "to_lower (in_Principal i) = to_lower (in_Principal j)"
    and "to_lower (in_Tool i) = to_lower (in_Tool j)"
    and "to_lower (in_Resource i) = to_lower (in_Resource j)"
    and "to_lower (in_AssertedPrincipal i) = to_lower (in_AssertedPrincipal j)"
    and "in_AssertionStatus i = in_AssertionStatus j" and "in_Action i = in_Action j"
    and "map (\<lambda>(k, v). (k, to_lower v)) (in_Context i) = map (\<lambda>(k, v). (k, to_lower v)) (in_Context j)"
  shows "Evaluate c e i = Evaluate c e j"
proof -
  have f: "map (\<lambda>(k, v). (k, to_lower v)) (filter (\<lambda>(k, v). P k) kvs) =
      filter (\<lambda>(k, v). P k) (map (\<lambda>(k, v). (k, to_lower v)) kvs)" for P and kvs :: "string gomap"
    by (induction kvs) auto
  have "put_context (in_Context i) Map.empty = put_context (in_Context j) Map.empty"
    by (rule put_context_cong) (simp only: f assms(7))
  moreover have "in_AssertedPrincipal i = '''' \<longleftrightarrow> in_AssertedPrincipal j = ''''"
    using assms(4) by (metis length_0_conv length_to_lower)
  ultimately have "eval_context i = eval_context j"
    using assms by (simp add: eval_context_def Let_def)
  with assms have "eval_request i = eval_request j" by (simp add: eval_request_def)
  then show ?thesis by (simp add: Evaluate_def)
qed

text \<open>
  C35.  The reserved context keys are the proxy's own.  Whatever attributes an extractor
  emits, \<open>tool\<close>, \<open>assertion_status\<close> and \<open>asserted_principal\<close> hold the observed values, the
  last being absent when no claim verified, and dropping forged ones changes nothing.
\<close>

theorem reserved_keys_unforgeable:
  "eval_context i ''tool'' = Some (to_lower (in_Tool i)) \<and>
   eval_context i ''assertion_status'' = Some (in_AssertionStatus i) \<and>
   eval_context i ''asserted_principal'' =
     (if in_AssertedPrincipal i = '''' then None else Some (to_lower (in_AssertedPrincipal i))) \<and>
   Evaluate c e (i\<lparr>in_Context := filter (\<lambda>(k, v). k \<notin> set reservedContextKeys) (in_Context i)\<rparr>) = Evaluate c e i"
proof -
  have "put_context (filter (\<lambda>(k, v). k \<notin> set reservedContextKeys) (in_Context i)) Map.empty
      = put_context (in_Context i) Map.empty"
    by (rule put_context_cong) simp
  then have "eval_request (i\<lparr>in_Context := filter (\<lambda>(k, v). k \<notin> set reservedContextKeys) (in_Context i)\<rparr>) = eval_request i"
    by (simp add: eval_request_def eval_context_def Let_def)
  then have ev: "Evaluate c e (i\<lparr>in_Context := filter (\<lambda>(k, v). k \<notin> set reservedContextKeys) (in_Context i)\<rparr>) = Evaluate c e i"
    by (simp add: Evaluate_def)
  have "put_context (in_Context i) Map.empty ''asserted_principal'' = None"
    using put_context_reserved [of "''asserted_principal''" "in_Context i" Map.empty]
    by (simp add: reservedContextKeys_def)
  with ev show ?thesis by (simp add: eval_context_def Let_def)
qed

text \<open>
  C36.  The aggregate.  Any evaluation error makes the call indeterminate; otherwise a denial
  blocks exactly when one of the policies that determined it declares \<open>enforce_action\<close>
  block, and the effects list those policies in order with their own conclusions.
\<close>

theorem evaluate_aggregate:
  "let ans = cedar_authorize c (ev_ps e) (eval_request i); r = Evaluate c e i in
     IDs r = ca_reasons ans \<and>
     (pr_Decision r = Indeterminate \<longleftrightarrow> ca_errors ans > 0) \<and>
     (pr_Decision r = Allow \<longleftrightarrow> ca_errors ans = 0 \<and> ca_allow ans) \<and>
     (pr_Decision r = Block \<longleftrightarrow> ca_errors ans = 0 \<and> \<not> ca_allow ans \<and>
        (\<exists>p \<in> set (ca_reasons ans). pm_enforce (meta_of e p) = EnforceBlock)) \<and>
     (\<forall>ef \<in> set (pr_Effects r). ef_Decision ef = Block \<longrightarrow> pr_Decision r = Block)"
  by (auto simp: Evaluate_def Let_def IDs_def comp_def effect_of_def split: if_splits)

text \<open>
  C32.  Loading loses no rule.  A document that loads has as many policies as were parsed,
  in order, under distinct ids, each with a declared or default \<open>enforce_action\<close> and
  \<open>on_error\<close> from the fixed vocabulary.
\<close>

theorem load_keeps_every_policy:
  assumes "Load c version doc = Inr e" and "cedar_parse c (version @ ''.cedar'') doc = Some ips"
  shows "map snd (ev_ps e) = map snd ips \<and> distinct (map fst (ev_ps e)) \<and>
     map fst (ev_meta e) = map fst (ev_ps e) \<and> (\<forall>m \<in> set (map snd (ev_meta e)). meta_ok m) \<and>
     ev_Version e = version"
proof -
  from assms obtain ps meta where l: "load_all c ips ([], []) = Inr (ps, meta)"
    and e: "e = \<lparr>ev_ps = ps, ev_meta = meta, ev_Version = version\<rparr>"
    by (auto simp: Load_def split: sum.splits)
  have "loaded_ok ([] :: 'a gomap, [])" by (simp add: loaded_ok_def)
  from load_all_ok [OF l this] have "loaded_ok (ps, meta)" and "map snd ps = map snd ips" by simp_all
  then show ?thesis unfolding loaded_ok_def e by auto
qed

text \<open>
  C36.  The store is a bounded undo history.  Over any sequence of swaps and rollbacks it
  behaves as the list of installed bundles, most recent first, cut to the current one and
  five more: a rollback returns to the bundle before, one at a time, and stops at the last.
\<close>

theorem store_is_bounded_history:
  "store_abs (fold store_step ops (NewStore ev)) = fold spec_step ops [ev] \<and>
   length (st_history (fold store_step ops (NewStore ev))) \<le> 5"
proof -
  have ok: "store_ok (NewStore ev)" by (simp add: store_ok_def NewStore_def)
  have "store_abs (NewStore ev) = [ev]" by (simp add: store_abs_def NewStore_def)
  with store_refines [OF ok, of ops] show ?thesis by (simp add: store_ok_def maxHistory_def)
qed

section \<open>Witnesses\<close>

text \<open>Two policies; everything named \<open>delete_file\<close> is denied, by both.\<close>

definition toy_cedar :: "string gomap cedar" where
  "toy_cedar = \<lparr>cedar_parse = (\<lambda>_ doc. if doc = ''bad'' then None else
       Some [(''policy0'', [(''id'', ''no-delete''), (''enforce_action'', ''block'')]), (''policy1'', [])]),
     cedar_annotations = (\<lambda>p. p),
     cedar_authorize = (\<lambda>ps r. if cr_Context r ''tool'' = Some ''delete_file''
        then \<lparr>ca_allow = False, ca_reasons = map fst ps, ca_errors = 0\<rparr>
        else \<lparr>ca_allow = True, ca_reasons = [], ca_errors = 0\<rparr>)\<rparr>"

definition toy_input :: "string \<Rightarrow> policy_input" where
  "toy_input tool = \<lparr>in_Principal = ''p'', in_AssertedPrincipal = '''', in_AssertionStatus = ''absent'',
     in_Tool = tool, in_Action = ''mcp/tools_call'', in_Resource = ''/x'', in_Context = []\<rparr>"

definition toy_evaluator :: "string gomap evaluator" where
  "toy_evaluator = \<lparr>ev_ps = [(''no-delete'', [(''id'', ''no-delete''), (''enforce_action'', ''block'')]), (''policy1'', [])],
     ev_meta = [(''no-delete'', \<lparr>pm_enforce = ''block'', pm_onError = ''open''\<rparr>),
                (''policy1'', \<lparr>pm_enforce = ''flag'', pm_onError = ''open''\<rparr>)], ev_Version = ''v1''\<rparr>"

lemma toy_load: "Load toy_cedar ''v1'' ''doc'' = Inr toy_evaluator"
  by (simp add: Load_def toy_cedar_def toy_evaluator_def load_one_def policy_id_def oneOf_def ann_of_def Let_def
      EnforceFlag_def EnforceBlock_def OnErrorOpen_def OnErrorClosed_def)

lemma lower_eval [simp]: "to_lower ''DeLeTe_File'' = ''delete_file''" "to_lower ''delete_file'' = ''delete_file''"
  by code_simp+

theorem evaluate_case_blind_witness:
  "Evaluate toy_cedar toy_evaluator (toy_input ''DeLeTe_File'') = Evaluate toy_cedar toy_evaluator (toy_input ''delete_file'') \<and>
   pr_Decision (Evaluate toy_cedar toy_evaluator (toy_input ''delete_file'')) = Block"
proof
  show "Evaluate toy_cedar toy_evaluator (toy_input ''DeLeTe_File'') = Evaluate toy_cedar toy_evaluator (toy_input ''delete_file'')"
    by (rule evaluate_case_blind) (simp_all add: toy_input_def)
  show "pr_Decision (Evaluate toy_cedar toy_evaluator (toy_input ''delete_file'')) = Block"
    by (simp add: Evaluate_def toy_cedar_def toy_evaluator_def toy_input_def eval_request_def eval_context_def Let_def
        effect_of_def meta_of_def EnforceBlock_def)
qed

theorem load_keeps_every_policy_witness:
  "map snd (ev_ps toy_evaluator) = [[(''id'', ''no-delete''), (''enforce_action'', ''block'')], []] \<and>
   distinct (map fst (ev_ps toy_evaluator))"
  using load_keeps_every_policy [OF toy_load] by (simp add: toy_cedar_def)

theorem evaluate_aggregate_witness:
  "IDs (Evaluate toy_cedar toy_evaluator (toy_input ''delete_file'')) = [''no-delete'', ''policy1'']"
proof -
  have "IDs (Evaluate toy_cedar toy_evaluator (toy_input ''delete_file''))
      = ca_reasons (cedar_authorize toy_cedar (ev_ps toy_evaluator) (eval_request (toy_input ''delete_file'')))"
    using evaluate_aggregate [of toy_cedar toy_evaluator "toy_input ''delete_file''"] by (simp add: Let_def)
  then show ?thesis
    by (simp add: toy_cedar_def toy_evaluator_def toy_input_def eval_request_def eval_context_def Let_def)
qed

end
