(* ===== verification/Ledger_Record.thy ===== *)
theory Ledger_Record
  imports Tis_Scope
begin

text \<open>
  The data of \<open>proxy/internal/ledger/ledger.go\<close>: the kinds and reasons, the bounds, the
  ledger line \<open>Record\<close> with all its fields, and what the package takes from the Go
  standard library as one parameter, \<open>codec\<close>: \<open>encoding/json\<close> on a record, SHA-256,
  ECDSA signing and checking, base64, and the time format.  Lines are of an arbitrary type
  \<^typ>\<open>'l\<close>, private keys of type \<^typ>\<open>'k\<close> and public keys of type \<^typ>\<open>'p\<close>.
\<close>

section \<open>Constants\<close>

definition KindHeader :: string where "KindHeader = ''header''"
definition KindDecision :: string where "KindDecision = ''decision''"
definition KindResponse :: string where "KindResponse = ''response''"
definition KindCoverage :: string where "KindCoverage = ''coverage''"
definition KindFinding :: string where "KindFinding = ''finding''"
definition KindBatchSig :: string where "KindBatchSig = ''batchsig''"
definition KindRetention :: string where "KindRetention = ''retention''"

lemmas kind_defs = KindHeader_def KindDecision_def KindResponse_def KindCoverage_def
  KindFinding_def KindBatchSig_def KindRetention_def

definition ReasonGap :: string where "ReasonGap = ''gap''"
definition ReasonStart :: string where "ReasonStart = ''start''"
definition ReasonResumed :: string where "ReasonResumed = ''resumed''"
definition ReasonHeartbeat :: string where "ReasonHeartbeat = ''heartbeat''"
definition ReasonShutdown :: string where "ReasonShutdown = ''shutdown''"

lemmas reason_defs = ReasonGap_def ReasonStart_def ReasonResumed_def ReasonHeartbeat_def
  ReasonShutdown_def

definition ProxyPartition :: string where "ProxyPartition = ''_proxy''"
definition SchemaVersion :: int where "SchemaVersion = 1"
definition batchMaxRecords :: nat where "batchMaxRecords = 64"
definition heartbeatMax_s :: int where "heartbeatMax_s = 300"
definition queueCap :: nat where "queueCap = 1024"
definition maxSegmentBytes :: int where "maxSegmentBytes = 268435456"
definition maxOpenParts :: nat where "maxOpenParts = 64"
definition defaultMaxParts :: nat where "defaultMaxParts = 4096"

definition AssertionAbsent :: string where "AssertionAbsent = ''absent''"
definition AssertionValid :: string where "AssertionValid = ''valid''"
definition AssertionInvalid :: string where "AssertionInvalid = ''invalid''"
definition ModeMonitor :: string where "ModeMonitor = ''monitor''"
definition ModeEnforce :: string where "ModeEnforce = ''enforce''"
definition ActionForwarded :: string where "ActionForwarded = ''forwarded''"
definition ActionFailedOpen :: string where "ActionFailedOpen = ''failed-open''"
definition ActionBlocked :: string where "ActionBlocked = ''blocked''"
definition FailOpen :: string where "FailOpen = ''open''"
definition TierAttested :: string where "TierAttested = ''attested''"
definition TierCoarse :: string where "TierCoarse = ''attested-coarse''"
definition TierOrphan :: string where "TierOrphan = ''orphan''"

section \<open>The ledger line\<close>

record policy_effect =
  pe_PolicyID :: string
  pe_Decision :: string
  pe_Mode :: string
  pe_EnforceAction :: string
  pe_OnError :: string

text \<open>
  Times are nanoseconds since the epoch.  A float field is its bit pattern: nothing
  computes with it.
\<close>

type_synonym gotime = int

record ledger_record =
  r_Kind :: string
  r_Seq :: u64
  r_TS :: string
  r_CallID :: string
  r_TxnID :: string
  r_AssertionJTI :: string
  r_AssertionStatus :: string
  r_Principal :: string
  r_PrincipalTier :: string
  r_AssertedPrincipal :: string
  r_Lineage :: "string list"
  r_AssertedHumanActor :: string
  r_AssertedScope :: "scope option"
  r_Tool :: string
  r_Action :: string
  r_ResourceAttrs :: "string gomap"
  r_Decision :: string
  r_PolicyMode :: string
  r_ActionApplied :: string
  r_PolicyEffects :: "policy_effect list"
  r_BundleVer :: string
  r_FailModeApplied :: string
  r_ReqHash :: string
  r_RespHash :: string
  r_Status :: int
  r_Bytes :: "int option"
  r_Source :: string
  r_Labels :: "string list"
  r_Confidence :: u64
  r_ClassifierVer :: string
  r_DeclaredClassification :: string
  r_Reason :: string
  r_WindowFrom :: string
  r_WindowTo :: string
  r_Dropped :: u64
  r_WriteErrors :: u64
  r_IdentityFail :: u64
  r_InheritedUnsigned :: u64
  r_SchemaVersion :: int
  r_Producer :: string
  r_Tenant :: string
  r_Workload :: string
  r_InstanceID :: string
  r_HeartbeatS :: int
  r_PubKey :: string
  r_Kid :: string
  r_Segment :: int
  r_FirstSeq :: u64
  r_PrunedThroughSeq :: u64
  r_PrunedThroughHash :: string
  r_RetentionPolicy :: string
  r_PrevHash :: string
  r_Sig :: string

definition zero_record :: ledger_record where
  "zero_record = \<lparr>r_Kind = '''', r_Seq = 0, r_TS = '''', r_CallID = '''', r_TxnID = '''',
     r_AssertionJTI = '''', r_AssertionStatus = '''', r_Principal = '''', r_PrincipalTier = '''',
     r_AssertedPrincipal = '''', r_Lineage = [], r_AssertedHumanActor = '''',
     r_AssertedScope = None, r_Tool = '''', r_Action = '''', r_ResourceAttrs = [],
     r_Decision = '''', r_PolicyMode = '''', r_ActionApplied = '''', r_PolicyEffects = [],
     r_BundleVer = '''', r_FailModeApplied = '''', r_ReqHash = '''', r_RespHash = '''',
     r_Status = 0, r_Bytes = None, r_Source = '''', r_Labels = [], r_Confidence = 0,
     r_ClassifierVer = '''', r_DeclaredClassification = '''', r_Reason = '''',
     r_WindowFrom = '''', r_WindowTo = '''', r_Dropped = 0, r_WriteErrors = 0,
     r_IdentityFail = 0, r_InheritedUnsigned = 0, r_SchemaVersion = 0, r_Producer = '''',
     r_Tenant = '''', r_Workload = '''', r_InstanceID = '''', r_HeartbeatS = 0,
     r_PubKey = '''', r_Kid = '''', r_Segment = 0, r_FirstSeq = 0, r_PrunedThroughSeq = 0,
     r_PrunedThroughHash = '''', r_RetentionPolicy = '''', r_PrevHash = '''', r_Sig = ''''\<rparr>"

section \<open>The standard library as a parameter\<close>

text \<open>
  \<open>marshal\<close>/\<open>unmarshal\<close> are \<open>encoding/json\<close> on a record (a line without its newline),
  \<open>line_len\<close> the bytes of a line, \<open>sha_line\<close>/\<open>sha_str\<close> the 32 raw bytes of SHA-256,
  \<open>ecdsa_sign key n digest\<close> is \<open>ecdsa.SignASN1\<close> with the randomness of its \<open>n\<close>-th use,
  \<open>ecdsa_verify\<close> is \<open>ecdsa.VerifyASN1\<close>, \<open>b64_dec\<close> the strict decoder,
  \<open>marshal_pub\<close>/\<open>parse_pub\<close> PKIX encoding followed by the type test for ECDSA, and
  \<open>fmt_time\<close>/\<open>parse_time\<close> the layout \<open>RFC3339Nano\<close>.
\<close>

record ('l, 'k, 'p) codec =
  marshal :: "ledger_record \<Rightarrow> 'l option"
  unmarshal :: "'l \<Rightarrow> ledger_record option"
  line_len :: "'l \<Rightarrow> nat"
  sha_line :: "'l \<Rightarrow> string"
  sha_str :: "string \<Rightarrow> string"
  pub_of :: "'k \<Rightarrow> 'p"
  ecdsa_sign :: "'k \<Rightarrow> nat \<Rightarrow> string \<Rightarrow> string option"
  ecdsa_verify :: "'p \<Rightarrow> string \<Rightarrow> string \<Rightarrow> bool"
  marshal_pub :: "'p \<Rightarrow> string option"
  parse_pub :: "string \<Rightarrow> 'p option"
  b64_enc :: "string \<Rightarrow> string"
  b64_dec :: "string \<Rightarrow> string option"
  fmt_time :: "gotime \<Rightarrow> string"
  parse_time :: "string \<Rightarrow> gotime option"

text \<open>
  The documented behaviour the ledger relies on: what \<open>Marshal\<close> wrote \<open>Unmarshal\<close> reads
  back, a signature verifies under the key's public half, encodings decode, a digest is
  not empty.
\<close>

definition codec_ok :: "('l, 'k, 'p) codec \<Rightarrow> bool" where
  "codec_ok cx \<longleftrightarrow>
     (\<forall>r l. marshal cx r = Some l \<longrightarrow> unmarshal cx l = Some r) \<and>
     (\<forall>k n d s. ecdsa_sign cx k n d = Some s \<longrightarrow> ecdsa_verify cx (pub_of cx k) d s) \<and>
     (\<forall>x. b64_dec cx (b64_enc cx x) = Some x) \<and>
     (\<forall>p x. marshal_pub cx p = Some x \<longrightarrow> parse_pub cx x = Some p) \<and>
     (\<forall>l. sha_line cx l \<noteq> [])"

lemma codec_okD:
  assumes "codec_ok cx"
  shows "marshal cx r = Some l \<Longrightarrow> unmarshal cx l = Some r"
    and "ecdsa_sign cx k n d = Some s \<Longrightarrow> ecdsa_verify cx (pub_of cx k) d s"
    and "b64_dec cx (b64_enc cx x) = Some x"
    and "marshal_pub cx p = Some y \<Longrightarrow> parse_pub cx y = Some p"
    and "sha_line cx l \<noteq> []"
  using assms by (auto simp: codec_ok_def)

text \<open>\<open>fmt.Sprintf("%x", digest)\<close>.\<close>

definition hex_digit :: "nat \<Rightarrow> char" where
  "hex_digit n = (if n < 10 then char_of (48 + n) else char_of (87 + n))"

definition hex :: "string \<Rightarrow> string" where
  "hex s = concat (map (\<lambda>c. [hex_digit (of_char c div 16), hex_digit (of_char c mod 16)]) s)"

definition line_hash :: "('l, 'k, 'p) codec \<Rightarrow> 'l \<Rightarrow> string" where
  "line_hash cx l = hex (sha_line cx l)"

text \<open>\<open>HashBody\<close> and \<open>keyID\<close>.\<close>

definition HashBody :: "('l, 'k, 'p) codec \<Rightarrow> string \<Rightarrow> string" where
  "HashBody cx b = hex (sha_str cx b)"

definition keyID :: "('l, 'k, 'p) codec \<Rightarrow> string \<Rightarrow> string" where
  "keyID cx pkix = hex (take 8 (sha_str cx pkix))"

lemma hex_eq_Nil [simp]: "hex s = [] \<longleftrightarrow> s = []"
  by (cases s) (simp_all add: hex_def)

lemma hex_digit_inj: "m < 16 \<Longrightarrow> n < 16 \<Longrightarrow> hex_digit m = hex_digit n \<Longrightarrow> m = n"
proof -
  assume mn: "m < 16" "n < 16" and eq: "hex_digit m = hex_digit n"
  have v: "of_char (hex_digit k) = (if k < 10 then 48 + k else 87 + k :: nat)" if "k < 16" for k
    using that by (simp add: hex_digit_def)
  from eq have "(of_char (hex_digit m) :: nat) = of_char (hex_digit n)" by simp
  with mn show "m = n" by (simp add: v split: if_splits)
qed

lemma hex_inj: "hex s = hex t \<Longrightarrow> s = t"
proof (induction s arbitrary: t)
  case Nil
  then show ?case by (cases t) (simp_all add: hex_def)
next
  case (Cons c s)
  then obtain d t' where t: "t = d # t'" by (cases t) (simp_all add: hex_def)
  have bnd: "of_char x div 16 < (16 :: nat)" for x :: char
  proof -
    have "of_char x < (256 :: nat)" by (metis of_char_mod_256 mod_less_divisor zero_less_numeral)
    then show ?thesis by (simp add: less_mult_imp_div_less)
  qed
  from Cons.prems t have eqs: "hex_digit (of_char c div 16) = hex_digit (of_char d div 16)"
    "hex_digit (of_char c mod 16) = hex_digit (of_char d mod 16)" "hex s = hex t'"
    by (simp_all add: hex_def)
  have "of_char c div 16 = (of_char d div 16 :: nat)"
    by (rule hex_digit_inj [OF bnd bnd eqs(1)])
  moreover have "of_char c mod 16 = (of_char d mod 16 :: nat)"
    by (rule hex_digit_inj [OF _ _ eqs(2)]) simp_all
  ultimately have "(of_char c :: nat) = of_char d"
    by (metis mod_div_decomp)
  then have "c = d" by simp
  moreover have "s = t'" by (rule Cons.IH [OF eqs(3)])
  ultimately show ?case using t by simp
qed

lemma line_hash_ne: "codec_ok cx \<Longrightarrow> line_hash cx l \<noteq> []"
  by (simp add: line_hash_def codec_okD(5))

lemma line_hash_eqD: "line_hash cx l = line_hash cx l' \<Longrightarrow> sha_line cx l = sha_line cx l'"
  unfolding line_hash_def by (rule hex_inj)

end
