(* ===== verification/Actuator.thy ===== *)
theory Actuator
  imports Policy Ledger_Record
begin

text \<open>
  The Act stage, \<open>proxy/cmd/gurdy-proxy/actuator.go\<close>.  The interface \<open>Actuator\<close> is the
  locale \<open>actuator\<close>: what every transport relies on when it obeys a plan.  Both
  implementations provide it; what they do beyond it differs.
\<close>

record plan =
  pl_Forward :: bool
  pl_Applied :: string
  pl_FailMode :: string
  pl_Durable :: bool

definition monitor_plan :: "decision \<Rightarrow> plan" where
  "monitor_plan d =
     (if d = Indeterminate
      then \<lparr>pl_Forward = True, pl_Applied = ActionFailedOpen, pl_FailMode = FailOpen, pl_Durable = False\<rparr>
      else \<lparr>pl_Forward = True, pl_Applied = ActionForwarded, pl_FailMode = '''', pl_Durable = False\<rparr>)"

definition enforce_plan :: "decision \<Rightarrow> plan" where
  "enforce_plan d =
     (case d of
        Indeterminate \<Rightarrow> \<lparr>pl_Forward = True, pl_Applied = ActionFailedOpen, pl_FailMode = FailOpen, pl_Durable = False\<rparr>
      | Block \<Rightarrow> \<lparr>pl_Forward = False, pl_Applied = ActionBlocked, pl_FailMode = '''', pl_Durable = True\<rparr>
      | _ \<Rightarrow> \<lparr>pl_Forward = True, pl_Applied = ActionForwarded, pl_FailMode = '''', pl_Durable = False\<rparr>)"

text \<open>
  The contract: traffic is stopped only durably and recorded as blocked, the recorded
  action says what is done to the traffic, an undecided call goes through and says so, and
  the fail mode is named exactly when something failed.
\<close>

locale actuator =
  fixes plan_of :: "decision \<Rightarrow> plan"
  assumes stop_is_durable: "\<not> pl_Forward (plan_of d) \<Longrightarrow> pl_Durable (plan_of d)"
    and applied_is_effect: "pl_Applied (plan_of d) = ActionBlocked \<longleftrightarrow> \<not> pl_Forward (plan_of d)"
    and undecided_passes: "pl_Forward (plan_of Indeterminate) \<and> pl_Applied (plan_of Indeterminate) = ActionFailedOpen"
    and fail_mode: "pl_FailMode (plan_of d) \<noteq> '''' \<longleftrightarrow> d = Indeterminate"
    and only_block_stops: "\<not> pl_Forward (plan_of d) \<Longrightarrow> d = Block"
begin

lemma forwarded_unless_block: "d \<noteq> Block \<Longrightarrow> pl_Forward (plan_of d)"
  using only_block_stops by blast

lemma not_forwarded_record:
  "\<not> pl_Forward (plan_of d) \<Longrightarrow> pl_Durable (plan_of d) \<and> pl_Applied (plan_of d) = ActionBlocked \<and> pl_FailMode (plan_of d) = ''''"
proof -
  assume n: "\<not> pl_Forward (plan_of d)"
  then have "d = Block" by (rule only_block_stops)
  then have "pl_FailMode (plan_of d) = ''''" using fail_mode by blast
  with n show ?thesis using stop_is_durable applied_is_effect by blast
qed

end

lemmas action_defs = ActionFailedOpen_def ActionForwarded_def ActionBlocked_def FailOpen_def

interpretation monitor: actuator monitor_plan
  by unfold_locales (auto simp: monitor_plan_def action_defs split: if_splits)

interpretation enforce: actuator enforce_plan
  by unfold_locales (auto simp: enforce_plan_def action_defs split: decision.splits)

section \<open>Properties\<close>

text \<open>
   What stops traffic.  The monitor actuator forwards every call; the enforce actuator
  stops exactly the blocked ones, and then the plan demands a durable record that says
  blocked.
\<close>

theorem enforce_stops_exactly_blocks:
  "pl_Forward (monitor_plan d) \<and> (\<not> pl_Forward (enforce_plan d) \<longleftrightarrow> d = Block) \<and>
   (\<not> pl_Forward (enforce_plan d) \<longrightarrow> pl_Durable (enforce_plan d) \<and> pl_Applied (enforce_plan d) = ActionBlocked)"
proof -
  have "pl_Forward (monitor_plan d)" by (simp add: monitor_plan_def)
  moreover have "\<not> pl_Forward (enforce_plan Block)" by (simp add: enforce_plan_def)
  ultimately show ?thesis using enforce.only_block_stops enforce.not_forwarded_record by blast
qed

theorem enforce_stops_exactly_blocks_witness:
  "\<not> pl_Forward (enforce_plan Block) \<and> pl_Durable (enforce_plan Block) \<and> pl_Applied (enforce_plan Block) = ActionBlocked"
  using enforce_stops_exactly_blocks [of Block] by simp

text \<open>
  C40.  One evaluation error opens the gate.  If Cedar reports any error on a call, the call
  is forwarded under the enforce actuator, even when a determining policy declares that it
  blocks and declares \<open>on_error\<close> closed; the record says it failed open.
\<close>

theorem any_error_disarms_blocks:
  assumes "ca_errors (cedar_authorize c (ev_ps e) (eval_request i)) > 0"
  shows "pl_Forward (enforce_plan (pr_Decision (Evaluate c e i))) \<and>
     pl_Applied (enforce_plan (pr_Decision (Evaluate c e i))) = ActionFailedOpen"
proof -
  have "pr_Decision (Evaluate c e i) = Indeterminate" using assms by (simp add: Evaluate_def Let_def)
  then show ?thesis using enforce.undecided_passes by simp
qed

definition faulty_cedar :: "string gomap cedar" where
  "faulty_cedar = toy_cedar\<lparr>cedar_authorize :=
     (\<lambda>ps r. \<lparr>ca_allow = False, ca_reasons = [''no-delete''], ca_errors = 1\<rparr>)\<rparr>"

theorem any_error_disarms_blocks_witness:
  "pl_Forward (enforce_plan (pr_Decision (Evaluate faulty_cedar toy_evaluator (toy_input ''delete_file'')))) \<and>
   pm_enforce (meta_of toy_evaluator ''no-delete'') = EnforceBlock"
  using any_error_disarms_blocks [of faulty_cedar toy_evaluator "toy_input ''delete_file''"]
  by (simp add: faulty_cedar_def meta_of_def toy_evaluator_def EnforceBlock_def)

end
