(* ===== verification/Ledger_Verify.thy ===== *)
theory Ledger_Verify
  imports Ledger_Record
begin

text \<open>
  \<open>proxy/internal/ledger/verify.go\<close>: \<open>VerifyFile\<close> over the lines of one export, its
  branches per record kind, \<open>gapBetween\<close> and \<open>verifyBatchSig\<close>.  Every error return is a
  constructor of \<open>verify_error\<close>.  Sequence numbers are 64-bit words and the subtraction
  that gives \<open>Uncovered\<close> is read as a signed 64-bit \<open>int\<close>, as in the source.
\<close>

record verify_result =
  v_Records :: int
  v_Decisions :: int
  v_Answered :: int
  v_Unmatched :: int
  v_Batches :: int
  v_Dropped :: u64
  v_WriteErrors :: u64
  v_IdentityFail :: u64
  v_CleanEnd :: "bool option"
  v_LivenessGaps :: int
  v_UncleanRestarts :: int
  v_SchemaVersion :: int
  v_Producer :: string
  v_Tenant :: string
  v_Workload :: string
  v_InstanceID :: string
  v_Kid :: string
  v_UnknownKinds :: int
  v_Uncovered :: int
  v_EmbeddedKey :: bool
  v_LastSeq :: u64
  v_HeadHash :: string
  v_Segment :: int
  v_FirstSeq :: u64
  v_ContinuesFrom :: string
  v_Pruned :: int
  v_PrunedThroughSeq :: u64

definition zero_result :: verify_result where
  "zero_result = \<lparr>v_Records = 0, v_Decisions = 0, v_Answered = 0, v_Unmatched = 0,
     v_Batches = 0, v_Dropped = 0, v_WriteErrors = 0, v_IdentityFail = 0, v_CleanEnd = None,
     v_LivenessGaps = 0, v_UncleanRestarts = 0, v_SchemaVersion = 0, v_Producer = '''',
     v_Tenant = '''', v_Workload = '''', v_InstanceID = '''', v_Kid = '''', v_UnknownKinds = 0,
     v_Uncovered = 0, v_EmbeddedKey = False, v_LastSeq = 0, v_HeadHash = '''', v_Segment = 0,
     v_FirstSeq = 0, v_ContinuesFrom = '''', v_Pruned = 0, v_PrunedThroughSeq = 0\<rparr>"

datatype sig_error = SigNotBase64 | MarshalFailed | SigInvalid

datatype verify_error =
    NotJSON int
  | NoPredecessor int
  | GapOrSplice int u64 u64
  | ChainBroken int u64
  | HeaderNotFirst int
  | BadHeaderKey
  | SigBeforeKey int
  | OtherKey int u64 string string
  | BadSig int u64 sig_error
  | LineTooLong
  | EmptyExport
  | NothingSigned int

text \<open>The loop variables of \<open>VerifyFile\<close>; \<open>awaiting\<close> holds the keys of its map.\<close>

record 'p vstate =
  vs_res :: verify_result
  vs_pub :: "'p option"
  vs_prevHash :: string
  vs_prevSeq :: u64
  vs_lastSigAt :: u64
  vs_awaiting :: "string list"
  vs_heartbeatS :: int
  vs_lastWindowTo :: string

definition vstate_init :: "'p option \<Rightarrow> 'p vstate" where
  "vstate_init pinned = \<lparr>vs_res = zero_result, vs_pub = pinned, vs_prevHash = '''',
     vs_prevSeq = 0, vs_lastSigAt = 0, vs_awaiting = [], vs_heartbeatS = 0,
     vs_lastWindowTo = ''''\<rparr>"

section \<open>Liveness windows\<close>

text \<open>\<open>time.Duration\<close> is a signed 64-bit count of nanoseconds: \<open>Sub\<close> saturates, \<open>*\<close> wraps.\<close>

definition wrap_i64 :: "int \<Rightarrow> int" where
  "wrap_i64 x = (x + 2 ^ 63) mod 2 ^ 64 - 2 ^ 63"

definition sat_i64 :: "int \<Rightarrow> int" where
  "sat_i64 x = max (- (2 ^ 63)) (min (2 ^ 63 - 1) x)"

definition gapBetween :: "('l, 'k, 'p) codec \<Rightarrow> string \<Rightarrow> string \<Rightarrow> int \<Rightarrow> bool" where
  "gapBetween cx prevTo nextFrom hb =
     (if prevTo = '''' \<or> hb = 0 then False
      else case (parse_time cx prevTo, parse_time cx nextFrom) of
        (Some a, Some b) \<Rightarrow> sat_i64 (b - a) > wrap_i64 (2 * hb * 1000000000)
      | _ \<Rightarrow> False)"

section \<open>Batch signatures\<close>

definition verifyBatchSig :: "('l, 'k, 'p) codec \<Rightarrow> ledger_record \<Rightarrow> 'p \<Rightarrow> sig_error option" where
  "verifyBatchSig cx rec pub =
     (case b64_dec cx (r_Sig rec) of
        None \<Rightarrow> Some SigNotBase64
      | Some sig \<Rightarrow>
          (case marshal cx (rec\<lparr>r_Sig := ''''\<rparr>) of
             None \<Rightarrow> Some MarshalFailed
           | Some canon \<Rightarrow>
               if \<not> ecdsa_verify cx pub (sha_line cx canon) sig then Some SigInvalid
               else None))"

section \<open>One line\<close>

text \<open>A continuation header seeds the chain from its own declaration.\<close>

definition seed_continuation :: "ledger_record \<Rightarrow> 'p vstate \<Rightarrow> verify_error + 'p vstate" where
  "seed_continuation rec s =
     (if v_Records (vs_res s) = 1 \<and> r_Kind rec = KindHeader \<and> r_Segment rec > 1 then
        if r_PrevHash rec = '''' then Inl (NoPredecessor (r_Segment rec))
        else Inr (s\<lparr>vs_prevHash := r_PrevHash rec, vs_prevSeq := r_Seq rec - 1,
                    vs_res := (vs_res s)\<lparr>v_ContinuesFrom := r_PrevHash rec\<rparr>\<rparr>)
      else Inr s)"

definition check_link :: "ledger_record \<Rightarrow> 'p vstate \<Rightarrow> verify_error + 'p vstate" where
  "check_link rec s =
     (if r_Seq rec \<noteq> vs_prevSeq s + 1
        then Inl (GapOrSplice (v_Records (vs_res s)) (r_Seq rec) (vs_prevSeq s))
      else if r_PrevHash rec \<noteq> vs_prevHash s
        then Inl (ChainBroken (v_Records (vs_res s)) (r_Seq rec))
      else Inr s)"

definition on_header :: "('l, 'k, 'p) codec \<Rightarrow> ledger_record \<Rightarrow> 'p vstate \<Rightarrow> verify_error + 'p vstate" where
  "on_header cx rec s =
     (if v_Records (vs_res s) \<noteq> 1 then Inl (HeaderNotFirst (v_Records (vs_res s)))
      else
        let res = (vs_res s)\<lparr>v_Segment := (if r_Segment rec = 0 then 1 else r_Segment rec),
                             v_FirstSeq := r_Seq rec, v_SchemaVersion := r_SchemaVersion rec,
                             v_Tenant := r_Tenant rec, v_Producer := r_Producer rec,
                             v_Workload := r_Workload rec, v_InstanceID := r_InstanceID rec,
                             v_Kid := r_Kid rec\<rparr>;
            s = s\<lparr>vs_heartbeatS := r_HeartbeatS rec, vs_res := res\<rparr>
        in case vs_pub s of
             Some p \<Rightarrow> Inr s
           | None \<Rightarrow>
               (case Option.bind (b64_dec cx (r_PubKey rec)) (parse_pub cx) of
                  None \<Rightarrow> Inl BadHeaderKey
                | Some p \<Rightarrow> Inr (s\<lparr>vs_pub := Some p, vs_res := res\<lparr>v_EmbeddedKey := True\<rparr>\<rparr>)))"

definition on_decision :: "ledger_record \<Rightarrow> 'p vstate \<Rightarrow> 'p vstate" where
  "on_decision rec s =
     (let s = s\<lparr>vs_res := (vs_res s)\<lparr>v_Decisions := v_Decisions (vs_res s) + 1\<rparr>\<rparr> in
      if r_CallID rec \<noteq> '''' then s\<lparr>vs_awaiting := List.insert (r_CallID rec) (vs_awaiting s)\<rparr>
      else s)"

definition on_response :: "ledger_record \<Rightarrow> 'p vstate \<Rightarrow> 'p vstate" where
  "on_response rec s =
     (if r_CallID rec \<in> set (vs_awaiting s)
      then s\<lparr>vs_awaiting := removeAll (r_CallID rec) (vs_awaiting s),
             vs_res := (vs_res s)\<lparr>v_Answered := v_Answered (vs_res s) + 1\<rparr>\<rparr>
      else s\<lparr>vs_res := (vs_res s)\<lparr>v_Unmatched := v_Unmatched (vs_res s) + 1\<rparr>\<rparr>)"

definition is_lifecycle :: "ledger_record \<Rightarrow> bool" where
  "is_lifecycle rec \<longleftrightarrow> r_Reason rec = ReasonStart \<or> r_Reason rec = ReasonHeartbeat
     \<or> r_Reason rec = ReasonShutdown"

definition on_lifecycle :: "('l, 'k, 'p) codec \<Rightarrow> ledger_record \<Rightarrow> 'p vstate \<Rightarrow> 'p vstate" where
  "on_lifecycle cx rec s =
     (let res = vs_res s;
          start = (r_Reason rec = ReasonStart);
          res = (if start \<and> v_CleanEnd res = Some False
                 then res\<lparr>v_UncleanRestarts := v_UncleanRestarts res + 1\<rparr> else res);
          res = (if \<not> (start \<and> v_CleanEnd res = Some True) then
                   let res = (if gapBetween cx (vs_lastWindowTo s) (r_WindowFrom rec) (vs_heartbeatS s)
                              then res\<lparr>v_LivenessGaps := v_LivenessGaps res + 1\<rparr> else res)
                   in if gapBetween cx (r_WindowFrom rec) (r_WindowTo rec) (vs_heartbeatS s)
                      then res\<lparr>v_LivenessGaps := v_LivenessGaps res + 1\<rparr> else res
                 else res)
      in s\<lparr>vs_lastWindowTo := r_WindowTo rec,
           vs_res := res\<lparr>v_CleanEnd := Some (r_Reason rec = ReasonShutdown)\<rparr>\<rparr>)"

definition on_coverage :: "('l, 'k, 'p) codec \<Rightarrow> ledger_record \<Rightarrow> 'p vstate \<Rightarrow> 'p vstate" where
  "on_coverage cx rec s =
     (let res = vs_res s;
          s = s\<lparr>vs_res := res\<lparr>v_Dropped := v_Dropped res + r_Dropped rec,
                              v_WriteErrors := v_WriteErrors res + r_WriteErrors rec,
                              v_IdentityFail := v_IdentityFail res + r_IdentityFail rec\<rparr>\<rparr>
      in if is_lifecycle rec then on_lifecycle cx rec s else s)"

definition on_retention :: "ledger_record \<Rightarrow> 'p vstate \<Rightarrow> 'p vstate" where
  "on_retention rec s =
     (let res = (vs_res s)\<lparr>v_Pruned := v_Pruned (vs_res s) + 1\<rparr> in
      s\<lparr>vs_res := (if r_PrunedThroughSeq rec > v_PrunedThroughSeq res
                   then res\<lparr>v_PrunedThroughSeq := r_PrunedThroughSeq rec\<rparr> else res)\<rparr>)"

definition on_batchsig :: "('l, 'k, 'p) codec \<Rightarrow> ledger_record \<Rightarrow> 'p vstate \<Rightarrow> verify_error + 'p vstate" where
  "on_batchsig cx rec s =
     (case vs_pub s of
        None \<Rightarrow> Inl (SigBeforeKey (v_Records (vs_res s)))
      | Some pub \<Rightarrow>
          if v_Kid (vs_res s) \<noteq> '''' \<and> r_Kid rec \<noteq> '''' \<and> r_Kid rec \<noteq> v_Kid (vs_res s)
            then Inl (OtherKey (v_Records (vs_res s)) (r_Seq rec) (r_Kid rec) (v_Kid (vs_res s)))
          else case verifyBatchSig cx rec pub of
            Some e \<Rightarrow> Inl (BadSig (v_Records (vs_res s)) (r_Seq rec) e)
          | None \<Rightarrow> Inr (s\<lparr>vs_res := (vs_res s)\<lparr>v_Batches := v_Batches (vs_res s) + 1\<rparr>,
                            vs_lastSigAt := r_Seq rec\<rparr>))"

definition on_kind :: "('l, 'k, 'p) codec \<Rightarrow> ledger_record \<Rightarrow> 'p vstate \<Rightarrow> verify_error + 'p vstate" where
  "on_kind cx rec s =
     (if r_Kind rec = KindHeader then on_header cx rec s
      else if r_Kind rec = KindDecision then Inr (on_decision rec s)
      else if r_Kind rec = KindResponse then Inr (on_response rec s)
      else if r_Kind rec = KindCoverage then Inr (on_coverage cx rec s)
      else if r_Kind rec = KindRetention then Inr (on_retention rec s)
      else if r_Kind rec = KindBatchSig then on_batchsig cx rec s
      else Inr (s\<lparr>vs_res := (vs_res s)\<lparr>v_UnknownKinds := v_UnknownKinds (vs_res s) + 1\<rparr>\<rparr>))"

definition advance :: "('l, 'k, 'p) codec \<Rightarrow> 'l \<Rightarrow> ledger_record \<Rightarrow> 'p vstate \<Rightarrow> 'p vstate" where
  "advance cx line rec s = s\<lparr>vs_prevHash := line_hash cx line, vs_prevSeq := r_Seq rec\<rparr>"

definition and_then :: "'e + 'a \<Rightarrow> ('a \<Rightarrow> 'e + 'b) \<Rightarrow> 'e + 'b" where
  "and_then m f = (case m of Inl e \<Rightarrow> Inl e | Inr a \<Rightarrow> f a)"

definition count_line :: "'p vstate \<Rightarrow> 'p vstate" where
  "count_line s = s\<lparr>vs_res := (vs_res s)\<lparr>v_Records := v_Records (vs_res s) + 1\<rparr>\<rparr>"

definition verify_line :: "('l, 'k, 'p) codec \<Rightarrow> 'l \<Rightarrow> 'p vstate \<Rightarrow> verify_error + 'p vstate" where
  "verify_line cx line s0 =
     (let s = count_line s0 in
      case unmarshal cx line of
        None \<Rightarrow> Inl (NotJSON (v_Records (vs_res s)))
      | Some rec \<Rightarrow>
          and_then (seed_continuation rec s) (\<lambda>s.
          and_then (check_link rec s) (\<lambda>s.
          and_then (on_kind cx rec s) (\<lambda>s.
          Inr (advance cx line rec s)))))"

section \<open>The file\<close>

text \<open>\<open>bufio.Scanner\<close> with a 1 MiB buffer: a line must leave room for its newline.\<close>

definition maxLine :: nat where
  "maxLine = 1048576"

fun verify_lines :: "('l, 'k, 'p) codec \<Rightarrow> 'l list \<Rightarrow> 'p vstate \<Rightarrow> verify_error + 'p vstate" where
  "verify_lines cx [] s = Inr s"
| "verify_lines cx (l # ls) s =
     (if line_len cx l \<ge> maxLine then Inl LineTooLong
      else and_then (verify_line cx l s) (verify_lines cx ls))"

definition verify_finish :: "'p vstate \<Rightarrow> verify_error + verify_result" where
  "verify_finish s =
     (if v_Records (vs_res s) = 0 then Inl EmptyExport
      else
        let res = (vs_res s)\<lparr>v_Uncovered := sint (vs_prevSeq s - vs_lastSigAt s),
                             v_LastSeq := vs_prevSeq s, v_HeadHash := vs_prevHash s\<rparr>
        in if vs_lastSigAt s = 0 \<and> v_Decisions res > 0 then Inl (NothingSigned (v_Decisions res))
           else Inr res)"

definition VerifyFile :: "('l, 'k, 'p) codec \<Rightarrow> 'l list \<Rightarrow> 'p option \<Rightarrow> verify_error + verify_result" where
  "VerifyFile cx ls pinned = and_then (verify_lines cx ls (vstate_init pinned)) verify_finish"

lemma and_then_Inr [simp]: "and_then (Inr a) f = f a"
  by (simp add: and_then_def)

lemma and_then_Inl [simp]: "and_then (Inl e) f = Inl e"
  by (simp add: and_then_def)

lemma and_then_eq_Inr: "and_then m f = Inr b \<longleftrightarrow> (\<exists>a. m = Inr a \<and> f a = Inr b)"
  by (cases m) auto

lemma and_then_assoc: "and_then (and_then m f) g = and_then m (\<lambda>a. and_then (f a) g)"
  by (cases m) auto

lemma verify_lines_append:
  "verify_lines cx (xs @ ys) s = and_then (verify_lines cx xs s) (verify_lines cx ys)"
proof (induction xs arbitrary: s)
  case (Cons l xs)
  then show ?case by (cases "verify_line cx l s") auto
qed simp

end
