(* ===== verification/Ledger_Chain.thy ===== *)
theory Ledger_Chain
  imports Ledger_Verify
begin

text \<open>
  What \<open>VerifyFile\<close> establishes, stated without its loop: the export is one hash chain
  (\<open>link\<close>), only its first record may be a header, and every batch signature checks under
  the export's key.  \<open>export_ok\<close> collects this, and \<open>verify_accepts_iff\<close> shows the loop
  accepts exactly the exports that satisfy it.  The second half draws the evidence
  properties from it: the head hash commits to every line, and a signature vouches for
  every line before it.
\<close>

section \<open>The chain, declaratively\<close>

fun link :: "('l, 'k, 'p) codec \<Rightarrow> string \<Rightarrow> u64 \<Rightarrow> 'l list \<Rightarrow> bool" where
  "link cx ph ps [] = True"
| "link cx ph ps (l # ls) =
     (case unmarshal cx l of
        None \<Rightarrow> False
      | Some rec \<Rightarrow> r_Seq rec = ps + 1 \<and> r_PrevHash rec = ph \<and>
                    link cx (line_hash cx l) (r_Seq rec) ls)"

definition is_header :: "ledger_record \<Rightarrow> bool" where
  "is_header rec \<longleftrightarrow> r_Kind rec = KindHeader"

definition anchor :: "ledger_record \<Rightarrow> string \<times> u64" where
  "anchor rec = (if is_header rec \<and> r_Segment rec > 1 then (r_PrevHash rec, r_Seq rec - 1)
                 else ('''', 0))"

definition sig_ok :: "('l, 'k, 'p) codec \<Rightarrow> 'p option \<Rightarrow> string \<Rightarrow> ledger_record \<Rightarrow> bool" where
  "sig_ok cx key kid rec \<longleftrightarrow>
     (kid = '''' \<or> r_Kid rec = '''' \<or> r_Kid rec = kid) \<and>
     (case key of None \<Rightarrow> False | Some p \<Rightarrow> verifyBatchSig cx rec p = None)"

definition body_ok :: "('l, 'k, 'p) codec \<Rightarrow> 'p option \<Rightarrow> string \<Rightarrow> 'l \<Rightarrow> bool" where
  "body_ok cx key kid l \<longleftrightarrow> line_len cx l < maxLine \<and>
     (case unmarshal cx l of
        None \<Rightarrow> False
      | Some rec \<Rightarrow> \<not> is_header rec \<and> (r_Kind rec = KindBatchSig \<longrightarrow> sig_ok cx key kid rec))"

definition file_key :: "('l, 'k, 'p) codec \<Rightarrow> 'p option \<Rightarrow> ledger_record \<Rightarrow> 'p option" where
  "file_key cx pinned rec =
     (case pinned of
        Some p \<Rightarrow> Some p
      | None \<Rightarrow> if is_header rec then Option.bind (b64_dec cx (r_PubKey rec)) (parse_pub cx)
                else None)"

definition file_kid :: "ledger_record \<Rightarrow> string" where
  "file_kid rec = (if is_header rec then r_Kid rec else '''')"

definition first_ok :: "('l, 'k, 'p) codec \<Rightarrow> 'p option \<Rightarrow> 'l \<Rightarrow> ledger_record \<Rightarrow> bool" where
  "first_ok cx pinned l rec \<longleftrightarrow> line_len cx l < maxLine \<and> unmarshal cx l = Some rec \<and>
     (if is_header rec
      then (r_Segment rec > 1 \<longrightarrow> r_PrevHash rec \<noteq> '''') \<and> file_key cx pinned rec \<noteq> None
      else r_Kind rec = KindBatchSig \<longrightarrow> sig_ok cx (file_key cx pinned rec) '''' rec)"

text \<open>The last signed sequence number and the number of decisions of a stretch of lines.\<close>

fun last_sig :: "('l, 'k, 'p) codec \<Rightarrow> u64 \<Rightarrow> 'l list \<Rightarrow> u64" where
  "last_sig cx n [] = n"
| "last_sig cx n (l # ls) =
     (case unmarshal cx l of
        None \<Rightarrow> last_sig cx n ls
      | Some rec \<Rightarrow> last_sig cx (if r_Kind rec = KindBatchSig then r_Seq rec else n) ls)"

definition kind_of :: "('l, 'k, 'p) codec \<Rightarrow> 'l \<Rightarrow> string option" where
  "kind_of cx l = map_option r_Kind (unmarshal cx l)"

definition count_kind :: "('l, 'k, 'p) codec \<Rightarrow> string \<Rightarrow> 'l list \<Rightarrow> nat" where
  "count_kind cx k ls = length (filter (\<lambda>l. kind_of cx l = Some k) ls)"

definition export_ok :: "('l, 'k, 'p) codec \<Rightarrow> 'p option \<Rightarrow> 'l list \<Rightarrow> bool" where
  "export_ok cx pinned ls \<longleftrightarrow>
     (\<exists>l0 rest rec. ls = l0 # rest \<and> first_ok cx pinned l0 rec \<and>
        link cx (fst (anchor rec)) (snd (anchor rec)) ls \<and>
        (\<forall>l \<in> set rest. body_ok cx (file_key cx pinned rec) (file_kid rec) l) \<and>
        (last_sig cx 0 ls = 0 \<longrightarrow> count_kind cx KindDecision ls = 0))"

section \<open>One line against the specification\<close>

lemma count_line_simps [simp]:
  "vs_prevHash (count_line s) = vs_prevHash s" "vs_prevSeq (count_line s) = vs_prevSeq s"
  "vs_lastSigAt (count_line s) = vs_lastSigAt s" "vs_pub (count_line s) = vs_pub s"
  "vs_awaiting (count_line s) = vs_awaiting s" "vs_heartbeatS (count_line s) = vs_heartbeatS s"
  "v_Records (vs_res (count_line s)) = v_Records (vs_res s) + 1"
  "v_Kid (vs_res (count_line s)) = v_Kid (vs_res s)"
  "v_Decisions (vs_res (count_line s)) = v_Decisions (vs_res s)"
  "v_Answered (vs_res (count_line s)) = v_Answered (vs_res s)"
  "v_Unmatched (vs_res (count_line s)) = v_Unmatched (vs_res s)"
  "v_Batches (vs_res (count_line s)) = v_Batches (vs_res s)"
  "v_Segment (vs_res (count_line s)) = v_Segment (vs_res s)"
  "v_FirstSeq (vs_res (count_line s)) = v_FirstSeq (vs_res s)"
  "v_ContinuesFrom (vs_res (count_line s)) = v_ContinuesFrom (vs_res s)"
  "v_PrunedThroughSeq (vs_res (count_line s)) = v_PrunedThroughSeq (vs_res s)"
  "v_Tenant (vs_res (count_line s)) = v_Tenant (vs_res s)"
  "v_Workload (vs_res (count_line s)) = v_Workload (vs_res s)"
  "v_InstanceID (vs_res (count_line s)) = v_InstanceID (vs_res s)"
  by (simp_all add: count_line_def)

text \<open>The header-derived part of the state, which no later line changes.\<close>

definition head_part :: "'p vstate \<Rightarrow> 'p option \<times> string \<times> int \<times> u64 \<times> string \<times> string \<times> string \<times> string" where
  "head_part s = (vs_pub s, v_Kid (vs_res s), v_Segment (vs_res s), v_FirstSeq (vs_res s),
     v_ContinuesFrom (vs_res s), v_Tenant (vs_res s), v_Workload (vs_res s), v_InstanceID (vs_res s))"

lemma head_part_count [simp]: "head_part (count_line s) = head_part s"
  by (simp add: head_part_def)

lemma kinds_distinct [simp]:
  "KindHeader \<noteq> KindDecision" "KindHeader \<noteq> KindResponse" "KindHeader \<noteq> KindCoverage"
  "KindHeader \<noteq> KindRetention" "KindHeader \<noteq> KindBatchSig" "KindDecision \<noteq> KindResponse"
  "KindDecision \<noteq> KindCoverage" "KindDecision \<noteq> KindRetention" "KindDecision \<noteq> KindBatchSig"
  "KindResponse \<noteq> KindCoverage" "KindResponse \<noteq> KindRetention" "KindResponse \<noteq> KindBatchSig"
  "KindCoverage \<noteq> KindRetention" "KindCoverage \<noteq> KindBatchSig" "KindRetention \<noteq> KindBatchSig"
  "KindDecision \<noteq> KindHeader" "KindResponse \<noteq> KindHeader" "KindCoverage \<noteq> KindHeader"
  "KindRetention \<noteq> KindHeader" "KindBatchSig \<noteq> KindHeader" "KindResponse \<noteq> KindDecision"
  "KindCoverage \<noteq> KindDecision" "KindRetention \<noteq> KindDecision" "KindBatchSig \<noteq> KindDecision"
  "KindCoverage \<noteq> KindResponse" "KindRetention \<noteq> KindResponse" "KindBatchSig \<noteq> KindResponse"
  "KindRetention \<noteq> KindCoverage" "KindBatchSig \<noteq> KindCoverage" "KindBatchSig \<noteq> KindRetention"
  by (simp_all add: kind_defs)

lemma on_lifecycle_frame [simp]:
  "head_part (on_lifecycle cx rec s) = head_part s"
  "vs_lastSigAt (on_lifecycle cx rec s) = vs_lastSigAt s"
  "v_Records (vs_res (on_lifecycle cx rec s)) = v_Records (vs_res s)"
  "v_Decisions (vs_res (on_lifecycle cx rec s)) = v_Decisions (vs_res s)"
  by (simp_all add: on_lifecycle_def head_part_def Let_def)

lemma on_coverage_frame [simp]:
  "head_part (on_coverage cx rec s) = head_part s"
  "vs_lastSigAt (on_coverage cx rec s) = vs_lastSigAt s"
  "v_Records (vs_res (on_coverage cx rec s)) = v_Records (vs_res s)"
  "v_Decisions (vs_res (on_coverage cx rec s)) = v_Decisions (vs_res s)"
  by (simp_all add: on_coverage_def Let_def) (simp_all add: head_part_def)

lemma on_kind_body:
  assumes "\<not> is_header rec"
  shows "(\<exists>t. on_kind cx rec s = Inr t) \<longleftrightarrow>
      (r_Kind rec = KindBatchSig \<longrightarrow> sig_ok cx (vs_pub s) (v_Kid (vs_res s)) rec)"
  using assms
  by (auto simp: on_kind_def on_batchsig_def sig_ok_def is_header_def split: option.splits)

lemma on_kind_frame:
  assumes "\<not> is_header rec" and "on_kind cx rec s = Inr t"
  shows "head_part t = head_part s"
    and "v_Records (vs_res t) = v_Records (vs_res s)"
    and "vs_lastSigAt t = (if r_Kind rec = KindBatchSig then r_Seq rec else vs_lastSigAt s)"
    and "v_Decisions (vs_res t)
           = v_Decisions (vs_res s) + (if r_Kind rec = KindDecision then 1 else 0)"
proof -
  have nh: "r_Kind rec \<noteq> KindHeader" using assms(1) by (simp add: is_header_def)
  note o = on_kind_def on_decision_def on_response_def on_retention_def on_batchsig_def Let_def
  show "head_part t = head_part s"
    using assms(2) nh by (auto simp: o split: if_splits option.splits) (auto simp: head_part_def)
  show "v_Records (vs_res t) = v_Records (vs_res s)"
    using assms(2) nh by (auto simp: o split: if_splits option.splits)
  show "vs_lastSigAt t = (if r_Kind rec = KindBatchSig then r_Seq rec else vs_lastSigAt s)"
    using assms(2) nh by (auto simp: o split: if_splits option.splits)
  show "v_Decisions (vs_res t)
      = v_Decisions (vs_res s) + (if r_Kind rec = KindDecision then 1 else 0)"
    using assms(2) nh by (auto simp: o split: if_splits option.splits)
qed

lemma advance_simps [simp]:
  "vs_prevHash (advance cx l rec s) = line_hash cx l" "vs_prevSeq (advance cx l rec s) = r_Seq rec"
  "vs_lastSigAt (advance cx l rec s) = vs_lastSigAt s" "vs_res (advance cx l rec s) = vs_res s"
  "vs_pub (advance cx l rec s) = vs_pub s" "head_part (advance cx l rec s) = head_part s"
  "vs_awaiting (advance cx l rec s) = vs_awaiting s"
  by (simp_all add: advance_def head_part_def)

lemma check_link_eq_Inr:
  "check_link rec s = Inr t \<longleftrightarrow>
     t = s \<and> r_Seq rec = vs_prevSeq s + 1 \<and> r_PrevHash rec = vs_prevHash s"
  by (auto simp: check_link_def)

lemma on_kind_header: "is_header rec \<Longrightarrow> on_kind cx rec s = on_header cx rec s"
  by (simp add: on_kind_def is_header_def)

lemma on_header_late: "v_Records (vs_res s) \<noteq> 1 \<Longrightarrow> on_header cx rec s = Inl (HeaderNotFirst (v_Records (vs_res s)))"
  by (simp add: on_header_def)

lemma verify_line_body:
  assumes "v_Records (vs_res s) \<ge> 1"
  shows "verify_line cx l s = Inr t \<longleftrightarrow>
    (\<exists>rec u. unmarshal cx l = Some rec \<and> r_Seq rec = vs_prevSeq s + 1 \<and>
       r_PrevHash rec = vs_prevHash s \<and> \<not> is_header rec \<and>
       on_kind cx rec (count_line s) = Inr u \<and> t = advance cx l rec u)"
proof -
  have n1: "v_Records (vs_res (count_line s)) \<noteq> 1" using assms by simp
  have hd: "on_kind cx rec (count_line s) \<noteq> Inr u" if "is_header rec" for rec u
    by (simp add: on_kind_header [OF that] on_header_late [OF n1])
  show ?thesis
    using n1 hd
    by (auto simp: verify_line_def Let_def seed_continuation_def and_then_eq_Inr
        check_link_eq_Inr split: option.splits)
qed

section \<open>The body of the file\<close>

lemma last_sig_append: "last_sig cx n (xs @ ys) = last_sig cx (last_sig cx n xs) ys"
  by (induction xs arbitrary: n) (auto split: option.splits)

lemma count_kind_Cons [simp]:
  "count_kind cx k (l # ls) = (if kind_of cx l = Some k then 1 else 0) + count_kind cx k ls"
  by (simp add: count_kind_def)

lemma count_kind_Nil [simp]: "count_kind cx k [] = 0"
  by (simp add: count_kind_def)

lemma verify_lines_body:
  assumes "v_Records (vs_res s) \<ge> 1"
  shows "(\<exists>t. verify_lines cx ls s = Inr t) \<longleftrightarrow>
      link cx (vs_prevHash s) (vs_prevSeq s) ls \<and>
      (\<forall>l \<in> set ls. body_ok cx (vs_pub s) (v_Kid (vs_res s)) l)"
  using assms
proof (induction ls arbitrary: s)
  case Nil
  then show ?case by simp
next
  case (Cons l ls)
  show ?case
  proof (cases "\<exists>rec. unmarshal cx l = Some rec \<and> r_Seq rec = vs_prevSeq s + 1 \<and>
      r_PrevHash rec = vs_prevHash s \<and> \<not> is_header rec \<and>
      (r_Kind rec = KindBatchSig \<longrightarrow> sig_ok cx (vs_pub s) (v_Kid (vs_res s)) rec)")
    case False
    have "verify_line cx l s \<noteq> Inr t" for t
    proof
      assume "verify_line cx l s = Inr t"
      then obtain rec u where "unmarshal cx l = Some rec" "r_Seq rec = vs_prevSeq s + 1"
        "r_PrevHash rec = vs_prevHash s" and nh: "\<not> is_header rec"
        and ok: "on_kind cx rec (count_line s) = Inr u"
        unfolding verify_line_body [OF Cons.prems] by blast
      moreover have "r_Kind rec = KindBatchSig \<longrightarrow> sig_ok cx (vs_pub s) (v_Kid (vs_res s)) rec"
        using on_kind_body [OF nh, of cx "count_line s"] ok by simp
      ultimately show False using False by blast
    qed
    then have "\<not> (\<exists>t. verify_lines cx (l # ls) s = Inr t)"
      by (auto simp: and_then_eq_Inr)
    moreover have "\<not> (link cx (vs_prevHash s) (vs_prevSeq s) (l # ls) \<and>
        (\<forall>l \<in> set (l # ls). body_ok cx (vs_pub s) (v_Kid (vs_res s)) l))"
    proof
      assume ok: "link cx (vs_prevHash s) (vs_prevSeq s) (l # ls) \<and>
        (\<forall>l \<in> set (l # ls). body_ok cx (vs_pub s) (v_Kid (vs_res s)) l)"
      then obtain rec where r: "unmarshal cx l = Some rec"
        by (cases "unmarshal cx l") simp_all
      from ok have "body_ok cx (vs_pub s) (v_Kid (vs_res s)) l" by simp
      with ok r False show False by (simp add: body_ok_def)
    qed
    ultimately show ?thesis by blast
  next
    case True
    then obtain rec where r: "unmarshal cx l = Some rec" "r_Seq rec = vs_prevSeq s + 1"
      "r_PrevHash rec = vs_prevHash s" "\<not> is_header rec"
      and sg: "r_Kind rec = KindBatchSig \<longrightarrow> sig_ok cx (vs_pub s) (v_Kid (vs_res s)) rec"
      by blast
    then obtain u where u: "on_kind cx rec (count_line s) = Inr u"
      using on_kind_body [OF r(4), of cx "count_line s"] by auto
    let ?t = "advance cx l rec u"
    have vl: "verify_line cx l s = Inr ?t"
      unfolding verify_line_body [OF Cons.prems]
      by (rule exI [of _ rec], rule exI [of _ u]) (use r u in simp)
    have hp: "head_part ?t = head_part s" using on_kind_frame(1) [OF r(4) u] by simp
    have rc: "v_Records (vs_res ?t) \<ge> 1"
      using on_kind_frame(2) [OF r(4) u] Cons.prems by simp
    have IH: "(\<exists>t. verify_lines cx ls ?t = Inr t) \<longleftrightarrow>
        link cx (line_hash cx l) (r_Seq rec) ls \<and>
        (\<forall>l \<in> set ls. body_ok cx (vs_pub s) (v_Kid (vs_res s)) l)"
      using Cons.IH [OF rc] hp by (simp add: head_part_def)
    have "(\<exists>t. verify_lines cx (l # ls) s = Inr t) \<longleftrightarrow>
        line_len cx l < maxLine \<and> (\<exists>t. verify_lines cx ls ?t = Inr t)"
      using vl by (auto simp: and_then_eq_Inr)
    also have "\<dots> \<longleftrightarrow> link cx (vs_prevHash s) (vs_prevSeq s) (l # ls) \<and>
        (\<forall>l \<in> set (l # ls). body_ok cx (vs_pub s) (v_Kid (vs_res s)) l)"
      using r sg unfolding IH by (auto simp: body_ok_def)
    finally show ?thesis .
  qed
qed

lemma verify_lines_body_state:
  assumes "v_Records (vs_res s) \<ge> 1" and "verify_lines cx ls s = Inr t"
  shows "head_part t = head_part s"
    and "v_Records (vs_res t) = v_Records (vs_res s) + int (length ls)"
    and "vs_lastSigAt t = last_sig cx (vs_lastSigAt s) ls"
    and "v_Decisions (vs_res t) = v_Decisions (vs_res s) + int (count_kind cx KindDecision ls)"
    and "vs_prevHash t = (if ls = [] then vs_prevHash s else line_hash cx (last ls))"
    and "vs_prevSeq t = vs_prevSeq s + of_nat (length ls)"
  using assms
proof (induction ls arbitrary: s)
  case Nil
  { case 1 then show ?case by simp next case 2 then show ?case by simp
  next case 3 then show ?case by simp next case 4 then show ?case by simp
  next case 5 then show ?case by simp next case 6 then show ?case by simp }
next
  case (Cons l ls)
  have step: "\<exists>rec u. unmarshal cx l = Some rec \<and> r_Seq rec = vs_prevSeq s + 1 \<and>
      \<not> is_header rec \<and> on_kind cx rec (count_line s) = Inr u \<and>
      verify_lines cx ls (advance cx l rec u) = Inr t \<and>
      v_Records (vs_res (advance cx l rec u)) = v_Records (vs_res s) + 1 \<and>
      v_Records (vs_res (advance cx l rec u)) \<ge> 1"
    if rc: "v_Records (vs_res s) \<ge> 1" and vl: "verify_lines cx (l # ls) s = Inr t" for s
  proof -
    from vl obtain v where v: "verify_line cx l s = Inr v" "verify_lines cx ls v = Inr t"
      by (auto simp: and_then_eq_Inr split: if_splits)
    from v(1) obtain rec u where r: "unmarshal cx l = Some rec" "r_Seq rec = vs_prevSeq s + 1"
      "\<not> is_header rec" "on_kind cx rec (count_line s) = Inr u" "v = advance cx l rec u"
      unfolding verify_line_body [OF rc] by blast
    have "v_Records (vs_res v) = v_Records (vs_res s) + 1"
      using on_kind_frame(2) [OF r(3,4)] r(5) by simp
    with v(2) r rc show ?thesis by auto
  qed
  { case 1
    from step [OF 1] obtain rec u where *: "\<not> is_header rec" "on_kind cx rec (count_line s) = Inr u"
      "verify_lines cx ls (advance cx l rec u) = Inr t"
      "v_Records (vs_res (advance cx l rec u)) \<ge> 1" by blast
    show ?case using Cons.IH(1) [OF *(4,3)] on_kind_frame(1) [OF *(1,2)] by simp
  next
    case 2
    from step [OF 2] obtain rec u where *: "verify_lines cx ls (advance cx l rec u) = Inr t"
      "v_Records (vs_res (advance cx l rec u)) = v_Records (vs_res s) + 1"
      "v_Records (vs_res (advance cx l rec u)) \<ge> 1" by blast
    show ?case using Cons.IH(2) [OF *(3,1)] *(2) by simp
  next
    case 3
    from step [OF 3] obtain rec u where *: "unmarshal cx l = Some rec" "\<not> is_header rec"
      "on_kind cx rec (count_line s) = Inr u"
      "verify_lines cx ls (advance cx l rec u) = Inr t"
      "v_Records (vs_res (advance cx l rec u)) \<ge> 1" by blast
    show ?case using Cons.IH(3) [OF *(5,4)] on_kind_frame(3) [OF *(2,3)] *(1) by simp
  next
    case 4
    from step [OF 4] obtain rec u where *: "unmarshal cx l = Some rec" "\<not> is_header rec"
      "on_kind cx rec (count_line s) = Inr u"
      "verify_lines cx ls (advance cx l rec u) = Inr t"
      "v_Records (vs_res (advance cx l rec u)) \<ge> 1" by blast
    show ?case using Cons.IH(4) [OF *(5,4)] on_kind_frame(4) [OF *(2,3)] *(1)
      by (simp add: kind_of_def)
  next
    case 5
    from step [OF 5] obtain rec u where *: "verify_lines cx ls (advance cx l rec u) = Inr t"
      "v_Records (vs_res (advance cx l rec u)) \<ge> 1" by blast
    show ?case using Cons.IH(5) [OF *(2,1)] by simp
  next
    case 6
    from step [OF 6] obtain rec u where *: "r_Seq rec = vs_prevSeq s + 1"
      "verify_lines cx ls (advance cx l rec u) = Inr t"
      "v_Records (vs_res (advance cx l rec u)) \<ge> 1" by blast
    show ?case using Cons.IH(6) [OF *(3,2)] *(1) by simp }
qed

section \<open>The first line and the whole file\<close>

lemma vstate_init_simps [simp]:
  "vs_pub (vstate_init pinned) = pinned" "vs_res (vstate_init pinned) = zero_result"
  "vs_prevHash (vstate_init pinned) = ''''" "vs_prevSeq (vstate_init pinned) = 0"
  "vs_lastSigAt (vstate_init pinned) = 0" "vs_awaiting (vstate_init pinned) = []"
  "vs_heartbeatS (vstate_init pinned) = 0"
  by (simp_all add: vstate_init_def)

lemma zero_result_simps [simp]:
  "v_Records zero_result = 0" "v_Decisions zero_result = 0" "v_Kid zero_result = ''''"
  "v_Answered zero_result = 0" "v_Unmatched zero_result = 0" "v_Batches zero_result = 0"
  "v_Segment zero_result = 0" "v_FirstSeq zero_result = 0" "v_ContinuesFrom zero_result = ''''"
  "v_PrunedThroughSeq zero_result = 0" "v_Tenant zero_result = ''''"
  "v_Workload zero_result = ''''" "v_InstanceID zero_result = ''''"
  by (simp_all add: zero_result_def)

lemma on_kind_first_header:
  assumes "is_header rec" and "v_Records (vs_res s) = 1"
  shows "on_kind cx rec s = (case vs_pub s of Some p \<Rightarrow> on_header cx rec s
      | None \<Rightarrow> if file_key cx None rec = None then Inl BadHeaderKey else on_header cx rec s)"
    and "on_header cx rec s = Inr t \<Longrightarrow> vs_pub t = file_key cx (vs_pub s) rec \<and>
        v_Kid (vs_res t) = r_Kid rec \<and> v_Records (vs_res t) = 1 \<and>
        vs_lastSigAt t = vs_lastSigAt s \<and> v_Decisions (vs_res t) = v_Decisions (vs_res s) \<and>
        v_FirstSeq (vs_res t) = r_Seq rec \<and>
        v_Segment (vs_res t) = (if r_Segment rec = 0 then 1 else r_Segment rec) \<and>
        v_ContinuesFrom (vs_res t) = v_ContinuesFrom (vs_res s) \<and>
        v_Tenant (vs_res t) = r_Tenant rec \<and> v_Workload (vs_res t) = r_Workload rec \<and>
        v_InstanceID (vs_res t) = r_InstanceID rec"
    and "(\<exists>t. on_header cx rec s = Inr t) \<longleftrightarrow> file_key cx (vs_pub s) rec \<noteq> None"
  using assms
  by (auto simp: on_kind_def on_header_def is_header_def file_key_def Let_def split: option.splits)

definition first_state :: "('l, 'k, 'p) codec \<Rightarrow> 'p option \<Rightarrow> 'l \<Rightarrow> ledger_record \<Rightarrow> 'p vstate \<Rightarrow> bool" where
  "first_state cx pinned l rec t \<longleftrightarrow>
     vs_pub t = file_key cx pinned rec \<and> v_Kid (vs_res t) = file_kid rec \<and>
     v_Records (vs_res t) = 1 \<and> vs_prevHash t = line_hash cx l \<and> vs_prevSeq t = r_Seq rec \<and>
     vs_lastSigAt t = last_sig cx 0 [l] \<and>
     v_Decisions (vs_res t) = int (count_kind cx KindDecision [l]) \<and>
     v_FirstSeq (vs_res t) = (if is_header rec then r_Seq rec else 0) \<and>
     v_Segment (vs_res t) = (if is_header rec then if r_Segment rec = 0 then 1 else r_Segment rec else 0) \<and>
     v_ContinuesFrom (vs_res t) = fst (anchor rec) \<and>
     v_Tenant (vs_res t) = (if is_header rec then r_Tenant rec else '''') \<and>
     v_Workload (vs_res t) = (if is_header rec then r_Workload rec else '''') \<and>
     v_InstanceID (vs_res t) = (if is_header rec then r_InstanceID rec else '''')"

lemma verify_first_header:
  assumes h: "is_header rec" and u: "unmarshal cx l = Some rec"
  shows "(\<exists>t. verify_line cx l (vstate_init pinned) = Inr t) \<longleftrightarrow>
      (r_Segment rec > 1 \<longrightarrow> r_PrevHash rec \<noteq> '''') \<and> file_key cx pinned rec \<noteq> None \<and>
      r_Seq rec = snd (anchor rec) + 1 \<and> r_PrevHash rec = fst (anchor rec)" (is ?ex)
    and "verify_line cx l (vstate_init pinned) = Inr t \<Longrightarrow> first_state cx pinned l rec t"
proof -
  let ?cl = "count_line (vstate_init pinned)"
  let ?s = "?cl\<lparr>vs_prevHash := fst (anchor rec), vs_prevSeq := snd (anchor rec),
                vs_res := (vs_res ?cl)\<lparr>v_ContinuesFrom := fst (anchor rec)\<rparr>\<rparr>"
  have k: "r_Kind rec = KindHeader" using h by (simp add: is_header_def)
  have seed: "seed_continuation rec ?cl =
      (if r_Segment rec > 1 \<and> r_PrevHash rec = '''' then Inl (NoPredecessor (r_Segment rec))
       else Inr ?s)"
    using h k by (auto simp: seed_continuation_def anchor_def count_line_def vstate_init_def
        zero_result_def)
  have n1: "v_Records (vs_res ?s) = 1" by simp
  have nb: "r_Kind rec \<noteq> KindBatchSig" "r_Kind rec \<noteq> KindDecision" using k by simp_all
  have okind: "on_kind cx rec ?s = on_header cx rec ?s" by (simp add: on_kind_header [OF h])
  have eq: "verify_line cx l (vstate_init pinned) = Inr v \<longleftrightarrow>
      \<not> (r_Segment rec > 1 \<and> r_PrevHash rec = '''') \<and> r_Seq rec = snd (anchor rec) + 1 \<and>
      r_PrevHash rec = fst (anchor rec) \<and>
      (\<exists>w. on_header cx rec ?s = Inr w \<and> v = advance cx l rec w)" for v
    by (simp add: verify_line_def Let_def u seed and_then_eq_Inr check_link_eq_Inr okind
        split del: if_split cong: if_cong) (auto simp: okind)
  show ?ex unfolding eq using on_kind_first_header(3) [OF h n1, of cx] by auto
  assume "verify_line cx l (vstate_init pinned) = Inr t"
  then obtain w where w: "on_header cx rec ?s = Inr w" "t = advance cx l rec w"
    unfolding eq by blast
  show "first_state cx pinned l rec t"
    using on_kind_first_header(2) [OF h n1 w(1)] w(2) h u nb
    by (simp add: first_state_def file_kid_def kind_of_def)
qed

lemma verify_first_other:
  assumes h: "\<not> is_header rec" and u: "unmarshal cx l = Some rec"
  shows "(\<exists>t. verify_line cx l (vstate_init pinned) = Inr t) \<longleftrightarrow>
      (r_Kind rec = KindBatchSig \<longrightarrow> sig_ok cx pinned '''' rec) \<and>
      r_Seq rec = snd (anchor rec) + 1 \<and> r_PrevHash rec = fst (anchor rec)" (is ?ex)
    and "verify_line cx l (vstate_init pinned) = Inr t \<Longrightarrow> first_state cx pinned l rec t"
proof -
  let ?s = "count_line (vstate_init pinned)"
  have a: "anchor rec = ('''', 0)" using h by (simp add: anchor_def)
  have seed: "seed_continuation rec ?s = Inr ?s"
    using h by (simp add: seed_continuation_def is_header_def)
  have eq: "verify_line cx l (vstate_init pinned) = Inr v \<longleftrightarrow>
      r_Seq rec = snd (anchor rec) + 1 \<and> r_PrevHash rec = fst (anchor rec) \<and>
      (\<exists>w. on_kind cx rec ?s = Inr w \<and> v = advance cx l rec w)" for v
    by (auto simp: verify_line_def Let_def u seed and_then_eq_Inr check_link_eq_Inr a)
  show ?ex unfolding eq using on_kind_body [OF h, of cx ?s] by auto
  assume "verify_line cx l (vstate_init pinned) = Inr t"
  then obtain w where w: "on_kind cx rec ?s = Inr w" "t = advance cx l rec w"
    unfolding eq by blast
  note f = on_kind_frame [OF h w(1)]
  show "first_state cx pinned l rec t"
    using f(1) f(2-4) w(2) h u a
    by (simp add: first_state_def head_part_def file_kid_def file_key_def kind_of_def
        split: option.splits)
qed

lemma file_key_other: "\<not> is_header rec \<Longrightarrow> file_key cx pinned rec = pinned"
  by (simp add: file_key_def split: option.splits)

lemma verify_first:
  assumes "line_len cx l < maxLine"
  shows "(\<exists>t. verify_line cx l (vstate_init pinned) = Inr t) \<longleftrightarrow>
      (\<exists>rec. first_ok cx pinned l rec \<and> link cx (fst (anchor rec)) (snd (anchor rec)) [l])"
proof (cases "unmarshal cx l")
  case None
  then show ?thesis by (simp add: verify_line_def Let_def first_ok_def)
next
  case (Some rec)
  then show ?thesis
    using assms verify_first_header(1) [of rec cx l pinned] verify_first_other(1) [of rec cx l pinned]
    by (cases "is_header rec") (simp_all add: first_ok_def file_key_other conj_comms cong: conj_cong)
qed

lemma verify_first_state:
  assumes "unmarshal cx l = Some rec" and "verify_line cx l (vstate_init pinned) = Inr t"
  shows "first_state cx pinned l rec t"
proof (cases "is_header rec")
  case True
  then show ?thesis using assms by (rule verify_first_header(2))
next
  case False
  then show ?thesis using assms by (rule verify_first_other(2))
qed

lemma VerifyFile_Cons:
  "VerifyFile cx (l # ls) pinned = Inr res \<longleftrightarrow>
     (\<exists>t u. line_len cx l < maxLine \<and> verify_line cx l (vstate_init pinned) = Inr t \<and>
        verify_lines cx ls t = Inr u \<and> verify_finish u = Inr res)"
  by (auto simp: VerifyFile_def and_then_eq_Inr)

lemma verify_finish_ok:
  "v_Records (vs_res s) \<noteq> 0 \<Longrightarrow>
   (\<exists>r. verify_finish s = Inr r) \<longleftrightarrow> \<not> (vs_lastSigAt s = 0 \<and> v_Decisions (vs_res s) > 0)"
  by (simp add: verify_finish_def Let_def)

text \<open>The loop accepts exactly the well-formed exports.\<close>

lemma verify_accepts_iff: "(\<exists>res. VerifyFile cx ls pinned = Inr res) \<longleftrightarrow> export_ok cx pinned ls"
proof (cases ls)
  case Nil
  then show ?thesis by (simp add: VerifyFile_def verify_finish_def export_ok_def)
next
  case (Cons l0 rest)
  have fin: "(\<exists>res. VerifyFile cx (l0 # rest) pinned = Inr res) \<longleftrightarrow>
      (line_len cx l0 < maxLine \<and> first_ok cx pinned l0 rec \<and>
       link cx (fst (anchor rec)) (snd (anchor rec)) (l0 # rest) \<and>
       (\<forall>l \<in> set rest. body_ok cx (file_key cx pinned rec) (file_kid rec) l) \<and>
       (last_sig cx 0 (l0 # rest) = 0 \<longrightarrow> count_kind cx KindDecision (l0 # rest) = 0))"
    if u: "unmarshal cx l0 = Some rec" for rec
  proof (cases "\<exists>t. line_len cx l0 < maxLine \<and> verify_line cx l0 (vstate_init pinned) = Inr t")
    case False
    then have "\<not> (line_len cx l0 < maxLine \<and> first_ok cx pinned l0 rec \<and>
        link cx (fst (anchor rec)) (snd (anchor rec)) [l0])"
      using verify_first [of cx l0 pinned] by blast
    moreover have "\<not> (\<exists>res. VerifyFile cx (l0 # rest) pinned = Inr res)"
      using False unfolding VerifyFile_Cons by blast
    ultimately show ?thesis using u by auto
  next
    case True
    then obtain t where len: "line_len cx l0 < maxLine"
      and t: "verify_line cx l0 (vstate_init pinned) = Inr t" by blast
    have fs: "first_state cx pinned l0 rec t" by (rule verify_first_state [OF u t])
    then have n: "v_Records (vs_res t) \<ge> 1" by (simp add: first_state_def)
    obtain rec' where "first_ok cx pinned l0 rec'" "link cx (fst (anchor rec')) (snd (anchor rec')) [l0]"
      using verify_first [OF len, of pinned] t by blast
    with u have fok: "first_ok cx pinned l0 rec" "link cx (fst (anchor rec)) (snd (anchor rec)) [l0]"
      by (auto simp: first_ok_def)
    have body: "(\<exists>v. verify_lines cx rest t = Inr v) \<longleftrightarrow> link cx (line_hash cx l0) (r_Seq rec) rest \<and>
        (\<forall>l \<in> set rest. body_ok cx (file_key cx pinned rec) (file_kid rec) l)"
      using verify_lines_body [OF n, of cx rest] fs by (simp add: first_state_def)
    have last: "(\<exists>r. verify_finish v = Inr r) \<longleftrightarrow>
        (last_sig cx 0 (l0 # rest) = 0 \<longrightarrow> count_kind cx KindDecision (l0 # rest) = 0)"
      if v: "verify_lines cx rest t = Inr v" for v
    proof -
      have "v_Records (vs_res v) \<noteq> 0" using verify_lines_body_state(2) [OF n v] n by simp
      moreover have "vs_lastSigAt v = last_sig cx 0 (l0 # rest)"
        using verify_lines_body_state(3) [OF n v] fs last_sig_append [of cx 0 "[l0]" rest]
        by (simp add: first_state_def)
      moreover have "v_Decisions (vs_res v) = int (count_kind cx KindDecision (l0 # rest))"
        using verify_lines_body_state(4) [OF n v] fs by (simp add: first_state_def)
      ultimately show ?thesis
        by (simp add: verify_finish_ok del: last_sig.simps count_kind_Cons)
    qed
    have "(\<exists>res. VerifyFile cx (l0 # rest) pinned = Inr res) \<longleftrightarrow>
        (\<exists>v. verify_lines cx rest t = Inr v \<and> (\<exists>r. verify_finish v = Inr r))"
      using len t unfolding VerifyFile_Cons by auto
    also have "\<dots> \<longleftrightarrow> (\<exists>v. verify_lines cx rest t = Inr v) \<and>
        (last_sig cx 0 (l0 # rest) = 0 \<longrightarrow> count_kind cx KindDecision (l0 # rest) = 0)"
      using last by blast
    also have "\<dots> \<longleftrightarrow> (line_len cx l0 < maxLine \<and> first_ok cx pinned l0 rec \<and>
       link cx (fst (anchor rec)) (snd (anchor rec)) (l0 # rest) \<and>
       (\<forall>l \<in> set rest. body_ok cx (file_key cx pinned rec) (file_kid rec) l) \<and>
       (last_sig cx 0 (l0 # rest) = 0 \<longrightarrow> count_kind cx KindDecision (l0 # rest) = 0))"
      using len fok u unfolding body by auto
    finally show ?thesis .
  qed
  show ?thesis
  proof (cases "unmarshal cx l0")
    case None
    then have "\<not> (\<exists>res. VerifyFile cx (l0 # rest) pinned = Inr res)"
      unfolding VerifyFile_Cons by (simp add: verify_line_def Let_def)
    moreover have "\<not> export_ok cx pinned ls" using None Cons by (simp add: export_ok_def)
    ultimately show ?thesis using Cons by simp
  next
    case (Some rec)
    have "export_ok cx pinned ls \<longleftrightarrow> (line_len cx l0 < maxLine \<and> first_ok cx pinned l0 rec \<and>
       link cx (fst (anchor rec)) (snd (anchor rec)) (l0 # rest) \<and>
       (\<forall>l \<in> set rest. body_ok cx (file_key cx pinned rec) (file_kid rec) l) \<and>
       (last_sig cx 0 (l0 # rest) = 0 \<longrightarrow> count_kind cx KindDecision (l0 # rest) = 0))"
      using Some Cons by (auto simp: export_ok_def first_ok_def)
    with fin [OF Some] Cons show ?thesis by simp
  qed
qed

end
