(* ===== verification/Ledger_Writer.thy ===== *)
theory Ledger_Writer
  imports Ledger_Record
begin

text \<open>
  The writer of \<open>proxy/internal/ledger/ledger.go\<close>: partitions, the ledger, \<open>appendLine\<close>,
  \<open>signBatch\<close>, the file handle and map bounds (\<open>openFile\<close>, \<open>evictLRU\<close>,
  \<open>forgetColdest\<close>), \<open>scanTail\<close>, \<open>part\<close>, \<open>roll\<close>, \<open>write\<close>, the gap counters, the heartbeat,
  the queue and the writer goroutine's loop body, \<open>Close\<close> and \<open>Prune\<close>.

  The mutable state is passed explicitly.  A \<open>*partition\<close> is a value that the ledger
  operations store back under its name.  The environment is part of the ledger state:
  \<open>l_disk\<close> the files of the export directory by base name, \<open>l_fault\<close> which of the numbered
  I/O calls fail, \<open>l_io\<close> the next such number (it also numbers the signatures'
  randomness), and \<open>l_now\<close> the clock.  \<open>bufio.Writer\<close> keeps written lines in \<open>p_buf\<close>
  until a flush and remembers its first error (\<open>p_werr\<close>), after which it refuses
  everything.
\<close>

datatype ledger_error =
    MarshalError | WriteError | SignError | OpenError | SyncError | CloseError | RemoveError
  | ScanTooLong | CorruptTail string | LedgerClosed | QueueFull | KeepTooSmall int
  | NothingToDescribe int | OtherChainKey string | KeyInsideExport string | KeyUnavailable

record 'l partition =
  p_f :: "string option"
  p_fclosed :: bool
  p_buf :: "'l list"
  p_werr :: bool
  p_seq :: u64
  p_headHash :: string
  p_unsigned :: nat
  p_firstUnsig :: u64
  p_used :: u64
  p_segment :: nat
  p_bytes :: int

record identity =
  id_Tenant :: string
  id_Instance :: string
  id_Producer :: string

record gap_counts =
  g_dropped :: u64
  g_writeErrors :: u64
  g_identityFail :: u64

record segment_seed =
  sd_segment :: nat
  sd_seq :: u64
  sd_head :: string

text \<open>A queue item: a record (with whether a caller waits on it), or a prune request.\<close>

datatype queued = QRecord string ledger_record bool | QPrune int

record ('l, 'k) ledger =
  l_id :: identity
  l_kid :: string
  l_key :: 'k
  l_pubB64 :: string
  l_queue :: "queued list"
  l_seeds :: "segment_seed gomap"
  l_maxSegment :: int
  l_maxParts :: nat
  l_Dropped :: u64
  l_WriteErrors :: u64
  l_IdentityFail :: u64
  l_closed :: bool
  l_gaps :: "gap_counts gomap"
  l_parts :: "'l partition gomap"
  l_clock :: u64
  l_open :: int
  l_hbTS :: gotime
  l_gapTS :: gotime
  l_disk :: "'l list gomap"
  l_fault :: "nat \<Rightarrow> bool"
  l_io :: nat
  l_now :: gotime

definition io_fails :: "('l, 'k) ledger \<Rightarrow> bool" where
  "io_fails l = l_fault l (l_io l)"

definition io_next :: "('l, 'k) ledger \<Rightarrow> ('l, 'k) ledger" where
  "io_next l = l\<lparr>l_io := Suc (l_io l)\<rparr>"

definition file_of :: "('l, 'k) ledger \<Rightarrow> string \<Rightarrow> 'l list" where
  "file_of l path = (case map_of (l_disk l) path of None \<Rightarrow> [] | Some ls \<Rightarrow> ls)"

definition now_s :: "('l, 'k, 'p) codec \<Rightarrow> ('l, 'k) ledger \<Rightarrow> string" where
  "now_s cx l = fmt_time cx (l_now l)"

section \<open>The buffered file\<close>

text \<open>\<open>p.w.Flush()\<close>: the sticky error first, nothing to do on an empty buffer, else a write.\<close>

definition flush :: "('l, 'k) ledger \<times> 'l partition
    \<Rightarrow> ledger_error option \<times> ('l, 'k) ledger \<times> 'l partition" where
  "flush lp = (case lp of (l, p) \<Rightarrow>
     if p_werr p then (Some WriteError, l, p)
     else if p_buf p = [] then (None, l, p)
     else if io_fails l \<or> p_fclosed p then (Some WriteError, io_next l, p\<lparr>p_werr := True\<rparr>)
     else case p_f p of
       None \<Rightarrow> (Some WriteError, io_next l, p\<lparr>p_werr := True\<rparr>)
     | Some path \<Rightarrow> (None, (io_next l)\<lparr>l_disk := map_put path (file_of l path @ p_buf p) (l_disk l)\<rparr>,
                     p\<lparr>p_buf := []\<rparr>))"

definition fsync :: "('l, 'k) ledger \<times> 'l partition
    \<Rightarrow> ledger_error option \<times> ('l, 'k) ledger \<times> 'l partition" where
  "fsync lp = (case lp of (l, p) \<Rightarrow>
     if io_fails l \<or> p_fclosed p then (Some SyncError, io_next l, p) else (None, io_next l, p))"

definition fclose :: "('l, 'k) ledger \<times> 'l partition
    \<Rightarrow> ledger_error option \<times> ('l, 'k) ledger \<times> 'l partition" where
  "fclose lp = (case lp of (l, p) \<Rightarrow>
     if io_fails l \<or> p_fclosed p then (Some CloseError, io_next l, p\<lparr>p_fclosed := True\<rparr>)
     else (None, io_next l, p\<lparr>p_fclosed := True\<rparr>))"

text \<open>\<open>if err := step(); err != nil \<open>{ return err }\<close>\<close>.\<close>

definition then_do :: "ledger_error option \<times> 's \<Rightarrow> ('s \<Rightarrow> ledger_error option \<times> 's)
    \<Rightarrow> ledger_error option \<times> 's" where
  "then_do r f = (case r of (Some e, s) \<Rightarrow> (Some e, s) | (None, s) \<Rightarrow> f s)"

section \<open>Lines\<close>

definition counts_unsigned :: "string \<Rightarrow> bool" where
  "counts_unsigned k \<longleftrightarrow> k = KindDecision \<or> k = KindResponse \<or> k = KindCoverage"

definition appendLine :: "('l, 'k, 'p) codec \<Rightarrow> ledger_record \<Rightarrow> ('l, 'k) ledger \<times> 'l partition
    \<Rightarrow> ledger_error option \<times> ('l, 'k) ledger \<times> 'l partition" where
  "appendLine cx rec lp = (case lp of (l, p) \<Rightarrow>
     (case marshal cx rec of
        None \<Rightarrow> (Some MarshalError, l, p)
      | Some line \<Rightarrow>
          if p_werr p \<or> io_fails l then (Some WriteError, io_next l, p\<lparr>p_werr := True\<rparr>)
          else (None, io_next l,
             p\<lparr>p_buf := p_buf p @ [line],
               p_bytes := p_bytes p + int (line_len cx line) + 1,
               p_headHash := line_hash cx line,
               p_seq := r_Seq rec,
               p_unsigned := (if counts_unsigned (r_Kind rec) then Suc (p_unsigned p)
                              else p_unsigned p)\<rparr>)))"

definition batch_record :: "('l, 'k, 'p) codec \<Rightarrow> ('l, 'k) ledger \<Rightarrow> 'l partition \<Rightarrow> ledger_record" where
  "batch_record cx l p = zero_record\<lparr>r_Kind := KindBatchSig, r_TS := now_s cx l, r_Kid := l_kid l,
     r_FirstSeq := p_firstUnsig p, r_Seq := p_seq p + 1, r_PrevHash := p_headHash p\<rparr>"

definition signBatch :: "('l, 'k, 'p) codec \<Rightarrow> ('l, 'k) ledger \<times> 'l partition
    \<Rightarrow> ledger_error option \<times> ('l, 'k) ledger \<times> 'l partition" where
  "signBatch cx lp = (case lp of (l, p) \<Rightarrow>
     let rec = batch_record cx l p in
     (case marshal cx rec of
        None \<Rightarrow> (Some MarshalError, l, p)
      | Some canon \<Rightarrow>
          (case ecdsa_sign cx (l_key l) (l_io l) (sha_line cx canon) of
             None \<Rightarrow> (Some SignError, l, p)
           | Some sg \<Rightarrow>
               then_do (appendLine cx (rec\<lparr>r_Sig := b64_enc cx sg\<rparr>) (l, p))
                 (\<lambda>(l, p). flush (l, p\<lparr>p_unsigned := 0\<rparr>)))))"

section \<open>File names\<close>

definition dec04 :: "nat \<Rightarrow> string" where
  "dec04 n = replicate (4 - length (itoa n)) (digit 0) @ itoa n"

definition readable_char :: "char \<Rightarrow> char" where
  "readable_char c = (let n = of_char c :: nat in
     if 97 \<le> n \<and> n \<le> 122 \<or> 48 \<le> n \<and> n \<le> 57 \<or> n = 46 \<or> n = 45 then c else CHR ''_'')"

text \<open>The base name of \<open>path(name)\<close>; \<open>segPath\<close> with the segment number in it.\<close>

definition path_of :: "('l, 'k, 'p) codec \<Rightarrow> string \<Rightarrow> string" where
  "path_of cx name = take 64 (map readable_char (to_lower name)) @ ''-''
     @ hex (take 8 (sha_str cx name)) @ ''.jsonl''"

definition segPath :: "('l, 'k, 'p) codec \<Rightarrow> string \<Rightarrow> nat \<Rightarrow> string" where
  "segPath cx name n =
     (if n \<le> 1 then path_of cx name
      else trim_suffix (path_of cx name) ''.jsonl'' @ ''.s'' @ dec04 n @ ''.jsonl'')"

definition exists_file :: "('l, 'k) ledger \<Rightarrow> string \<Rightarrow> bool" where
  "exists_file l path \<longleftrightarrow> map_of (l_disk l) path \<noteq> None"

text \<open>The loop of \<open>latestSegment\<close>; the fuel is the number of files, see \<open>latest_enough\<close>.\<close>

fun latest_from :: "(nat \<Rightarrow> bool) \<Rightarrow> nat \<Rightarrow> nat \<Rightarrow> nat" where
  "latest_from present 0 n = n"
| "latest_from present (Suc fuel) n =
     (if present (n + 1) then latest_from present fuel (n + 1) else n)"

definition latestSegment :: "('l, 'k, 'p) codec \<Rightarrow> string \<Rightarrow> ('l, 'k) ledger \<Rightarrow> nat" where
  "latestSegment cx name l =
     (if \<not> exists_file l (path_of cx name) then 0
      else latest_from (\<lambda>n. exists_file l (segPath cx name n)) (length (l_disk l)) 1)"

section \<open>Resuming\<close>

text \<open>The scan of \<open>scanTail\<close>: lines seen, lines after the last batch signature.\<close>

definition scanLine :: "nat" where
  "scanLine = 1048576"

fun scan_lines :: "('l, 'k, 'p) codec \<Rightarrow> 'l list \<Rightarrow> nat \<Rightarrow> nat \<Rightarrow> (nat \<times> nat) option" where
  "scan_lines cx [] count uns = Some (count, uns)"
| "scan_lines cx (l # ls) count uns =
     (if line_len cx l \<ge> scanLine then None
      else scan_lines cx ls (Suc count)
        (case unmarshal cx l of
           Some rec \<Rightarrow> if r_Kind rec = KindBatchSig then 0 else Suc uns
         | None \<Rightarrow> Suc uns))"

definition scanTail :: "('l, 'k, 'p) codec \<Rightarrow> string \<Rightarrow> ('l, 'k) ledger
    \<Rightarrow> ledger_error + (u64 \<times> string \<times> nat \<times> nat)" where
  "scanTail cx path l =
     (case map_of (l_disk l) path of
        None \<Rightarrow> Inr (0, '''', 0, 0)
      | Some ls \<Rightarrow>
          (case scan_lines cx ls 0 0 of
             None \<Rightarrow> Inl ScanTooLong
           | Some (count, uns) \<Rightarrow>
               if count = 0 then Inr (0, '''', 0, 0)
               else (case unmarshal cx (last ls) of
                       None \<Rightarrow> Inl (CorruptTail path)
                     | Some rec \<Rightarrow> Inr (r_Seq rec, line_hash cx (last ls), count, uns))))"

definition file_size :: "('l, 'k, 'p) codec \<Rightarrow> 'l list \<Rightarrow> int" where
  "file_size cx ls = (\<Sum>l\<leftarrow>ls. int (line_len cx l) + 1)"

section \<open>Gap counters\<close>

definition zero_gap :: gap_counts where
  "zero_gap = \<lparr>g_dropped = 0, g_writeErrors = 0, g_identityFail = 0\<rparr>"

definition gap_add :: "string \<Rightarrow> (gap_counts \<Rightarrow> gap_counts) \<Rightarrow> ('l, 'k) ledger \<Rightarrow> ('l, 'k) ledger" where
  "gap_add part f l = l\<lparr>l_gaps := map_put part
     (f (case map_of (l_gaps l) part of Some g \<Rightarrow> g | None \<Rightarrow> zero_gap)) (l_gaps l)\<rparr>"

definition countDropped :: "string \<Rightarrow> ('l, 'k) ledger \<Rightarrow> ('l, 'k) ledger" where
  "countDropped part l =
     (gap_add part (\<lambda>g. g\<lparr>g_dropped := g_dropped g + 1\<rparr>) l)\<lparr>l_Dropped := l_Dropped l + 1\<rparr>"

definition countWriteError :: "string \<Rightarrow> ('l, 'k) ledger \<Rightarrow> ('l, 'k) ledger" where
  "countWriteError part l =
     (gap_add part (\<lambda>g. g\<lparr>g_writeErrors := g_writeErrors g + 1\<rparr>) l)
       \<lparr>l_WriteErrors := l_WriteErrors l + 1\<rparr>"

definition RecordIdentityGap :: "string \<Rightarrow> ('l, 'k) ledger \<Rightarrow> ('l, 'k) ledger" where
  "RecordIdentityGap part l =
     (gap_add part (\<lambda>g. g\<lparr>g_identityFail := g_identityFail g + 1\<rparr>) l)
       \<lparr>l_IdentityFail := l_IdentityFail l + 1\<rparr>"

definition takeGaps :: "('l, 'k) ledger \<Rightarrow> gap_counts gomap \<times> ('l, 'k) ledger" where
  "takeGaps l = (l_gaps l, l\<lparr>l_gaps := []\<rparr>)"

section \<open>File handles and the partition map\<close>

definition put_part :: "string \<Rightarrow> 'l partition \<Rightarrow> ('l, 'k) ledger \<Rightarrow> ('l, 'k) ledger" where
  "put_part name p l = l\<lparr>l_parts := map_put name p (l_parts l)\<rparr>"

text \<open>The two victim scans: least \<open>used\<close> among the candidates, the first one on a tie.\<close>

fun coldest :: "(string \<Rightarrow> 'l partition \<Rightarrow> bool) \<Rightarrow> 'l partition gomap
    \<Rightarrow> (string \<times> 'l partition) option \<Rightarrow> (string \<times> 'l partition) option" where
  "coldest ok [] best = best"
| "coldest ok ((name, p) # ps) best =
     (if \<not> ok name p then coldest ok ps best
      else case best of
        None \<Rightarrow> coldest ok ps (Some (name, p))
      | Some (bn, bp) \<Rightarrow> coldest ok ps (if p_used p < p_used bp then Some (name, p) else best))"

definition or_err :: "ledger_error option \<Rightarrow> ledger_error option \<Rightarrow> ledger_error option" where
  "or_err e e' = (case e of None \<Rightarrow> e' | Some x \<Rightarrow> Some x)"

definition evictLRU :: "('l, 'k, 'p) codec \<Rightarrow> string \<Rightarrow> ('l, 'k) ledger \<Rightarrow> ('l, 'k) ledger" where
  "evictLRU cx except l =
     (case coldest (\<lambda>name p. name \<noteq> except \<and> p_f p \<noteq> None) (l_parts l) None of
        None \<Rightarrow> l
      | Some (vname, v) \<Rightarrow>
          let (e1, l, v) = (if p_unsigned v > 0 then signBatch cx (l, v) else (None, l, v));
              (e2, l, v) = flush (l, v);
              (e3, l, v) = fclose (l, v);
              err = or_err (or_err e1 e2) e3;
              v = v\<lparr>p_f := None, p_buf := [], p_werr := False, p_fclosed := False\<rparr>;
              l = put_part vname v (l\<lparr>l_open := l_open l - 1\<rparr>)
          in if err \<noteq> None
             then (let l = countWriteError vname l in l\<lparr>l_parts := map_del vname (l_parts l)\<rparr>)
             else l)"

definition openFile :: "('l, 'k, 'p) codec \<Rightarrow> string \<Rightarrow> ('l, 'k) ledger \<times> 'l partition
    \<Rightarrow> ledger_error option \<times> ('l, 'k) ledger \<times> 'l partition" where
  "openFile cx name lp = (case lp of (l, p) \<Rightarrow>
     let l = (if l_open l \<ge> int maxOpenParts then evictLRU cx name l else l);
         path = segPath cx name (p_segment p)
     in if io_fails l then (Some OpenError, io_next l, p)
        else (None,
              (io_next l)\<lparr>l_open := l_open l + 1,
                 l_disk := (if exists_file l path then l_disk l else map_put path [] (l_disk l))\<rparr>,
              p\<lparr>p_f := Some path, p_fclosed := False, p_buf := [], p_werr := False\<rparr>))"

definition forgetColdest :: "('l, 'k) ledger \<Rightarrow> ('l, 'k) ledger" where
  "forgetColdest l =
     (if length (l_parts l) < l_maxParts l then l
      else case coldest (\<lambda>name p. p_f p = None) (l_parts l) None of
        None \<Rightarrow> l
      | Some (vname, v) \<Rightarrow> l\<lparr>l_parts := map_del vname (l_parts l)\<rparr>)"

definition workload_of :: "string \<Rightarrow> string" where
  "workload_of name = (case cut_after (CHR ''/'') name of None \<Rightarrow> '''' | Some w \<Rightarrow> w)"

definition header_record :: "('l, 'k, 'p) codec \<Rightarrow> string \<Rightarrow> ('l, 'k) ledger \<Rightarrow> 'l partition \<Rightarrow> ledger_record" where
  "header_record cx name l p = zero_record\<lparr>r_Kind := KindHeader, r_TS := now_s cx l,
     r_Seq := p_seq p + 1, r_SchemaVersion := SchemaVersion, r_Producer := id_Producer (l_id l),
     r_Tenant := id_Tenant (l_id l), r_Workload := workload_of name,
     r_InstanceID := id_Instance (l_id l), r_HeartbeatS := heartbeatMax_s,
     r_Kid := l_kid l, r_PubKey := l_pubB64 l, r_Segment := int (p_segment p),
     r_PrevHash := p_headHash p\<rparr>"

definition resumed_record :: "('l, 'k, 'p) codec \<Rightarrow> nat \<Rightarrow> ('l, 'k) ledger \<Rightarrow> 'l partition \<Rightarrow> ledger_record" where
  "resumed_record cx inherited l p = zero_record\<lparr>r_Kind := KindCoverage, r_Reason := ReasonResumed,
     r_TS := now_s cx l, r_WindowFrom := now_s cx l, r_WindowTo := now_s cx l,
     r_InheritedUnsigned := of_nat inherited, r_Seq := p_seq p + 1, r_PrevHash := p_headHash p\<rparr>"

definition new_partition :: "nat \<Rightarrow> u64 \<Rightarrow> string \<Rightarrow> u64 \<Rightarrow> int \<Rightarrow> 'l partition" where
  "new_partition segment sq head used sz = \<lparr>p_f = None, p_fclosed = False, p_buf = [],
     p_werr = False, p_seq = sq, p_headHash = head, p_unsigned = 0, p_firstUnsig = 0,
     p_used = used, p_segment = segment, p_bytes = sz\<rparr>"

text \<open>\<open>part\<close> when the name is in the map.\<close>

definition part_known :: "('l, 'k, 'p) codec \<Rightarrow> string \<Rightarrow> 'l partition \<Rightarrow> ('l, 'k) ledger
    \<Rightarrow> (ledger_error + 'l partition) \<times> ('l, 'k) ledger" where
  "part_known cx name p l =
     (let (e, l, p) = (if p_f p = None then openFile cx name (l, p) else (None, l, p))
      in case e of
           Some err \<Rightarrow> (Inl err, put_part name p l)
         | None \<Rightarrow> let p = p\<lparr>p_used := l_clock l\<rparr> in (Inr p, put_part name p l))"

text \<open>The records \<open>part\<close> writes itself: the resumed mark and the header.\<close>

definition part_marks :: "('l, 'k, 'p) codec \<Rightarrow> string \<Rightarrow> nat \<Rightarrow> nat \<Rightarrow> ('l, 'k) ledger \<times> 'l partition
    \<Rightarrow> ledger_error option \<times> ('l, 'k) ledger \<times> 'l partition" where
  "part_marks cx name count inherited lp = (case lp of (l, p) \<Rightarrow>
     let (l, p) = (if inherited > 0
                   then snd (appendLine cx (resumed_record cx inherited l p) (l, p))
                   else (l, p))
     in if count = 0 then appendLine cx (header_record cx name l p) (l, p)
        else (None, l, p))"

definition part_new :: "('l, 'k, 'p) codec \<Rightarrow> string \<Rightarrow> ('l, 'k) ledger
    \<Rightarrow> (ledger_error + 'l partition) \<times> ('l, 'k) ledger" where
  "part_new cx name l =
     (let latest = (if latestSegment cx name l = 0 then 1 else latestSegment cx name l)
      in case scanTail cx (segPath cx name latest) l of
           Inl e \<Rightarrow> (Inl e, l)
         | Inr (sq, head, count, inherited) \<Rightarrow>
             let (sq, head, segment, l) =
               (case map_of (l_seeds l) name of
                  Some sd \<Rightarrow>
                    if count = 0 then (sd_seq sd, sd_head sd, sd_segment sd,
                                       l\<lparr>l_seeds := map_del name (l_seeds l)\<rparr>)
                    else (sq, head, latest, l)
                | None \<Rightarrow> (sq, head, latest, l));
               p = new_partition segment sq head (l_clock l)
                     (file_size cx (file_of l (segPath cx name segment)))
             in case openFile cx name (l, p) of
                  (Some e, l, p) \<Rightarrow> (Inl e, l)
                | (None, l, p) \<Rightarrow>
                    let l = forgetColdest l;
                        (e, l, p) = part_marks cx name count inherited (l, p);
                        l = put_part name p l
                    in (case e of Some err \<Rightarrow> (Inl err, l) | None \<Rightarrow> (Inr p, l)))"

definition part :: "('l, 'k, 'p) codec \<Rightarrow> string \<Rightarrow> ('l, 'k) ledger
    \<Rightarrow> (ledger_error + 'l partition) \<times> ('l, 'k) ledger" where
  "part cx name l0 =
     (let l = l0\<lparr>l_clock := l_clock l0 + 1\<rparr>
      in case map_of (l_parts l) name of
           Some p \<Rightarrow> part_known cx name p l
         | None \<Rightarrow> part_new cx name l)"

definition seedSegment :: "string \<Rightarrow> nat \<Rightarrow> u64 \<Rightarrow> string \<Rightarrow> ('l, 'k) ledger \<Rightarrow> ('l, 'k) ledger" where
  "seedSegment name segment afterSeq afterHash l =
     l\<lparr>l_seeds := map_put name \<lparr>sd_segment = segment, sd_seq = afterSeq, sd_head = afterHash\<rparr> (l_seeds l)\<rparr>"

end
