(* ===== verification/Ledger_Ops.thy ===== *)
theory Ledger_Ops
  imports Ledger_Writer
begin

text \<open>
  The operations of the writer goroutine and the public API of the ledger: \<open>roll\<close>,
  \<open>write\<close>, \<open>writeGaps\<close>, \<open>writeHeartbeat\<close>, one turn of \<open>run\<close> (a queue item or a tick),
  \<open>Append\<close>, \<open>AppendResponse\<close>, \<open>AppendSync\<close>, \<open>Close\<close>, \<open>Open\<close> and \<open>Prune\<close>.
  The order of turns is whatever sequence of these operations a run consists of.
\<close>

section \<open>Rolling to the next segment\<close>

definition release :: "('l, 'k) ledger \<times> 'l partition
    \<Rightarrow> ledger_error option \<times> ('l, 'k) ledger \<times> 'l partition" where
  "release lp = (case lp of (l, p) \<Rightarrow>
     (None, l\<lparr>l_open := l_open l - 1\<rparr>,
      p\<lparr>p_f := None, p_buf := [], p_werr := False, p_fclosed := False,
        p_segment := p_segment p + 1, p_bytes := 0\<rparr>))"

definition roll :: "('l, 'k, 'p) codec \<Rightarrow> string \<Rightarrow> ('l, 'k) ledger \<times> 'l partition
    \<Rightarrow> ledger_error option \<times> ('l, 'k) ledger \<times> 'l partition" where
  "roll cx name lp =
     then_do (if p_unsigned (snd lp) > 0 then signBatch cx lp else (None, lp)) (\<lambda>lp.
     then_do (flush lp) (\<lambda>lp.
     then_do (fsync lp) (\<lambda>lp.
     then_do (fclose lp) (\<lambda>lp.
     then_do (release lp) (\<lambda>lp.
     then_do (openFile cx name lp) (\<lambda>(l, p).
       appendLine cx (header_record cx name l p) (l, p)))))))"

section \<open>write\<close>

text \<open>
  After the record: the first unsigned sequence number, a full batch is signed (its error
  ignored), an oversized segment is rolled (its error counted).
\<close>

definition after_append :: "('l, 'k, 'p) codec \<Rightarrow> string \<Rightarrow> u64 \<Rightarrow> ('l, 'k) ledger \<times> 'l partition
    \<Rightarrow> ('l, 'k) ledger \<times> 'l partition" where
  "after_append cx name sq lp =
     (let (l, p) = lp;
          p = (if p_unsigned p = 1 then p\<lparr>p_firstUnsig := sq\<rparr> else p);
          (l, p) = (if p_unsigned p \<ge> batchMaxRecords then snd (signBatch cx (l, p)) else (l, p))
      in if p_bytes p \<ge> l_maxSegment l
         then (case roll cx name (l, p) of
                 (None, lp) \<Rightarrow> lp
               | (Some e, l, p) \<Rightarrow> (countWriteError name l, p))
         else (l, p))"

definition ledger_write :: "('l, 'k, 'p) codec \<Rightarrow> string \<Rightarrow> ledger_record \<Rightarrow> ('l, 'k) ledger
    \<Rightarrow> ledger_error option \<times> ('l, 'k) ledger" where
  "ledger_write cx name rec0 l =
     (case part cx name l of
        (Inl e, l) \<Rightarrow> (Some e, countWriteError name l)
      | (Inr p, l) \<Rightarrow>
          let rec = rec0\<lparr>r_Seq := p_seq p + 1, r_PrevHash := p_headHash p\<rparr>
          in case appendLine cx rec (l, p) of
               (Some e, l, p) \<Rightarrow> (Some e, countWriteError name (put_part name p l))
             | (None, l, p) \<Rightarrow>
                 let (l, p) = after_append cx name (r_Seq rec) (l, p)
                 in (None, put_part name p l))"

section \<open>Findings and heartbeats\<close>

definition gap_record :: "('l, 'k, 'p) codec \<Rightarrow> gotime \<Rightarrow> gap_counts \<Rightarrow> ('l, 'k) ledger \<Rightarrow> ledger_record" where
  "gap_record cx to g l = zero_record\<lparr>r_Kind := KindCoverage, r_Reason := ReasonGap,
     r_TS := fmt_time cx to, r_WindowFrom := fmt_time cx (l_gapTS l), r_WindowTo := fmt_time cx to,
     r_Dropped := g_dropped g, r_WriteErrors := g_writeErrors g, r_IdentityFail := g_identityFail g\<rparr>"

definition put_back :: "string \<Rightarrow> gap_counts \<Rightarrow> ('l, 'k) ledger \<Rightarrow> ('l, 'k) ledger" where
  "put_back name g l = gap_add name (\<lambda>b. b\<lparr>g_dropped := g_dropped b + g_dropped g,
     g_writeErrors := g_writeErrors b + g_writeErrors g,
     g_identityFail := g_identityFail b + g_identityFail g\<rparr>) l"

fun write_pending :: "('l, 'k, 'p) codec \<Rightarrow> gotime \<Rightarrow> gap_counts gomap \<Rightarrow> ('l, 'k) ledger
    \<Rightarrow> ('l, 'k) ledger" where
  "write_pending cx to [] l = l"
| "write_pending cx to ((name, g) # gs) l =
     (case ledger_write cx name (gap_record cx to g l) l of
        (None, l) \<Rightarrow> write_pending cx to gs l
      | (Some e, l) \<Rightarrow> write_pending cx to gs (put_back name g l))"

definition writeGaps :: "('l, 'k, 'p) codec \<Rightarrow> ('l, 'k) ledger \<Rightarrow> ('l, 'k) ledger" where
  "writeGaps cx l =
     (let (pending, l) = takeGaps l
      in if pending = [] then l
         else let to = l_now l in (write_pending cx to pending l)\<lparr>l_gapTS := to\<rparr>)"

definition lifecycle_record :: "('l, 'k, 'p) codec \<Rightarrow> string \<Rightarrow> gotime \<Rightarrow> ('l, 'k) ledger \<Rightarrow> ledger_record" where
  "lifecycle_record cx reason now l = zero_record\<lparr>r_Kind := KindCoverage, r_Reason := reason,
     r_TS := fmt_time cx now, r_WindowFrom := fmt_time cx (l_hbTS l), r_WindowTo := fmt_time cx now\<rparr>"

definition writeHeartbeat :: "('l, 'k, 'p) codec \<Rightarrow> gotime \<Rightarrow> int \<Rightarrow> ('l, 'k) ledger \<Rightarrow> ('l, 'k) ledger" where
  "writeHeartbeat cx now maxd l =
     (if now - l_hbTS l < maxd then l
      else (snd (ledger_write cx ProxyPartition (lifecycle_record cx ReasonHeartbeat now l) l))
             \<lparr>l_hbTS := now\<rparr>)"

section \<open>One turn of the writer goroutine\<close>

text \<open>Signing and flushing every open partition, on a tick and at \<open>Close\<close>.\<close>

definition sign_flush :: "('l, 'k, 'p) codec \<Rightarrow> ('l, 'k) ledger \<times> 'l partition
    \<Rightarrow> ledger_error option \<times> ('l, 'k) ledger \<times> 'l partition" where
  "sign_flush cx lp =
     (let (e1, lp) = (if p_unsigned (snd lp) > 0 then signBatch cx lp else (None, lp));
          (e2, lp) = flush lp
      in (or_err e1 e2, lp))"

fun tick_parts :: "('l, 'k, 'p) codec \<Rightarrow> string list \<Rightarrow> ('l, 'k) ledger \<Rightarrow> ('l, 'k) ledger" where
  "tick_parts cx [] l = l"
| "tick_parts cx (name # ns) l =
     (case map_of (l_parts l) name of
        None \<Rightarrow> tick_parts cx ns l
      | Some p \<Rightarrow>
          if p_f p = None then tick_parts cx ns l
          else (let (e, l, p) = sign_flush cx (l, p) in tick_parts cx ns (put_part name p l)))"

definition tick :: "('l, 'k, 'p) codec \<Rightarrow> ('l, 'k) ledger \<Rightarrow> ('l, 'k) ledger" where
  "tick cx l =
     (let l = writeGaps cx l;
          l = writeHeartbeat cx (l_now l) (heartbeatMax_s * 1000000000) l
      in tick_parts cx (map fst (l_parts l)) l)"

section \<open>Retention\<close>

record prune_result =
  pr_Partition :: string
  pr_Removed :: "nat list"
  pr_ThroughSeq :: u64
  pr_ThroughHash :: string

fun remove_segments :: "('l, 'k, 'p) codec \<Rightarrow> string \<Rightarrow> nat list \<Rightarrow> nat list \<Rightarrow> ('l, 'k) ledger
    \<Rightarrow> ledger_error option \<times> nat list \<times> ('l, 'k) ledger" where
  "remove_segments cx name [] done l = (None, done, l)"
| "remove_segments cx name (n # ns) done l =
     (if exists_file l (segPath cx name n) \<and> io_fails l then (Some RemoveError, done, io_next l)
      else remove_segments cx name ns (done @ [n])
             ((io_next l)\<lparr>l_disk := map_del (segPath cx name n) (l_disk l)\<rparr>))"

definition retention_record :: "('l, 'k, 'p) codec \<Rightarrow> u64 \<Rightarrow> string \<Rightarrow> string \<Rightarrow> ('l, 'k) ledger
    \<Rightarrow> 'l partition \<Rightarrow> ledger_record" where
  "retention_record cx sq head pol l p = zero_record\<lparr>r_Kind := KindRetention, r_TS := now_s cx l,
     r_PrunedThroughSeq := sq, r_PrunedThroughHash := head, r_RetentionPolicy := pol,
     r_Seq := p_seq p + 1, r_PrevHash := p_headHash p\<rparr>"

definition prune_policy :: "int \<Rightarrow> string" where
  "prune_policy keep = ''operator: keep '' @ itoa (nat keep) @ '' segments''"

text \<open>The declaration appended, signed, flushed and synced; only then the removal.\<close>

definition declare_prune :: "('l, 'k, 'p) codec \<Rightarrow> ledger_record \<Rightarrow> ('l, 'k) ledger \<times> 'l partition
    \<Rightarrow> ledger_error option \<times> ('l, 'k) ledger \<times> 'l partition" where
  "declare_prune cx rec lp =
     then_do (appendLine cx rec lp) (\<lambda>lp.
     then_do (signBatch cx lp) (\<lambda>lp.
     then_do (flush lp) fsync))"

definition prunePartition :: "('l, 'k, 'p) codec \<Rightarrow> string \<Rightarrow> int \<Rightarrow> ('l, 'k) ledger
    \<Rightarrow> (ledger_error option \<times> prune_result) \<times> ('l, 'k) ledger" where
  "prunePartition cx name keep l0 =
     (let res = \<lparr>pr_Partition = name, pr_Removed = [], pr_ThroughSeq = 0, pr_ThroughHash = ''''\<rparr>
      in case part cx name l0 of
        (Inl e, l) \<Rightarrow> ((Some e, res), l)
      | (Inr p, l) \<Rightarrow>
          let last_i = int (p_segment p) - keep
          in if last_i < 1 then ((None, res), l)
             else (case scanTail cx (segPath cx name (nat last_i)) l of
                     Inl e \<Rightarrow> ((Some e, res), l)
                   | Inr (sq, head, _, _) \<Rightarrow>
                       if head = '''' then ((Some (NothingToDescribe last_i), res), l)
                       else (case declare_prune cx
                                (retention_record cx sq head (prune_policy keep) l p) (l, p) of
                               (Some e, l, p) \<Rightarrow> ((Some e, res), put_part name p l)
                             | (None, l, p) \<Rightarrow>
                                 let l = put_part name p l
                                 in (case remove_segments cx name [1..<Suc (nat last_i)] [] l of
                                       (Some e, removed, l) \<Rightarrow>
                                         ((Some e, res\<lparr>pr_Removed := removed\<rparr>), l)
                                     | (None, removed, l) \<Rightarrow>
                                         ((None, res\<lparr>pr_Removed := removed, pr_ThroughSeq := sq,
                                                     pr_ThroughHash := head\<rparr>), l)))))"

fun prune_names :: "('l, 'k, 'p) codec \<Rightarrow> int \<Rightarrow> string list \<Rightarrow> prune_result list \<Rightarrow> ('l, 'k) ledger
    \<Rightarrow> (ledger_error option \<times> prune_result list) \<times> ('l, 'k) ledger" where
  "prune_names cx keep [] out l = ((None, out), l)"
| "prune_names cx keep (n # ns) out l =
     (case prunePartition cx n keep l of
        ((Some e, res), l) \<Rightarrow> ((Some e, out), l)
      | ((None, res), l) \<Rightarrow>
          prune_names cx keep ns (if pr_Removed res \<noteq> [] then out @ [res] else out) l)"

fun insert_name :: "string \<Rightarrow> string list \<Rightarrow> string list" where
  "insert_name x [] = [x]"
| "insert_name x (y # ys) =
     (if lexordp_eq (map (of_char :: char \<Rightarrow> nat) x) (map of_char y) then x # y # ys
      else y # insert_name x ys)"

text \<open>\<open>sort.Strings\<close>: bytewise lexicographic.\<close>

definition sort_strings :: "string list \<Rightarrow> string list" where
  "sort_strings xs = foldr insert_name xs []"

definition pruneAll :: "('l, 'k, 'p) codec \<Rightarrow> int \<Rightarrow> ('l, 'k) ledger
    \<Rightarrow> (ledger_error option \<times> prune_result list) \<times> ('l, 'k) ledger" where
  "pruneAll cx keep l = prune_names cx keep (sort_strings (map fst (l_parts l))) [] l"

text \<open>
  One queue item: the control function or the record, then, when a caller waits, the
  flush that its answer stands for.
\<close>

definition run_item :: "('l, 'k, 'p) codec \<Rightarrow> queued \<Rightarrow> ('l, 'k) ledger
    \<Rightarrow> ledger_error option \<times> ('l, 'k) ledger" where
  "run_item cx q l =
     (case q of
        QPrune keep \<Rightarrow> (let ((e, _), l) = pruneAll cx keep l in
          case map_of (l_parts l) '''' of
            Some p \<Rightarrow> if e = None \<and> p_f p \<noteq> None
                      then (let (e, l, p) = flush (l, p) in (e, put_part '''' p l)) else (e, l)
          | None \<Rightarrow> (e, l))
      | QRecord name rec waits \<Rightarrow>
          (case ledger_write cx name rec l of
             (e, l) \<Rightarrow>
               if \<not> waits then (e, l)
               else (case (e, map_of (l_parts l) name) of
                       (None, Some p) \<Rightarrow>
                         if p_f p \<noteq> None
                         then (let (e, l, p) = flush (l, p) in (e, put_part name p l))
                         else (None, l)
                     | _ \<Rightarrow> (e, l))))"

fun drain :: "('l, 'k, 'p) codec \<Rightarrow> queued list \<Rightarrow> ('l, 'k) ledger \<Rightarrow> ('l, 'k) ledger" where
  "drain cx [] l = l"
| "drain cx (q # qs) l = drain cx qs (snd (run_item cx q l))"

definition run_queue :: "('l, 'k, 'p) codec \<Rightarrow> ('l, 'k) ledger \<Rightarrow> ('l, 'k) ledger" where
  "run_queue cx l = drain cx (l_queue l) (l\<lparr>l_queue := []\<rparr>)"

section \<open>The public operations\<close>

definition enqueue :: "string \<Rightarrow> ledger_record \<Rightarrow> ('l, 'k) ledger \<Rightarrow> ('l, 'k) ledger" where
  "enqueue name rec l =
     (if l_closed l then countDropped name l
      else if length (l_queue l) < queueCap then l\<lparr>l_queue := l_queue l @ [QRecord name rec False]\<rparr>
      else countDropped name l)"

definition Append :: "string \<Rightarrow> ledger_record \<Rightarrow> ('l, 'k) ledger \<Rightarrow> ('l, 'k) ledger" where
  "Append name rec l = enqueue name (rec\<lparr>r_Kind := KindDecision\<rparr>) l"

definition AppendResponse :: "string \<Rightarrow> ledger_record \<Rightarrow> ('l, 'k) ledger \<Rightarrow> ('l, 'k) ledger" where
  "AppendResponse name rec l = enqueue name (rec\<lparr>r_Kind := KindResponse\<rparr>) l"

text \<open>
  \<open>AppendSync\<close> blocks until the writer has processed everything queued before the record
  and the record itself.
\<close>

definition AppendSync :: "('l, 'k, 'p) codec \<Rightarrow> string \<Rightarrow> ledger_record \<Rightarrow> ('l, 'k) ledger
    \<Rightarrow> ledger_error option \<times> ('l, 'k) ledger" where
  "AppendSync cx name rec l =
     (if l_closed l then (Some LedgerClosed, l)
      else if length (l_queue l) < queueCap
        then run_item cx (QRecord name (rec\<lparr>r_Kind := KindDecision\<rparr>) True) (run_queue cx l)
      else (Some QueueFull, countDropped name l))"

text \<open>
  \<open>Prune\<close> queues its closure and waits; the closure leaves its report in \<open>out\<close>, read here
  after the answer (the order \<open>return out, <-done\<close> needs).
\<close>

definition Prune :: "('l, 'k, 'p) codec \<Rightarrow> int \<Rightarrow> ('l, 'k) ledger
    \<Rightarrow> (ledger_error option \<times> prune_result list) \<times> ('l, 'k) ledger" where
  "Prune cx keep l =
     (if keep < 1 then ((Some (KeepTooSmall keep), []), l)
      else if l_closed l then ((Some LedgerClosed, []), l)
      else
        let l = run_queue cx l;
            ((_, out), _) = pruneAll cx keep l;
            (e, l) = run_item cx (QPrune keep) l
        in ((e, out), l))"

fun close_parts :: "('l, 'k, 'p) codec \<Rightarrow> string list \<Rightarrow> ledger_error option \<Rightarrow> ('l, 'k) ledger
    \<Rightarrow> ledger_error option \<times> ('l, 'k) ledger" where
  "close_parts cx [] err l = (err, l)"
| "close_parts cx (name # ns) err l =
     (case map_of (l_parts l) name of
        None \<Rightarrow> close_parts cx ns err l
      | Some p \<Rightarrow>
          if p_f p = None then close_parts cx ns err l
          else (let (e1, l, p) = sign_flush cx (l, p);
                    (e2, l, p) = fclose (l, p)
                in close_parts cx ns (or_err err (or_err e1 e2)) (put_part name p l)))"

definition Close :: "('l, 'k, 'p) codec \<Rightarrow> ('l, 'k) ledger \<Rightarrow> ledger_error option \<times> ('l, 'k) ledger" where
  "Close cx l =
     (if l_closed l then (None, l)
      else
        let l = run_queue cx (l\<lparr>l_closed := True\<rparr>);
            l = writeGaps cx l;
            l = snd (ledger_write cx ProxyPartition (lifecycle_record cx ReasonShutdown (l_now l) l) l)
        in close_parts cx (map fst (l_parts l)) None l)"

section \<open>Open\<close>

definition chain_key_differs :: "('l, 'k, 'p) codec \<Rightarrow> string \<Rightarrow> 'l list \<Rightarrow> bool" where
  "chain_key_differs cx pub64 ls \<longleftrightarrow>
     (case ls of
        [] \<Rightarrow> False
      | l # _ \<Rightarrow>
          line_len cx l < 65536 \<and>
          (case unmarshal cx l of
             None \<Rightarrow> False
           | Some hdr \<Rightarrow> r_Kind hdr = KindHeader \<and> r_PubKey hdr \<noteq> '''' \<and> r_PubKey hdr \<noteq> pub64))"

text \<open>\<open>checkChainKeys\<close>: the first export of another key, if any.\<close>

definition checkChainKeys :: "('l, 'k, 'p) codec \<Rightarrow> ('l, 'k) ledger \<Rightarrow> ledger_error option" where
  "checkChainKeys cx l =
     (case filter (\<lambda>(path, ls). has_suffix path ''.jsonl'' \<and> chain_key_differs cx (l_pubB64 l) ls)
             (l_disk l) of
        [] \<Rightarrow> None
      | (path, _) # _ \<Rightarrow> Some (OtherChainKey path))"

text \<open>\<open>keyOutsideExport\<close> on absolute paths.\<close>

definition keyOutsideExport :: "string \<Rightarrow> string \<Rightarrow> bool" where
  "keyOutsideExport absDir absKey \<longleftrightarrow> \<not> has_prefix absKey (absDir @ ''/'')"

definition new_ledger :: "identity \<Rightarrow> string \<Rightarrow> 'k \<Rightarrow> string \<Rightarrow> 'l list gomap \<Rightarrow> (nat \<Rightarrow> bool)
    \<Rightarrow> gotime \<Rightarrow> ('l, 'k) ledger" where
  "new_ledger ident kid key pub64 disk fault now =
     \<lparr>l_id = ident, l_kid = kid, l_key = key, l_pubB64 = pub64, l_queue = [], l_seeds = [],
      l_maxSegment = maxSegmentBytes, l_maxParts = defaultMaxParts, l_Dropped = 0,
      l_WriteErrors = 0, l_IdentityFail = 0, l_closed = False, l_gaps = [], l_parts = [],
      l_clock = 0, l_open = 0, l_hbTS = now, l_gapTS = now, l_disk = disk, l_fault = fault,
      l_io = 0, l_now = now\<rparr>"

text \<open>
  \<open>loaded\<close> is what \<open>keyfile.LoadOrCreate\<close> returned.  The start record is written before the
  writer goroutine exists; its own write error is ignored, the signature's is not.
\<close>

definition Open :: "('l, 'k, 'p) codec \<Rightarrow> string \<Rightarrow> string \<Rightarrow> 'k option \<Rightarrow> identity \<Rightarrow> 'l list gomap
    \<Rightarrow> (nat \<Rightarrow> bool) \<Rightarrow> gotime \<Rightarrow> ledger_error + ('l, 'k) ledger" where
  "Open cx absDir absKey loaded ident disk fault now =
     (if \<not> keyOutsideExport absDir absKey then Inl (KeyInsideExport absKey)
      else case loaded of None \<Rightarrow> Inl KeyUnavailable | Some key \<Rightarrow>
     (case marshal_pub cx (pub_of cx key) of
        None \<Rightarrow> Inl MarshalError
      | Some pkix \<Rightarrow>
          let l = new_ledger ident (keyID cx pkix) key (b64_enc cx pkix) disk fault now
          in case checkChainKeys cx l of
               Some e \<Rightarrow> Inl e
             | None \<Rightarrow>
                 let l = snd (ledger_write cx ProxyPartition (lifecycle_record cx ReasonStart now l) l)
                 in (case map_of (l_parts l) ProxyPartition of
                       None \<Rightarrow> Inr l
                     | Some p \<Rightarrow>
                         if p_unsigned p > 0
                         then (case signBatch cx (l, p) of
                                 (Some e, l, p) \<Rightarrow> Inl e
                               | (None, l, p) \<Rightarrow> Inr (put_part ProxyPartition p l))
                         else Inr l)))"

end
