(* ===== verification/Ledger_Frame.thy ===== *)
theory Ledger_Frame
  imports Ledger_Ops
begin

text \<open>
  What the writer's steps leave alone: the identity, the key, the bounds, the queue, the
  closed flag and the failure schedule of the ledger.
\<close>

named_theorems ledger_frame "the fields no writer step changes"

definition fixed :: "('l, 'k) ledger \<Rightarrow> identity \<times> string \<times> 'k \<times> string \<times> int \<times> nat \<times> queued list \<times> bool \<times> (nat \<Rightarrow> bool)" where
  "fixed l = (l_id l, l_kid l, l_key l, l_pubB64 l, l_maxSegment l, l_maxParts l, l_queue l, l_closed l, l_fault l)"

lemma fixedD:
  assumes "fixed l' = fixed l"
  shows "l_id l' = l_id l" "l_kid l' = l_kid l" "l_key l' = l_key l" "l_pubB64 l' = l_pubB64 l"
    "l_maxSegment l' = l_maxSegment l" "l_queue l' = l_queue l" "l_closed l' = l_closed l"
    "l_fault l' = l_fault l"
  using assms by (simp_all add: fixed_def)

lemma fixed_updates [simp]:
  "fixed (l\<lparr>l_disk := d\<rparr>) = fixed l" "fixed (l\<lparr>l_io := n\<rparr>) = fixed l"
  "fixed (l\<lparr>l_open := i\<rparr>) = fixed l" "fixed (l\<lparr>l_parts := ps\<rparr>) = fixed l"
  "fixed (l\<lparr>l_gaps := g\<rparr>) = fixed l" "fixed (l\<lparr>l_clock := c\<rparr>) = fixed l"
  "fixed (l\<lparr>l_seeds := sd\<rparr>) = fixed l" "fixed (l\<lparr>l_hbTS := t\<rparr>) = fixed l"
  "fixed (l\<lparr>l_gapTS := t\<rparr>) = fixed l" "fixed (l\<lparr>l_Dropped := w\<rparr>) = fixed l"
  "fixed (l\<lparr>l_WriteErrors := w\<rparr>) = fixed l" "fixed (l\<lparr>l_IdentityFail := w\<rparr>) = fixed l"
  "fixed (l\<lparr>l_now := t\<rparr>) = fixed l"
  by (simp_all add: fixed_def)

lemma fixed_small [simp]:
  "fixed (io_next l) = fixed l" "fixed (put_part n p l) = fixed l"
  "fixed (countWriteError n l) = fixed l" "fixed (countDropped n l) = fixed l"
  "fixed (put_back n g l) = fixed l" "fixed (gap_add n f l) = fixed l"
  by (simp_all add: io_next_def put_part_def countWriteError_def countDropped_def gap_add_def put_back_def)

lemma flush_fixed [ledger_frame]: "fixed (fst (snd (flush lp))) = fixed (fst lp)"
  by (cases lp) (simp add: flush_def split: option.split)

lemma fsync_fixed [ledger_frame]: "fixed (fst (snd (fsync lp))) = fixed (fst lp)"
  by (cases lp) (simp add: fsync_def)

lemma fclose_fixed [ledger_frame]: "fixed (fst (snd (fclose lp))) = fixed (fst lp)"
  by (cases lp) (simp add: fclose_def)

lemma release_fixed [ledger_frame]: "fixed (fst (snd (release lp))) = fixed (fst lp)"
  by (cases lp) (simp add: release_def)

lemma appendLine_fixed [ledger_frame]: "fixed (fst (snd (appendLine cx rec lp))) = fixed (fst lp)"
  by (cases lp) (simp add: appendLine_def split: option.split)

lemma then_do_fixed:
  "(\<And>s. fixed (fst (snd (f s))) = fixed (fst s)) \<Longrightarrow> fixed (fst (snd (then_do r f))) = fixed (fst (snd r))"
  by (cases r; cases "fst r") (simp_all add: then_do_def)

lemma signBatch_fixed [ledger_frame]: "fixed (fst (snd (signBatch cx lp))) = fixed (fst lp)"
  by (cases lp)
    (simp add: signBatch_def Let_def then_do_fixed ledger_frame case_prod_beta split: option.split)

lemma evictLRU_fixed [ledger_frame]: "fixed (evictLRU cx ex l) = fixed l"
  by (simp add: evictLRU_def Let_def case_prod_beta ledger_frame split: option.split)

lemma openFile_fixed [ledger_frame]: "fixed (fst (snd (openFile cx name lp))) = fixed (fst lp)"
  by (cases lp) (simp add: openFile_def Let_def ledger_frame)

lemma roll_fixed [ledger_frame]: "fixed (fst (snd (roll cx name lp))) = fixed (fst lp)"
  by (simp add: roll_def then_do_fixed ledger_frame case_prod_beta)

lemma roll_counted_fixed:
  "fixed (fst (case roll cx name q of (None, lp) \<Rightarrow> lp | (Some e, l, p) \<Rightarrow> (countWriteError name l, p)))
     = fixed (fst q)"
  using roll_fixed [of cx name q]
  by (cases "roll cx name q"; cases "fst (roll cx name q)") auto

lemma after_append_fixed [ledger_frame]: "fixed (fst (after_append cx name sq lp)) = fixed (fst lp)"
  by (cases lp) (auto simp: after_append_def Let_def ledger_frame roll_counted_fixed split: prod.split
      dest: arg_cong [where f = "\<lambda>x. fixed (fst (snd x))"] arg_cong [where f = "\<lambda>x. fixed (fst x)"])

lemma forgetColdest_fixed [ledger_frame]: "fixed (forgetColdest l) = fixed l"
  by (simp add: forgetColdest_def split: option.split prod.split)

lemma part_marks_fixed [ledger_frame]: "fixed (fst (snd (part_marks cx name c i lp))) = fixed (fst lp)"
  by (cases lp) (simp add: part_marks_def Let_def case_prod_beta ledger_frame)

lemma part_known_fixed [ledger_frame]: "fixed (snd (part_known cx name p l)) = fixed l"
  by (simp add: part_known_def Let_def case_prod_beta ledger_frame split: option.split)

text \<open>The course of \<open>part\<close> on a name that is not in the map.\<close>

definition part_start :: "('l, 'k, 'p) codec \<Rightarrow> string \<Rightarrow> ('l, 'k) ledger \<Rightarrow> nat" where
  "part_start cx name l = (if latestSegment cx name l = 0 then 1 else latestSegment cx name l)"

lemma part_newE:
  fixes cx :: "('l, 'k, 'p) codec"
  assumes "part_new cx name l = (r, l')"
  obtains (unread) e where "scanTail cx (segPath cx name (part_start cx name l)) l = Inl e" "r = Inl e" "l' = l"
    | (begun) sq0 head0 count inh sq head seg ls p e1 l1 p1 e2 l2 p2 where
      "scanTail cx (segPath cx name (part_start cx name l)) l = Inr (sq0, head0, count, inh)"
      "(sq, head, seg, ls) = (sq0, head0, part_start cx name l, l) \<or>
       count = 0 \<and> (\<exists>sd. map_of (l_seeds l) name = Some sd \<and>
         (sq, head, seg, ls) = (sd_seq sd, sd_head sd, sd_segment sd, l\<lparr>l_seeds := map_del name (l_seeds l)\<rparr>))"
      "p = new_partition seg sq head (l_clock ls) (file_size cx (file_of ls (segPath cx name seg)))"
      "openFile cx name (ls, p) = (e1, l1, p1)"
      "part_marks cx name count inh (forgetColdest l1, p1) = (e2, l2, p2)"
      "(r, l') = (case e1 of Some e \<Rightarrow> (Inl e, l1)
        | None \<Rightarrow> (case e2 of Some e \<Rightarrow> Inl e | None \<Rightarrow> Inr p2, put_part name p2 l2))"
proof (cases "scanTail cx (segPath cx name (part_start cx name l)) l")
  case (Inl e)
  with assms show thesis by (intro unread) (auto simp: part_new_def part_start_def Let_def)
next
  case (Inr t)
  let ?latest = "part_start cx name l"
  obtain sq0 head0 count inh where t: "t = (sq0, head0, count, inh)" by (metis surj_pair)
  let ?seeded = "case map_of (l_seeds l) name of
      Some sd \<Rightarrow> if count = 0 then (sd_seq sd, sd_head sd, sd_segment sd,
                                 l\<lparr>l_seeds := map_del name (l_seeds l)\<rparr>)
              else (sq0, head0, ?latest, l)
    | None \<Rightarrow> (sq0, head0, ?latest, l)"
  obtain sq head seg ls where s: "?seeded = (sq, head, seg, ls)" by (rule prod_cases4)
  define p :: "'l partition" where "p = new_partition seg sq head (l_clock ls)
                   (file_size cx (file_of ls (segPath cx name seg)))"
  obtain e1 l1 p1 where 1: "openFile cx name (ls, p) = (e1, l1, p1)" by (metis surj_pair)
  obtain e2 l2 p2 where 2: "part_marks cx name count inh (forgetColdest l1, p1) = (e2, l2, p2)"
    by (metis surj_pair)
  have eq: "(r, l') = (case e1 of Some e \<Rightarrow> (Inl e, l1)
      | None \<Rightarrow> (case e2 of Some e \<Rightarrow> Inl e | None \<Rightarrow> Inr p2, put_part name p2 l2))"
    unfolding assms [symmetric] part_new_def part_start_def [symmetric] Let_def Inr t sum.case
      prod.case s p_def [symmetric] 1
    by (cases e1; cases e2) (simp_all add: 2)
  have "(sq, head, seg, ls) = (sq0, head0, ?latest, l) \<or>
     count = 0 \<and> (\<exists>sd. map_of (l_seeds l) name = Some sd \<and>
       (sq, head, seg, ls) = (sd_seq sd, sd_head sd, sd_segment sd, l\<lparr>l_seeds := map_del name (l_seeds l)\<rparr>))"
    unfolding s [symmetric] by (simp split: option.split)
  from begun [OF Inr [unfolded t] this p_def 1 2 eq] show thesis .
qed

lemma part_new_fixed: 
  assumes "part_new cx name l = (r, l')"
  shows "fixed l' = fixed l"
  using assms
proof (cases rule: part_newE)
  case unread
  then show ?thesis by simp
next
  case (begun sq0 head0 count inh sq head seg ls p e1 l1 p1 e2 l2 p2)
  have "fixed ls = fixed l" using begun(2) by auto
  moreover have "fixed l1 = fixed ls" using openFile_fixed [of cx name "(ls, p)"] begun(4) by simp
  moreover have "fixed l2 = fixed l1"
    using part_marks_fixed [of cx name count inh "(forgetColdest l1, p1)"] begun(5)
    by (simp add: ledger_frame)
  ultimately show ?thesis using begun(6) by (cases e1) auto
qed

lemma part_fixed [ledger_frame]: "fixed (snd (part cx name l)) = fixed l"
  using part_new_fixed [of cx name "l\<lparr>l_clock := l_clock l + 1\<rparr>"]
  by (simp add: part_def Let_def ledger_frame prod_eq_iff split: option.split)

lemma ledger_write_fixed [ledger_frame]: "fixed (snd (ledger_write cx name rec l)) = fixed l"
proof -
  obtain r l1 where 1: "part cx name l = (r, l1)" by force
  then have f1: "fixed l1 = fixed l" using part_fixed [of cx name l] by simp
  show ?thesis
  proof (cases r)
    case (Inl e)
    with 1 f1 show ?thesis by (simp add: ledger_write_def)
  next
    case (Inr p)
    let ?rec = "rec\<lparr>r_Seq := p_seq p + 1, r_PrevHash := p_headHash p\<rparr>"
    obtain e2 l2 p2 where 2: "appendLine cx ?rec (l1, p) = (e2, l2, p2)" by (metis surj_pair)
    then have f2: "fixed l2 = fixed l1" using appendLine_fixed [of cx ?rec "(l1, p)"] by simp
    obtain l3 p3 where 3: "after_append cx name (p_seq p + 1) (l2, p2) = (l3, p3)" by force
    then have "fixed l3 = fixed l2" using after_append_fixed [of cx name "p_seq p + 1" "(l2, p2)"] by simp
    with 1 2 3 Inr f1 f2 show ?thesis by (cases e2) (simp_all add: ledger_write_def)
  qed
qed

lemma write_pending_fixed [ledger_frame]: "fixed (write_pending cx to gs l) = fixed l"
proof (induction gs arbitrary: l)
  case Nil
  show ?case by simp
next
  case (Cons a gs)
  obtain name g where a: "a = (name, g)" by force
  obtain e l1 where 1: "ledger_write cx name (gap_record cx to g l) l = (e, l1)" by force
  then have "fixed l1 = fixed l" using ledger_write_fixed [of cx name "gap_record cx to g l" l] by simp
  with Cons.IH a 1 show ?case by (cases e) simp_all
qed

lemma writeGaps_fixed [ledger_frame]: "fixed (writeGaps cx l) = fixed l"
  by (simp add: writeGaps_def takeGaps_def Let_def ledger_frame)

lemma writeHeartbeat_fixed [ledger_frame]: "fixed (writeHeartbeat cx now d l) = fixed l"
  by (simp add: writeHeartbeat_def ledger_frame)

lemma sign_flush_fixed [ledger_frame]: "fixed (fst (snd (sign_flush cx lp))) = fixed (fst lp)"
  by (cases lp) (simp add: sign_flush_def Let_def case_prod_beta ledger_frame)

lemma tick_parts_fixed [ledger_frame]: "fixed (tick_parts cx ns l) = fixed l"
  by (induction ns arbitrary: l) (simp_all add: case_prod_beta ledger_frame split: option.split)

lemma tick_fixed [ledger_frame]: "fixed (tick cx l) = fixed l"
  by (simp add: tick_def Let_def ledger_frame)

lemma run_item_fixed: "fixed (snd (run_item cx (QRecord name rec w) l)) = fixed l"
proof -
  obtain e l1 where 1: "ledger_write cx name rec l = (e, l1)" by force
  then have "fixed l1 = fixed l" using ledger_write_fixed [of cx name rec l] by simp
  with 1 show ?thesis
    using flush_fixed [of "(l1, p)" for p]
    by (auto simp: run_item_def case_prod_beta split: option.split)
qed

lemma drain_fixed: "(\<And>k. QPrune k \<notin> set qs) \<Longrightarrow> fixed (drain cx qs l) = fixed l"
proof (induction qs arbitrary: l)
  case Nil
  show ?case by simp
next
  case (Cons q qs)
  then obtain n r w where q: "q = QRecord n r w" by (cases q) auto
  show ?case using Cons by (simp add: q run_item_fixed)
qed

end
