(* ===== verification/Ledger_Sample.thy ===== *)
theory Ledger_Sample
  imports Ledger_Writer
begin

text \<open>
  A concrete instance of the standard-library parameter, on which the witnesses evaluate:
  a line is its record, a digest is the record's sequence number, a signature is the key
  followed by the digest.  It satisfies \<open>codec_ok\<close>.
\<close>

definition toy :: "(ledger_record, char, char) codec" where
  "toy = \<lparr>marshal = Some, unmarshal = Some, line_len = (\<lambda>_. 100),
     sha_line = (\<lambda>r. [char_of (unat (r_Seq r))]), sha_str = (\<lambda>s. s), pub_of = (\<lambda>k. k),
     ecdsa_sign = (\<lambda>k n d. Some (k # d)), ecdsa_verify = (\<lambda>p d s. s = p # d),
     marshal_pub = (\<lambda>p. Some [p]), parse_pub = (\<lambda>s. case s of [p] \<Rightarrow> Some p | _ \<Rightarrow> None),
     b64_enc = (\<lambda>s. s), b64_dec = Some,
     fmt_time = (\<lambda>t. replicate (nat t) (CHR ''t'')), parse_time = (\<lambda>s. Some (int (length s)))\<rparr>"

lemma toy_ok: "codec_ok toy"
  by (simp add: codec_ok_def toy_def)

lemma toy_simps [simp]:
  "marshal toy r = Some r" "unmarshal toy r = Some r" "line_len toy r = 100" "pub_of toy k = k"
  "sha_line toy r = [char_of (unat (r_Seq r))]" "ecdsa_sign toy k n d = Some (k # d)"
  "ecdsa_verify toy k d s = (s = k # d)" "marshal_pub toy k = Some [k]" "parse_pub toy [k] = Some k"
  "b64_enc toy s = s" "b64_dec toy s = Some s" "fmt_time toy t = replicate (nat t) (CHR ''t'')"
  "parse_time toy s = Some (int (length s))"
  by (simp_all add: toy_def)

definition toy_id :: identity where
  "toy_id = \<lparr>id_Tenant = ''t'', id_Instance = ''i'', id_Producer = ''p''\<rparr>"

text \<open>A ledger with an empty export directory, the given file of a partition, and I/O that
  fails as scheduled.\<close>

definition toy_ledger :: "ledger_record list gomap \<Rightarrow> (nat \<Rightarrow> bool) \<Rightarrow> (ledger_record, char) ledger" where
  "toy_ledger disk fault =
     \<lparr>l_id = toy_id, l_kid = ''k'', l_key = CHR ''K'', l_pubB64 = ''K'', l_queue = [], l_seeds = [],
      l_maxSegment = maxSegmentBytes, l_maxParts = defaultMaxParts, l_Dropped = 0,
      l_WriteErrors = 0, l_IdentityFail = 0, l_closed = False, l_gaps = [], l_parts = [],
      l_clock = 0, l_open = 0, l_hbTS = 0, l_gapTS = 0, l_disk = disk, l_fault = fault,
      l_io = 0, l_now = 1\<rparr>"

end
