(* ===== verification/Ledger_Paths.thy ===== *)
theory Ledger_Paths
  imports Ledger_Frame
begin

text \<open>
  File names of a partition's segments: decimal numerals are injective, so the segments of
  one partition are different files, and the scan for the latest segment stops at the last
  file of an unbroken run with the fuel it is given.
\<close>

definition undec :: "string \<Rightarrow> nat" where
  "undec s = foldl (\<lambda>a c. 10 * a + (of_char c - 48)) 0 s"

lemma undec_snoc [simp]: "undec (s @ [c]) = 10 * undec s + (of_char c - 48)"
  by (simp add: undec_def)

lemma of_char_digit: "n < 10 \<Longrightarrow> of_char (digit n) = (48 + n :: nat)"
  by (simp add: digit_def)

lemma undec_dec: "undec (itoa n) = n"
proof (induction n rule: itoa.induct)
  case (1 n)
  show ?case
  proof (cases "n < 10")
    case True
    then show ?thesis by (simp add: itoa.simps of_char_digit undec_def)
  next
    case False
    with 1 have "undec (itoa n) = 10 * (n div 10) + (of_char (digit (n mod 10)) - 48)"
      by (simp add: itoa.simps [of n])
    then show ?thesis by (simp add: of_char_digit)
  qed
qed

lemma undec_zeros: "undec (replicate k (digit 0) @ s) = undec s"
proof -
  have "foldl (\<lambda>a c. 10 * a + (of_char c - 48)) 0 (replicate k (digit 0)) = (0 :: nat)"
    by (induction k) (simp_all add: of_char_digit)
  then show ?thesis by (simp add: undec_def)
qed

lemma dec04_inj: "dec04 m = dec04 n \<Longrightarrow> m = n"
  unfolding dec04_def using undec_zeros undec_dec by metis

lemma dec_length: "length (itoa n) \<ge> 1"
  by (induction n rule: itoa.induct) (simp add: itoa.simps)

lemma path_of_stem: "\<exists>stem. path_of cx name = stem @ ''.jsonl''"
  unfolding path_of_def by (metis append.assoc)

theorem segPath_inj:
  assumes "segPath cx name i = segPath cx name j" and "1 \<le> i" and "1 \<le> j"
  shows "i = j"
proof -
  obtain stem where st: "path_of cx name = stem @ ''.jsonl''" using path_of_stem by blast
  have s: "segPath cx name k = (if k \<le> 1 then stem @ ''.jsonl'' else stem @ ''.s'' @ dec04 k @ ''.jsonl'')" for k
    using trim_suffix_append [of stem "''.jsonl''"] by (simp add: segPath_def st)
  have len: "length (segPath cx name 1) < length (segPath cx name k)" if "k > 1" for k
    using that by (simp add: s)
  show ?thesis
  proof (cases "i \<le> 1 \<or> j \<le> 1")
    case True
    with assms len [of i] len [of j] show ?thesis by (cases "i \<le> 1"; cases "j \<le> 1") auto
  next
    case False
    with assms(1) have "dec04 i = dec04 j" by (simp add: s)
    then show ?thesis by (rule dec04_inj)
  qed
qed

section \<open>The latest segment\<close>

lemma latest_from_run:
  assumes "\<And>k. n < k \<Longrightarrow> k \<le> m \<Longrightarrow> present k" and "\<not> present (m + 1)" and "n \<le> m" and "m - n \<le> fuel"
  shows "latest_from present fuel n = m"
  using assms
proof (induction fuel arbitrary: n)
  case 0
  then show ?case by simp
next
  case (Suc fuel)
  show ?case
  proof (cases "n = m")
    case True
    with Suc.prems show ?thesis by simp
  next
    case False
    with Suc.prems(1) [of "n + 1"] Suc.prems(3) have p: "present (n + 1)" by simp
    with False Suc.prems have "latest_from present fuel (n + 1) = m" by (intro Suc.IH) auto
    with p show ?thesis by simp
  qed
qed

text \<open>A run of segments \<open>1..m\<close> on disk needs no more fuel than there are files.\<close>

lemma latest_enough:
  assumes "\<And>k. 1 \<le> k \<Longrightarrow> k \<le> m \<Longrightarrow> exists_file l (segPath cx name k)"
    and "\<not> exists_file l (segPath cx name (m + 1))" and "1 \<le> m"
  shows "latestSegment cx name l = m"
proof -
  have "(segPath cx name) ` {1..m} \<subseteq> dom (map_of (l_disk l))"
    using assms(1) by (force simp: exists_file_def dom_def)
  moreover have "inj_on (segPath cx name) {1..m}"
    by (rule inj_onI) (auto intro: segPath_inj)
  ultimately have "m \<le> card (dom (map_of (l_disk l)))"
    using card_inj_on_le [of "segPath cx name" "{1..m}" "dom (map_of (l_disk l))"]
    by (simp add: finite_dom_map_of)
  also have "\<dots> \<le> length (l_disk l)"
    by (simp add: dom_map_of_conv_image_fst) (metis card_length length_map set_map)
  finally have fuel: "m - 1 \<le> length (l_disk l)" by simp
  have "exists_file l (path_of cx name)" using assms(1) [of 1] assms(3) by (simp add: segPath_def)
  moreover have "latest_from (\<lambda>n. exists_file l (segPath cx name n)) (length (l_disk l)) 1 = m"
    by (rule latest_from_run) (use assms fuel in auto)
  ultimately show ?thesis by (simp add: latestSegment_def)
qed

lemma latest_none: "\<not> exists_file l (segPath cx name 1) \<Longrightarrow> latestSegment cx name l = 0"
  by (simp add: latestSegment_def segPath_def)

end
