(* ===== verification/Ledger_Durable.thy ===== *)
theory Ledger_Durable
  imports Ledger_Frame Ledger_Sample
begin

text \<open>
  What reaches the disk, under every schedule of I/O failures.  \<open>grows\<close>: every file keeps
  its content and may gain lines; everything the ledger does except \<open>Prune\<close> is of that
  kind.  A line is \<open>kept\<close> while it is on disk or in the buffer of an open partition; every
  step of \<open>write\<close> keeps it, and a flush that succeeds puts it on disk, so a record that
  \<open>AppendSync\<close> answered without an error is on disk.
\<close>

definition grows :: "('l, 'k) ledger \<Rightarrow> ('l, 'k) ledger \<Rightarrow> bool" where
  "grows l l' \<longleftrightarrow> (\<forall>path ls. map_of (l_disk l) path = Some ls \<longrightarrow>
     (\<exists>more. map_of (l_disk l') path = Some (ls @ more)))"

definition on_disk :: "('l, 'k) ledger \<Rightarrow> 'l \<Rightarrow> bool" where
  "on_disk l line \<longleftrightarrow> (\<exists>path ls. map_of (l_disk l) path = Some ls \<and> line \<in> set ls)"

definition kept :: "('l, 'k) ledger \<Rightarrow> 'l partition \<Rightarrow> 'l \<Rightarrow> bool" where
  "kept l p line \<longleftrightarrow> on_disk l line \<or> (line \<in> set (p_buf p) \<and> p_f p \<noteq> None)"

section \<open>Append-only files\<close>

lemma growsI: "l_disk l' = l_disk l \<Longrightarrow> grows l l'"
  by (simp add: grows_def)

lemma grows_refl [simp]: "grows l l"
  by (simp add: grows_def)

lemma grows_trans [trans]: "grows l l' \<Longrightarrow> grows l' l'' \<Longrightarrow> grows l l''"
  unfolding grows_def by (metis append_assoc)

lemma grows_put:
  assumes "l_disk l' = map_put path (file_of l path @ xs) (l_disk l)"
  shows "grows l l'"
  using assms by (auto simp: grows_def file_of_def)

lemma grows_on_disk: "grows l l' \<Longrightarrow> on_disk l line \<Longrightarrow> on_disk l' line"
  unfolding grows_def on_disk_def by (metis Un_iff set_append)

lemma grows_kept: "grows l l' \<Longrightarrow> p_buf p' = p_buf p \<Longrightarrow> p_f p' = p_f p \<Longrightarrow>
    kept l p line \<Longrightarrow> kept l' p' line"
  by (auto simp: kept_def intro: grows_on_disk)

lemma io_next_disk [simp]: "l_disk (io_next l) = l_disk l"
  by (simp add: io_next_def)

lemma countWriteError_disk [simp]: "l_disk (countWriteError n l) = l_disk l"
  by (simp add: countWriteError_def gap_add_def)

lemma put_part_disk [simp]: "l_disk (put_part n p l) = l_disk l"
  by (simp add: put_part_def)

text \<open>What a flush does.\<close>

lemma flush_cases:
  assumes "flush (l, p) = (e, l', p')"
  obtains (failed) "e = Some WriteError" "l_disk l' = l_disk l" "p_buf p' = p_buf p" "p_f p' = p_f p"
      "p_werr p'"
    | (idle) "e = None" "l' = l" "p' = p" "p_buf p = []" "\<not> p_werr p"
    | (wrote) path where "e = None" "p_f p = Some path" "\<not> p_werr p" "p_f p' = Some path"
      "l_disk l' = map_put path (file_of l path @ p_buf p) (l_disk l)" "p' = p\<lparr>p_buf := []\<rparr>"
proof -
  consider (a) "p_werr p" | (b) "\<not> p_werr p" "p_buf p = []"
    | (c) "\<not> p_werr p" "p_buf p \<noteq> []" "io_fails l \<or> p_fclosed p \<or> p_f p = None"
    | (d) path where "\<not> p_werr p" "p_buf p \<noteq> []" "\<not> io_fails l" "\<not> p_fclosed p" "p_f p = Some path"
    by blast
  then show thesis
  proof cases
    case a
    with assms show thesis by (intro failed) (simp_all add: flush_def)
  next
    case b
    with assms show thesis by (intro idle) (simp_all add: flush_def)
  next
    case c
    with assms have "e = Some WriteError \<and> l' = io_next l \<and> p' = p\<lparr>p_werr := True\<rparr>"
      by (cases "p_f p") (simp_all add: flush_def split: if_splits)
    then show thesis by (intro failed) simp_all
  next
    case d
    with assms show thesis by (intro wrote [of path]) (auto simp: flush_def io_next_def)
  qed
qed

lemma flush_grows: "flush (l, p) = (e, l', p') \<Longrightarrow> grows l l'"
  by (erule flush_cases) (auto intro: growsI grows_put)

lemma flush_f: "flush (l, p) = (e, l', p') \<Longrightarrow> p_f p' = p_f p"
  by (erule flush_cases) auto

lemma flush_durable:
  assumes "flush (l, p) = (None, l', p')" and "kept l p line"
  shows "on_disk l' line"
proof (cases "on_disk l line")
  case True
  with flush_grows [OF assms(1)] show ?thesis by (rule grows_on_disk)
next
  case False
  with assms(2) have m: "line \<in> set (p_buf p)" by (simp add: kept_def)
  from assms(1) show ?thesis
  proof (cases rule: flush_cases)
    case (wrote path)
    then show ?thesis using m by (auto simp: on_disk_def)
  qed (use m in auto)
qed

lemma flush_kept:
  assumes "flush (l, p) = (e, l', p')" and "kept l p line"
  shows "kept l' p' line"
  using assms(1)
proof (cases rule: flush_cases)
  case failed
  show ?thesis by (rule grows_kept [OF growsI _ _ assms(2)]) (use failed in simp_all)
next
  case idle
  with assms(2) show ?thesis by simp
next
  case (wrote path)
  with assms(1) have "flush (l, p) = (None, l', p')" by simp
  from flush_durable [OF this assms(2)] show ?thesis by (simp add: kept_def)
qed

lemma appendLine_cases:
  assumes "appendLine cx rec (l, p) = (e, l', p')"
  obtains (failed) er where "e = Some er" "l_disk l' = l_disk l" "p_buf p' = p_buf p" "p_f p' = p_f p"
    | (ok) line where "e = None" "marshal cx rec = Some line" "l_disk l' = l_disk l" "\<not> p_werr p"
      "p_buf p' = p_buf p @ [line]" "p_f p' = p_f p"
proof (cases "marshal cx rec")
  case None
  with assms show thesis by (intro failed [of MarshalError]) (simp_all add: appendLine_def)
next
  case (Some line)
  show thesis
  proof (cases "p_werr p \<or> io_fails l")
    case True
    with Some assms show thesis by (intro failed [of WriteError]) (auto simp: appendLine_def)
  next
    case False
    with Some assms show thesis by (intro ok [of line]) (auto simp: appendLine_def)
  qed
qed

lemma appendLine_grows: "appendLine cx rec (l, p) = (e, l', p') \<Longrightarrow> grows l l'"
  by (erule appendLine_cases) (auto intro: growsI)

lemma appendLine_kept:
  "appendLine cx rec (l, p) = (e, l', p') \<Longrightarrow> kept l p line \<Longrightarrow> kept l' p' line"
  by (erule appendLine_cases) (simp_all add: kept_def on_disk_def, fastforce)

lemma appendLine_new:
  assumes "appendLine cx rec (l, p) = (None, l', p')" and "p_f p \<noteq> None"
  shows "\<exists>line. marshal cx rec = Some line \<and> kept l' p' line"
  using assms(1) by (rule appendLine_cases) (use assms(2) in \<open>auto simp: kept_def\<close>)

lemma signBatch_cases:
  assumes "signBatch cx (l, p) = (e, l', p')"
  obtains (nosig) "e \<noteq> None" "l' = l" "p' = p"
    | (failed) er rec where "appendLine cx rec (l, p) = (Some er, l', p')" "e = Some er"
    | (flushed) rec l1 p1 where "appendLine cx rec (l, p) = (None, l1, p1)"
      "flush (l1, p1\<lparr>p_unsigned := 0\<rparr>) = (e, l', p')"
proof -
  let ?rec = "\<lambda>sg. (batch_record cx l p)\<lparr>r_Sig := b64_enc cx sg\<rparr>"
  show thesis
  proof (cases "marshal cx (batch_record cx l p)")
    case None
    with assms show thesis by (intro nosig) (auto simp: signBatch_def)
  next
    case (Some canon)
    show thesis
    proof (cases "ecdsa_sign cx (l_key l) (l_io l) (sha_line cx canon)")
      case None
      with assms Some show thesis by (intro nosig) (auto simp: signBatch_def)
    next
      case sg: (Some sg)
      obtain e1 l1 p1 where a: "appendLine cx (?rec sg) (l, p) = (e1, l1, p1)"
        by (metis surj_pair)
      show thesis
      proof (cases e1)
        case None
        with assms Some sg a show thesis by (intro flushed) (auto simp: signBatch_def then_do_def)
      next
        case (Some er)
        with assms \<open>marshal cx _ = Some canon\<close> sg a show thesis
          by (intro failed [of "?rec sg" er]) (auto simp: signBatch_def then_do_def)
      qed
    qed
  qed
qed

lemma signBatch_grows: 
  assumes "signBatch cx (l, p) = (e, l', p')"
  shows "grows l l'"
  using assms
proof (cases rule: signBatch_cases)
  case nosig
  then show ?thesis by simp
next
  case (failed er rec)
  then show ?thesis using appendLine_grows by blast
next
  case (flushed rec l1 p1)
  from appendLine_grows [OF flushed(1)] flush_grows [OF flushed(2)] show ?thesis
    by (rule grows_trans)
qed

lemma signBatch_kept:
  assumes "signBatch cx (l, p) = (e, l', p')" and "kept l p line"
  shows "kept l' p' line"
  using assms(1)
proof (cases rule: signBatch_cases)
  case nosig
  with assms(2) show ?thesis by simp
next
  case (failed er rec)
  from failed(1) assms(2) show ?thesis by (rule appendLine_kept)
next
  case (flushed rec l1 p1)
  from appendLine_kept [OF flushed(1) assms(2)] have "kept l1 (p1\<lparr>p_unsigned := 0\<rparr>) line"
    by (simp add: kept_def)
  with flushed(2) show ?thesis by (rule flush_kept)
qed

lemma signBatch_f: "signBatch cx (l, p) = (e, l', p') \<Longrightarrow> p_f p' = p_f p"
proof (erule signBatch_cases, goal_cases)
  case 1
  then show ?case by simp
next
  case (2 er rec)
  from 2(1) show ?case by (rule appendLine_cases) auto
next
  case (3 rec l1 p1)
  from 3(1) have "p_f p1 = p_f p" by (rule appendLine_cases) auto
  with flush_f [OF 3(2)] show ?case by simp
qed

section \<open>The operations extend files only\<close>

lemma fclose_disk: "fclose (l, p) = (e, l', p') \<Longrightarrow> l_disk l' = l_disk l \<and> p_buf p' = p_buf p \<and> p_f p' = p_f p"
  by (auto simp: fclose_def split: if_splits)

lemma fsync_disk: "fsync (l, p) = (e, l', p') \<Longrightarrow> l_disk l' = l_disk l \<and> p' = p"
  by (auto simp: fsync_def split: if_splits)

lemma evictLRU_grows: "grows l (evictLRU cx except l)"
proof (cases "coldest (\<lambda>name p. name \<noteq> except \<and> p_f p \<noteq> None) (l_parts l) None")
  case None
  then show ?thesis by (simp add: evictLRU_def)
next
  case (Some a)
  obtain vname v where a: "a = (vname, v)" by force
  obtain e1 l1 v1 where 1: "(if p_unsigned v > 0 then signBatch cx (l, v) else (None, l, v)) = (e1, l1, v1)"
    by (metis surj_pair)
  obtain e2 l2 v2 where 2: "flush (l1, v1) = (e2, l2, v2)" by (metis surj_pair)
  obtain e3 l3 v3 where 3: "fclose (l2, v2) = (e3, l3, v3)" by (metis surj_pair)
  have "l_disk (evictLRU cx except l) = l_disk l3"
    using Some a 1 2 3 by (simp add: evictLRU_def Let_def)
  then have d: "grows l2 (evictLRU cx except l)" using fclose_disk [OF 3] by (intro growsI) simp
  have "grows l l1" using 1 by (auto split: if_splits dest: signBatch_grows)
  also have "grows l1 l2" using 2 by (rule flush_grows)
  also note d
  finally show ?thesis .
qed

lemma openFile_grows:
  assumes "openFile cx name (l, p) = (e, l', p')"
  shows "grows l l'"
proof -
  let ?l = "if l_open l \<ge> int maxOpenParts then evictLRU cx name l else l"
  have "grows l ?l" by (simp add: evictLRU_grows)
  also have "grows ?l l'"
  proof (cases "io_fails ?l")
    case True
    with assms have "l' = io_next ?l" by (auto simp: openFile_def Let_def)
    then show ?thesis by (intro growsI) simp
  next
    case False
    then have "l_disk l' = (if exists_file ?l (segPath cx name (p_segment p)) then l_disk ?l
        else map_put (segPath cx name (p_segment p)) [] (l_disk ?l))"
      using assms unfolding openFile_def Let_def by (simp split del: if_split) auto
    then show ?thesis by (auto simp: grows_def exists_file_def)
  qed
  finally show ?thesis .
qed

lemma then_do_cases:
  assumes "then_do r f = (e, s')"
  obtains (stop) er where "r = (Some er, s')" "e = Some er"
    | (go) s where "r = (None, s)" "f s = (e, s')"
  using assms by (cases r; cases "fst r") (auto simp: then_do_def)

lemma sign_if_grows:
  "(if b then signBatch cx (l, p) else (None, l, p)) = (e, l', p') \<Longrightarrow> grows l l'"
  by (auto split: if_splits dest: signBatch_grows)

lemma sign_if_kept:
  "(if b then signBatch cx (l, p) else (None, l, p)) = (e, l', p') \<Longrightarrow> kept l p line \<Longrightarrow> kept l' p' line"
  by (auto split: if_splits dest: signBatch_kept)

lemma release_disk: "release (l, p) = (e, l', p') \<Longrightarrow> e = None \<and> l_disk l' = l_disk l"
  by (auto simp: release_def)

text \<open>Every step of \<open>roll\<close> extends files and keeps the lines that were in the buffer.\<close>

lemma roll_step:
  assumes "roll cx name (l, p) = (e, l', p')"
  shows "grows l l' \<and> (kept l p line \<longrightarrow> kept l' p' line)"
proof -
  obtain e1 l1 p1 where 1: "(if p_unsigned p > 0 then signBatch cx (l, p) else (None, l, p)) = (e1, l1, p1)"
    by (metis surj_pair)
  obtain e2 l2 p2 where 2: "flush (l1, p1) = (e2, l2, p2)" by (metis surj_pair)
  obtain e3 l3 p3 where 3: "fsync (l2, p2) = (e3, l3, p3)" by (metis surj_pair)
  obtain e4 l4 p4 where 4: "fclose (l3, p3) = (e4, l4, p4)" by (metis surj_pair)
  obtain e5 l5 p5 where 5: "release (l4, p4) = (e5, l5, p5)" by (metis surj_pair)
  obtain e6 l6 p6 where 6: "openFile cx name (l5, p5) = (e6, l6, p6)" by (metis surj_pair)
  note g1 = sign_if_grows [OF 1] and k1 = sign_if_kept [OF 1]
  note g2 = flush_grows [OF 2] and k2 = flush_kept [OF 2]
  note d3 = fsync_disk [OF 3] and d4 = fclose_disk [OF 4] and d5 = release_disk [OF 5]
  have r: "roll cx name (l, p) = (if e1 \<noteq> None then (e1, l1, p1) else if e2 \<noteq> None then (e2, l2, p2)
     else if e3 \<noteq> None then (e3, l3, p3) else if e4 \<noteq> None then (e4, l4, p4)
     else if e6 \<noteq> None then (e6, l6, p6) else appendLine cx (header_record cx name l6 p6) (l6, p6))"
    using 1 2 3 4 5 6 d5 by (auto simp: roll_def then_do_def)
  have g12: "grows l l2" using g1 g2 by (rule grows_trans)
  have g6: "grows l2 l6" using openFile_grows [OF 6] d3 d4 d5 by (simp add: grows_def)
  consider "(l', p') = (l1, p1)" | "(l', p') = (l2, p2)" | "(l', p') = (l3, p3)" | "(l', p') = (l4, p4)"
    | (late) "e1 = None" "e2 = None" "grows l6 l'"
    using assms r by (auto split: if_splits dest: appendLine_grows)
  then show ?thesis
  proof cases
    case 1
    with g1 k1 show ?thesis by simp
  next
    case 2
    with g12 k1 k2 show ?thesis by simp
  next
    case 3
    have "grows l l3" using g12 d3 by (simp add: grows_def)
    with 3 k1 k2 d3 show ?thesis by (auto simp: kept_def on_disk_def)
  next
    case 4
    have "grows l l4" using g12 d3 d4 by (simp add: grows_def)
    with 4 k1 k2 d3 d4 show ?thesis by (auto simp: kept_def on_disk_def)
  next
    case late
    have "grows l2 l'" using g6 late(3) by (rule grows_trans)
    moreover have "kept l' p' line" if k: "kept l p line"
    proof -
      have "on_disk l2 line" by (rule flush_durable [OF _ k1 [OF k]]) (use 2 late(2) in simp)
      from grows_on_disk [OF \<open>grows l2 l'\<close> this] show ?thesis by (simp add: kept_def)
    qed
    ultimately show ?thesis using g12 grows_trans by blast
  qed
qed

lemma after_append_step:
  assumes "after_append cx name sq (l, p) = (l', p')"
  shows "grows l l' \<and> (kept l p line \<longrightarrow> kept l' p' line)"
proof -
  let ?p = "if p_unsigned p = 1 then p\<lparr>p_firstUnsig := sq\<rparr> else p"
  obtain e1 l1 p1 where 1: "(if p_unsigned ?p \<ge> batchMaxRecords then signBatch cx (l, ?p) else (None, l, ?p)) = (e1, l1, p1)"
    by (metis surj_pair)
  obtain e2 l2 p2 where 2: "roll cx name (l1, p1) = (e2, l2, p2)" by (metis surj_pair)
  have r: "(if p_unsigned ?p \<ge> batchMaxRecords then snd (signBatch cx (l, ?p)) else (l, ?p)) = (l1, p1)"
    using 1 by (metis snd_conv)
  have eq: "(l', p') = (if p_bytes p1 \<ge> l_maxSegment l1
      then (case e2 of None \<Rightarrow> (l2, p2) | Some e \<Rightarrow> (countWriteError name l2, p2)) else (l1, p1))"
    using assms unfolding after_append_def Let_def prod.case r
    by (cases "p_bytes p1 \<ge> l_maxSegment l1") (simp_all add: 2 split: option.splits)
  have g1: "grows l l1" and k1: "kept l p line \<longrightarrow> kept l1 p1 line"
    using sign_if_grows [OF 1] sign_if_kept [OF 1] by (auto simp: kept_def split: if_splits)
  note s2 = roll_step [OF 2]
  show ?thesis
  proof (cases "p_bytes p1 \<ge> l_maxSegment l1")
    case True
    with eq have "p' = p2" "l_disk l' = l_disk l2" by (auto split: option.splits)
    then have "grows l2 l'" "kept l2 p2 line \<longrightarrow> kept l' p' line"
      by (auto intro: growsI simp: kept_def on_disk_def)
    with s2 g1 k1 grows_trans show ?thesis by blast
  next
    case False
    with eq g1 k1 show ?thesis by simp
  qed
qed

lemma openFile_f: "openFile cx name (l, p) = (None, l', p') \<Longrightarrow> p_f p' \<noteq> None"
  by (auto simp: openFile_def Let_def split: if_splits)

lemma appendLine_f: "appendLine cx rec (l, p) = (e, l', p') \<Longrightarrow> p_f p' = p_f p"
  by (erule appendLine_cases) auto

lemma part_marks_step:
  assumes "part_marks cx name count inherited (l, p) = (e, l', p')"
  shows "grows l l' \<and> p_f p' = p_f p"
proof -
  obtain e1 l1 p1 where 1: "appendLine cx (resumed_record cx inherited l p) (l, p) = (e1, l1, p1)"
    by (metis surj_pair)
  obtain l2 p2 where 2: "(l2, p2) = (if inherited > 0 then (l1, p1) else (l, p))" by (metis surj_pair)
  have "part_marks cx name count inherited (l, p)
      = (if count = 0 then appendLine cx (header_record cx name l2 p2) (l2, p2) else (None, l2, p2))"
    using 1 2 by (cases "inherited > 0") (simp_all add: part_marks_def)
  with assms have "grows l2 l' \<and> p_f p' = p_f p2"
    by (auto split: if_splits dest: appendLine_grows appendLine_f)
  moreover have "grows l l2 \<and> p_f p2 = p_f p"
    using 1 2 appendLine_grows [OF 1] appendLine_f [OF 1] by (auto split: if_splits)
  ultimately show ?thesis using grows_trans by auto
qed

lemma forgetColdest_disk [simp]: "l_disk (forgetColdest l) = l_disk l"
  by (simp add: forgetColdest_def split: option.splits prod.splits)

lemma part_known_step:
  assumes "part_known cx name p l = (r, l')"
  shows "grows l l' \<and> (\<forall>q. r = Inr q \<longrightarrow> p_f q \<noteq> None)"
proof -
  obtain e1 l1 p1 where 1: "(if p_f p = None then openFile cx name (l, p) else (None, l, p)) = (e1, l1, p1)"
    by (metis surj_pair)
  have "l_disk l' = l_disk l1" using assms 1
    by (auto simp: part_known_def Let_def split: option.splits)
  then have "grows l1 l'" by (rule growsI)
  moreover have "grows l l1" using 1 by (auto split: if_splits dest: openFile_grows)
  moreover have "p_f q \<noteq> None" if "r = Inr q" for q
  proof -
    from assms 1 that have "e1 = None" "p_f q = p_f p1"
      by (auto simp: part_known_def Let_def split: option.splits)
    with 1 show ?thesis by (auto split: if_splits dest: openFile_f)
  qed
  ultimately show ?thesis using grows_trans by blast
qed

lemma part_new_step:
  assumes "part_new cx name l = (r, l')"
  shows "grows l l' \<and> (\<forall>q. r = Inr q \<longrightarrow> p_f q \<noteq> None)"
  using assms
proof (cases rule: part_newE)
  case unread
  then show ?thesis by simp
next
  case (begun sq0 head0 count inh sq head seg ls p e1 l1 p1 e2 l2 p2)
  have "l_disk ls = l_disk l" using begun(2) by auto
  then have g1: "grows l l1" using openFile_grows [OF begun(4)] by (simp add: grows_def)
  from part_marks_step [OF begun(5)] have g2: "grows l1 l2" "p_f p2 = p_f p1" by (simp_all add: grows_def)
  have g3: "grows l2 (put_part name p2 l2)" by (intro growsI) simp
  show ?thesis
  proof (cases e1)
    case (Some e)
    with begun(6) g1 show ?thesis by simp
  next
    case None
    with begun(6) have "l' = put_part name p2 l2" "r = Inr q \<Longrightarrow> q = p2" for q
      by (auto split: option.splits)
    moreover have "p_f p2 \<noteq> None" using openFile_f begun(4) None g2(2) by simp
    ultimately show ?thesis using g1 g2(1) g3 grows_trans by blast
  qed
qed

lemma part_step:
  assumes "part cx name l = (r, l')"
  shows "grows l l' \<and> (\<forall>q. r = Inr q \<longrightarrow> p_f q \<noteq> None)"
proof -
  let ?l = "l\<lparr>l_clock := l_clock l + 1\<rparr>"
  have "grows ?l l' \<and> (\<forall>q. r = Inr q \<longrightarrow> p_f q \<noteq> None)"
    using assms unfolding part_def Let_def
    by (cases "map_of (l_parts ?l) name") (auto dest: part_known_step part_new_step)
  then show ?thesis by (simp add: grows_def)
qed

text \<open>\<open>write\<close>: files are extended only, and when it answers without an error the line it
  made is on disk or in the buffer of the open partition stored under its name.\<close>

lemma ledger_write_step:
  assumes "ledger_write cx name rec l = (e, l')"
  shows "grows l l' \<and> (e = None \<longrightarrow> (\<exists>sq prev line p. map_of (l_parts l') name = Some p \<and>
     marshal cx (rec\<lparr>r_Seq := sq, r_PrevHash := prev\<rparr>) = Some line \<and> kept l' p line))"
proof -
  obtain r l1 where 1: "part cx name l = (r, l1)" by force
  note s1 = part_step [OF 1]
  show ?thesis
  proof (cases r)
    case (Inl er)
    with assms 1 have "l' = countWriteError name l1" "e = Some er" by (auto simp: ledger_write_def)
    with s1 show ?thesis by (simp add: grows_def)
  next
    case (Inr p)
    define r2 where "r2 = rec\<lparr>r_Seq := p_seq p + 1, r_PrevHash := p_headHash p\<rparr>"
    obtain e2 l2 p2 where 2: "appendLine cx r2 (l1, p) = (e2, l2, p2)" by (metis surj_pair)
    have g2: "grows l l2" using s1 appendLine_grows [OF 2] grows_trans by blast
    show ?thesis
    proof (cases e2)
      case (Some er)
      with assms 1 Inr 2 have "l' = countWriteError name (put_part name p2 l2)" "e = Some er"
        by (auto simp: ledger_write_def Let_def r2_def)
      with g2 show ?thesis by (simp add: grows_def)
    next
      case None
      obtain l3 p3 where 3: "after_append cx name (r_Seq r2) (l2, p2) = (l3, p3)" by force
      have eq: "e = None" "l' = put_part name p3 l3"
        using assms 1 Inr 2 3 None by (auto simp: ledger_write_def Let_def r2_def)
      from appendLine_new [of cx r2 l1 p l2 p2] 2 None s1 Inr
      obtain line where m: "marshal cx r2 = Some line" and k: "kept l2 p2 line" by auto
      from after_append_step [OF 3] k have "grows l2 l3" "kept l3 p3 line" by auto
      then have "kept l' p3 line" by (simp add: eq(2) kept_def on_disk_def)
      have "grows l3 l'" by (rule growsI) (simp add: eq(2))
      with g2 \<open>grows l2 l3\<close> have "grows l l'" using grows_trans by blast
      have "map_of (l_parts l') name = Some p3" by (simp add: eq(2) put_part_def)
      then show ?thesis using m \<open>kept l' p3 line\<close> \<open>grows l l'\<close> unfolding r2_def by blast
    qed
  qed
qed

section \<open>The queue and the public operations\<close>

definition records_only :: "queued list \<Rightarrow> bool" where
  "records_only qs \<longleftrightarrow> (\<forall>q \<in> set qs. \<forall>keep. q \<noteq> QPrune keep)"

lemma records_only_simps [simp]:
  "records_only []"
  "records_only (QRecord n r w # qs) = records_only qs"
  "\<not> records_only (QPrune k # qs)"
  "records_only (qs @ qs') \<longleftrightarrow> records_only qs \<and> records_only qs'"
  by (auto simp: records_only_def)

lemma run_item_step:
  assumes "run_item cx (QRecord name rec waits) l = (e, l')"
  shows "grows l l' \<and> (waits \<and> e = None \<longrightarrow> (\<exists>sq prev line.
     marshal cx (rec\<lparr>r_Seq := sq, r_PrevHash := prev\<rparr>) = Some line \<and> on_disk l' line))"
proof -
  obtain e1 l1 where 1: "ledger_write cx name rec l = (e1, l1)" by force
  note s1 = ledger_write_step [OF 1]
  show ?thesis
  proof (cases "waits \<and> e1 = None")
    case False
    with assms 1 have "e = e1" "l' = l1"
      by (auto simp: run_item_def split: if_splits option.splits)
    with s1 False show ?thesis by auto
  next
    case True
    with s1 obtain sq prev line p where w: "map_of (l_parts l1) name = Some p"
      "marshal cx (rec\<lparr>r_Seq := sq, r_PrevHash := prev\<rparr>) = Some line" "kept l1 p line" "grows l l1"
      by auto
    show ?thesis
    proof (cases "p_f p = None")
      case True
      with \<open>waits \<and> e1 = None\<close> assms 1 w(1) have "l' = l1" by (auto simp: run_item_def)
      moreover have "on_disk l1 line" using w(3) True by (simp add: kept_def)
      ultimately show ?thesis using w(2,4) by blast
    next
      case False
      obtain e2 l2 p2 where 2: "flush (l1, p) = (e2, l2, p2)" by (metis surj_pair)
      with \<open>waits \<and> e1 = None\<close> assms 1 w(1) False have r: "e = e2" "l' = put_part name p2 l2"
        by (auto simp: run_item_def)
      have "grows l2 l'" by (rule growsI) (simp add: r)
      with w(4) flush_grows [OF 2] have g: "grows l l'" using grows_trans by blast
      have "on_disk l' line" if "e = None"
      proof -
        have "on_disk l2 line" by (rule flush_durable [OF _ w(3)]) (use 2 r that in simp)
        with \<open>grows l2 l'\<close> show ?thesis by (rule grows_on_disk)
      qed
      with g w(2) show ?thesis by blast
    qed
  qed
qed

lemma drain_grows: "records_only qs \<Longrightarrow> grows l (drain cx qs l)"
proof (induction qs arbitrary: l)
  case Nil
  show ?case by simp
next
  case (Cons q qs)
  then obtain n r w where q: "q = QRecord n r w" by (cases q) auto
  with Cons.prems have "records_only qs" by simp
  obtain e l1 where 1: "run_item cx q l = (e, l1)" by force
  have "grows l l1" using run_item_step 1 q by blast
  also have "grows l1 (drain cx qs l1)" by (rule Cons.IH) fact
  finally show ?case using 1 by simp
qed

lemma run_queue_grows: "records_only (l_queue l) \<Longrightarrow> grows l (run_queue cx l)"
  using drain_grows [of "l_queue l" "l\<lparr>l_queue := []\<rparr>" cx] by (simp add: run_queue_def grows_def)

lemma write_pending_grows: "grows l (write_pending cx to gs l)"
proof (induction gs arbitrary: l)
  case Nil
  show ?case by simp
next
  case (Cons a gs)
  obtain name g where a: "a = (name, g)" by force
  obtain e l1 where 1: "ledger_write cx name (gap_record cx to g l) l = (e, l1)" by force
  have g1: "grows l l1" using ledger_write_step [OF 1] by simp
  show ?case
  proof (cases e)
    case None
    with a 1 g1 Cons.IH [of l1] grows_trans show ?thesis by fastforce
  next
    case (Some er)
    have "grows l1 (put_back name g l1)" by (rule growsI) (simp add: put_back_def gap_add_def)
    with g1 have "grows l (put_back name g l1)" by (rule grows_trans)
    also have "grows (put_back name g l1) (write_pending cx to gs (put_back name g l1))"
      by (rule Cons.IH)
    finally show ?thesis using a 1 Some by simp
  qed
qed

lemma writeGaps_grows: "grows l (writeGaps cx l)"
proof (cases "l_gaps l = []")
  case True
  then show ?thesis by (simp add: writeGaps_def takeGaps_def grows_def)
next
  case False
  have "grows (l\<lparr>l_gaps := []\<rparr>) (write_pending cx (l_now l) (l_gaps l) (l\<lparr>l_gaps := []\<rparr>))"
    by (rule write_pending_grows)
  with False show ?thesis by (simp add: writeGaps_def takeGaps_def grows_def Let_def)
qed

lemma ledger_write_grows: "grows l (snd (ledger_write cx name rec l))"
  using ledger_write_step [of cx name rec l] by (metis prod.collapse)

lemma writeHeartbeat_grows: "grows l (writeHeartbeat cx now maxd l)"
  using ledger_write_grows [of l cx ProxyPartition "lifecycle_record cx ReasonHeartbeat now l"]
  by (simp add: writeHeartbeat_def grows_def)

lemma sign_flush_grows:
  assumes "sign_flush cx (l, p) = (e, l', p')"
  shows "grows l l'"
proof -
  obtain e1 l1 p1 where 1: "(if p_unsigned p > 0 then signBatch cx (l, p) else (None, l, p)) = (e1, l1, p1)"
    by (metis surj_pair)
  obtain e2 l2 p2 where 2: "flush (l1, p1) = (e2, l2, p2)" by (metis surj_pair)
  from assms 1 2 have "l' = l2" by (simp add: sign_flush_def)
  with sign_if_grows [OF 1] flush_grows [OF 2] grows_trans show ?thesis by blast
qed

lemma tick_parts_grows: "grows l (tick_parts cx ns l)"
proof (induction ns arbitrary: l)
  case Nil
  show ?case by simp
next
  case (Cons name ns)
  show ?case
  proof (cases "\<exists>p. map_of (l_parts l) name = Some p \<and> p_f p \<noteq> None")
    case False
    then have "tick_parts cx (name # ns) l = tick_parts cx ns l" by (auto split: option.splits)
    with Cons.IH show ?thesis by simp
  next
    case True
    then obtain p where p: "map_of (l_parts l) name = Some p" "p_f p \<noteq> None" by blast
    obtain e l1 p1 where 1: "sign_flush cx (l, p) = (e, l1, p1)" by (metis surj_pair)
    have "grows l1 (put_part name p1 l1)" by (rule growsI) simp
    with sign_flush_grows [OF 1] have "grows l (put_part name p1 l1)" by (rule grows_trans)
    also have "grows (put_part name p1 l1) (tick_parts cx ns (put_part name p1 l1))" by (rule Cons.IH)
    finally show ?thesis using p 1 by auto
  qed
qed

lemma tick_grows: "grows l (tick cx l)"
  unfolding tick_def Let_def
  by (rule grows_trans [OF grows_trans [OF writeGaps_grows writeHeartbeat_grows] tick_parts_grows])

lemma close_parts_grows: "grows l (snd (close_parts cx ns err l))"
proof (induction ns arbitrary: l err)
  case Nil
  show ?case by simp
next
  case (Cons name ns)
  show ?case
  proof (cases "\<exists>p. map_of (l_parts l) name = Some p \<and> p_f p \<noteq> None")
    case False
    then have "close_parts cx (name # ns) err l = close_parts cx ns err l" by (auto split: option.splits)
    with Cons.IH show ?thesis by simp
  next
    case True
    then obtain p where p: "map_of (l_parts l) name = Some p" "p_f p \<noteq> None" by blast
    obtain e1 l1 p1 where 1: "sign_flush cx (l, p) = (e1, l1, p1)" by (metis surj_pair)
    obtain e2 l2 p2 where 2: "fclose (l1, p1) = (e2, l2, p2)" by (metis surj_pair)
    have "grows l1 (put_part name p2 l2)" by (rule growsI) (simp add: fclose_disk [OF 2])
    with sign_flush_grows [OF 1] have "grows l (put_part name p2 l2)" by (rule grows_trans)
    also note Cons.IH [of "put_part name p2 l2" "or_err err (or_err e1 e2)"]
    finally show ?thesis using p 1 2 by auto
  qed
qed

text \<open>
  One step of the process on its ledger: a public call or a turn of the writer goroutine,
  \<open>Prune\<close> apart, with the clock and the queue moving as they do.
\<close>

inductive ledger_step :: "('l, 'k, 'p) codec \<Rightarrow> ('l, 'k) ledger \<Rightarrow> ('l, 'k) ledger \<Rightarrow> bool"
  for cx where
  Append: "ledger_step cx l (Append name rec l)"
| AppendResponse: "ledger_step cx l (AppendResponse name rec l)"
| AppendSync: "ledger_step cx l (snd (AppendSync cx name rec l))"
| Identity: "ledger_step cx l (RecordIdentityGap name l)"
| Queue: "ledger_step cx l (run_queue cx l)"
| Tick: "ledger_step cx l (tick cx l)"
| Clock: "ledger_step cx l (l\<lparr>l_now := t\<rparr>)"

lemma enqueue_disk [simp]: "l_disk (enqueue name rec l) = l_disk l"
  by (simp add: enqueue_def countDropped_def gap_add_def)

lemma AppendSync_step:
  assumes "records_only (l_queue l)" and "AppendSync cx name rec l = (e, l')"
  shows "grows l l' \<and> (e = None \<longrightarrow> (\<exists>sq prev line.
     marshal cx (rec\<lparr>r_Kind := KindDecision, r_Seq := sq, r_PrevHash := prev\<rparr>) = Some line \<and>
     on_disk l' line))"
proof (cases "l_closed l \<or> \<not> length (l_queue l) < queueCap")
  case True
  with assms(2) have "l_disk l' = l_disk l" "e \<noteq> None"
    by (auto simp: AppendSync_def countDropped_def gap_add_def split: if_splits)
  then show ?thesis by (auto intro: growsI)
next
  case False
  with assms(2) have "run_item cx (QRecord name (rec\<lparr>r_Kind := KindDecision\<rparr>) True) (run_queue cx l) = (e, l')"
    by (simp add: AppendSync_def)
  from run_item_step [OF this] run_queue_grows [OF assms(1)] show ?thesis
    using grows_trans by blast
qed

lemma fixed_records_only: "fixed l' = fixed l \<Longrightarrow> records_only (l_queue l') = records_only (l_queue l)"
  by (simp add: fixed_def)

lemma run_queue_records: "records_only (l_queue l) \<Longrightarrow> records_only (l_queue (run_queue cx l))"
proof -
  assume r: "records_only (l_queue l)"
  have "fixed (run_queue cx l) = fixed (l\<lparr>l_queue := []\<rparr>)"
    unfolding run_queue_def by (rule drain_fixed) (use r in \<open>auto simp: records_only_def\<close>)
  then have "l_queue (run_queue cx l) = []" by (simp add: fixed_def)
  then show ?thesis by simp
qed

lemma ledger_step_grows:
  assumes "ledger_step cx l l'" and "records_only (l_queue l)"
  shows "grows l l' \<and> records_only (l_queue l')"
  using assms
proof cases
  case (AppendSync name rec)
  obtain e l1 where 1: "AppendSync cx name rec l = (e, l1)" by force
  with AppendSync have l': "l' = l1" by simp
  have "records_only (l_queue l1)"
  proof (cases "l_closed l \<or> \<not> length (l_queue l) < queueCap")
    case True
    with 1 assms(2) show ?thesis
      by (auto simp: AppendSync_def countDropped_def gap_add_def split: if_splits)
  next
    case False
    with 1 have "l1 = snd (run_item cx (QRecord name (rec\<lparr>r_Kind := KindDecision\<rparr>) True) (run_queue cx l))"
      by (simp add: AppendSync_def)
    then have "fixed l1 = fixed (run_queue cx l)" by (simp only: run_item_fixed)
    from fixed_records_only [OF this] run_queue_records [OF assms(2)] show ?thesis by simp
  qed
  with AppendSync_step [OF assms(2) 1] l' show ?thesis by simp
next
  case Queue
  with run_queue_grows run_queue_records assms(2) show ?thesis by blast
next
  case Tick
  with tick_grows tick_fixed fixed_records_only assms(2) show ?thesis by blast
qed (use assms(2) in \<open>auto intro: growsI simp: Append_def AppendResponse_def RecordIdentityGap_def
       enqueue_def countDropped_def gap_add_def\<close>)

section \<open>Properties\<close>

text \<open>
  C1.  Record before effect.  When \<open>AppendSync\<close> answers without an error, whatever I/O
  failed before and whatever was queued, the decision record it was given is on disk, with
  a sequence number and predecessor hash of the chain it was put in.
\<close>

theorem append_sync_durable:
  assumes "records_only (l_queue l)" and "AppendSync cx name rec l = (None, l')"
  shows "\<exists>sq prev line.
     marshal cx (rec\<lparr>r_Kind := KindDecision, r_Seq := sq, r_PrevHash := prev\<rparr>) = Some line \<and>
     on_disk l' line"
  using AppendSync_step [OF assms] by simp

text \<open>
  C12.  Append only.  Over any sequence of calls and writer turns other than \<open>Prune\<close>, with
  any failures, every export keeps its content and only gains lines after it.
\<close>

theorem exports_append_only:
  assumes "(ledger_step cx)\<^sup>*\<^sup>* l l'" and "records_only (l_queue l)"
    and "map_of (l_disk l) path = Some ls"
  shows "\<exists>more. map_of (l_disk l') path = Some (ls @ more)"
proof -
  have "grows l l' \<and> records_only (l_queue l')"
    using assms(1,2)
  proof (induction rule: rtranclp_induct)
    case base
    then show ?case by simp
  next
    case (step l1 l2)
    then show ?case using ledger_step_grows grows_trans by metis
  qed
  with assms(3) show ?thesis by (simp add: grows_def)
qed

text \<open>
   A write error is permanent for an open partition: once its buffered file has failed,
  every later write to it fails too and leaves it in the same state, until the partition is
  evicted or the process restarts.
\<close>

theorem write_error_sticks:
  assumes "map_of (l_parts l) name = Some p" and "p_f p \<noteq> None" and "p_werr p"
    and "\<And>sq h. marshal cx (rec\<lparr>r_Seq := sq, r_PrevHash := h\<rparr>) \<noteq> None"
  shows "fst (ledger_write cx name rec l) = Some WriteError \<and>
     (\<exists>q. map_of (l_parts (snd (ledger_write cx name rec l))) name = Some q \<and> p_f q = p_f p \<and> p_werr q \<and>
          p_seq q = p_seq p \<and> p_buf q = p_buf p)"
proof -
  let ?l = "l\<lparr>l_clock := l_clock l + 1\<rparr>" and ?p = "p\<lparr>p_used := l_clock l + 1\<rparr>"
  have "part cx name l = (Inr ?p, put_part name ?p ?l)"
    using assms(1,2) by (auto simp: part_def part_known_def Let_def)
  moreover have "appendLine cx (rec\<lparr>r_Seq := p_seq p + 1, r_PrevHash := p_headHash p\<rparr>) (l', ?p)
      = (Some WriteError, io_next l', ?p\<lparr>p_werr := True\<rparr>)" for l'
    using assms(3) assms(4) [of "p_headHash p" "p_seq p + 1"]
    by (cases "marshal cx (rec\<lparr>r_Seq := p_seq p + 1, r_PrevHash := p_headHash p\<rparr>)")
      (simp_all add: appendLine_def)
  ultimately have "ledger_write cx name rec l =
      (Some WriteError, countWriteError name (put_part name (?p\<lparr>p_werr := True\<rparr>) (io_next (put_part name ?p ?l))))"
    by (simp add: ledger_write_def)
  then show ?thesis by (simp add: countWriteError_def gap_add_def put_part_def)
qed

section \<open>Witnesses\<close>

definition sync_before :: "(ledger_record, char) ledger" where
  "sync_before = put_part ''w''
     ((new_partition 1 4 ''aa'' 0 0)\<lparr>p_f := Some ''w-77.jsonl'', p_buf := [zero_record]\<rparr>)
     (toy_ledger [(''w-77.jsonl'', [zero_record])] (\<lambda>n. n = 7))"

lemmas sync_eval = sync_before_def toy_ledger_def put_part_def new_partition_def AppendSync_def
  run_queue_def run_item_def ledger_write_def part_def part_known_def appendLine_def after_append_def
  flush_def io_fails_def io_next_def counts_unsigned_def file_of_def

theorem append_sync_durable_witness:
  "\<exists>sq prev line.
     marshal toy (zero_record\<lparr>r_Kind := KindDecision, r_Seq := sq, r_PrevHash := prev\<rparr>) = Some line \<and>
     on_disk (snd (AppendSync toy ''w'' zero_record sync_before)) line"
proof -
  have "fst (AppendSync toy ''w'' zero_record sync_before) = None"
    by (simp add: sync_eval toy_def Let_def batchMaxRecords_def maxSegmentBytes_def queueCap_def)
  then have "AppendSync toy ''w'' zero_record sync_before
      = (None, snd (AppendSync toy ''w'' zero_record sync_before))"
    by (metis prod.collapse)
  moreover have "records_only (l_queue sync_before)" by (simp add: sync_before_def toy_ledger_def put_part_def)
  ultimately show ?thesis using append_sync_durable by blast
qed

theorem exports_append_only_witness:
  "\<exists>more. map_of (l_disk (snd (AppendSync toy ''w'' zero_record sync_before))) ''w-77.jsonl''
     = Some ([zero_record] @ more)"
proof -
  have "(ledger_step toy)\<^sup>*\<^sup>* sync_before (snd (AppendSync toy ''w'' zero_record sync_before))"
    by (rule r_into_rtranclp) (rule AppendSync)
  then show ?thesis
    by (rule exports_append_only) (simp_all add: sync_before_def toy_ledger_def put_part_def)
qed

definition stuck_partition :: "ledger_record partition" where
  "stuck_partition = (new_partition 1 4 ''aa'' 0 0)\<lparr>p_f := Some ''w-77.jsonl'', p_werr := True\<rparr>"

theorem write_error_sticks_witness:
  "fst (ledger_write toy ''w'' zero_record (put_part ''w'' stuck_partition sync_before)) = Some WriteError"
  using write_error_sticks [of "put_part ''w'' stuck_partition sync_before" "''w''" stuck_partition toy zero_record]
  by (simp add: put_part_def stuck_partition_def new_partition_def)

end
