(* ===== verification/Ledger_Evidence.thy ===== *)
theory Ledger_Evidence
  imports Ledger_Chain Ledger_Sample
begin

text \<open>
  What an accepted export proves.  The result fields of \<open>VerifyFile\<close> are read off the
  lines; the head hash commits to every line; a checked signature vouches for every line
  before it.  Collisions of SHA-256 appear in the conclusions as explicit pairs of lines,
  so no injectivity is assumed of a hash.
\<close>

definition collision :: "('l, 'k, 'p) codec \<Rightarrow> 'l set \<Rightarrow> 'l set \<Rightarrow> bool" where
  "collision cx A B \<longleftrightarrow> (\<exists>a \<in> A. \<exists>b \<in> B. a \<noteq> b \<and> sha_line cx a = sha_line cx b)"

lemma collision_mono: "collision cx A B \<Longrightarrow> A \<subseteq> A' \<Longrightarrow> B \<subseteq> B' \<Longrightarrow> collision cx A' B'"
  by (auto simp: collision_def)

section \<open>Reading the result off the lines\<close>

lemma VerifyFile_result:
  assumes "VerifyFile cx ls pinned = Inr res"
  obtains l0 rest rec where "ls = l0 # rest" "unmarshal cx l0 = Some rec"
    "first_ok cx pinned l0 rec" "link cx (fst (anchor rec)) (snd (anchor rec)) ls"
    "\<forall>l \<in> set rest. body_ok cx (file_key cx pinned rec) (file_kid rec) l"
    "v_HeadHash res = line_hash cx (last ls)"
    "v_LastSeq res = snd (anchor rec) + of_nat (length ls)"
    "v_Uncovered res = sint (v_LastSeq res - last_sig cx 0 ls)"
    "v_Records res = int (length ls)"
    "v_Decisions res = int (count_kind cx KindDecision ls)"
    "v_FirstSeq res = (if is_header rec then r_Seq rec else 0)"
    "v_Segment res = (if is_header rec then if r_Segment rec = 0 then 1 else r_Segment rec else 0)"
    "v_ContinuesFrom res = fst (anchor rec)"
    "v_Tenant res = (if is_header rec then r_Tenant rec else '''')"
    "v_Workload res = (if is_header rec then r_Workload rec else '''')"
    "v_InstanceID res = (if is_header rec then r_InstanceID rec else '''')"
proof -
  from assms have "export_ok cx pinned ls" using verify_accepts_iff by blast
  then obtain l0 rest rec where ls: "ls = l0 # rest" and fok: "first_ok cx pinned l0 rec"
    and lnk: "link cx (fst (anchor rec)) (snd (anchor rec)) ls"
    and body: "\<forall>l \<in> set rest. body_ok cx (file_key cx pinned rec) (file_kid rec) l"
    by (auto simp: export_ok_def)
  from fok have u: "unmarshal cx l0 = Some rec" by (simp add: first_ok_def)
  from assms ls obtain t v where t: "verify_line cx l0 (vstate_init pinned) = Inr t"
    and v: "verify_lines cx rest t = Inr v" and fin: "verify_finish v = Inr res"
    by (auto simp: VerifyFile_Cons)
  have fs: "first_state cx pinned l0 rec t" by (rule verify_first_state [OF u t])
  then have n: "v_Records (vs_res t) \<ge> 1" by (simp add: first_state_def)
  note st = verify_lines_body_state [OF n v]
  from fin have res: "res = (vs_res v)\<lparr>v_Uncovered := sint (vs_prevSeq v - vs_lastSigAt v),
      v_LastSeq := vs_prevSeq v, v_HeadHash := vs_prevHash v\<rparr>"
    by (auto simp: verify_finish_def Let_def split: if_splits)
  have seq0: "r_Seq rec = snd (anchor rec) + 1" using lnk ls u by simp
  have ps: "vs_prevSeq v = snd (anchor rec) + of_nat (length ls)"
    using st(6) fs seq0 ls by (simp add: first_state_def)
  have lsig: "vs_lastSigAt v = last_sig cx 0 ls"
    using st(3) fs ls last_sig_append [of cx 0 "[l0]" rest] by (simp add: first_state_def)
  show thesis
  proof (rule that [OF ls u fok lnk body])
    show "v_HeadHash res = line_hash cx (last ls)"
      using st(5) fs ls res by (simp add: first_state_def)
    show "v_LastSeq res = snd (anchor rec) + of_nat (length ls)" using ps res by simp
    show "v_Uncovered res = sint (v_LastSeq res - last_sig cx 0 ls)" using res lsig by simp
    show "v_Records res = int (length ls)" using st(2) fs ls res by (simp add: first_state_def)
    show "v_Decisions res = int (count_kind cx KindDecision ls)"
      using st(4) fs ls res by (simp add: first_state_def)
  qed (use st(1) fs res in \<open>auto simp: head_part_def first_state_def\<close>)
qed

section \<open>The head hash commits to the file\<close>

text \<open>An accepted export, as far as its hashes go.\<close>

definition hash_chain :: "('l, 'k, 'p) codec \<Rightarrow> 'l list \<Rightarrow> bool" where
  "hash_chain cx ls \<longleftrightarrow>
     (\<exists>l0 rest rec. ls = l0 # rest \<and> unmarshal cx l0 = Some rec \<and>
        link cx (fst (anchor rec)) (snd (anchor rec)) ls \<and>
        (\<forall>l \<in> set rest. \<exists>r. unmarshal cx l = Some r \<and> \<not> is_header r))"

lemma body_ok_not_header: "body_ok cx k i l \<Longrightarrow> \<exists>r. unmarshal cx l = Some r \<and> \<not> is_header r"
  by (auto simp: body_ok_def split: option.splits)

lemma VerifyFile_hash_chain: "VerifyFile cx ls pinned = Inr res \<Longrightarrow> hash_chain cx ls"
  by (erule VerifyFile_result) (auto simp: hash_chain_def body_ok_not_header)

lemma link_append:
  "link cx ph ps (xs @ ys) \<longleftrightarrow> link cx ph ps xs \<and>
     link cx (if xs = [] then ph else line_hash cx (last xs)) (ps + of_nat (length xs)) ys"
  by (induction xs arbitrary: ph ps) (auto split: option.splits simp: add.assoc)

lemma hash_chain_single:
  "hash_chain cx [l] \<Longrightarrow> \<exists>r. unmarshal cx l = Some r \<and> (is_header r \<or> r_PrevHash r = '''')"
  by (auto simp: hash_chain_def anchor_def split: if_splits)

lemma hash_chain_take:
  assumes "hash_chain cx (zs @ ws)" and "zs \<noteq> []"
  shows "hash_chain cx zs"
proof -
  from assms(2) obtain z zs' where zs: "zs = z # zs'" by (cases zs) auto
  from assms(1) obtain rec where r: "unmarshal cx z = Some rec"
    "link cx (fst (anchor rec)) (snd (anchor rec)) (zs @ ws)"
    "\<forall>l \<in> set (zs' @ ws). \<exists>r. unmarshal cx l = Some r \<and> \<not> is_header r"
    unfolding hash_chain_def zs by auto
  from r(2) have "link cx (fst (anchor rec)) (snd (anchor rec)) zs" by (simp only: link_append)
  with r(1,3) zs show ?thesis unfolding hash_chain_def by auto
qed

lemma hash_chain_prefix: "hash_chain cx (xs @ l # ys) \<Longrightarrow> hash_chain cx (xs @ [l])"
  using hash_chain_take [of cx "xs @ [l]" ys] by simp

lemma hash_chain_snocD:
  assumes "hash_chain cx (xs @ [l])" and "xs \<noteq> []"
  shows "hash_chain cx xs"
    and "\<exists>r. unmarshal cx l = Some r \<and> r_PrevHash r = line_hash cx (last xs) \<and> \<not> is_header r"
proof -
  from assms(2) obtain x xs' where xs: "xs = x # xs'" by (cases xs) auto
  from assms(1) xs obtain rec where r: "unmarshal cx x = Some rec"
    "link cx (fst (anchor rec)) (snd (anchor rec)) (xs @ [l])"
    "\<forall>l \<in> set (xs' @ [l]). \<exists>r. unmarshal cx l = Some r \<and> \<not> is_header r"
    unfolding hash_chain_def by auto
  from assms show "hash_chain cx xs" by (rule hash_chain_take)
  from r show "\<exists>r. unmarshal cx l = Some r \<and> r_PrevHash r = line_hash cx (last xs) \<and> \<not> is_header r"
    using assms(2) unfolding link_append by (auto split: option.splits)
qed

lemma single_not_inner:
  assumes "codec_ok cx" and "hash_chain cx [l]" and "hash_chain cx (xs @ [l])"
  shows "xs = []"
proof (rule ccontr)
  assume "xs \<noteq> []"
  with assms(3) obtain r where "unmarshal cx l = Some r" "r_PrevHash r = line_hash cx (last xs)"
    "\<not> is_header r"
    using hash_chain_snocD(2) [OF assms(3)] by auto
  with hash_chain_single [OF assms(2)] have "line_hash cx (last xs) = []" by auto
  with line_hash_ne [OF assms(1)] show False by blast
qed

lemma same_head_same_file:
  assumes cx: "codec_ok cx"
  shows "hash_chain cx xs \<Longrightarrow> hash_chain cx ys \<Longrightarrow>
     line_hash cx (last xs) = line_hash cx (last ys) \<Longrightarrow>
     xs = ys \<or> collision cx (set xs) (set ys)"
proof (induction xs arbitrary: ys rule: rev_induct)
  case Nil
  then show ?case by (simp add: hash_chain_def)
next
  case (snoc a xs)
  from snoc.prems(2) have "ys \<noteq> []" by (auto simp: hash_chain_def)
  then obtain ys' b where ys: "ys = ys' @ [b]" by (metis append_butlast_last_id)
  from snoc.prems(3) ys have dig: "sha_line cx a = sha_line cx b" by (intro line_hash_eqD) simp
  show ?case
  proof (cases "a = b")
    case False
    with dig ys show ?thesis by (auto simp: collision_def)
  next
    case ab: True
    show ?thesis
    proof (cases "xs = [] \<or> ys' = []")
      case True
      then have "xs = [] \<and> ys' = []"
        using single_not_inner [OF cx, of a] snoc.prems(1,2) ys ab by auto
      with ab ys show ?thesis by simp
    next
      case False
      then have ne: "xs \<noteq> []" "ys' \<noteq> []" by auto
      from hash_chain_snocD [OF snoc.prems(1) ne(1)] obtain r where
        hx: "hash_chain cx xs" "unmarshal cx a = Some r" "r_PrevHash r = line_hash cx (last xs)"
        by blast
      from hash_chain_snocD [OF snoc.prems(2) [unfolded ys] ne(2)] hx ab have
        hy: "hash_chain cx ys'" "r_PrevHash r = line_hash cx (last ys')" by auto
      have "xs = ys' \<or> collision cx (set xs) (set ys')"
        using hx(3) hy(2) by (intro snoc.IH [OF hx(1) hy(1)]) simp
      moreover have "collision cx (set (xs @ [a])) (set ys)" if "collision cx (set xs) (set ys')"
        using that by (rule collision_mono) (auto simp: ys)
      ultimately show ?thesis using ab ys by blast
    qed
  qed
qed

section \<open>A signature vouches for everything before it\<close>

text \<open>The digest a batch signature of the writer was made over.\<close>

definition signs :: "('l, 'k, 'p) codec \<Rightarrow> 'l \<Rightarrow> string \<Rightarrow> bool" where
  "signs cx l d \<longleftrightarrow> (\<exists>r u. unmarshal cx l = Some r \<and> r_Kind r = KindBatchSig \<and>
     marshal cx (r\<lparr>r_Sig := ''''\<rparr>) = Some u \<and> sha_line cx u = d)"

text \<open>
  Nobody without the key signs: every signature that checks under the key was made over
  the digest of a batch record of one of the honest exports.
\<close>

definition unforgeable :: "('l, 'k, 'p) codec \<Rightarrow> 'p \<Rightarrow> 'l list set \<Rightarrow> bool" where
  "unforgeable cx p Fs \<longleftrightarrow>
     (\<forall>d s. ecdsa_verify cx p d s \<longrightarrow> (\<exists>F \<in> Fs. \<exists>l \<in> set F. signs cx l d))"

definition canon_lines :: "('l, 'k, 'p) codec \<Rightarrow> 'l set" where
  "canon_lines cx = {u. \<exists>r. marshal cx r = Some u}"

lemma sig_prefix_honest:
  assumes cx: "codec_ok cx" and unf: "unforgeable cx p Fs"
    and honest: "\<And>F. F \<in> Fs \<Longrightarrow> hash_chain cx F"
    and acc: "hash_chain cx (A @ [l])"
    and l: "unmarshal cx l = Some rec" "r_Kind rec = KindBatchSig" "verifyBatchSig cx rec p = None"
  shows "(\<exists>F \<in> Fs. \<exists>m G r. F = A @ m # G \<and> unmarshal cx m = Some r \<and>
            r\<lparr>r_Sig := ''''\<rparr> = rec\<lparr>r_Sig := ''''\<rparr>) \<or>
         collision cx (set A) (\<Union> (set ` Fs)) \<or> collision cx (canon_lines cx) (canon_lines cx)"
proof -
  from l(3) obtain sg u where u: "marshal cx (rec\<lparr>r_Sig := ''''\<rparr>) = Some u"
    and v: "ecdsa_verify cx p (sha_line cx u) sg"
    by (auto simp: verifyBatchSig_def split: option.splits if_splits)
  from unf v obtain F m where F: "F \<in> Fs" "m \<in> set F" "signs cx m (sha_line cx u)"
    unfolding unforgeable_def by blast
  from F(3) obtain r w where r: "unmarshal cx m = Some r" "r_Kind r = KindBatchSig"
    "marshal cx (r\<lparr>r_Sig := ''''\<rparr>) = Some w" "sha_line cx w = sha_line cx u"
    unfolding signs_def by blast
  show ?thesis
  proof (cases "w = u")
    case False
    with r u have "collision cx (canon_lines cx) (canon_lines cx)"
      unfolding collision_def canon_lines_def by blast
    then show ?thesis by blast
  next
    case True
    then have same: "r\<lparr>r_Sig := ''''\<rparr> = rec\<lparr>r_Sig := ''''\<rparr>"
      using codec_okD(1) [OF cx u] codec_okD(1) [OF cx r(3)] by simp
    have ph: "r_PrevHash r = r_PrevHash rec"
      using arg_cong [OF same, of r_PrevHash] by simp
    from F(2) obtain B G where FB: "F = B @ m # G" by (meson split_list)
    have nh: "\<not> is_header rec" "\<not> is_header r" using l(2) r(2) by (simp_all add: is_header_def)
    have hB: "hash_chain cx (B @ [m])"
      by (rule hash_chain_prefix [of cx B m G]) (use honest [OF F(1)] FB in simp)
    have "A = B \<or> collision cx (set A) (set B)"
    proof (cases "A = [] \<or> B = []")
      case True
      have e: "r_PrevHash q = [] \<longleftrightarrow> C = []" if "hash_chain cx (C @ [k])" "unmarshal cx k = Some q"
        "\<not> is_header q" for C k q
      proof (cases "C = []")
        case True
        with that hash_chain_single [of cx k] show ?thesis by auto
      next
        case False
        with hash_chain_snocD(2) [OF that(1) False] that(2) line_hash_ne [OF cx, of "last C"]
        show ?thesis by auto
      qed
      from True e [OF acc l(1) nh(1)] e [OF hB r(1) nh(2)] ph show ?thesis by auto
    next
      case False
      then have ne: "A \<noteq> []" "B \<noteq> []" by auto
      have "line_hash cx (last A) = line_hash cx (last B)"
        using hash_chain_snocD(2) [OF acc ne(1)] hash_chain_snocD(2) [OF hB ne(2)] l(1) r(1) ph
        by auto
      then show ?thesis
        by (intro same_head_same_file [OF cx] hash_chain_snocD(1) [OF acc ne(1)]
            hash_chain_snocD(1) [OF hB ne(2)])
    qed
    then show ?thesis
    proof
      assume "A = B"
      with F(1) FB r(1) same show ?thesis by blast
    next
      assume "collision cx (set A) (set B)"
      then have "collision cx (set A) (\<Union> (set ` Fs))"
        by (rule collision_mono) (use F(1) FB in auto)
      then show ?thesis by blast
    qed
  qed
qed

lemma accepted_sig_checks:
  assumes "VerifyFile cx (xs @ l # ys) (Some p) = Inr res" and "unmarshal cx l = Some rec"
    and "r_Kind rec = KindBatchSig"
  shows "verifyBatchSig cx rec p = None"
proof (rule VerifyFile_result [OF assms(1)])
  fix l0 rest h
  assume ls: "xs @ l # ys = l0 # rest" and u: "unmarshal cx l0 = Some h"
    and fok: "first_ok cx (Some p) l0 h"
    and body: "\<forall>l \<in> set rest. body_ok cx (file_key cx (Some p) h) (file_kid h) l"
  have nh: "\<not> is_header rec" using assms(3) by (simp add: is_header_def)
  show ?thesis
  proof (cases xs)
    case Nil
    with ls u assms(2) have "h = rec" by simp
    with fok nh assms(3) show ?thesis by (simp add: first_ok_def sig_ok_def file_key_def)
  next
    case (Cons x xs')
    with ls have "l \<in> set rest" by auto
    with body have "body_ok cx (Some p) (file_kid h) l" by (auto simp: file_key_def)
    with assms(2,3) show ?thesis by (simp add: body_ok_def sig_ok_def)
  qed
qed

section \<open>Properties\<close>

text \<open>
  C8.  \<open>VerifyFile\<close> accepts exactly the exports that satisfy the declarative specification
  \<open>export_ok\<close>: one unbroken hash chain, a header only in front, every line short enough
  and parseable, every batch signature valid under the export's key, and decisions only
  together with a signature.
\<close>

theorem verify_accepts_exactly: "(\<exists>res. VerifyFile cx ls pinned = Inr res) \<longleftrightarrow> export_ok cx pinned ls"
  by (rule verify_accepts_iff)

text \<open>
  C9.  The head hash commits to the whole export: two accepted exports with the same head
  hash are equal line by line, or two of their lines are a SHA-256 collision.
\<close>

theorem head_hash_commits:
  assumes "codec_ok cx" and "VerifyFile cx xs k1 = Inr r1" and "VerifyFile cx ys k2 = Inr r2"
    and "v_HeadHash r1 = v_HeadHash r2"
  shows "xs = ys \<or> collision cx (set xs) (set ys)"
proof -
  have h: "v_HeadHash r1 = line_hash cx (last xs)" using assms(2) by (rule VerifyFile_result)
  have h': "v_HeadHash r2 = line_hash cx (last ys)" using assms(3) by (rule VerifyFile_result)
  show ?thesis
    by (rule same_head_same_file [OF assms(1) VerifyFile_hash_chain [OF assms(2)] VerifyFile_hash_chain [OF assms(3)]])
      (use assms(4) h h' in simp)
qed


section \<open>Witnesses\<close>

definition one_header :: ledger_record where
  "one_header = zero_record\<lparr>r_Kind := KindHeader, r_Seq := 1, r_PubKey := ''K'', r_Kid := ''k'', r_Segment := 1\<rparr>"

definition one_sig :: ledger_record where
  "one_sig = zero_record\<lparr>r_Kind := KindBatchSig, r_Seq := 2, r_Kid := ''k'',
     r_PrevHash := hex [char_of (1 :: nat)], r_Sig := [CHR ''K'', char_of (2 :: nat)]\<rparr>"

text \<open>The key has signed the digest of \<open>one_sig\<close> and nothing else.\<close>

definition toy_once :: "(ledger_record, char, char) codec" where
  "toy_once = toy\<lparr>ecdsa_sign := \<lambda>k n d. if k = CHR ''K'' \<and> d = [char_of (2 :: nat)] then Some (k # d) else None,
     ecdsa_verify := \<lambda>p d s. p = CHR ''K'' \<and> d = [char_of (2 :: nat)] \<and> s = p # d\<rparr>"

lemma toy_once_simps [simp]:
  "marshal toy_once r = Some r" "unmarshal toy_once r = Some r" "line_len toy_once r = 100"
  "sha_line toy_once r = [char_of (unat (r_Seq r))]" "b64_dec toy_once s = Some s"
  "parse_pub toy_once [k] = Some k"
  "ecdsa_verify toy_once p d s = (p = CHR ''K'' \<and> d = [char_of (2 :: nat)] \<and> s = p # d)"
  by (simp_all add: toy_once_def)

lemma toy_once_ok: "codec_ok toy_once"
  by (simp add: codec_ok_def toy_once_def)

lemma one_accepted: "\<exists>res. VerifyFile toy_once [one_header, one_sig] (Some (CHR ''K'')) = Inr res"
  unfolding verify_accepts_iff export_ok_def
  by (intro exI [of _ one_header] exI [of _ "[one_sig]"])
    (simp add: first_ok_def body_ok_def one_header_def one_sig_def is_header_def anchor_def file_key_def
      file_kid_def maxLine_def sig_ok_def verifyBatchSig_def zero_record_def count_kind_def kind_of_def
      line_hash_def)

theorem head_hash_commits_witness:
  "\<exists>r. VerifyFile toy_once [one_header, one_sig] (Some (CHR ''K'')) = Inr r \<and>
     ([one_header, one_sig] = [one_header, one_sig] \<or>
      collision toy_once (set [one_header, one_sig]) (set [one_header, one_sig]))"
proof -
  obtain r where "VerifyFile toy_once [one_header, one_sig] (Some (CHR ''K'')) = Inr r"
    using one_accepted by blast
  with head_hash_commits [OF toy_once_ok this this refl] show ?thesis by blast
qed


end
