(* ===== verification/Ledger_Correct.thy ===== *)
theory Ledger_Correct
  imports Ledger_Evidence Ledger_Paths Ledger_Durable
begin

text \<open>
  The writer against the verifier.  \<open>chained\<close> is what the content of an export (the file
  and the lines still buffered) is at every moment, whatever I/O failed: a header of the
  ledger's key followed by linked lines whose signatures check, with the head hash and
  sequence number the partition remembers.  Every step of \<open>write\<close> preserves it; a chained
  export whose last line is a signature is accepted by \<open>VerifyFile\<close> with nothing uncovered.
\<close>

section \<open>Chained exports\<close>

definition line_ok :: "('l, 'k, 'p) codec \<Rightarrow> 'p \<Rightarrow> string \<Rightarrow> 'l \<Rightarrow> bool" where
  "line_ok cx key kid l \<longleftrightarrow>
     (case unmarshal cx l of
        None \<Rightarrow> False
      | Some rec \<Rightarrow> \<not> is_header rec \<and> (r_Kind rec = KindBatchSig \<longrightarrow> sig_ok cx (Some key) kid rec))"

definition chained :: "('l, 'k, 'p) codec \<Rightarrow> 'p \<Rightarrow> string \<Rightarrow> string \<Rightarrow> u64 \<Rightarrow> 'l list \<Rightarrow> bool" where
  "chained cx key kid h n ls \<longleftrightarrow>
     (\<exists>l0 rest rec. ls = l0 # rest \<and> unmarshal cx l0 = Some rec \<and> is_header rec \<and>
        r_Kid rec = kid \<and> file_key cx None rec = Some key \<and>
        (r_Segment rec > 1 \<longrightarrow> r_PrevHash rec \<noteq> '''') \<and>
        link cx (fst (anchor rec)) (snd (anchor rec)) ls \<and>
        (\<forall>l \<in> set rest. line_ok cx key kid l) \<and>
        h = line_hash cx (last ls) \<and> n = snd (anchor rec) + of_nat (length ls))"

lemma chained_nonempty: "chained cx key kid h n ls \<Longrightarrow> ls \<noteq> []"
  by (auto simp: chained_def)

lemma chained_head_ne: "codec_ok cx \<Longrightarrow> chained cx key kid h n ls \<Longrightarrow> h \<noteq> ''''"
  by (auto simp: chained_def line_hash_ne)

lemma chained_snoc:
  assumes ch: "chained cx key kid h n ls" and u: "unmarshal cx line = Some rec"
    and rec: "r_Seq rec = n + 1" "r_PrevHash rec = h" and ok: "line_ok cx key kid line"
  shows "chained cx key kid (line_hash cx line) (n + 1) (ls @ [line])"
proof -
  from ch obtain l0 rest r where c: "ls = l0 # rest" "unmarshal cx l0 = Some r" "is_header r"
    "r_Kid r = kid" "file_key cx None r = Some key" "r_Segment r > 1 \<longrightarrow> r_PrevHash r \<noteq> ''''"
    "link cx (fst (anchor r)) (snd (anchor r)) ls" "\<forall>l \<in> set rest. line_ok cx key kid l"
    "h = line_hash cx (last ls)" "n = snd (anchor r) + of_nat (length ls)"
    unfolding chained_def by auto
  have "link cx (fst (anchor r)) (snd (anchor r)) (ls @ [line])"
  proof -
    have "ls \<noteq> []" using c(1) by simp
    moreover have "link cx h n [line]" using rec u by simp
    ultimately show ?thesis using c(7) by (simp only: link_append if_False c(9,10) simp_thms)
  qed
  moreover have "n + 1 = snd (anchor r) + of_nat (length (ls @ [line]))"
    using c(10) by (simp add: add.assoc)
  ultimately show ?thesis
    using c(2-6,8) ok unfolding chained_def c(1)
    by (intro exI [of _ l0] exI [of _ "rest @ [line]"] exI [of _ r]) auto
qed

lemma chained_start:
  assumes "unmarshal cx line = Some rec" and "is_header rec" and "r_Kid rec = kid"
    and "file_key cx None rec = Some key" and "r_Seq rec = n + 1" and "r_PrevHash rec = h"
    and "r_Segment rec > 1 \<and> h \<noteq> '''' \<or> r_Segment rec \<le> 1 \<and> h = '''' \<and> n = 0"
  shows "chained cx key kid (line_hash cx line) (n + 1) [line]"
  unfolding chained_def
  by (intro exI [of _ line] exI [of _ "[]"] exI [of _ rec]) (use assms in \<open>auto simp: anchor_def\<close>)

text \<open>The last record read back from a chained file, as \<open>scanTail\<close> does.\<close>

lemma chained_tail:
  assumes "chained cx key kid h n ls"
  shows "\<exists>rec. unmarshal cx (last ls) = Some rec \<and> r_Seq rec = n \<and> h = line_hash cx (last ls)"
proof -
  from assms obtain r where c: "ls \<noteq> []" "link cx (fst (anchor r)) (snd (anchor r)) ls"
    "h = line_hash cx (last ls)" "n = snd (anchor r) + of_nat (length ls)"
    unfolding chained_def by auto
  obtain xs x where ls: "ls = xs @ [x]" using c(1) by (metis append_butlast_last_id)
  from c(2) obtain rec where "unmarshal cx x = Some rec" "r_Seq rec = snd (anchor r) + of_nat (length xs) + 1"
    unfolding ls link_append by (auto split: option.splits)
  with c(3,4) ls show ?thesis by (auto simp: add.assoc)
qed

text \<open>
  \<open>VerifyFile\<close> on a chained export: acceptance hangs on the 1 MiB bound of its line scanner
  and on there being a signature when there are decisions, and nothing else.
\<close>

lemma chained_export:
  assumes ch: "chained cx key kid h n ls" and pin: "pinned = None \<or> pinned = Some key"
    and len: "\<forall>l \<in> set ls. line_len cx l < maxLine"
    and sig: "last_sig cx 0 ls = 0 \<longrightarrow> count_kind cx KindDecision ls = 0"
  obtains res where "VerifyFile cx ls pinned = Inr res" "v_HeadHash res = h" "v_LastSeq res = n"
    "v_Uncovered res = sint (n - last_sig cx 0 ls)"
proof -
  from ch obtain l0 rest r where c: "ls = l0 # rest" "unmarshal cx l0 = Some r" "is_header r"
    "r_Kid r = kid" "file_key cx None r = Some key" "r_Segment r > 1 \<longrightarrow> r_PrevHash r \<noteq> ''''"
    "link cx (fst (anchor r)) (snd (anchor r)) ls" "\<forall>l \<in> set rest. line_ok cx key kid l"
    "h = line_hash cx (last ls)" "n = snd (anchor r) + of_nat (length ls)"
    unfolding chained_def by auto
  have fk: "file_key cx pinned r = Some key" using c(5) pin by (auto simp: file_key_def)
  have "body_ok cx (Some key) (file_kid r) l" if "l \<in> set rest" for l
    using c(1,3,4,8) len that unfolding body_ok_def line_ok_def file_kid_def
    by (auto split: option.splits)
  then have "export_ok cx pinned ls"
    unfolding export_ok_def
    by (intro exI [of _ l0] exI [of _ rest] exI [of _ r])
      (use c fk sig len in \<open>auto simp: first_ok_def\<close>)
  then obtain res where res: "VerifyFile cx ls pinned = Inr res" using verify_accepts_iff by blast
  show thesis
  proof (rule VerifyFile_result [OF res])
    fix l0' rest' rec'
    assume *: "ls = l0' # rest'" "unmarshal cx l0' = Some rec'" "v_HeadHash res = line_hash cx (last ls)"
      "v_LastSeq res = snd (anchor rec') + of_nat (length ls)"
      "v_Uncovered res = sint (v_LastSeq res - last_sig cx 0 ls)"
    with c(1,2) have "rec' = r" by simp
    with * c(9,10) show thesis by (intro that [OF res]) simp_all
  qed
qed

section \<open>The partition's content\<close>

definition key_ok :: "('l, 'k, 'p) codec \<Rightarrow> ('l, 'k) ledger \<Rightarrow> bool" where
  "key_ok cx l \<longleftrightarrow> (\<exists>pkix. marshal_pub cx (pub_of cx (l_key l)) = Some pkix \<and> l_pubB64 l = b64_enc cx pkix)"

definition chain_here :: "('l, 'k, 'p) codec \<Rightarrow> ('l, 'k) ledger \<Rightarrow> 'l partition \<Rightarrow> bool" where
  "chain_here cx l p \<longleftrightarrow> (\<exists>path. p_f p = Some path \<and>
     chained cx (pub_of cx (l_key l)) (l_kid l) (p_headHash p) (p_seq p) (file_of l path @ p_buf p))"

lemma key_ok_fixed: "fixed l' = fixed l \<Longrightarrow> key_ok cx l' = key_ok cx l"
  by (simp add: key_ok_def fixed_def)

lemma header_key:
  assumes "codec_ok cx" and "key_ok cx l"
  shows "file_key cx None (header_record cx name l p) = Some (pub_of cx (l_key l))"
  using assms(2) codec_okD(3,4) [OF assms(1)]
  by (auto simp: file_key_def header_record_def is_header_def key_ok_def)

lemma flush_chain:
  assumes "flush (l, p) = (e, l', p')" and "chain_here cx l p"
  shows "chain_here cx l' p' \<and> p_headHash p' = p_headHash p \<and> p_seq p' = p_seq p"
proof -
  have f: "fixed l' = fixed l" using flush_fixed [of "(l, p)"] assms(1) by simp
  have s: "p_headHash p' = p_headHash p \<and> p_seq p' = p_seq p"
    using assms(1) by (auto simp: flush_def split: if_splits option.splits)
  from assms(1) show ?thesis
  proof (cases rule: flush_cases)
    case failed
    with assms(2) f s show ?thesis by (auto simp: chain_here_def file_of_def fixed_def)
  next
    case idle
    with assms(2) show ?thesis by simp
  next
    case (wrote path)
    with assms(2) f s show ?thesis by (auto simp: chain_here_def file_of_def fixed_def)
  qed
qed

text \<open>What a line must be for the chain to continue with it.\<close>

definition continues :: "('l, 'k, 'p) codec \<Rightarrow> ('l, 'k) ledger \<Rightarrow> 'l partition \<Rightarrow> ledger_record \<Rightarrow> bool" where
  "continues cx l p rec \<longleftrightarrow> r_Seq rec = p_seq p + 1 \<and> r_PrevHash rec = p_headHash p \<and>
     \<not> is_header rec \<and> (r_Kind rec = KindBatchSig \<longrightarrow> sig_ok cx (Some (pub_of cx (l_key l))) (l_kid l) rec)"

lemma appendLine_state:
  assumes "appendLine cx rec (l, p) = (e, l', p')"
  shows "fixed l' = fixed l" "l_disk l' = l_disk l" "p_f p' = p_f p" "p_segment p' = p_segment p"
    "l_open l' = l_open l" "l_parts l' = l_parts l"
    "e = None \<Longrightarrow> \<exists>line. marshal cx rec = Some line \<and> p_buf p' = p_buf p @ [line] \<and>
       p_headHash p' = line_hash cx line \<and> p_seq p' = r_Seq rec \<and> p_werr p' = p_werr p"
    "e \<noteq> None \<Longrightarrow> p_buf p' = p_buf p \<and> p_headHash p' = p_headHash p \<and> p_seq p' = p_seq p"
  using assms by (auto simp: appendLine_def io_next_def split: option.splits if_splits)

lemma appendLine_chain:
  assumes cx: "codec_ok cx" and a: "appendLine cx rec (l, p) = (e, l', p')"
    and ch: "chain_here cx l p" and c: "continues cx l p rec"
  shows "chain_here cx l' p'"
proof -
  note st = appendLine_state [OF a]
  from ch obtain path where path: "p_f p = Some path" "chained cx (pub_of cx (l_key l)) (l_kid l)
      (p_headHash p) (p_seq p) (file_of l path @ p_buf p)"
    by (auto simp: chain_here_def)
  have fl: "file_of l' path = file_of l path" by (simp add: file_of_def st(2))
  have key: "l_key l' = l_key l" "l_kid l' = l_kid l" using st(1) by (simp_all add: fixed_def)
  show ?thesis
  proof (cases e)
    case None
    then obtain line where line: "marshal cx rec = Some line" "p_buf p' = p_buf p @ [line]"
      "p_headHash p' = line_hash cx line" "p_seq p' = r_Seq rec"
      using st(7) by auto
    have u: "unmarshal cx line = Some rec" by (rule codec_okD(1) [OF cx line(1)])
    have "chained cx (pub_of cx (l_key l)) (l_kid l) (line_hash cx line) (p_seq p + 1)
        ((file_of l path @ p_buf p) @ [line])"
      by (rule chained_snoc [OF path(2) u]) (use c u in \<open>auto simp: continues_def line_ok_def\<close>)
    then show ?thesis using path(1) st(3) line fl key c by (simp add: chain_here_def continues_def)
  next
    case (Some er)
    with st(8) path st(3) fl key show ?thesis by (simp add: chain_here_def)
  qed
qed

lemma batch_sig_ok:
  assumes cx: "codec_ok cx" and "marshal cx (batch_record cx l p) = Some canon"
    and "ecdsa_sign cx (l_key l) (l_io l) (sha_line cx canon) = Some sg"
  shows "continues cx l p ((batch_record cx l p)\<lparr>r_Sig := b64_enc cx sg\<rparr>)"
proof -
  have "(batch_record cx l p)\<lparr>r_Sig := ''''\<rparr> = batch_record cx l p"
    by (simp add: batch_record_def zero_record_def)
  with assms(2) codec_okD(2) [OF cx assms(3)] codec_okD(3) [OF cx]
  show ?thesis
    by (simp add: continues_def sig_ok_def verifyBatchSig_def)
      (simp add: batch_record_def is_header_def)
qed

lemma signBatch_sealed:
  assumes cx: "codec_ok cx" and s: "signBatch cx (l, p) = (e, l', p')" and ch: "chain_here cx l p"
  shows "chain_here cx l' p'"
    and "e = None \<Longrightarrow> p_unsigned p' = 0 \<and> p_buf p' = [] \<and>
       (\<exists>path ls line rec. p_f p' = Some path \<and> file_of l' path = ls @ [line] \<and>
          unmarshal cx line = Some rec \<and> r_Kind rec = KindBatchSig \<and> r_Seq rec = p_seq p')"
proof -
  have "chain_here cx l' p' \<and> (e = None \<longrightarrow> p_unsigned p' = 0 \<and> p_buf p' = [] \<and>
       (\<exists>path ls line rec. p_f p' = Some path \<and> file_of l' path = ls @ [line] \<and>
          unmarshal cx line = Some rec \<and> r_Kind rec = KindBatchSig \<and> r_Seq rec = p_seq p'))"
  proof (cases "marshal cx (batch_record cx l p)")
    case None
    with s ch show ?thesis by (auto simp: signBatch_def)
  next
    case (Some canon)
    show ?thesis
    proof (cases "ecdsa_sign cx (l_key l) (l_io l) (sha_line cx canon)")
      case None
      with s Some ch show ?thesis by (auto simp: signBatch_def)
    next
      case sg: (Some sg)
      let ?rec = "(batch_record cx l p)\<lparr>r_Sig := b64_enc cx sg\<rparr>"
      obtain e1 l1 p1 where a: "appendLine cx ?rec (l, p) = (e1, l1, p1)" by (metis surj_pair)
      have c1: "chain_here cx l1 p1"
        by (rule appendLine_chain [OF cx a ch batch_sig_ok [OF cx Some sg]])
      show ?thesis
      proof (cases e1)
        case (Some er)
        with s \<open>marshal cx _ = Some canon\<close> sg a c1 show ?thesis
          by (auto simp: signBatch_def then_do_def)
      next
        case None
        with s Some sg a have f: "flush (l1, p1\<lparr>p_unsigned := 0\<rparr>) = (e, l', p')"
          by (simp add: signBatch_def then_do_def)
        from c1 have c2: "chain_here cx l1 (p1\<lparr>p_unsigned := 0\<rparr>)" by (simp add: chain_here_def)
        note fl = flush_chain [OF f c2]
        obtain line where line: "marshal cx ?rec = Some line" "p_buf p1 = p_buf p @ [line]" "p_seq p1 = r_Seq ?rec"
          using appendLine_state(7) [OF a None] by auto
        have u: "unmarshal cx line = Some ?rec" by (rule codec_okD(1) [OF cx line(1)])
        have "p_unsigned p' = 0 \<and> p_buf p' = [] \<and>
          (\<exists>path ls line rec. p_f p' = Some path \<and> file_of l' path = ls @ [line] \<and>
          unmarshal cx line = Some rec \<and> r_Kind rec = KindBatchSig \<and> r_Seq rec = p_seq p')" if "e = None"
          using f
        proof (cases rule: flush_cases)
          case (wrote path)
          have k: "r_Kind ?rec = KindBatchSig" by (simp add: batch_record_def)
          from wrote have "file_of l' path = (file_of l1 path @ p_buf p) @ [line]"
            by (simp add: file_of_def line(2))
          with wrote u line(3) k show ?thesis by force
        qed (use that line(2) in auto)
        with fl show ?thesis by blast
      qed
    qed
  qed
  then show "chain_here cx l' p'" "e = None \<Longrightarrow> p_unsigned p' = 0 \<and> p_buf p' = [] \<and>
       (\<exists>path ls line rec. p_f p' = Some path \<and> file_of l' path = ls @ [line] \<and>
          unmarshal cx line = Some rec \<and> r_Kind rec = KindBatchSig \<and> r_Seq rec = p_seq p')"
    by auto
qed

section \<open>Frames\<close>

text \<open>A step on one partition touches only the file the partition has open.\<close>

definition local_step :: "('l, 'k) ledger \<Rightarrow> 'l partition \<Rightarrow> ('l, 'k) ledger \<Rightarrow> 'l partition \<Rightarrow> bool" where
  "local_step l p l' p' \<longleftrightarrow> p_segment p' = p_segment p \<and> p_f p' = p_f p \<and> l_open l' = l_open l \<and>
     l_parts l' = l_parts l \<and> l_seeds l' = l_seeds l \<and> fixed l' = fixed l \<and>
     (\<forall>q. p_f p \<noteq> Some q \<longrightarrow> map_of (l_disk l') q = map_of (l_disk l) q)"

lemma local_step_trans:
  "local_step l p l1 p1 \<Longrightarrow> local_step l1 p1 l2 p2 \<Longrightarrow> local_step l p l2 p2"
  by (simp add: local_step_def)

lemma flush_local:
  assumes "flush (l, p) = (e, l', p')"
  shows "local_step l p l' p'"
proof -
  have "fixed l' = fixed l" using flush_fixed [of "(l, p)"] assms by simp
  then show ?thesis using assms
    unfolding local_step_def flush_def io_next_def by (auto split: if_splits option.splits)
qed

lemma appendLine_local:
  assumes "appendLine cx rec (l, p) = (e, l', p')"
  shows "local_step l p l' p'"
proof -
  have "fixed l' = fixed l" using appendLine_fixed [of cx rec "(l, p)"] assms by simp
  then show ?thesis using assms
    unfolding local_step_def appendLine_def io_next_def by (auto split: if_splits option.splits)
qed

lemma signBatch_local:
  assumes "signBatch cx (l, p) = (e, l', p')"
  shows "local_step l p l' p'"
  using assms
proof (cases rule: signBatch_cases)
  case nosig
  then show ?thesis by (simp add: local_step_def)
next
  case (failed er rec)
  from failed(1) show ?thesis by (rule appendLine_local)
next
  case (flushed rec l1 p1)
  have "local_step l1 p1 l1 (p1\<lparr>p_unsigned := 0\<rparr>)" by (simp add: local_step_def)
  with appendLine_local [OF flushed(1)] flush_local [OF flushed(2)] show ?thesis
    using local_step_trans by blast
qed

lemma openFile_noevict:
  "l_open l < int maxOpenParts \<Longrightarrow> openFile cx name (l, p) =
     (if io_fails l then (Some OpenError, io_next l, p)
      else (None, (io_next l)\<lparr>l_open := l_open l + 1,
              l_disk := (if exists_file l (segPath cx name (p_segment p)) then l_disk l
                         else map_put (segPath cx name (p_segment p)) [] (l_disk l))\<rparr>,
            p\<lparr>p_f := Some (segPath cx name (p_segment p)), p_fclosed := False, p_buf := [], p_werr := False\<rparr>))"
  by (simp add: openFile_def Let_def)

section \<open>Sealing and rolling\<close>

text \<open>\<open>json.Marshal\<close> refuses a record only for its one floating-point field.\<close>

definition marshal_total :: "('l, 'k, 'p) codec \<Rightarrow> bool" where
  "marshal_total cx \<longleftrightarrow> (\<forall>r. r_Confidence r = 0 \<longrightarrow> marshal cx r \<noteq> None)"

lemma header_is_header [simp]: "is_header (header_record cx name l p)"
  by (simp add: header_record_def is_header_def)

text \<open>A sealed segment: everything is in the file and the file is the chain.\<close>

definition sealed_at :: "('l, 'k, 'p) codec \<Rightarrow> ('l, 'k) ledger \<Rightarrow> string \<Rightarrow> string \<Rightarrow> u64 \<Rightarrow> bool" where
  "sealed_at cx l path h n \<longleftrightarrow> chained cx (pub_of cx (l_key l)) (l_kid l) h n (file_of l path)"

lemma flush_sealed:
  assumes "flush (l, p) = (None, l', p')" and "chain_here cx l p" and "p_f p = Some path"
  shows "sealed_at cx l' path (p_headHash p') (p_seq p') \<and> p_buf p' = []"
proof -
  from flush_chain [OF assms(1,2)] flush_f [OF assms(1)] assms(3)
  have c: "chained cx (pub_of cx (l_key l')) (l_kid l') (p_headHash p') (p_seq p') (file_of l' path @ p_buf p')"
    by (auto simp: chain_here_def)
  moreover have "p_buf p' = []" using assms(1) by (rule flush_cases) auto
  ultimately show ?thesis by (simp add: sealed_at_def)
qed

text \<open>
  \<open>roll\<close> either leaves the old segment open with its chain (it failed before the file was
  released), or moves on to the next number; then the old file is sealed, and the new one is
  either not open, or empty with a failed writer, or a chain of one header that names the
  sealed head and continues its numbering.
\<close>

datatype rolled = RollKept | RollClosed | RollStuck | RollDone

definition roll_case :: "('l, 'k, 'p) codec \<Rightarrow> string \<Rightarrow> string \<Rightarrow> nat \<Rightarrow> ledger_error option
    \<Rightarrow> ('l, 'k) ledger \<Rightarrow> 'l partition \<Rightarrow> rolled \<Rightarrow> bool" where
  "roll_case cx name path seg e l' p' k \<longleftrightarrow>
     (case k of
        RollKept \<Rightarrow> e \<noteq> None \<and> p_segment p' = seg \<and> p_f p' = Some path \<and> chain_here cx l' p'
      | RollClosed \<Rightarrow> e \<noteq> None \<and> p_segment p' = Suc seg \<and> p_f p' = None \<and>
          sealed_at cx l' path (p_headHash p') (p_seq p')
      | RollStuck \<Rightarrow> e \<noteq> None \<and> p_segment p' = Suc seg \<and> p_f p' = Some (segPath cx name (Suc seg)) \<and>
          p_werr p' \<and> p_buf p' = [] \<and> file_of l' (segPath cx name (Suc seg)) = [] \<and>
          sealed_at cx l' path (p_headHash p') (p_seq p')
      | RollDone \<Rightarrow> e = None \<and> p_segment p' = Suc seg \<and> p_f p' = Some (segPath cx name (Suc seg)) \<and>
          chain_here cx l' p' \<and>
          (\<exists>h n line rec. sealed_at cx l' path h n \<and> p_buf p' = [line] \<and>
             file_of l' (segPath cx name (Suc seg)) = [] \<and> unmarshal cx line = Some rec \<and>
             is_header rec \<and> r_PrevHash rec = h \<and> r_Seq rec = n + 1 \<and> r_Segment rec = int (Suc seg)))"

lemma sign_if_chain:
  assumes "codec_ok cx" and "(if b then signBatch cx (l, p) else (None, l, p)) = (e, l', p')"
    and "chain_here cx l p"
  shows "chain_here cx l' p' \<and> local_step l p l' p'"
proof (cases b)
  case True
  with assms have "signBatch cx (l, p) = (e, l', p')" by simp
  with signBatch_sealed(1) [OF assms(1) _ assms(3)] signBatch_local show ?thesis by blast
next
  case False
  with assms show ?thesis by (simp add: local_step_def)
qed

lemma then_do_simps:
  "then_do (None, s) f = f s" "then_do (Some e, s) f = (Some e, s)"
  by (simp_all add: then_do_def)

lemma fsync_local: "fsync (l, p) = (e, l', p') \<Longrightarrow> p' = p \<and> l' = io_next l"
  by (auto simp: fsync_def split: if_splits)

lemma fclose_local: "fclose (l, p) = (e, l', p') \<Longrightarrow> p' = p\<lparr>p_fclosed := True\<rparr> \<and> l' = io_next l"
  by (auto simp: fclose_def split: if_splits)

lemma chain_here_cong:
  assumes "p_f p' = p_f p" "p_headHash p' = p_headHash p" "p_seq p' = p_seq p" "p_buf p' = p_buf p"
    and "l_disk l' = l_disk l" "fixed l' = fixed l"
  shows "chain_here cx l' p' = chain_here cx l p"
  using assms by (simp add: chain_here_def file_of_def fixed_def)

lemma io_next_simps [simp]:
  "l_open (io_next l) = l_open l" "l_parts (io_next l) = l_parts l" "l_key (io_next l) = l_key l"
  "l_kid (io_next l) = l_kid l" "l_seeds (io_next l) = l_seeds l"
  by (simp_all add: io_next_def)

lemma header_record_simps [simp]:
  "r_Seq (header_record cx name l p) = p_seq p + 1" "r_PrevHash (header_record cx name l p) = p_headHash p"
  "r_Segment (header_record cx name l p) = int (p_segment p)" "r_Kid (header_record cx name l p) = l_kid l"
  "r_Confidence (header_record cx name l p) = 0"
  by (simp_all add: header_record_def zero_record_def)

lemma chain_here_io [simp]: "chain_here cx (io_next l) p = chain_here cx l p"
  by (rule chain_here_cong) (simp_all add: fixed_def io_next_def)

lemma chain_here_closed [simp]: "chain_here cx l (p\<lparr>p_fclosed := b\<rparr>) = chain_here cx l p"
  by (rule chain_here_cong) simp_all

text \<open>The last two steps of \<open>roll\<close>: the new file and its header.\<close>

lemma roll_open:
  assumes cx: "codec_ok cx" and mt: "marshal_total cx" and key: "key_ok cx l"
    and sealed: "sealed_at cx l path (p_headHash p) (p_seq p)"
    and few: "l_open l < int maxOpenParts" and seg: "p_segment p = Suc seg" "1 \<le> seg"
    and path: "path = segPath cx name seg"
    and fresh: "\<not> exists_file l (segPath cx name (Suc seg))" and closed: "p_f p = None"
    and r: "then_do (openFile cx name (l, p)) (\<lambda>(l, p). appendLine cx (header_record cx name l p) (l, p)) = (e, l', p')"
  shows "\<exists>k. roll_case cx name path seg e l' p' k"
proof (cases "io_fails l")
  case True
  with r few have "e = Some OpenError" "l' = io_next l" "p' = p"
    by (auto simp: openFile_noevict then_do_def)
  with seg closed sealed have "roll_case cx name path seg e l' p' RollClosed"
    by (simp add: roll_case_def sealed_at_def file_of_def)
  then show ?thesis by blast
next
  case False
  let ?new = "segPath cx name (Suc seg)"
  define l1 where "l1 = (io_next l)\<lparr>l_open := l_open l + 1, l_disk := map_put ?new [] (l_disk l)\<rparr>"
  define p1 where "p1 = p\<lparr>p_f := Some ?new, p_fclosed := False, p_buf := [], p_werr := False\<rparr>"
  let ?rec = "header_record cx name l1 p1"
  have o: "openFile cx name (l, p) = (None, l1, p1)"
    using few False seg fresh by (simp add: openFile_noevict l1_def p1_def)
  with r have a: "appendLine cx ?rec (l1, p1) = (e, l', p')" by (simp add: then_do_def)
  have ne: "path \<noteq> ?new" using path segPath_inj [of cx name seg "Suc seg"] seg(2) by auto
  note st = appendLine_state [OF a] and loc = appendLine_local [OF a]
  have f1: "fixed l1 = fixed l" by (simp add: l1_def)
  have sealed': "sealed_at cx l' path (p_headHash p) (p_seq p)"
    using sealed ne st(1,2) f1 by (simp add: sealed_at_def file_of_def l1_def fixed_def)
  have new: "file_of l' ?new = []" using st(2) by (simp add: l1_def file_of_def)
  have seg': "p_segment p' = Suc seg" "p_f p' = Some ?new" using st(3,4) seg by (simp_all add: p1_def)
  show ?thesis
  proof (cases e)
    case (Some er)
    obtain line where "marshal cx ?rec = Some line"
      using mt [unfolded marshal_total_def, rule_format, of ?rec] by auto
    with a Some have "p_werr p'" "p_buf p' = []"
      by (auto simp: appendLine_def p1_def split: if_splits)
    moreover have "p_headHash p' = p_headHash p" "p_seq p' = p_seq p"
      using st(8) Some by (simp_all add: p1_def)
    ultimately have "roll_case cx name path seg e l' p' RollStuck"
      using Some seg' new sealed' by (simp add: roll_case_def)
    then show ?thesis by blast
  next
    case None
    with st(7) obtain line where line: "marshal cx ?rec = Some line" "p_buf p' = [line]"
      "p_headHash p' = line_hash cx line" "p_seq p' = p_seq p + 1"
      by (auto simp: p1_def)
    have u: "unmarshal cx line = Some ?rec" by (rule codec_okD(1) [OF cx line(1)])
    have h: "p_headHash p \<noteq> ''''" using chained_head_ne [OF cx] sealed by (auto simp: sealed_at_def)
    have "key_ok cx l1" unfolding key_ok_fixed [OF f1] by (rule key)
    then have k: "file_key cx None ?rec = Some (pub_of cx (l_key l1))"
      by (rule header_key [OF cx])
    have "chained cx (pub_of cx (l_key l1)) (l_kid l1) (line_hash cx line) (p_seq p + 1) [line]"
      by (rule chained_start [OF u _ _ k]) (use h seg in \<open>simp_all add: p1_def\<close>)
    then have "chain_here cx l' p'"
      using seg' new line st(1) by (auto simp: chain_here_def fixed_def)
    then have "roll_case cx name path seg e l' p' RollDone"
      using None seg' new sealed' line u seg by (auto simp: roll_case_def p1_def)
    then show ?thesis by blast
  qed
qed

lemma roll_chain:
  assumes cx: "codec_ok cx" and mt: "marshal_total cx" and key: "key_ok cx l"
    and ch: "chain_here cx l p" and few: "l_open l \<le> int maxOpenParts"
    and seg: "1 \<le> p_segment p" and path: "p_f p = Some (segPath cx name (p_segment p))"
    and fresh: "\<not> exists_file l (segPath cx name (Suc (p_segment p)))"
    and r: "roll cx name (l, p) = (e, l', p')"
  shows "\<exists>k. roll_case cx name (segPath cx name (p_segment p)) (p_segment p) e l' p' k"
proof -
  let ?path = "segPath cx name (p_segment p)" and ?new = "segPath cx name (Suc (p_segment p))"
  obtain e1 l1 p1 where 1: "(if p_unsigned p > 0 then signBatch cx (l, p) else (None, l, p)) = (e1, l1, p1)"
    by (metis surj_pair)
  obtain e2 l2 p2 where 2: "flush (l1, p1) = (e2, l2, p2)" by (metis surj_pair)
  obtain e3 l3 p3 where 3: "fsync (l2, p2) = (e3, l3, p3)" by (metis surj_pair)
  obtain e4 l4 p4 where 4: "fclose (l3, p3) = (e4, l4, p4)" by (metis surj_pair)
  obtain l5 p5 where 5: "release (l4, p4) = (None, l5, p5)" by (simp add: release_def)
  have kept: "\<exists>k. roll_case cx name ?path (p_segment p) e' l'' p'' k"
    if "e' \<noteq> None" "chain_here cx l'' p''" "local_step l p l'' p''" for e' l'' p''
    using that path by (intro exI [of _ RollKept]) (simp add: roll_case_def local_step_def)
  have s1: "chain_here cx l1 p1" "local_step l p l1 p1" using sign_if_chain [OF cx 1 ch] by auto
  have s2: "chain_here cx l2 p2" "local_step l p l2 p2"
    using flush_chain [OF 2 s1(1)] flush_local [OF 2] local_step_trans s1(2) by blast+
  have s3: "chain_here cx l3 p3" "local_step l p l3 p3"
    using fsync_local [OF 3] s2 by (simp_all add: local_step_def)
  have s4: "chain_here cx l4 p4" "local_step l p l4 p4"
    using fclose_local [OF 4] s3 by (simp_all add: local_step_def)
  have tail: "(e, l', p') = (if e1 \<noteq> None then (e1, l1, p1) else if e2 \<noteq> None then (e2, l2, p2)
     else if e3 \<noteq> None then (e3, l3, p3) else if e4 \<noteq> None then (e4, l4, p4)
     else then_do (openFile cx name (l5, p5)) (\<lambda>(l, p). appendLine cx (header_record cx name l p) (l, p)))"
    unfolding roll_def r [symmetric] snd_conv 1
    by (cases e1; cases e2; cases e3; cases e4) (simp_all add: then_do_simps 2 3 4 5)
  show ?thesis
  proof (cases "e1 \<noteq> None \<or> e2 \<noteq> None \<or> e3 \<noteq> None \<or> e4 \<noteq> None")
    case True
    then show ?thesis using tail kept s1 s2 s3 s4 by (auto split: if_splits)
  next
    case False
    then have "flush (l1, p1) = (None, l2, p2)" using 2 by simp
    moreover have "p_f p1 = Some ?path" using s1(2) path by (simp add: local_step_def)
    ultimately have "sealed_at cx l2 ?path (p_headHash p2) (p_seq p2)"
      using flush_sealed s1(1) by blast
    moreover have d: "l_disk l5 = l_disk l2" "p_headHash p5 = p_headHash p2" "p_seq p5 = p_seq p2"
      "fixed l5 = fixed l2" "l_open l5 = l_open l2 - 1" "p_segment p5 = Suc (p_segment p2)" "p_f p5 = None"
      using fsync_local [OF 3] fclose_local [OF 4] 5 by (auto simp: release_def)
    ultimately have sealed: "sealed_at cx l5 ?path (p_headHash p5) (p_seq p5)"
      by (simp add: sealed_at_def file_of_def fixed_def)
    have ne: "?path \<noteq> ?new" using segPath_inj [of cx name "p_segment p" "Suc (p_segment p)"] seg by auto
    have "key_ok cx l5" using key key_ok_fixed d(4) s2(2) by (metis local_step_def)
    moreover have "l_open l5 < int maxOpenParts" using few d(5) s2(2) by (simp add: local_step_def)
    moreover have "p_segment p5 = Suc (p_segment p)" using d(6) s2(2) by (simp add: local_step_def)
    moreover have "\<not> exists_file l5 ?new"
      using fresh ne d(1) s2(2) path by (simp add: exists_file_def local_step_def)
    ultimately show ?thesis
      using False tail by (intro roll_open [OF cx mt _ sealed _ _ seg refl _ d(7)]) auto
  qed
qed

lemma sign_if_local:
  "(if b then signBatch cx (l, p) else (None, l, p)) = (e, l', p') \<Longrightarrow> local_step l p l' p'"
  by (cases b) (simp_all add: signBatch_local, simp add: local_step_def)

lemma roll_disk:
  assumes few: "l_open l \<le> int maxOpenParts" and path: "p_f p = Some path"
    and r: "roll cx name (l, p) = (e, l', p')"
  shows "l_parts l' = l_parts l \<and> l_seeds l' = l_seeds l \<and> fixed l' = fixed l \<and>
     (\<forall>q. q \<noteq> path \<and> q \<noteq> segPath cx name (Suc (p_segment p)) \<longrightarrow>
        map_of (l_disk l') q = map_of (l_disk l) q) \<and>
     (p_segment p' = p_segment p \<longrightarrow> (\<forall>q. q \<noteq> path \<longrightarrow> map_of (l_disk l') q = map_of (l_disk l) q))"
    (is "?same l' \<and> ?here l' p'")
proof -
  obtain e1 l1 p1 where 1: "(if p_unsigned p > 0 then signBatch cx (l, p) else (None, l, p)) = (e1, l1, p1)"
    by (metis surj_pair)
  obtain e2 l2 p2 where 2: "flush (l1, p1) = (e2, l2, p2)" by (metis surj_pair)
  obtain e3 l3 p3 where 3: "fsync (l2, p2) = (e3, l3, p3)" by (metis surj_pair)
  obtain e4 l4 p4 where 4: "fclose (l3, p3) = (e4, l4, p4)" by (metis surj_pair)
  obtain l5 p5 where 5: "release (l4, p4) = (None, l5, p5)" by (simp add: release_def)
  have s1: "local_step l p l1 p1" using 1 by (rule sign_if_local)
  have s2: "local_step l p l2 p2" using s1 flush_local [OF 2] by (rule local_step_trans)
  have s3: "local_step l p l3 p3" using fsync_local [OF 3] s2 by (simp add: local_step_def fixed_def io_next_def)
  have s4: "local_step l p l4 p4" using fclose_local [OF 4] s3 by (simp add: local_step_def fixed_def io_next_def)
  have same: "?same l'' \<and> ?here l'' p''" if "local_step l p l'' p''" for l'' p''
    using that path by (auto simp: local_step_def)
  have s5: "?same l5 \<and> ?here l5 p5" "l_open l5 < int maxOpenParts" "p_segment p5 = Suc (p_segment p)"
    using s4 5 few path by (auto simp: local_step_def release_def fixed_def)
  have late: "?same l'' \<and> ?here l'' p''" if "then_do (openFile cx name (l5, p5))
      (\<lambda>(l, p). appendLine cx (header_record cx name l p) (l, p)) = (e', l'', p'')" for e' l'' p''
  proof -
    obtain e6 l6 p6 where 6: "openFile cx name (l5, p5) = (e6, l6, p6)" by (metis surj_pair)
    have s6: "?same l6 \<and> ?here l6 p6 \<and> p_segment p6 = Suc (p_segment p)" using 6 s5
      unfolding openFile_noevict [OF s5(2)] io_next_def
      by (auto split: if_splits simp: fixed_def)
    show ?thesis
    proof (cases e6)
      case None
      with that 6 have a: "appendLine cx (header_record cx name l6 p6) (l6, p6) = (e', l'', p'')"
        by (simp add: then_do_simps)
      have "l_seeds l'' = l_seeds l6" using a by (auto simp: appendLine_def io_next_def split: option.splits if_splits)
      with appendLine_state [OF a] s6 show ?thesis by simp
    next
      case (Some er)
      with that 6 s6 show ?thesis by (simp add: then_do_simps)
    qed
  qed
  have tail: "(e, l', p') = (if e1 \<noteq> None then (e1, l1, p1) else if e2 \<noteq> None then (e2, l2, p2)
     else if e3 \<noteq> None then (e3, l3, p3) else if e4 \<noteq> None then (e4, l4, p4)
     else then_do (openFile cx name (l5, p5)) (\<lambda>(l, p). appendLine cx (header_record cx name l p) (l, p)))"
    unfolding roll_def r [symmetric] snd_conv 1
    by (cases e1; cases e2; cases e3; cases e4) (simp_all add: then_do_simps 2 3 4 5)
  show ?thesis
  proof (cases "e1 \<noteq> None \<or> e2 \<noteq> None \<or> e3 \<noteq> None \<or> e4 \<noteq> None")
    case True
    with tail have "(l', p') = (l1, p1) \<or> (l', p') = (l2, p2) \<or> (l', p') = (l3, p3) \<or> (l', p') = (l4, p4)"
      by (auto split: if_splits)
    then show ?thesis
    proof (elim disjE)
      assume "(l', p') = (l1, p1)"
      then show ?thesis using same [OF s1] by simp
    next
      assume "(l', p') = (l2, p2)"
      then show ?thesis using same [OF s2] by simp
    next
      assume "(l', p') = (l3, p3)"
      then show ?thesis using same [OF s3] by simp
    next
      assume "(l', p') = (l4, p4)"
      then show ?thesis using same [OF s4] by simp
    qed
  next
    case False
    with tail have "then_do (openFile cx name (l5, p5))
      (\<lambda>(l, p). appendLine cx (header_record cx name l p) (l, p)) = (e, l', p')" by simp
    then show ?thesis by (rule late)
  qed
qed

section \<open>The chain through write\<close>

definition last_segment :: "('l, 'k, 'p) codec \<Rightarrow> string \<Rightarrow> ('l, 'k) ledger \<Rightarrow> nat \<Rightarrow> bool" where
  "last_segment cx name l m \<longleftrightarrow> (\<forall>k > m. \<not> exists_file l (segPath cx name k))"

text \<open>An open partition: its chain, or a new empty segment whose writer has failed.\<close>

definition open_ok :: "('l, 'k, 'p) codec \<Rightarrow> string \<Rightarrow> ('l, 'k) ledger \<Rightarrow> 'l partition \<Rightarrow> bool" where
  "open_ok cx name l p \<longleftrightarrow> 1 \<le> p_segment p \<and> p_f p = Some (segPath cx name (p_segment p)) \<and>
     last_segment cx name l (p_segment p) \<and>
     (chain_here cx l p \<or>
      p_werr p \<and> p_buf p = [] \<and> file_of l (segPath cx name (p_segment p)) = [])"

text \<open>An evicted partition: its file is complete and its remembered state is the file's.\<close>

definition evicted_ok :: "('l, 'k, 'p) codec \<Rightarrow> string \<Rightarrow> ('l, 'k) ledger \<Rightarrow> 'l partition \<Rightarrow> bool" where
  "evicted_ok cx name l p \<longleftrightarrow> 1 \<le> p_segment p \<and> p_f p = None \<and>
     last_segment cx name l (p_segment p) \<and>
     sealed_at cx l (segPath cx name (p_segment p)) (p_headHash p) (p_seq p)"

text \<open>Not in the map: no export yet, or an unbroken run of segments whose last is a chain.\<close>

definition on_file_ok :: "('l, 'k, 'p) codec \<Rightarrow> string \<Rightarrow> ('l, 'k) ledger \<Rightarrow> bool" where
  "on_file_ok cx name l \<longleftrightarrow> map_of (l_seeds l) name = None \<and>
     (last_segment cx name l 1 \<and> file_of l (segPath cx name 1) = [] \<or>
      (\<exists>m h n. 1 \<le> m \<and> (\<forall>k. 1 \<le> k \<and> k \<le> m \<longrightarrow> exists_file l (segPath cx name k)) \<and>
         last_segment cx name l m \<and> sealed_at cx l (segPath cx name m) h n))"

definition part_ok :: "('l, 'k, 'p) codec \<Rightarrow> string \<Rightarrow> ('l, 'k) ledger \<Rightarrow> bool" where
  "part_ok cx name l \<longleftrightarrow> key_ok cx l \<and>
     (case map_of (l_parts l) name of
        None \<Rightarrow> on_file_ok cx name l
      | Some p \<Rightarrow> open_ok cx name l p \<or> evicted_ok cx name l p)"

lemma ok_cong:
  assumes "l_disk l' = l_disk l" and "fixed l' = fixed l" and "l_seeds l' = l_seeds l"
  shows "open_ok cx name l' p = open_ok cx name l p" "evicted_ok cx name l' p = evicted_ok cx name l p"
    "on_file_ok cx name l' = on_file_ok cx name l" "key_ok cx l' = key_ok cx l"
  using assms
  by (simp_all add: open_ok_def evicted_ok_def on_file_ok_def last_segment_def exists_file_def file_of_def
      chain_here_def sealed_at_def key_ok_def fixed_def)

lemma roll_ok:
  assumes cx: "codec_ok cx" and mt: "marshal_total cx" and key: "key_ok cx l"
    and ok: "open_ok cx name l p" and ch: "chain_here cx l p" and few: "l_open l \<le> int maxOpenParts"
    and r: "roll cx name (l, p) = (e, l', p')" and opn: "p_f p' \<noteq> None"
  shows "open_ok cx name l' p'"
proof -
  let ?path = "segPath cx name (p_segment p)" and ?new = "segPath cx name (Suc (p_segment p))"
  have p: "1 \<le> p_segment p" "p_f p = Some ?path" "last_segment cx name l (p_segment p)"
    using ok by (simp_all add: open_ok_def)
  have fresh: "\<not> exists_file l ?new" using p(3) by (simp add: last_segment_def)
  obtain k where k: "roll_case cx name ?path (p_segment p) e l' p' k"
    using roll_chain [OF cx mt key ch few p(1,2) fresh r] by blast
  have other: "exists_file l' (segPath cx name j) = exists_file l (segPath cx name j)"
    if "j > Suc (p_segment p)" for j
  proof -
    have "segPath cx name j \<noteq> ?path" "segPath cx name j \<noteq> ?new"
      using that p(1) segPath_inj [of cx name j "p_segment p"] segPath_inj [of cx name j "Suc (p_segment p)"]
      by auto
    with roll_disk [OF few p(2) r] show ?thesis by (simp add: exists_file_def)
  qed
  have new: "last_segment cx name l' (Suc (p_segment p))"
    using other p(3) by (auto simp: last_segment_def)
  show ?thesis
  proof (cases k)
    case RollKept
    with k have r': "p_segment p' = p_segment p" "p_f p' = Some ?path" "chain_here cx l' p'"
      by (simp_all add: roll_case_def)
    have "exists_file l' (segPath cx name j) = exists_file l (segPath cx name j)" if "j > p_segment p" for j
    proof -
      have "segPath cx name j \<noteq> ?path" using that p(1) segPath_inj [of cx name j "p_segment p"] by auto
      with roll_disk [OF few p(2) r] r'(1) show ?thesis by (simp add: exists_file_def)
    qed
    with p(3) have "last_segment cx name l' (p_segment p')" by (auto simp: last_segment_def r')
    with r' p(1) show ?thesis by (simp add: open_ok_def)
  next
    case RollClosed
    with k opn show ?thesis by (simp add: roll_case_def)
  next
    case RollStuck
    with k new show ?thesis by (simp add: roll_case_def open_ok_def)
  next
    case RollDone
    with k new show ?thesis by (simp add: roll_case_def open_ok_def)
  qed
qed

lemma local_ok:
  assumes "local_step l p l' p'" and "open_ok cx name l p" and "chain_here cx l' p'"
  shows "open_ok cx name l' p'"
proof -
  have p: "1 \<le> p_segment p" "p_f p = Some (segPath cx name (p_segment p))"
    "last_segment cx name l (p_segment p)" using assms(2) by (simp_all add: open_ok_def)
  have "exists_file l' (segPath cx name j) = exists_file l (segPath cx name j)" if "j > p_segment p" for j
  proof -
    have "segPath cx name j \<noteq> segPath cx name (p_segment p)"
      using that p(1) segPath_inj [of cx name j "p_segment p"] by auto
    with assms(1) p(2) show ?thesis by (auto simp: local_step_def exists_file_def)
  qed
  with p(3) have "last_segment cx name l' (p_segment p)" by (simp add: last_segment_def)
  with p assms(1,3) show ?thesis by (simp add: open_ok_def local_step_def)
qed

lemma after_append_ok:
  assumes cx: "codec_ok cx" and mt: "marshal_total cx" and key: "key_ok cx l"
    and ok: "open_ok cx name l p" and ch: "chain_here cx l p" and few: "l_open l \<le> int maxOpenParts"
    and a: "after_append cx name sq (l, p) = (l', p')" and opn: "p_f p' \<noteq> None"
  shows "open_ok cx name l' p' \<and> key_ok cx l'"
proof -
  let ?p = "if p_unsigned p = 1 then p\<lparr>p_firstUnsig := sq\<rparr> else p"
  obtain e1 l1 p1 where 1: "(if p_unsigned ?p \<ge> batchMaxRecords then signBatch cx (l, ?p) else (None, l, ?p)) = (e1, l1, p1)"
    by (metis surj_pair)
  obtain e2 l2 p2 where 2: "roll cx name (l1, p1) = (e2, l2, p2)" by (metis surj_pair)
  have r: "(if p_unsigned ?p \<ge> batchMaxRecords then snd (signBatch cx (l, ?p)) else (l, ?p)) = (l1, p1)"
    using 1 by (metis snd_conv)
  have eq: "(l', p') = (if p_bytes p1 \<ge> l_maxSegment l1
      then (case e2 of None \<Rightarrow> (l2, p2) | Some e \<Rightarrow> (countWriteError name l2, p2)) else (l1, p1))"
    using a unfolding after_append_def Let_def prod.case r
    by (cases "p_bytes p1 \<ge> l_maxSegment l1") (simp_all add: 2 split: option.splits)
  have ch': "chain_here cx l ?p" using ch by (simp add: chain_here_def)
  have ok': "open_ok cx name l ?p" using ok by (auto simp: open_ok_def chain_here_def)
  from sign_if_chain [OF cx 1 ch'] have c1: "chain_here cx l1 p1" and loc: "local_step l ?p l1 p1" by auto
  have o1: "open_ok cx name l1 p1" by (rule local_ok [OF loc ok' c1])
  have f1: "fixed l1 = fixed l" and few1: "l_open l1 \<le> int maxOpenParts"
    using loc few by (simp_all add: local_step_def)
  have k1: "key_ok cx l1" unfolding key_ok_fixed [OF f1] by (rule key)
  show ?thesis
  proof (cases "p_bytes p1 \<ge> l_maxSegment l1")
    case False
    with eq o1 k1 show ?thesis by simp
  next
    case True
    with eq have p': "p' = p2" and l': "l' = l2 \<or> l' = countWriteError name l2" by (auto split: option.splits)
    have o2: "open_ok cx name l2 p2"
      by (rule roll_ok [OF cx mt k1 o1 c1 few1 2]) (use opn p' in simp)
    have "fixed l2 = fixed l1" using roll_fixed [of cx name "(l1, p1)"] 2 by simp
    have k2: "key_ok cx l2" unfolding key_ok_fixed [OF \<open>fixed l2 = fixed l1\<close>] by (rule k1)
    have same: "l_disk (countWriteError name l2) = l_disk l2" "fixed (countWriteError name l2) = fixed l2"
      "l_seeds (countWriteError name l2) = l_seeds l2"
      by (simp_all add: countWriteError_def gap_add_def)
    from l' show ?thesis using o2 k2 ok_cong(1,4) [OF same] p' by auto
  qed
qed

lemma scan_tail_chained:
  assumes ch: "chained cx key kid h n (file_of l path)"
    and s: "scanTail cx path l = Inr (sq, head, count, inh)"
  shows "sq = n \<and> head = h \<and> count \<noteq> 0"
proof -
  obtain ls where ls: "map_of (l_disk l) path = Some ls" "file_of l path = ls" "ls \<noteq> []"
    using chained_nonempty [OF ch] by (auto simp: file_of_def split: option.splits)
  have count: "scan_lines cx xs c u = Some (c', u') \<Longrightarrow> c' = c + length xs" for xs c u c' u'
    by (induction xs arbitrary: c u) (auto split: if_splits, fastforce)
  obtain rec where rec: "unmarshal cx (last ls) = Some rec" "r_Seq rec = n" "h = line_hash cx (last ls)"
    using chained_tail [OF ch] ls(2) by auto
  from s ls(1) obtain c u where sc: "scan_lines cx ls 0 0 = Some (c, u)"
    by (auto simp: scanTail_def split: option.splits)
  with count [OF sc] ls(3) s ls(1) rec show ?thesis
    by (auto simp: scanTail_def split: if_splits)
qed

lemma scan_tail_empty:
  assumes "file_of l path = []" and "scanTail cx path l = Inr (sq, head, count, inh)"
  shows "sq = 0 \<and> head = '''' \<and> count = 0 \<and> inh = 0"
  using assms by (auto simp: scanTail_def file_of_def split: option.splits)

text \<open>Opening a partition: what comes out of \<open>part\<close> is open with its chain.\<close>

lemma openFile_state:
  assumes few: "l_open l < int maxOpenParts" and o: "openFile cx name (l, p) = (e, l', p')"
  shows "fixed l' = fixed l \<and> l_seeds l' = l_seeds l \<and> l_parts l' = l_parts l \<and> l_open l' \<le> int maxOpenParts \<and>
     p_segment p' = p_segment p \<and> p_headHash p' = p_headHash p \<and> p_seq p' = p_seq p \<and>
     (\<forall>q. file_of l' q = file_of l q) \<and>
     (\<forall>q. q \<noteq> segPath cx name (p_segment p) \<longrightarrow> map_of (l_disk l') q = map_of (l_disk l) q) \<and>
     (e = None \<longrightarrow> p_f p' = Some (segPath cx name (p_segment p)) \<and> p_buf p' = [] \<and> \<not> p_werr p') \<and>
     (e \<noteq> None \<longrightarrow> p' = p \<and> l_disk l' = l_disk l)"
  using o unfolding openFile_noevict [OF few] io_next_def
  using few by (auto split: if_splits simp: file_of_def exists_file_def fixed_def)

lemma last_segment_mono:
  assumes "last_segment cx name l m" and "1 \<le> m"
    and "\<And>q. q \<noteq> segPath cx name m \<Longrightarrow> map_of (l_disk l') q = map_of (l_disk l) q"
  shows "last_segment cx name l' m"
proof -
  have "exists_file l' (segPath cx name j) = exists_file l (segPath cx name j)" if "j > m" for j
  proof -
    have "segPath cx name j \<noteq> segPath cx name m"
      using that assms(2) segPath_inj [of cx name j m] by auto
    with assms(3) show ?thesis by (simp add: exists_file_def)
  qed
  with assms(1) show ?thesis by (simp add: last_segment_def)
qed

lemma part_known_ok:
  assumes few: "l_open l < int maxOpenParts" and key: "key_ok cx l"
    and ok: "open_ok cx name l p \<or> evicted_ok cx name l p"
    and r: "part_known cx name p l = (r, l')"
  shows "key_ok cx l' \<and> (\<exists>q. map_of (l_parts l') name = Some q \<and>
     (open_ok cx name l' q \<and> r = Inr q \<and> l_open l' \<le> int maxOpenParts \<or> evicted_ok cx name l' q \<and> (\<exists>e. r = Inl e)))"
proof -
  obtain e1 l1 p1 where 1: "(if p_f p = None then openFile cx name (l, p) else (None, l, p)) = (e1, l1, p1)"
    by (metis surj_pair)
  have res: "(r, l') = (case e1 of Some er \<Rightarrow> (Inl er, put_part name p1 l1)
      | None \<Rightarrow> (Inr (p1\<lparr>p_used := l_clock l1\<rparr>), put_part name (p1\<lparr>p_used := l_clock l1\<rparr>) l1))"
    using r 1 by (simp add: part_known_def Let_def split: option.splits)
  have st: "key_ok cx l1 \<and> (e1 = None \<longrightarrow> open_ok cx name l1 p1 \<and> l_open l1 \<le> int maxOpenParts) \<and>
      (e1 \<noteq> None \<longrightarrow> evicted_ok cx name l1 p1)"
  proof (cases "p_f p = None")
    case False
    with ok have "open_ok cx name l p" by (auto simp: evicted_ok_def)
    with False 1 key few show ?thesis by auto
  next
    case True
    with ok have ev: "evicted_ok cx name l p" by (auto simp: open_ok_def)
    from 1 True have o: "openFile cx name (l, p) = (e1, l1, p1)" by simp
    note os = openFile_state [OF few o]
    have k: "key_ok cx l1" using os key by (metis key_ok_fixed)
    have last: "last_segment cx name l1 (p_segment p)"
      by (rule last_segment_mono [of cx name l]) (use ev os in \<open>auto simp: evicted_ok_def\<close>)
    have seal: "sealed_at cx l1 (segPath cx name (p_segment p)) (p_headHash p) (p_seq p)"
      using ev os by (simp add: evicted_ok_def sealed_at_def fixed_def)
    show ?thesis
    proof (cases e1)
      case None
      with os seal have "chain_here cx l1 p1" by (auto simp: chain_here_def sealed_at_def)
      with None os k last ev show ?thesis by (simp add: open_ok_def evicted_ok_def)
    next
      case (Some er)
      with os k last seal ev show ?thesis by (simp add: evicted_ok_def)
    qed
  qed
  have same: "open_ok cx name (put_part name q l1) p' = open_ok cx name l1 p'"
    "evicted_ok cx name (put_part name q l1) p' = evicted_ok cx name l1 p'"
    "key_ok cx (put_part name q l1) = key_ok cx l1" for q p'
    by (intro ok_cong; simp add: put_part_def)+
  have used: "open_ok cx name l1 (p1\<lparr>p_used := u\<rparr>) = open_ok cx name l1 p1" for u
    by (simp add: open_ok_def chain_here_def)
  show ?thesis
  proof (cases e1)
    case None
    with res have "r = Inr (p1\<lparr>p_used := l_clock l1\<rparr>)" "l' = put_part name (p1\<lparr>p_used := l_clock l1\<rparr>) l1"
      by auto
    with st None show ?thesis by (simp add: same used) (simp add: put_part_def)
  next
    case (Some er)
    with res have "r = Inl er" "l' = put_part name p1 l1" by auto
    with st Some show ?thesis by (simp add: same) (simp add: put_part_def)
  qed
qed

lemma part_start_fresh:
  assumes "last_segment cx name l 1"
  shows "part_start cx name l = 1"
proof (cases "exists_file l (segPath cx name 1)")
  case True
  have "latestSegment cx name l = 1"
  proof (rule latest_enough)
    show "exists_file l (segPath cx name k)" if "1 \<le> k" "k \<le> 1" for k
      using that True by (metis le_antisym)
    show "\<not> exists_file l (segPath cx name (1 + 1))" using assms by (simp add: last_segment_def)
  qed simp
  then show ?thesis by (simp add: part_start_def)
next
  case False
  then show ?thesis by (simp add: part_start_def latest_none)
qed

lemma part_start_run:
  assumes "1 \<le> m" and "\<forall>k. 1 \<le> k \<and> k \<le> m \<longrightarrow> exists_file l (segPath cx name k)"
    and "last_segment cx name l m"
  shows "part_start cx name l = m"
proof -
  have "latestSegment cx name l = m"
    by (rule latest_enough) (use assms in \<open>auto simp: last_segment_def\<close>)
  with assms(1) show ?thesis by (simp add: part_start_def)
qed

lemma forgetColdest_state:
  "fixed (forgetColdest l) = fixed l" "l_disk (forgetColdest l) = l_disk l"
  "l_seeds (forgetColdest l) = l_seeds l" "l_open (forgetColdest l) = l_open l"
  by (simp_all add: forgetColdest_def split: option.splits prod.splits)

lemma resumed_continues: "continues cx l p (resumed_record cx inh l p)"
  by (simp add: continues_def resumed_record_def is_header_def)

text \<open>The records \<open>part\<close> writes itself keep or start the chain.\<close>

lemma part_marks_resume:
  assumes cx: "codec_ok cx" and ch: "chain_here cx l p" and "count \<noteq> 0"
    and m: "part_marks cx name count inh (l, p) = (e, l', p')"
  shows "e = None \<and> chain_here cx l' p' \<and> local_step l p l' p'"
proof -
  obtain e1 l1 p1 where 1: "appendLine cx (resumed_record cx inh l p) (l, p) = (e1, l1, p1)"
    by (metis surj_pair)
  from assms(3) m 1 have r: "e = None \<and> (l', p') = (if inh > 0 then (l1, p1) else (l, p))"
    by (cases "inh > 0") (auto simp: part_marks_def)
  have "chain_here cx l1 p1" by (rule appendLine_chain [OF cx 1 ch resumed_continues])
  with r ch appendLine_local [OF 1] show ?thesis
    by (cases "inh > 0") (simp_all add: local_step_def)
qed

lemma part_marks_fresh:
  assumes cx: "codec_ok cx" and key: "key_ok cx l" and mt: "marshal_total cx"
    and p: "p_f p = Some path" "p_buf p = []" "p_headHash p = ''''" "p_seq p = 0" "p_segment p = 1"
    and empty: "file_of l path = []"
    and m: "part_marks cx name 0 0 (l, p) = (e, l', p')"
  shows "local_step l p l' p' \<and> (e = None \<longrightarrow> chain_here cx l' p') \<and>
     (e \<noteq> None \<longrightarrow> p_werr p' \<and> p_buf p' = [] \<and> file_of l' path = [])"
proof -
  let ?rec = "header_record cx name l p"
  from m have a: "appendLine cx ?rec (l, p) = (e, l', p')" by (simp add: part_marks_def)
  note st = appendLine_state [OF a]
  obtain line where line: "marshal cx ?rec = Some line"
    using mt [unfolded marshal_total_def, rule_format, of ?rec] by auto
  show ?thesis
  proof (cases e)
    case None
    with st(7) line p have s: "p_buf p' = [line]" "p_headHash p' = line_hash cx line" "p_seq p' = 0 + 1"
      by auto
    have u: "unmarshal cx line = Some ?rec" by (rule codec_okD(1) [OF cx line])
    have "chained cx (pub_of cx (l_key l)) (l_kid l) (line_hash cx line) (0 + 1) [line]"
      by (rule chained_start [OF u _ _ header_key [OF cx key]]) (use p in simp_all)
    then have "chain_here cx l' p'"
      using s st(1-3) p empty by (auto simp: chain_here_def file_of_def fixed_def)
    with None appendLine_local [OF a] show ?thesis by simp
  next
    case (Some er)
    have "p_werr p'" using a line Some by (auto simp: appendLine_def split: if_splits)
    moreover have "p_buf p' = []" "file_of l' path = []" using st(2,8) Some p empty
      by (simp_all add: file_of_def)
    ultimately show ?thesis using Some appendLine_local [OF a] by simp
  qed
qed

lemma part_new_ok:
  assumes cx: "codec_ok cx" and mt: "marshal_total cx" and few: "l_open l < int maxOpenParts"
    and key: "key_ok cx l" and none: "map_of (l_parts l) name = None" and ok: "on_file_ok cx name l"
    and r: "part_new cx name l = (r, l')"
  shows "part_ok cx name l' \<and> (\<forall>q. r = Inr q \<longrightarrow> map_of (l_parts l') name = Some q \<and>
     open_ok cx name l' q \<and> l_open l' \<le> int maxOpenParts)"
  using r
proof (cases rule: part_newE)
  case unread
  with key none ok show ?thesis by (simp add: part_ok_def)
next
  case (begun sq0 head0 count inh sq head seg ls p e1 l1 p1 e2 l2 p2)
  let ?start = "part_start cx name l"
  have seeds: "map_of (l_seeds l) name = None" using ok by (simp add: on_file_ok_def)
  with begun(2) have eqs: "sq = sq0" "head = head0" "seg = ?start" "ls = l" by auto
  note os = openFile_state [OF few begun(4) [unfolded eqs]]
  have k1: "key_ok cx l1" using os key by (metis key_ok_fixed)
  have start: "1 \<le> ?start" "last_segment cx name l ?start" and
    content: "file_of l (segPath cx name ?start) = [] \<and> ?start = 1 \<or>
      (\<exists>h n. sealed_at cx l (segPath cx name ?start) h n)"
    using ok part_start_fresh [of cx name l] part_start_run [of _ l cx name]
    by (auto simp: on_file_ok_def)
  show ?thesis
  proof (cases e1)
    case (Some er)
    have "part_ok cx name l1"
      using os Some none k1 ok ok_cong(3) [of l1 l cx name] by (auto simp: part_ok_def)
    with begun(6) Some show ?thesis by simp
  next
    case None
    let ?l = "forgetColdest l1"
    have p1: "p_f p1 = Some (segPath cx name ?start)" "p_buf p1 = []" "p_segment p1 = ?start"
      "p_headHash p1 = head0" "p_seq p1 = sq0" "\<not> p_werr p1"
      using os None begun(3) eqs by (simp_all add: new_partition_def)
    have fc: "file_of ?l q = file_of l q" for q using os by (simp add: file_of_def forgetColdest_state)
    have f: "fixed ?l = fixed l" using os by (simp add: forgetColdest_state)
    have few2: "l_open ?l \<le> int maxOpenParts" using os by (simp add: forgetColdest_state)
    have kf: "key_ok cx ?l" unfolding key_ok_fixed [OF f] by (rule key)
    have last: "last_segment cx name ?l ?start"
      by (rule last_segment_mono [OF start(2,1)]) (use os begun(3) eqs in \<open>simp add: forgetColdest_state new_partition_def\<close>)
    have main: "local_step ?l p1 l2 p2 \<and> (e2 = None \<longrightarrow> chain_here cx l2 p2) \<and>
        (e2 \<noteq> None \<longrightarrow> p_werr p2 \<and> p_buf p2 = [] \<and> file_of l2 (segPath cx name ?start) = [])"
      using content
    proof (elim disjE exE conjE)
      assume e: "file_of l (segPath cx name ?start) = []" "?start = 1"
      from scan_tail_empty [OF e(1) begun(1)]
      have z: "sq0 = 0" "head0 = ''''" "count = 0" "inh = 0" by auto
      show ?thesis
        by (rule part_marks_fresh [OF cx kf mt p1(1,2) _ _ _ _ begun(5) [unfolded z]])
          (use p1 z e fc in simp_all)
    next
      fix h n
      assume s: "sealed_at cx l (segPath cx name ?start) h n"
      then have tl: "sq0 = n" "head0 = h" "count \<noteq> 0"
        using scan_tail_chained [OF _ begun(1)] by (auto simp: sealed_at_def)
      have "chain_here cx ?l p1"
        using s p1 tl fc f by (auto simp: chain_here_def sealed_at_def fixed_def)
      from part_marks_resume [OF cx this tl(3) begun(5)] show ?thesis by simp
    qed
    have ex: "last_segment cx name l2 ?start"
      by (rule last_segment_mono [OF last start(1)]) (use main p1 in \<open>auto simp: local_step_def\<close>)
    have o2: "open_ok cx name l2 p2"
      using main p1 ex start by (cases e2) (auto simp: open_ok_def local_step_def)
    have k2: "key_ok cx l2" using main kf by (metis key_ok_fixed local_step_def)
    have same: "open_ok cx name (put_part name p2 l2) p2 = open_ok cx name l2 p2"
      "key_ok cx (put_part name p2 l2) = key_ok cx l2"
      by (intro ok_cong; simp add: put_part_def)+
    have l': "l' = put_part name p2 l2" "r = Inr q \<Longrightarrow> q = p2" for q
      using begun(6) None by (auto split: option.splits)
    have m': "map_of (l_parts l') name = Some p2" "l_open l' = l_open l2"
      by (simp_all add: l'(1) put_part_def)
    have "part_ok cx name l'" using o2 k2 same m' l'(1) by (simp add: part_ok_def)
    then show ?thesis using m' l' same o2 few2 main by (auto simp: local_step_def)
  qed
qed

lemma part_chain:
  assumes cx: "codec_ok cx" and mt: "marshal_total cx" and few: "l_open l < int maxOpenParts"
    and ok: "part_ok cx name l" and r: "part cx name l = (r, l')"
  shows "part_ok cx name l' \<and> (\<forall>q. r = Inr q \<longrightarrow> map_of (l_parts l') name = Some q \<and>
     open_ok cx name l' q \<and> l_open l' \<le> int maxOpenParts)"
proof -
  let ?l = "l\<lparr>l_clock := l_clock l + 1\<rparr>"
  have same: "open_ok cx name ?l p = open_ok cx name l p" "evicted_ok cx name ?l p = evicted_ok cx name l p"
    "on_file_ok cx name ?l = on_file_ok cx name l" "key_ok cx ?l = key_ok cx l" for p
    by (intro ok_cong; simp)+
  have few': "l_open ?l < int maxOpenParts" using few by simp
  have key: "key_ok cx ?l" using ok same by (simp add: part_ok_def)
  show ?thesis
  proof (cases "map_of (l_parts l) name")
    case None
    have "part_new cx name ?l = (r, l')" using r None by (simp add: part_def)
    then show ?thesis
      by (rule part_new_ok [OF cx mt few' key, rotated 2]) (use None ok same in \<open>simp_all add: part_ok_def\<close>)
  next
    case (Some p)
    have "part_known cx name p ?l = (r, l')" using r Some by (simp add: part_def)
    moreover have "open_ok cx name ?l p \<or> evicted_ok cx name ?l p" using Some ok same by (simp add: part_ok_def)
    ultimately have "key_ok cx l' \<and> (\<exists>q. map_of (l_parts l') name = Some q \<and>
     (open_ok cx name l' q \<and> r = Inr q \<and> l_open l' \<le> int maxOpenParts \<or> evicted_ok cx name l' q \<and> (\<exists>e. r = Inl e)))"
      using part_known_ok [OF few' key] by blast
    then show ?thesis by (auto simp: part_ok_def)
  qed
qed

lemma ok_disk_cong:
  assumes "l_disk l' = l_disk l" and "fixed l' = fixed l" and "l_seeds l' = l_seeds l"
    and "map_of (l_parts l') name = map_of (l_parts l) name"
  shows "part_ok cx name l' = part_ok cx name l"
  by (cases "map_of (l_parts l) name") (simp_all add: part_ok_def assms(4) ok_cong [OF assms(1-3)])

lemma countWriteError_parts [simp]: "l_parts (countWriteError n l) = l_parts l"
  by (simp add: countWriteError_def gap_add_def)

lemma ledger_write_keeps:
  assumes cx: "codec_ok cx" and mt: "marshal_total cx" and few: "l_open l < int maxOpenParts"
    and ok: "part_ok cx name l" and kind: "r_Kind rec \<noteq> KindHeader" "r_Kind rec \<noteq> KindBatchSig"
    and w: "ledger_write cx name rec l = (e, l')"
    and opn: "\<And>q. e = None \<Longrightarrow> map_of (l_parts l') name = Some q \<Longrightarrow> p_f q \<noteq> None"
  shows "part_ok cx name l'"
proof -
  obtain r l1 where 1: "part cx name l = (r, l1)" by force
  note s1 = part_chain [OF cx mt few ok 1]
  have counted: "part_ok cx name (countWriteError name l'') = part_ok cx name l''" for l''
    by (rule ok_disk_cong) (simp_all add: countWriteError_def gap_add_def)
  show ?thesis
  proof (cases r)
    case (Inl er)
    with w 1 have "l' = countWriteError name l1" by (auto simp: ledger_write_def)
    with s1 counted show ?thesis by simp
  next
    case (Inr p)
    define r2 where "r2 = rec\<lparr>r_Seq := p_seq p + 1, r_PrevHash := p_headHash p\<rparr>"
    obtain e2 l2 p2 where 2: "appendLine cx r2 (l1, p) = (e2, l2, p2)" by (metis surj_pair)
    note st = appendLine_state [OF 2] and loc = appendLine_local [OF 2]
    from s1 Inr have o1: "open_ok cx name l1 p" and few1: "l_open l1 \<le> int maxOpenParts" and
      key1: "key_ok cx l1" by (auto simp: part_ok_def)
    have key2: "key_ok cx l2" unfolding key_ok_fixed [OF st(1)] by (rule key1)
    have cont: "continues cx l1 p r2" using kind by (simp add: continues_def r2_def is_header_def)
    have put: "open_ok cx name (put_part name q l'') p' = open_ok cx name l'' p'"
      "key_ok cx (put_part name q l'') = key_ok cx l''" for q p' l''
      by (intro ok_cong; simp add: put_part_def)+
    have stored: "part_ok cx name (put_part name q l'')" if "open_ok cx name l'' q" "key_ok cx l''" for q l''
      unfolding part_ok_def put using that by (simp add: put_part_def)
    show ?thesis
    proof (cases e2)
      case (Some er)
      have l': "l' = countWriteError name (put_part name p2 l2)"
        using w 1 Inr 2 Some by (auto simp: ledger_write_def Let_def r2_def)
      have "open_ok cx name l2 p2"
      proof (cases "chain_here cx l1 p")
        case True
        show ?thesis by (rule local_ok [OF loc o1 appendLine_chain [OF cx 2 True cont]])
      next
        case False
        with o1 have z: "p_werr p" "p_buf p = []" "file_of l1 (segPath cx name (p_segment p)) = []"
          by (auto simp: open_ok_def)
        have "p_werr p2" using 2 Some z(1) by (auto simp: appendLine_def split: option.splits if_splits)
        moreover have "exists_file l2 q = exists_file l1 q" for q by (simp add: exists_file_def st(2))
        ultimately show ?thesis
          using o1 z st Some by (simp add: open_ok_def last_segment_def file_of_def)
      qed
      then show ?thesis unfolding l' counted by (rule stored [OF _ key2])
    next
      case None
      have nw: "\<not> p_werr p" using 2 None by (auto simp: appendLine_def split: option.splits if_splits)
      with o1 have ch1: "chain_here cx l1 p" by (auto simp: open_ok_def)
      have ch2: "chain_here cx l2 p2" by (rule appendLine_chain [OF cx 2 ch1 cont])
      have o2: "open_ok cx name l2 p2" by (rule local_ok [OF loc o1 ch2])
      obtain l3 p3 where 3: "after_append cx name (r_Seq r2) (l2, p2) = (l3, p3)" by force
      have eq: "e = None" "l' = put_part name p3 l3"
        using w 1 Inr 2 3 None by (auto simp: ledger_write_def Let_def r2_def)
      have "map_of (l_parts l') name = Some p3" by (simp add: eq(2) put_part_def)
      with opn eq(1) have opn3: "p_f p3 \<noteq> None" by blast
      have few2: "l_open l2 \<le> int maxOpenParts" using few1 st(5) by simp
      from after_append_ok [OF cx mt key2 o2 ch2 few2 3 opn3] show ?thesis
        unfolding eq(2) using stored by blast
    qed
  qed
qed

section \<open>Sealed exports are accepted\<close>

lemma last_sig_snoc:
  "unmarshal cx line = Some rec \<Longrightarrow> r_Kind rec = KindBatchSig \<Longrightarrow> last_sig cx n (ls @ [line]) = r_Seq rec"
  by (simp add: last_sig_append)

lemma signed_flush:
  assumes cx: "codec_ok cx" and ok: "open_ok cx name l p" and u: "p_unsigned p > 0"
    and s: "sign_flush cx (l, p) = (None, l', p')"
  shows "sealed_at cx l' (segPath cx name (p_segment p)) (p_headHash p') (p_seq p') \<and> l_key l' = l_key l \<and>
     last_sig cx 0 (file_of l' (segPath cx name (p_segment p))) = p_seq p' \<and> p_unsigned p' = 0"
proof -
  let ?path = "segPath cx name (p_segment p)"
  obtain e1 l1 p1 where 1: "signBatch cx (l, p) = (e1, l1, p1)" by (metis surj_pair)
  obtain e2 l2 p2 where 2: "flush (l1, p1) = (e2, l2, p2)" by (metis surj_pair)
  from s 1 2 u have r: "or_err e1 e2 = None" "l' = l2" "p' = p2" by (auto simp: sign_flush_def)
  then have e: "e1 = None" "e2 = None" by (auto simp: or_err_def split: option.splits)
  from 1 e have "signBatch cx (l, p) = (None, l1, p1)" by simp
  then have "\<not> p_werr p"
  proof (cases rule: signBatch_cases)
    case (flushed rec l1' p1')
    from flushed(1) show ?thesis by (rule appendLine_cases) auto
  qed simp_all
  with ok have ch: "chain_here cx l p" by (auto simp: open_ok_def)
  have pf: "p_f p = Some ?path" using ok by (simp add: open_ok_def)
  note s1 = signBatch_sealed [OF cx 1 ch]
  from s1(2) [OF e(1)] obtain path ls line rec where l1: "p_f p1 = Some path" "file_of l1 path = ls @ [line]"
    "unmarshal cx line = Some rec" "r_Kind rec = KindBatchSig" "r_Seq rec = p_seq p1"
    "p_unsigned p1 = 0" "p_buf p1 = []" by auto
  have path: "path = ?path" using l1(1) signBatch_f [OF 1] pf by simp
  from 2 e l1(7) have same: "l2 = l1 \<and> p2 = p1" by (auto simp: flush_def split: if_splits)
  have "fixed l1 = fixed l" using signBatch_fixed [of cx "(l, p)"] 1 by simp
  with same r path l1 s1(1) last_sig_snoc [OF l1(3,4)] show ?thesis
    by (auto simp: chain_here_def sealed_at_def fixed_def)
qed

section \<open>Properties\<close>



text \<open>
  C12.  The seam of a roll.  When \<open>roll\<close> succeeds, the segment it left and the one it started
  verify as consecutive: the new one continues from the old one's head hash, at the next
  sequence number.
\<close>

theorem roll_makes_seam:
  assumes "codec_ok cx" and "marshal_total cx" and "key_ok cx l" and "open_ok cx name l p"
    and "chain_here cx l p" and "l_open l \<le> int maxOpenParts" and "roll cx name (l, p) = (None, l', p')"
    and "VerifyFile cx (file_of l' (segPath cx name (p_segment p))) k1 = Inr r1"
    and "VerifyFile cx (p_buf p' @ later) k2 = Inr r2"
  shows "v_ContinuesFrom r2 = v_HeadHash r1 \<and> v_FirstSeq r2 = v_LastSeq r1 + 1 \<and>
     v_Segment r2 = int (p_segment p) + 1"
proof -
  let ?path = "segPath cx name (p_segment p)"
  have p: "1 \<le> p_segment p" "p_f p = Some ?path" "\<not> exists_file l (segPath cx name (Suc (p_segment p)))"
    using assms(4) by (auto simp: open_ok_def last_segment_def)
  obtain k where k: "roll_case cx name ?path (p_segment p) None l' p' k"
    using roll_chain [OF assms(1-3,5,6) p assms(7)] by blast
  then have "k = RollDone" by (cases k) (auto simp: roll_case_def)
  with k obtain h n line rec where c: "sealed_at cx l' ?path h n" "p_buf p' = [line]"
    "unmarshal cx line = Some rec" "is_header rec" "r_PrevHash rec = h" "r_Seq rec = n + 1"
    "r_Segment rec = int (Suc (p_segment p))"
    by (auto simp: roll_case_def)
  have seg: "r_Segment rec > 1" using c(7) p(1) by simp
  have old: "v_HeadHash r1 = h \<and> v_LastSeq r1 = n"
  proof (rule VerifyFile_result [OF assms(8)])
    fix l0 rest r
    assume *: "file_of l' ?path = l0 # rest" "unmarshal cx l0 = Some r"
      "v_HeadHash r1 = line_hash cx (last (file_of l' ?path))"
      "v_LastSeq r1 = snd (anchor r) + of_nat (length (file_of l' ?path))"
    with c(1) show ?thesis by (auto simp: sealed_at_def chained_def)
  qed
  show ?thesis
  proof (rule VerifyFile_result [OF assms(9)])
    fix l0 rest r
    assume *: "p_buf p' @ later = l0 # rest" "unmarshal cx l0 = Some r"
      "v_FirstSeq r2 = (if is_header r then r_Seq r else 0)"
      "v_Segment r2 = (if is_header r then if r_Segment r = 0 then 1 else r_Segment r else 0)"
      "v_ContinuesFrom r2 = fst (anchor r)"
    with c(2,3) have "r = rec" by simp
    with * c seg old show ?thesis by (simp add: anchor_def)
  qed
qed

text \<open>
  C26.  The roll leaves the new segment's header outside any signature.  If nothing more is
  written, \<open>Close\<close> does not sign it (no record counts as unsigned), and \<open>VerifyFile\<close> then
  reports the header as uncovered.
\<close>

theorem rolled_header_uncovered:
  assumes "codec_ok cx" and "marshal_total cx" and "key_ok cx l" and "open_ok cx name l p"
    and "chain_here cx l p" and "l_open l \<le> int maxOpenParts" and "roll cx name (l, p) = (None, l', p')"
    and "VerifyFile cx (p_buf p') k = Inr res"
  shows "v_Uncovered res = sint (p_seq p')"
proof -
  let ?path = "segPath cx name (p_segment p)"
  have p: "1 \<le> p_segment p" "p_f p = Some ?path" "\<not> exists_file l (segPath cx name (Suc (p_segment p)))"
    using assms(4) by (auto simp: open_ok_def last_segment_def)
  obtain k where k: "roll_case cx name ?path (p_segment p) None l' p' k"
    using roll_chain [OF assms(1-3,5,6) p assms(7)] by blast
  then have "k = RollDone" by (cases k) (auto simp: roll_case_def)
  with k obtain line rec where c: "p_buf p' = [line]" "unmarshal cx line = Some rec" "is_header rec"
    and ch: "chain_here cx l' p'" "p_f p' = Some (segPath cx name (Suc (p_segment p)))"
      "file_of l' (segPath cx name (Suc (p_segment p))) = []"
    by (auto simp: roll_case_def)
  show ?thesis
  proof (rule VerifyFile_result [OF assms(8)])
    fix l0 rest r
    assume *: "p_buf p' = l0 # rest" "unmarshal cx l0 = Some r"
      "v_LastSeq res = snd (anchor r) + of_nat (length (p_buf p'))"
      "v_Uncovered res = sint (v_LastSeq res - last_sig cx 0 (p_buf p'))"
    from * c have "r = rec" by simp
    moreover have "p_seq p' = snd (anchor rec) + of_nat (length (p_buf p'))"
      using ch c by (auto simp: chain_here_def chained_def)
    moreover have "last_sig cx 0 (p_buf p') = 0" using c by (simp add: is_header_def)
    ultimately show ?thesis using *(3,4) by simp
  qed
qed

section \<open>Witnesses\<close>

definition good_header :: ledger_record where
  "good_header = header_record toy ''w'' (toy_ledger [] (\<lambda>_. False)) (new_partition 1 0 '''' 0 0)"

definition good_part :: "ledger_record partition" where
  "good_part = (new_partition 1 1 (line_hash toy good_header) 0 0)
     \<lparr>p_f := Some (segPath toy ''w'' 1), p_unsigned := 1, p_firstUnsig := 2\<rparr>"

definition good_decision :: ledger_record where
  "good_decision = zero_record\<lparr>r_Kind := KindDecision, r_CallID := ''c''\<rparr>"

definition good_ledger :: "(nat \<Rightarrow> bool) \<Rightarrow> (ledger_record, char) ledger" where
  "good_ledger fault = put_part ''w'' good_part
     ((toy_ledger [(segPath toy ''w'' 1, [good_header])] fault)\<lparr>l_open := 1\<rparr>)"

lemma toy_total: "marshal_total toy"
  by (simp add: marshal_total_def)

lemma good_key: "key_ok toy (good_ledger f)"
  by (simp add: key_ok_def good_ledger_def put_part_def toy_ledger_def)

lemma good_chain: "chain_here toy (good_ledger f) good_part"
proof -
  have "chained toy (CHR ''K'') ''k'' (line_hash toy good_header) (0 + 1) [good_header]"
    by (rule chained_start [of _ _ good_header])
      (simp_all add: good_header_def header_record_def toy_ledger_def is_header_def file_key_def toy_def
        new_partition_def)
  then show ?thesis
    by (simp add: chain_here_def good_ledger_def good_part_def put_part_def toy_ledger_def new_partition_def
        file_of_def)
qed

lemma good_open: "open_ok toy ''w'' (good_ledger f) good_part"
proof -
  have "segPath toy ''w'' k \<noteq> segPath toy ''w'' 1" if "k > 1" for k
    using segPath_inj [of toy "''w''" k 1] that by auto
  then have "last_segment toy ''w'' (good_ledger f) 1"
    by (simp add: last_segment_def exists_file_def good_ledger_def put_part_def toy_ledger_def)
  with good_chain [of f] show ?thesis
    by (simp add: open_ok_def good_part_def new_partition_def)
qed

lemma good_part_ok: "part_ok toy ''w'' (good_ledger f)"
proof -
  have "map_of (l_parts (good_ledger f)) ''w'' = Some good_part"
    by (simp add: good_ledger_def put_part_def toy_ledger_def)
  with good_key good_open show ?thesis by (simp add: part_ok_def)
qed

lemmas good_eval = good_ledger_def good_part_def put_part_def toy_ledger_def new_partition_def
  part_def part_known_def appendLine_def after_append_def io_fails_def io_next_def counts_unsigned_def
  ledger_write_def good_decision_def Let_def batchMaxRecords_def maxSegmentBytes_def


lemmas seal_eval = sign_flush_def signBatch_def flush_def then_do_def batch_record_def or_err_def
  file_of_def now_s_def


lemma seg_2_1: "segPath toy ''w'' 2 \<noteq> segPath toy ''w'' (Suc 0)"
  using segPath_inj [of toy "''w''" 2 1] by auto

lemmas roll_eval = roll_def fsync_def fclose_def release_def openFile_noevict exists_file_def
  maxOpenParts_def header_record_def

definition rolled :: "ledger_error option \<times> (ledger_record, char) ledger \<times> ledger_record partition" where
  "rolled = roll toy ''w'' (good_ledger (\<lambda>_. False), good_part)"

definition rolled_sig :: ledger_record where
  "rolled_sig = (batch_record toy (good_ledger (\<lambda>_. False)) good_part)
     \<lparr>r_Sig := CHR ''K'' # sha_line toy (batch_record toy (good_ledger (\<lambda>_. False)) good_part)\<rparr>"

lemma rolled_result:
  "fst rolled = None"
  "file_of (fst (snd rolled)) (segPath toy ''w'' 1) = [good_header, rolled_sig]"
  "\<exists>r. p_buf (snd (snd rolled)) = [r] \<and> is_header r \<and> r_Segment r = 2 \<and> r_Seq r = 3 \<and> r_PubKey r = ''K'' \<and>
     r_PrevHash r = line_hash toy rolled_sig"
  using seg_2_1 seg_2_1 [symmetric]
  by (simp_all add: rolled_def rolled_sig_def roll_eval good_eval seal_eval is_header_def numeral_2_eq_2)

lemma rolled_old_verifies: "\<exists>r1. VerifyFile toy [good_header, rolled_sig] None = Inr r1"
  unfolding verify_accepts_iff export_ok_def
  by (intro exI [of _ good_header] exI [of _ "[rolled_sig]"])
    (simp add: first_ok_def body_ok_def good_header_def header_record_def is_header_def toy_ledger_def
      new_partition_def anchor_def file_key_def file_kid_def maxLine_def sig_ok_def verifyBatchSig_def
      rolled_sig_def batch_record_def good_ledger_def good_part_def put_part_def zero_record_def now_s_def
      count_kind_def kind_of_def)

lemma rolled_new_verifies: "\<exists>r2. VerifyFile toy (p_buf (snd (snd rolled))) None = Inr r2"
proof -
  obtain r where r: "p_buf (snd (snd rolled)) = [r]" "is_header r" "r_Segment r = 2" "r_Seq r = 3"
    "r_PubKey r = ''K''" "r_PrevHash r = line_hash toy rolled_sig"
    using rolled_result(3) by blast
  then show ?thesis
    unfolding verify_accepts_iff export_ok_def r(1)
    by (intro exI [of _ r] exI [of _ "[]"])
      (simp add: first_ok_def anchor_def file_key_def maxLine_def line_hash_ne [OF toy_ok] is_header_def
        count_kind_def kind_of_def)
qed

theorem roll_makes_seam_witness:
  "\<exists>r1 r2. VerifyFile toy [good_header, rolled_sig] None = Inr r1 \<and>
     VerifyFile toy (p_buf (snd (snd rolled)) @ []) None = Inr r2 \<and>
     v_ContinuesFrom r2 = v_HeadHash r1 \<and> v_FirstSeq r2 = v_LastSeq r1 + 1 \<and> v_Segment r2 = 2"
proof -
  obtain r1 where r1: "VerifyFile toy [good_header, rolled_sig] None = Inr r1"
    using rolled_old_verifies by blast
  obtain r2 where r2: "VerifyFile toy (p_buf (snd (snd rolled)) @ []) None = Inr r2"
    using rolled_new_verifies by auto
  have roll: "roll toy ''w'' (good_ledger (\<lambda>_. False), good_part) = (None, fst (snd rolled), snd (snd rolled))"
    using rolled_result(1) unfolding rolled_def by (metis prod.collapse)
  have seg: "p_segment good_part = 1" by (simp add: good_part_def new_partition_def)
  have "VerifyFile toy (file_of (fst (snd rolled)) (segPath toy ''w'' (p_segment good_part))) None = Inr r1"
    using r1 rolled_result(2) seg by simp
  from roll_makes_seam [OF toy_ok toy_total good_key good_open good_chain _ roll this r2] r1 r2 seg
  show ?thesis by (simp add: good_ledger_def put_part_def maxOpenParts_def)
qed

theorem rolled_header_uncovered_witness:
  "\<exists>res. VerifyFile toy (p_buf (snd (snd rolled))) None = Inr res \<and> v_Uncovered res = 3"
proof -
  obtain res where res: "VerifyFile toy (p_buf (snd (snd rolled))) None = Inr res"
    using rolled_new_verifies by blast
  have roll: "roll toy ''w'' (good_ledger (\<lambda>_. False), good_part) = (None, fst (snd rolled), snd (snd rolled))"
    using rolled_result(1) unfolding rolled_def by (metis prod.collapse)
  have sq: "p_seq (snd (snd rolled)) = 3"
    using seg_2_1 seg_2_1 [symmetric] by (simp add: rolled_def roll_eval good_eval seal_eval numeral_2_eq_2)
  from rolled_header_uncovered [OF toy_ok toy_total good_key good_open good_chain _ roll res] res sq
  show ?thesis by (simp add: good_ledger_def put_part_def maxOpenParts_def)
qed

end
