(* ===== verification/Ledger_Resume.thy ===== *)
theory Ledger_Resume
  imports Ledger_Correct
begin

text \<open>
  \<open>part\<close> on a chain that already has files: after a restart, or after the partition was
  forgotten.  It continues the last segment of an unbroken run and marks what it inherited
  unsigned.  It goes wrong in three situations, each shown here: the last segment is still
  empty, the first segment has been pruned, and (in the first signature only) whenever it
  inherited unsigned lines.
\<close>

section \<open>What is inherited\<close>

definition is_sig :: "('l, 'k, 'p) codec \<Rightarrow> 'l \<Rightarrow> bool" where
  "is_sig cx l \<longleftrightarrow> kind_of cx l = Some KindBatchSig"

text \<open>The lines after the last batch signature of an export.\<close>

definition unsigned_tail :: "('l, 'k, 'p) codec \<Rightarrow> 'l list \<Rightarrow> 'l list" where
  "unsigned_tail cx ls = rev (takeWhile (\<lambda>l. \<not> is_sig cx l) (rev ls))"

lemma unsigned_tail_snoc:
  "unsigned_tail cx (ls @ [l]) = (if is_sig cx l then [] else unsigned_tail cx ls @ [l])"
  by (simp add: unsigned_tail_def)

lemma scan_lines_append:
  "scan_lines cx (xs @ ys) c u =
     (case scan_lines cx xs c u of None \<Rightarrow> None | Some (c', u') \<Rightarrow> scan_lines cx ys c' u')"
  by (induction xs arbitrary: c u) (auto split: option.splits)

lemma scan_lines_counts:
  "scan_lines cx ls 0 0 = Some (c, u) \<Longrightarrow> c = length ls \<and> u = length (unsigned_tail cx ls)"
proof (induction ls arbitrary: c u rule: rev_induct)
  case Nil
  then show ?case by (simp add: unsigned_tail_def)
next
  case (snoc l ls)
  then obtain c' u' where s: "scan_lines cx ls 0 0 = Some (c', u')"
    by (auto simp: scan_lines_append split: option.splits)
  from snoc.IH [OF s] snoc.prems s show ?case
    by (auto simp: scan_lines_append unsigned_tail_snoc is_sig_def kind_of_def split: option.splits if_splits)
qed

lemma scanTail_inherited:
  assumes "scanTail cx path l = Inr (sq, head, count, inh)"
  shows "count = length (file_of l path) \<and> inh = length (unsigned_tail cx (file_of l path))"
proof (cases "map_of (l_disk l) path")
  case None
  with assms show ?thesis by (simp add: scanTail_def file_of_def unsigned_tail_def)
next
  case (Some ls)
  with assms obtain c u where s: "scan_lines cx ls 0 0 = Some (c, u)"
    and r: "count = c \<and> inh = u \<or> c = 0 \<and> count = 0 \<and> inh = 0"
    by (auto simp: scanTail_def split: option.splits if_splits)
  from scan_lines_counts [OF s] r Some show ?thesis
    by (auto simp: file_of_def unsigned_tail_def)
qed

section \<open>The course of a resume\<close>

text \<open>\<open>part\<close> on a name that is neither in the map nor seeded, when it succeeds.\<close>

lemma part_resume:
  assumes "map_of (l_parts l) name = None" and "map_of (l_seeds l) name = None"
    and "l_open l < int maxOpenParts" and "part cx name l = (Inr q, l')"
  obtains sq head count inh l1 p1 l2 where
    "scanTail cx (segPath cx name (part_start cx name l)) l = Inr (sq, head, count, inh)"
    "p_segment p1 = part_start cx name l" "p_f p1 = Some (segPath cx name (part_start cx name l))"
    "p_buf p1 = []" "p_seq p1 = sq" "p_headHash p1 = head" "p_unsigned p1 = 0" "p_firstUnsig p1 = 0"
    "fixed l1 = fixed l" "\<And>x. file_of l1 x = file_of l x"
    "part_marks cx name count inh (l1, p1) = (None, l2, q)" "l' = put_part name q l2"
proof -
  let ?l = "l\<lparr>l_clock := l_clock l + 1\<rparr>"
  have few: "l_open ?l < int maxOpenParts" using assms(3) by simp
  have st: "part_start cx name ?l = part_start cx name l"
    by (simp add: part_start_def latestSegment_def exists_file_def)
  have sc: "scanTail cx x ?l = scanTail cx x l" for x by (simp add: scanTail_def)
  have "part_new cx name ?l = (Inr q, l')" using assms(1,4) by (simp add: part_def)
  then show thesis
  proof (cases rule: part_newE)
    case unread
    then show ?thesis by simp
  next
    case (begun sq0 head0 count inh sq head seg ls p e1 l1 p1 e2 l2 p2)
    with assms(2) st have eqs: "sq = sq0" "head = head0" "seg = part_start cx name l" "ls = ?l" by auto
    note os = openFile_state [OF few begun(4) [unfolded eqs]]
    have e: "e1 = None" "e2 = None" "p2 = q" "l' = put_part name q l2"
      using begun(6) by (auto split: option.splits)
    have un: "p_unsigned p1 = 0" "p_firstUnsig p1 = 0"
      using begun(3,4) e(1) few eqs by (auto simp: openFile_noevict new_partition_def split: if_splits)
    show ?thesis
    proof (rule that [of sq0 head0 count inh p1 "forgetColdest l1" l2])
      show "scanTail cx (segPath cx name (part_start cx name l)) l = Inr (sq0, head0, count, inh)"
        using begun(1) st sc by simp
      show "fixed (forgetColdest l1) = fixed l" using os by (simp add: forgetColdest_state)
      show "file_of (forgetColdest l1) x = file_of l x" for x
        using os by (simp add: file_of_def forgetColdest_state)
      show "part_marks cx name count inh (forgetColdest l1, p1) = (None, l2, q)"
        using begun(5) e by simp
    qed (use os e un begun(3) eqs in \<open>simp_all add: new_partition_def\<close>)
  qed
qed

lemma appendLine_none:
  assumes "appendLine cx rec (l, p) = (None, l', p')"
  obtains line where "marshal cx rec = Some line" "p_buf p' = p_buf p @ [line]" "p_seq p' = r_Seq rec"
    "p_headHash p' = line_hash cx line" "p_firstUnsig p' = p_firstUnsig p"
    "p_unsigned p' = (if counts_unsigned (r_Kind rec) then Suc (p_unsigned p) else p_unsigned p)"
  using assms by (auto simp: appendLine_def split: option.splits if_splits)

section \<open>Properties\<close>


text \<open>
  C36.  The first signature after a restart does not name what it covers.  When \<open>part\<close> has
  marked inherited unsigned lines, the partition counts one unsigned record but its first
  unsigned sequence number is still 0.  Only a record that makes the count 1 sets it, so no
  later record does, and the next batch signature states \<open>first_seq\<close> 0.
\<close>

theorem resumed_batch_first_seq_unset:
  assumes "map_of (l_parts l) name = None" and "map_of (l_seeds l) name = None"
    and "l_open l < int maxOpenParts" and "part cx name l = (Inr q, l')"
    and "p_buf q \<noteq> []" and "file_of l (segPath cx name (part_start cx name l)) \<noteq> []"
  shows "p_unsigned q = 1 \<and> r_FirstSeq (batch_record cx l' q) = 0 \<and>
     (\<forall>l2 sq. p_bytes q < l_maxSegment l2 \<longrightarrow>
        after_append cx name sq (l2, q\<lparr>p_unsigned := 2\<rparr>) = (l2, q\<lparr>p_unsigned := 2\<rparr>) \<and>
        r_FirstSeq (batch_record cx l2 (q\<lparr>p_unsigned := 2\<rparr>)) = 0)"
proof (rule part_resume [OF assms(1-4)])
  fix sq head count inh l1 p1 lm
  assume *: "scanTail cx (segPath cx name (part_start cx name l)) l = Inr (sq, head, count, inh)"
    "p_buf p1 = []" "p_unsigned p1 = 0" "p_firstUnsig p1 = 0"
    "part_marks cx name count inh (l1, p1) = (None, lm, q)"
  have "count \<noteq> 0" using scanTail_inherited [OF *(1)] assms(6) by auto
  obtain e1 l3 p3 where 1: "appendLine cx (resumed_record cx inh l1 p1) (l1, p1) = (e1, l3, p3)"
    by (metis surj_pair)
  have r: "q = (if inh > 0 then p3 else p1)"
    using *(5) \<open>count \<noteq> 0\<close> 1 by (cases "inh > 0") (auto simp: part_marks_def)
  have i: "inh > 0" using r assms(5) *(2) by (cases "inh > 0") auto
  have "e1 = None"
  proof (rule ccontr)
    assume "e1 \<noteq> None"
    with appendLine_state(8) [OF 1] r i *(2) assms(5) show False by simp
  qed
  with 1 have q: "p_unsigned q = 1" "p_firstUnsig q = 0"
    using r i *(3,4) by (auto elim!: appendLine_none simp: resumed_record_def counts_unsigned_def)
  then show ?thesis by (simp add: batch_record_def after_append_def batchMaxRecords_def)
qed

text \<open>An export file that \<open>part\<close> finds empty gets a header with sequence number 1 and no
  predecessor, whatever its segment number.\<close>

lemma part_empty_header:
  assumes "codec_ok cx" and "map_of (l_parts l) name = None" and "map_of (l_seeds l) name = None"
    and "l_open l < int maxOpenParts" and "file_of l (segPath cx name (part_start cx name l)) = []"
    and "part cx name l = (Inr q, l')"
  obtains line rec where "p_buf q = [line]" "unmarshal cx line = Some rec" "r_Kind rec = KindHeader"
    "r_Seq rec = 1" "r_PrevHash rec = ''''" "r_Segment rec = int (part_start cx name l)"
    "p_segment q = part_start cx name l" "p_f q = Some (segPath cx name (part_start cx name l))"
proof (rule part_resume [OF assms(2-4,6)])
  fix sq head count inh l1 p1 l2
  assume *: "scanTail cx (segPath cx name (part_start cx name l)) l = Inr (sq, head, count, inh)"
    "p_segment p1 = part_start cx name l" "p_f p1 = Some (segPath cx name (part_start cx name l))"
    "p_buf p1 = []" "p_seq p1 = sq" "p_headHash p1 = head"
    "part_marks cx name count inh (l1, p1) = (None, l2, q)"
  from scan_tail_empty [OF assms(5) *(1)] have z: "sq = 0" "head = ''''" "count = 0" "inh = 0" by auto
  with *(7) have a: "appendLine cx (header_record cx name l1 p1) (l1, p1) = (None, l2, q)"
    by (simp add: part_marks_def)
  then obtain line where line: "marshal cx (header_record cx name l1 p1) = Some line"
    "p_buf q = p_buf p1 @ [line]"
    by (rule appendLine_none)
  have u: "unmarshal cx line = Some (header_record cx name l1 p1)" by (rule codec_okD(1) [OF assms(1) line(1)])
  have k: "r_Kind (header_record cx name l1 p1) = KindHeader" by (simp add: header_record_def)
  show thesis
    by (rule that [OF _ u k]) (use line z * appendLine_state(3,4) [OF a] in simp_all)
qed

text \<open>
  C37.  A crash between a roll and the next flush loses the chain.  The new segment's file is
  then on disk and empty; \<open>part\<close> takes it for the last segment and starts it with a header
  that names no predecessor, and \<open>VerifyFile\<close> rejects that segment whatever follows.
\<close>

theorem crash_after_roll_breaks_chain:
  assumes "codec_ok cx" and "map_of (l_parts l) name = None" and "map_of (l_seeds l) name = None"
    and "l_open l < int maxOpenParts" and "2 \<le> m"
    and "\<forall>k. 1 \<le> k \<and> k \<le> m \<longrightarrow> exists_file l (segPath cx name k)" and "last_segment cx name l m"
    and "file_of l (segPath cx name m) = []" and "part cx name l = (Inr q, l')"
    and "\<And>line. line \<in> set (p_buf q) \<Longrightarrow> line_len cx line < maxLine"
  shows "VerifyFile cx (p_buf q @ later) pinned = Inl (NoPredecessor (int m))"
proof -
  have m: "part_start cx name l = m" by (rule part_start_run) (use assms in auto)
  obtain line rec where r: "p_buf q = [line]" "unmarshal cx line = Some rec" "r_Kind rec = KindHeader"
    "r_Seq rec = 1" "r_PrevHash rec = ''''" "r_Segment rec = int m"
    by (rule part_empty_header [OF assms(1-4) _ assms(9)]) (use assms(8) m in auto)
  have "line_len cx line < maxLine" using assms(10) r(1) by simp
  with r assms(5) show ?thesis
    by (simp add: VerifyFile_def verify_line_def seed_continuation_def Let_def)
qed

text \<open>
  C38.  A restart after \<open>Prune\<close> forks the chain.  Once the first segment is gone,
  \<open>latestSegment\<close> sees no chain at all, so \<open>part\<close> begins a new segment 1 at sequence
  number 1 with no predecessor, although later segments of the partition are on disk.
\<close>

theorem restart_after_prune_forks:
  assumes "codec_ok cx" and "map_of (l_parts l) name = None" and "map_of (l_seeds l) name = None"
    and "l_open l < int maxOpenParts" and "\<not> exists_file l (segPath cx name 1)"
    and "part cx name l = (Inr q, l')"
  shows "p_segment q = 1 \<and> (\<exists>line rec. p_buf q = [line] \<and> unmarshal cx line = Some rec \<and>
     r_Kind rec = KindHeader \<and> r_Seq rec = 1 \<and> r_PrevHash rec = '''' \<and> r_Segment rec = 1)"
proof -
  have m: "part_start cx name l = 1" using latest_none [OF assms(5)] by (simp add: part_start_def)
  have "file_of l (segPath cx name 1) = []" using assms(5) by (simp add: file_of_def exists_file_def)
  then obtain line rec where "p_buf q = [line]" "unmarshal cx line = Some rec" "r_Kind rec = KindHeader"
    "r_Seq rec = 1" "r_PrevHash rec = ''''" "r_Segment rec = int (part_start cx name l)"
    "p_segment q = part_start cx name l"
    using part_empty_header [OF assms(1-4) _ assms(6)] m by metis
  with m show ?thesis by simp
qed

section \<open>Witnesses\<close>

definition on_files :: "nat list \<Rightarrow> (nat \<times> ledger_record list) list \<Rightarrow> (ledger_record, char) ledger" where
  "on_files fails fs = toy_ledger (map (\<lambda>(k, ls). (segPath toy ''w'' k, ls)) fs) (\<lambda>n. n \<in> set fails)"

definition old_decision :: ledger_record where
  "old_decision = zero_record\<lparr>r_Kind := KindDecision, r_Seq := 2, r_PrevHash := line_hash toy good_header\<rparr>"

lemma old_chain: "chained toy (CHR ''K'') ''k'' (line_hash toy old_decision) 2 [good_header, old_decision]"
proof -
  have h: "chained toy (CHR ''K'') ''k'' (line_hash toy good_header) (0 + 1) [good_header]"
    by (rule chained_start [of _ _ good_header])
      (simp_all add: good_header_def header_record_def toy_ledger_def is_header_def file_key_def new_partition_def)
  have "chained toy (CHR ''K'') ''k'' (line_hash toy old_decision) (0 + 1 + 1) ([good_header] @ [old_decision])"
    by (rule chained_snoc [OF h, of _ old_decision]) (simp_all add: old_decision_def line_ok_def is_header_def)
  then show ?thesis by simp
qed

lemma seg_of_ne: "k \<noteq> j \<Longrightarrow> 1 \<le> k \<Longrightarrow> 1 \<le> j \<Longrightarrow> segPath toy ''w'' k \<noteq> segPath toy ''w'' j"
  using segPath_inj by blast

lemma last_1: "last_segment toy ''w'' (on_files fl [(1, ls)]) 1"
  using seg_of_ne [of _ 1]
  by (auto simp: last_segment_def exists_file_def on_files_def toy_ledger_def)


lemma part_ok_succeeds:
  assumes "map_of (l_parts l) ''w'' = None" and "map_of (l_seeds l) ''w'' = None"
    and "l_open l < int maxOpenParts" and "\<And>n. \<not> l_fault l n"
    and "scanTail toy (segPath toy ''w'' (part_start toy ''w'' l)) l = Inr (sq, head, count, inh)"
  shows "\<exists>q l'. part toy ''w'' l = (Inr q, l') \<and> (inh > 0 \<and> count \<noteq> 0 \<longrightarrow> p_buf q \<noteq> [])"
proof -
  let ?l = "l\<lparr>l_clock := l_clock l + 1\<rparr>"
  obtain r l' where r: "part_new toy ''w'' ?l = (r, l')" by force
  have st: "part_start toy ''w'' ?l = part_start toy ''w'' l"
    by (simp add: part_start_def latestSegment_def exists_file_def)
  have sc: "scanTail toy x ?l = scanTail toy x l" for x by (simp add: scanTail_def)
  have ok: "fst (appendLine toy rec (l'', p)) = None" if "\<not> p_werr p" "\<And>n. \<not> l_fault l'' n"
    for rec and l'' :: "(ledger_record, char) ledger" and p
    using that by (simp add: appendLine_def io_fails_def)
  from r have "\<exists>q. r = Inr q \<and> (inh > 0 \<and> count \<noteq> 0 \<longrightarrow> p_buf q \<noteq> [])"
  proof (cases rule: part_newE)
    case unread
    with assms(5) st sc show ?thesis by simp
  next
    case (begun sq0 head0 count0 inh0 sq1 head1 seg ls p e1 l1 p1 e2 l2 p2)
    with assms(2) have ls: "ls = ?l" by auto
    have few: "l_open ?l < int maxOpenParts" using assms(3) by simp
    note os = openFile_state [OF few begun(4) [unfolded ls]]
    have e1: "e1 = None" using begun(4) few assms(4) ls by (auto simp: openFile_noevict io_fails_def)
    have f: "\<not> l_fault (forgetColdest l1) n" for n
      using os assms(4) by (simp add: fixed_def forgetColdest_def split: option.splits prod.splits)
    have w: "\<not> p_werr p1" using os e1 by simp
    obtain e3 l3 p3 where 3: "appendLine toy (resumed_record toy inh0 (forgetColdest l1) p1) (forgetColdest l1, p1) = (e3, l3, p3)"
      by (metis surj_pair)
    have w3: "\<not> p_werr p3" "\<And>n. \<not> l_fault l3 n" "p_buf p3 \<noteq> []"
    proof -
      have "e3 = None" using ok [OF w f] 3 by (metis fst_conv)
      then show "\<not> p_werr p3" "p_buf p3 \<noteq> []" using appendLine_state(7) [OF 3] w by auto
      show "\<not> l_fault l3 n" for n using appendLine_state(1) [OF 3] f by (simp add: fixed_def)
    qed
    have "e2 = None"
    proof (cases "count0 = 0")
      case False
      with begun(5) show ?thesis by (simp add: part_marks_def split: prod.splits if_splits)
    next
      case True
      with begun(5) 3 have "e2 = fst (appendLine toy (header_record toy ''w'' l3 p3) (l3, p3)) \<or>
          e2 = fst (appendLine toy (header_record toy ''w'' (forgetColdest l1) p1) (forgetColdest l1, p1))"
        by (cases "inh0 > 0") (auto simp: part_marks_def)
      then show ?thesis using ok [OF w f] ok [OF w3(1,2)] by auto
    qed
    moreover have "count0 = count" "inh0 = inh" using begun(1) assms(5) st sc by auto
    moreover have "p_buf p2 \<noteq> []" if "inh0 > 0" "count0 \<noteq> 0"
      using begun(5) 3 that w3(3) by (simp add: part_marks_def)
    ultimately show ?thesis using begun(6) e1 by auto
  qed
  with r assms(1) show ?thesis by (auto simp: part_def)
qed

lemma on_files_simps [simp]:
  "l_parts (on_files fl fs) = []" "l_seeds (on_files fl fs) = []" "l_open (on_files fl fs) = 0"
  "l_fault (on_files fl fs) = (\<lambda>n. n \<in> set fl)" "l_maxSegment (on_files fl fs) = maxSegmentBytes"
  by (simp_all add: on_files_def toy_ledger_def)

lemma file_of_on_files: "1 \<le> k \<Longrightarrow> \<forall>x \<in> set fs. 1 \<le> fst x \<Longrightarrow>
    map_of (l_disk (on_files fl fs)) (segPath toy ''w'' k) = map_of fs k"
proof (induction fs)
  case Nil
  then show ?case by (simp add: on_files_def toy_ledger_def)
next
  case (Cons a fs)
  obtain j ls where a: "a = (j, ls)" by force
  have "segPath toy ''w'' j = segPath toy ''w'' k \<longleftrightarrow> j = k"
    using Cons.prems a segPath_inj [of toy "''w''" j k] by auto
  then show ?case using Cons a by (auto simp: on_files_def toy_ledger_def)
qed


lemma on_files_empty_scan:
  assumes "file_of l (segPath toy ''w'' k) = []"
  shows "scanTail toy (segPath toy ''w'' k) l = Inr (0, '''', 0, 0)"
  using assms by (auto simp: scanTail_def file_of_def split: option.splits)

theorem crash_after_roll_breaks_chain_witness:
  "\<exists>q l'. part toy ''w'' (on_files [] [(1, [good_header, old_decision]), (2, [])]) = (Inr q, l') \<and>
     VerifyFile toy (p_buf q @ []) None = Inl (NoPredecessor 2)"
proof -
  let ?l = "on_files [] [(1, [good_header, old_decision]), (2, [])]"
  have m: "map_of (l_disk ?l) (segPath toy ''w'' k) = map_of [(1, [good_header, old_decision]), (2, [])] k"
    if "1 \<le> k" for k
    using that by (intro file_of_on_files) auto
  have f: "file_of ?l (segPath toy ''w'' 2) = []" using m [of 2] by (simp add: file_of_def)
  have last: "last_segment toy ''w'' ?l 2" using m by (auto simp: last_segment_def exists_file_def)
  have ex: "\<forall>k. 1 \<le> k \<and> k \<le> 2 \<longrightarrow> exists_file ?l (segPath toy ''w'' k)"
    using m by (auto simp: exists_file_def)
  have "part_start toy ''w'' ?l = 2" by (rule part_start_run [OF _ ex last]) simp
  with part_ok_succeeds [of ?l] on_files_empty_scan [OF f] obtain q l' where
    p: "part toy ''w'' ?l = (Inr q, l')" by (auto simp: maxOpenParts_def)
  have "VerifyFile toy (p_buf q @ []) None = Inl (NoPredecessor (int 2))"
    by (rule crash_after_roll_breaks_chain [OF toy_ok _ _ _ _ ex last f p])
      (simp_all add: maxOpenParts_def maxLine_def)
  with p show ?thesis by auto
qed

theorem restart_after_prune_forks_witness:
  "\<exists>q l'. part toy ''w'' (on_files [] [(2, [old_decision])]) = (Inr q, l') \<and> p_segment q = 1"
proof -
  let ?l = "on_files [] [(2, [old_decision])]"
  have n: "\<not> exists_file ?l (segPath toy ''w'' 1)"
    using file_of_on_files [of 1 "[(2, [old_decision])]" "[]"] by (simp add: exists_file_def)
  have st: "part_start toy ''w'' ?l = 1" using latest_none [OF n] by (simp add: part_start_def)
  have "file_of ?l (segPath toy ''w'' 1) = []" using n by (simp add: file_of_def exists_file_def)
  with part_ok_succeeds [of ?l] on_files_empty_scan st obtain q l' where
    p: "part toy ''w'' ?l = (Inr q, l')" by (auto simp: maxOpenParts_def)
  from restart_after_prune_forks [OF toy_ok _ _ _ n p] p show ?thesis
    by (auto simp: maxOpenParts_def)
qed

theorem resumed_batch_first_seq_unset_witness:
  "\<exists>q l'. part toy ''w'' (on_files [] [(1, [good_header, old_decision])]) = (Inr q, l') \<and>
     p_unsigned q = 1 \<and> r_FirstSeq (batch_record toy l' q) = 0"
proof -
  let ?l = "on_files [] [(1, [good_header, old_decision])]"
  have m: "map_of (l_disk ?l) (segPath toy ''w'' 1) = Some [good_header, old_decision]"
    using file_of_on_files [of 1] by simp
  have st: "part_start toy ''w'' ?l = 1" by (rule part_start_fresh [OF last_1])
  have sc: "scanTail toy (segPath toy ''w'' 1) ?l = Inr (2, line_hash toy old_decision, 2, 2)"
    using m by (simp add: scanTail_def scanLine_def good_header_def old_decision_def header_record_def)
  with part_ok_succeeds [of ?l] st obtain q l' where p: "part toy ''w'' ?l = (Inr q, l')" and b: "p_buf q \<noteq> []"
    by (auto simp: maxOpenParts_def)
  have none: "map_of (l_parts ?l) ''w'' = None" "map_of (l_seeds ?l) ''w'' = None"
    "l_open ?l < int maxOpenParts" by (simp_all add: maxOpenParts_def)
  have "file_of ?l (segPath toy ''w'' (part_start toy ''w'' ?l)) \<noteq> []"
    using m st by (simp add: file_of_def)
  from resumed_batch_first_seq_unset [OF none p b this] p show ?thesis by auto
qed

end
