(* ===== verification/Verify_Main.thy ===== *)
theory Verify_Main
  imports Ledger_Correct
begin

text \<open>
  The offline verifier \<open>proxy/cmd/gurdy-verify/main.go\<close>: argument expansion, the loop over
  the exports, the seam check across segments and the exit code.  The text it prints is not
  modelled; what it prints it about (the error, the problem) is.  \<open>sort.Slice\<close> is not
  stable, so the order of two segments with one number is unspecified; here they keep their
  order, and either order is a fork.
\<close>

record seg_ref =
  sg_path :: string
  sg_res :: verify_result

datatype seam_problem =
    BeginsAt string int u64 u64
  | ForkOf string string int
  | Missing string int int
  | OtherChain string string string string
  | OtherSeq string u64 string u64

section \<open>The seam check\<close>

definition chain_key :: "verify_result \<Rightarrow> string" where
  "chain_key res = v_Tenant res @ [CHR 0x00] @ v_Workload res @ [CHR 0x00] @ v_InstanceID res"

fun group_chains :: "seg_ref list \<Rightarrow> seg_ref list gomap \<Rightarrow> seg_ref list gomap" where
  "group_chains [] m = m"
| "group_chains (s # ss) m =
     (let k = chain_key (sg_res s) in
      group_chains ss (map_put k ((case map_of m k of None \<Rightarrow> [] | Some xs \<Rightarrow> xs) @ [s]) m))"

fun pruned_through :: "seg_ref list \<Rightarrow> u64 \<Rightarrow> u64" where
  "pruned_through [] n = n"
| "pruned_through (s # ss) n =
     pruned_through ss (if v_PrunedThroughSeq (sg_res s) > n then v_PrunedThroughSeq (sg_res s) else n)"

definition start_problem :: "seg_ref list \<Rightarrow> seam_problem list" where
  "start_problem segs =
     (case segs of
        [] \<Rightarrow> []
      | s # _ \<Rightarrow>
          let first = sg_res s; pruned = pruned_through segs 0 in
          if v_Segment first > 1 \<and> pruned < v_FirstSeq first - 1
          then [BeginsAt (sg_path s) (v_Segment first) pruned (v_FirstSeq first)] else [])"

definition pair_problems :: "seg_ref \<Rightarrow> seg_ref \<Rightarrow> seam_problem list" where
  "pair_problems p c =
     (let prev = sg_res p; cur = sg_res c in
      if v_Segment cur = v_Segment prev then [ForkOf (sg_path p) (sg_path c) (v_Segment cur)]
      else if v_Segment cur \<noteq> v_Segment prev + 1
        then [Missing (sg_path c) (v_Segment cur) (v_Segment prev)]
      else (if v_ContinuesFrom cur \<noteq> v_HeadHash prev
            then [OtherChain (sg_path c) (v_ContinuesFrom cur) (sg_path p) (v_HeadHash prev)] else [])
         @ (if v_FirstSeq cur \<noteq> v_LastSeq prev + 1
            then [OtherSeq (sg_path c) (v_FirstSeq cur) (sg_path p) (v_LastSeq prev)] else []))"

fun adjacent_problems :: "seg_ref list \<Rightarrow> seam_problem list" where
  "adjacent_problems (p # c # ss) = pair_problems p c @ adjacent_problems (c # ss)"
| "adjacent_problems _ = []"

definition chain_problems :: "seg_ref list \<Rightarrow> seam_problem list" where
  "chain_problems segs0 =
     (let segs = sort_key (\<lambda>s. v_Segment (sg_res s)) segs0
      in start_problem segs @ adjacent_problems segs)"

definition seamProblems :: "seg_ref list \<Rightarrow> seam_problem list" where
  "seamProblems segs =
     (let chains = group_chains segs [] in
      concat (map (\<lambda>k. case map_of chains k of None \<Rightarrow> [] | Some ss \<Rightarrow> chain_problems ss)
                  (sort_strings (map fst chains))))"

section \<open>The run\<close>

text \<open>What the file system holds under a path.\<close>

datatype 'l node = NoFile | RegFile "'l list" | Directory "(string \<times> bool) list" | Unreadable

definition expand :: "(string \<Rightarrow> 'l node) \<Rightarrow> string \<Rightarrow> string list" where
  "expand fs arg =
     (case fs arg of
        Directory es \<Rightarrow>
          map (\<lambda>(name, _). arg @ ''/'' @ name) (filter (\<lambda>(name, d). \<not> d \<and> has_suffix name ''.jsonl'') es)
      | Unreadable \<Rightarrow> []
      | _ \<Rightarrow> [arg])"

datatype file_error = CannotOpen | Rejected verify_error | UnsignedTail int

definition verify_path :: "('l, 'k, 'p) codec \<Rightarrow> (string \<Rightarrow> 'l node) \<Rightarrow> 'p option \<Rightarrow> string
    \<Rightarrow> file_error + verify_result" where
  "verify_path cx fs pinned path =
     (case fs path of
        RegFile ls \<Rightarrow> (case VerifyFile cx ls pinned of Inl e \<Rightarrow> Inl (Rejected e) | Inr res \<Rightarrow> Inr res)
      | _ \<Rightarrow> Inl CannotOpen)"

record run_state =
  rs_failed :: bool
  rs_verified :: "seg_ref list"
  rs_errors :: "(string \<times> file_error) list"

definition run_file :: "('l, 'k, 'p) codec \<Rightarrow> (string \<Rightarrow> 'l node) \<Rightarrow> 'p option \<Rightarrow> bool \<Rightarrow> string
    \<Rightarrow> run_state \<Rightarrow> run_state" where
  "run_file cx fs pinned allowTail path s =
     (case verify_path cx fs pinned path of
        Inl e \<Rightarrow> s\<lparr>rs_failed := True, rs_errors := rs_errors s @ [(path, e)]\<rparr>
      | Inr res \<Rightarrow>
          if v_Uncovered res > 0 \<and> \<not> allowTail
          then s\<lparr>rs_failed := True, rs_errors := rs_errors s @ [(path, UnsignedTail (v_Uncovered res))]\<rparr>
          else s\<lparr>rs_verified := rs_verified s @ [\<lparr>sg_path = path, sg_res = res\<rparr>]\<rparr>)"

definition run_arg :: "('l, 'k, 'p) codec \<Rightarrow> (string \<Rightarrow> 'l node) \<Rightarrow> 'p option \<Rightarrow> bool \<Rightarrow> string
    \<Rightarrow> run_state \<Rightarrow> run_state" where
  "run_arg cx fs pinned allowTail arg s =
     (if expand fs arg = [] then s\<lparr>rs_failed := True\<rparr>
      else fold (run_file cx fs pinned allowTail) (expand fs arg) s)"

record verify_flags =
  vf_pubkey :: string
  vf_allowTail :: bool
  vf_version :: bool
  vf_args :: "string list"

text \<open>\<open>fs.Parse\<close>: help was asked for, the flags are bad, or they are these.\<close>

datatype parsed = AskedHelp | BadFlags | Flags verify_flags

definition verify_all :: "('l, 'k, 'p) codec \<Rightarrow> (string \<Rightarrow> 'l node) \<Rightarrow> 'p option \<Rightarrow> bool
    \<Rightarrow> string list \<Rightarrow> run_state" where
  "verify_all cx fs pinned allowTail args =
     (let s = fold (run_arg cx fs pinned allowTail) args
                \<lparr>rs_failed = False, rs_verified = [], rs_errors = []\<rparr>
      in s\<lparr>rs_failed := rs_failed s \<or> seamProblems (rs_verified s) \<noteq> []\<rparr>)"

definition run_verify :: "('l, 'k, 'p) codec \<Rightarrow> (string \<Rightarrow> 'p option) \<Rightarrow> (string \<Rightarrow> 'l node)
    \<Rightarrow> parsed \<Rightarrow> int" where
  "run_verify cx readPubKey fs pf =
     (case pf of
        AskedHelp \<Rightarrow> 0
      | BadFlags \<Rightarrow> 2
      | Flags f \<Rightarrow>
          if vf_version f then 0
          else if vf_args f = [] then 2
          else if vf_pubkey f \<noteq> '''' \<and> readPubKey (vf_pubkey f) = None then 2
          else
            let pinned = (if vf_pubkey f \<noteq> '''' then readPubKey (vf_pubkey f) else None)
            in if rs_failed (verify_all cx fs pinned (vf_allowTail f) (vf_args f)) then 1 else 0)"

section \<open>The loop\<close>

lemma run_file_spec:
  "rs_failed (run_file cx fs pinned tail path s) \<longleftrightarrow> rs_failed s \<or>
     \<not> (\<exists>ls res. fs path = RegFile ls \<and> VerifyFile cx ls pinned = Inr res \<and> (v_Uncovered res \<le> 0 \<or> tail))"
  "rs_verified (run_file cx fs pinned tail path s) = rs_verified s @
     (case verify_path cx fs pinned path of
        Inl e \<Rightarrow> [] | Inr res \<Rightarrow> if v_Uncovered res > 0 \<and> \<not> tail then [] else [\<lparr>sg_path = path, sg_res = res\<rparr>])"
  by (auto simp: run_file_def verify_path_def split: node.splits sum.splits)

lemma fold_run_file:
  "rs_failed (fold (run_file cx fs pinned tail) paths s) \<longleftrightarrow> rs_failed s \<or>
     (\<exists>path \<in> set paths. \<not> (\<exists>ls res. fs path = RegFile ls \<and> VerifyFile cx ls pinned = Inr res \<and>
        (v_Uncovered res \<le> 0 \<or> tail)))"
  by (induction paths arbitrary: s) (auto simp: run_file_spec(1))

lemma fold_run_arg:
  "rs_failed (fold (run_arg cx fs pinned tail) args s) \<longleftrightarrow> rs_failed s \<or>
     (\<exists>arg \<in> set args. expand fs arg = [] \<or> (\<exists>path \<in> set (expand fs arg).
        \<not> (\<exists>ls res. fs path = RegFile ls \<and> VerifyFile cx ls pinned = Inr res \<and>
           (v_Uncovered res \<le> 0 \<or> tail))))"
proof (induction args arbitrary: s)
  case Nil
  show ?case by simp
next
  case (Cons arg args)
  have "rs_failed (run_arg cx fs pinned tail arg s) \<longleftrightarrow> rs_failed s \<or> expand fs arg = [] \<or>
     (\<exists>path \<in> set (expand fs arg). \<not> (\<exists>ls res. fs path = RegFile ls \<and>
        VerifyFile cx ls pinned = Inr res \<and> (v_Uncovered res \<le> 0 \<or> tail)))"
    by (cases "expand fs arg = []") (simp_all add: run_arg_def fold_run_file)
  with Cons.IH show ?case by simp
qed

section \<open>The seam check as a specification\<close>

lemma group_chains_spec:
  "map_of (group_chains segs m) k =
     (case (map_of m k, filter (\<lambda>s. chain_key (sg_res s) = k) segs) of
        (None, []) \<Rightarrow> None | (None, ss) \<Rightarrow> Some ss | (Some xs, ss) \<Rightarrow> Some (xs @ ss))"
  by (induction segs arbitrary: m) (auto simp: Let_def split: option.splits list.splits)

lemma group_chains_of:
  "map_of (group_chains segs []) k =
     (if \<exists>s \<in> set segs. chain_key (sg_res s) = k
      then Some (filter (\<lambda>s. chain_key (sg_res s) = k) segs) else None)"
  by (auto simp: group_chains_spec filter_empty_conv split: list.splits)

lemma set_insert_name [simp]: "set (insert_name x ys) = insert x (set ys)"
  by (induction ys) auto

lemma set_sort_strings [simp]: "set (sort_strings xs) = set xs"
  by (induction xs) (simp_all add: sort_strings_def)

lemma seamProblems_none:
  "seamProblems segs = [] \<longleftrightarrow>
     (\<forall>s \<in> set segs. chain_problems (filter (\<lambda>t. chain_key (sg_res t) = chain_key (sg_res s)) segs) = [])"
proof -
  have keys: "set (map fst (group_chains segs [])) = (\<lambda>s. chain_key (sg_res s)) ` set segs"
  proof (rule set_eqI)
    fix k
    have "k \<in> set (map fst (group_chains segs [])) \<longleftrightarrow> map_of (group_chains segs []) k \<noteq> None"
      by (metis domIff dom_map_of_conv_image_fst list.set_map)
    also have "\<dots> \<longleftrightarrow> k \<in> (\<lambda>s. chain_key (sg_res s)) ` set segs"
      by (auto simp: group_chains_of)
    finally show "k \<in> set (map fst (group_chains segs [])) \<longleftrightarrow> k \<in> (\<lambda>s. chain_key (sg_res s)) ` set segs" .
  qed
  show ?thesis
    unfolding seamProblems_def Let_def concat_eq_Nil_conv set_map set_sort_strings
    by (simp only: list.set_map [symmetric] keys) (auto simp: group_chains_of)
qed

definition follows :: "seg_ref \<Rightarrow> seg_ref \<Rightarrow> bool" where
  "follows p c \<longleftrightarrow> v_Segment (sg_res c) = v_Segment (sg_res p) + 1 \<and>
     v_ContinuesFrom (sg_res c) = v_HeadHash (sg_res p) \<and>
     v_FirstSeq (sg_res c) = v_LastSeq (sg_res p) + 1"

lemma pair_problems_none: "pair_problems p c = [] \<longleftrightarrow> follows p c"
  by (auto simp: pair_problems_def follows_def Let_def)

lemma adjacent_problems_none: "adjacent_problems segs = [] \<longleftrightarrow> successively follows segs"
  by (induction segs rule: adjacent_problems.induct) (auto simp: pair_problems_none)

lemma pruned_through_bound:
  "pruned_through segs n \<ge> n" "s \<in> set segs \<Longrightarrow> v_PrunedThroughSeq (sg_res s) \<le> pruned_through segs n"
  "pruned_through segs n = n \<or> (\<exists>s \<in> set segs. pruned_through segs n = v_PrunedThroughSeq (sg_res s))"
proof (induction segs arbitrary: n)
  case (Cons t segs)
  {
    case 1
    have "n \<le> (if v_PrunedThroughSeq (sg_res t) > n then v_PrunedThroughSeq (sg_res t) else n)"
      by (simp add: less_imp_le)
    also have "\<dots> \<le> pruned_through segs (if v_PrunedThroughSeq (sg_res t) > n then v_PrunedThroughSeq (sg_res t) else n)"
      by (rule Cons.IH(1))
    finally show ?case by simp
  next
    case 2
    let ?m = "if v_PrunedThroughSeq (sg_res t) > n then v_PrunedThroughSeq (sg_res t) else n"
    have "v_PrunedThroughSeq (sg_res t) \<le> ?m" by (simp add: not_less)
    also have "?m \<le> pruned_through segs ?m" by (rule Cons.IH(1))
    finally show ?case using 2 Cons.IH(2) [of ?m] by auto
  next
    case 3
    show ?case using Cons.IH(3) [of n] Cons.IH(3) [of "v_PrunedThroughSeq (sg_res t)"] by auto
  }
qed simp_all

text \<open>A chain in order of its segment numbers, as the seam check wants it.\<close>

definition chain_good :: "seg_ref list \<Rightarrow> bool" where
  "chain_good segs \<longleftrightarrow>
     (let chain = sort_key (\<lambda>t. v_Segment (sg_res t)) segs; first = sg_res (hd chain) in
      successively follows chain \<and>
      (v_Segment first > 1 \<longrightarrow> v_FirstSeq first = 1 \<or>
         (\<exists>t \<in> set chain. v_PrunedThroughSeq (sg_res t) \<ge> v_FirstSeq first - 1)))"

lemma chain_problems_none:
  assumes "ss \<noteq> []"
  shows "chain_problems ss = [] \<longleftrightarrow> chain_good ss"
proof -
  define c where "c = sort_key (\<lambda>t. v_Segment (sg_res t)) ss"
  have "c \<noteq> []" using assms by (metis c_def set_empty set_sort)
  then obtain s0 cs where c: "c = s0 # cs" by (cases c) auto
  have cov: "pruned_through c 0 < n \<longleftrightarrow> n \<noteq> 0 \<and> (\<forall>t \<in> set c. v_PrunedThroughSeq (sg_res t) < n)" for n
    using pruned_through_bound(2) [of _ c 0] pruned_through_bound(3) [of c 0]
    by (auto simp: word_gt_0 intro: le_less_trans)
  have one: "v_FirstSeq (sg_res s0) - 1 = 0 \<longleftrightarrow> v_FirstSeq (sg_res s0) = 1" by (simp add: diff_eq_eq)
  have "start_problem c = [] \<longleftrightarrow> (v_Segment (sg_res (hd c)) > 1 \<longrightarrow> v_FirstSeq (sg_res (hd c)) = 1 \<or>
      (\<exists>t \<in> set c. v_PrunedThroughSeq (sg_res t) \<ge> v_FirstSeq (sg_res (hd c)) - 1))"
    using cov [of "v_FirstSeq (sg_res s0) - 1"] one
    by (simp add: start_problem_def c Let_def) (meson not_less)
  then show ?thesis
    unfolding chain_problems_def chain_good_def Let_def c_def [symmetric] append_is_Nil_conv
      adjacent_problems_none
    by (simp add: conj_commute)
qed

section \<open>One chain across files\<close>

lemma sort_key_sorted: "sorted (map f xs) \<Longrightarrow> sort_key f xs = xs"
  by (induction xs) (auto simp: insort_is_Cons)

lemma file_anchor:
  assumes v: "VerifyFile cx ls pinned = Inr res"
  shows "ls \<noteq> [] \<and> link cx (v_ContinuesFrom res) (v_LastSeq res - of_nat (length ls)) ls \<and>
     v_HeadHash res = line_hash cx (last ls) \<and>
     (v_ContinuesFrom res \<noteq> '''' \<longrightarrow> v_FirstSeq res = v_LastSeq res - of_nat (length ls) + 1) \<and>
     (v_Segment res \<le> 1 \<longrightarrow> v_ContinuesFrom res = '''' \<and> v_LastSeq res = of_nat (length ls))"
proof (rule VerifyFile_result [OF v])
  fix l0 rest rec
  assume *: "ls = l0 # rest" "unmarshal cx l0 = Some rec"
    "link cx (fst (anchor rec)) (snd (anchor rec)) ls"
    "v_HeadHash res = line_hash cx (last ls)"
    "v_LastSeq res = snd (anchor rec) + of_nat (length ls)"
    "v_FirstSeq res = (if is_header rec then r_Seq rec else 0)"
    "v_Segment res = (if is_header rec then if r_Segment rec = 0 then 1 else r_Segment rec else 0)"
    "v_ContinuesFrom res = fst (anchor rec)"
  have ps: "v_LastSeq res - of_nat (length ls) = snd (anchor rec)" using *(5) by simp
  have "v_FirstSeq res = snd (anchor rec) + 1" if "v_ContinuesFrom res \<noteq> ''''"
    using that *(1-3,6,8) by (auto simp: anchor_def split: if_splits)
  moreover have "anchor rec = ('''', 0)" if "v_Segment res \<le> 1"
    using that *(7) by (auto simp: anchor_def split: if_splits)
  ultimately show ?thesis unfolding ps using *(1,3,4,5,8) by auto
qed

lemma segments_link:
  assumes cx: "codec_ok cx"
    and ver: "\<And>ls s. (ls, s) \<in> set xs \<Longrightarrow> VerifyFile cx ls pinned = Inr (sg_res s)"
    and adj: "successively follows (map snd xs)" and x: "xs = (ls0, s0) # xs'"
  shows "link cx (v_ContinuesFrom (sg_res s0)) (v_LastSeq (sg_res s0) - of_nat (length ls0)) (concat (map fst xs))"
  using ver adj x
proof (induction xs' arbitrary: xs ls0 s0)
  case Nil
  then show ?case using file_anchor [of cx ls0 pinned "sg_res s0"] by simp
next
  case (Cons b xs')
  obtain ls1 s1 where b: "b = (ls1, s1)" by force
  have f: "follows s0 s1" using Cons.prems(2,3) b by simp
  note a0 = file_anchor [OF Cons.prems(1) [of ls0 s0]] and a1 = file_anchor [OF Cons.prems(1) [of ls1 s1]]
  have in0: "(ls0, s0) \<in> set xs" and in1: "(ls1, s1) \<in> set xs" using Cons.prems(3) b by simp_all
  have rest: "link cx (v_ContinuesFrom (sg_res s1)) (v_LastSeq (sg_res s1) - of_nat (length ls1))
      (concat (map fst ((ls1, s1) # xs')))"
    by (rule Cons.IH [OF _ _ refl]) (use Cons.prems b in auto)
  have "v_HeadHash (sg_res s0) \<noteq> ''''" using a0 [OF in0] line_hash_ne [OF cx] by simp
  with f a1 [OF in1] have "v_LastSeq (sg_res s1) - of_nat (length ls1) = v_LastSeq (sg_res s0)"
    by (auto simp: follows_def)
  with rest f a0 [OF in0] have "link cx (line_hash cx (last ls0)) (v_LastSeq (sg_res s0))
      (concat (map fst ((ls1, s1) # xs')))"
    by (simp add: follows_def)
  then show ?case using a0 [OF in0] Cons.prems(3) b by (simp add: link_append)
qed

section \<open>Properties\<close>

text \<open>
   Exit code 2 means the verifier could not run, and nothing else: bad flags, no
  arguments, or a key to pin that could not be read.  No verdict over exports is ever 2.
\<close>

theorem exit_two_exactly:
  "run_verify cx readPubKey fs pf = 2 \<longleftrightarrow> pf = BadFlags \<or>
     (\<exists>f. pf = Flags f \<and> \<not> vf_version f \<and>
        (vf_args f = [] \<or> vf_pubkey f \<noteq> '''' \<and> readPubKey (vf_pubkey f) = None))"
  by (cases pf) (auto simp: run_verify_def Let_def)


text \<open>
   No seam problem means: for every chain the headers name, its segments in order of
  their numbers each continue the one before (next number, its head hash, its next sequence
  number), and a chain that does not begin at segment 1 carries a retention record that
  covers everything before it; and conversely.
\<close>

theorem seam_check_exact:
  "seamProblems segs = [] \<longleftrightarrow>
     (\<forall>s \<in> set segs. chain_good (filter (\<lambda>t. chain_key (sg_res t) = chain_key (sg_res s)) segs))"
proof -
  have "filter (\<lambda>t. chain_key (sg_res t) = chain_key (sg_res s)) segs \<noteq> []" if "s \<in> set segs" for s
    using that by (auto simp: filter_empty_conv)
  then show ?thesis unfolding seamProblems_none using chain_problems_none by blast
qed

text \<open>
  C11.  Evidence across files.  When every segment of a chain verifies and the seam check has
  no complaint, the lines of all the segments, in order of their numbers, are one unbroken
  hash chain; if the first is segment 1 it is a chain from the very beginning.
\<close>

theorem seams_make_one_chain:
  assumes "codec_ok cx" and "seamProblems (map snd xs) = []"
    and "\<And>ls s. (ls, s) \<in> set xs \<Longrightarrow> VerifyFile cx ls pinned = Inr (sg_res s)"
    and "\<And>ls s. (ls, s) \<in> set xs \<Longrightarrow> chain_key (sg_res s) = k"
    and "sorted (map (\<lambda>x. v_Segment (sg_res (snd x))) xs)" and "xs = (ls0, s0) # xs'"
  shows "link cx (v_ContinuesFrom (sg_res s0)) (v_LastSeq (sg_res s0) - of_nat (length ls0)) (concat (map fst xs)) \<and>
     (v_Segment (sg_res s0) \<le> 1 \<longrightarrow> link cx '''' 0 (concat (map fst xs)))"
proof -
  have all: "filter (\<lambda>t. chain_key (sg_res t) = chain_key (sg_res s0)) (map snd xs) = map snd xs"
  proof -
    have "chain_key (sg_res t) = chain_key (sg_res s0)" if t: "t \<in> set (map snd xs)" for t
    proof -
      from t obtain ls where "(ls, t) \<in> set xs" by auto
      with assms(4) have "chain_key (sg_res t) = k" by blast
      moreover have "chain_key (sg_res s0) = k" using assms(4,6) by (metis list.set_intros(1))
      ultimately show ?thesis by simp
    qed
    then show ?thesis by (simp add: filter_id_conv)
  qed
  have sort: "sort_key (\<lambda>t. v_Segment (sg_res t)) (map snd xs) = map snd xs"
    by (rule sort_key_sorted) (use assms(5) in \<open>simp add: comp_def\<close>)
  have "chain_problems (map snd xs) = []"
    using assms(2,6) unfolding seamProblems_none by (metis all in_set_conv_decomp_first list.set_intros(1) list.simps(9) snd_conv)
  then have "successively follows (map snd xs)"
    by (simp add: chain_problems_def sort adjacent_problems_none Let_def)
  then have l: "link cx (v_ContinuesFrom (sg_res s0)) (v_LastSeq (sg_res s0) - of_nat (length ls0)) (concat (map fst xs))"
    using segments_link [OF assms(1) assms(3)] assms(6) by blast
  have "VerifyFile cx ls0 pinned = Inr (sg_res s0)" using assms(3,6) by simp
  from file_anchor [OF this] l show ?thesis by auto
qed

definition forged_header :: ledger_record where
  "forged_header = zero_record\<lparr>r_Kind := KindHeader, r_Seq := 2 ^ 63, r_Segment := 2,
     r_PrevHash := ''f'', r_Tenant := ''t''\<rparr>"

definition forged_retention :: "string \<Rightarrow> ledger_record" where
  "forged_retention h = zero_record\<lparr>r_Kind := KindRetention, r_Seq := 2 ^ 63 + 1, r_PrevHash := h,
     r_PrunedThroughSeq := 2 ^ 63 - 1\<rparr>"

text \<open>
  C40.  An export without a single signature can pass under a pinned key.  \<open>Uncovered\<close> is
  the last sequence number minus the last signed one, read as a signed integer; a
  continuation header may start the numbering at \<open>2^63\<close>, which makes it negative, and an
  unsigned retention record silences the seam check.  The exit code is 0.
\<close>

theorem unsigned_export_passes:
  assumes "codec_ok cx" and "marshal cx forged_header = Some l1"
    and "marshal cx (forged_retention (line_hash cx l1)) = Some l2"
    and "line_len cx l1 < maxLine" and "line_len cx l2 < maxLine"
    and "readPubKey key = Some p" and "key \<noteq> ''''"
  shows "count_kind cx KindBatchSig [l1, l2] = 0 \<and>
     run_verify cx readPubKey (\<lambda>_. RegFile [l1, l2])
       (Flags \<lparr>vf_pubkey = key, vf_allowTail = False, vf_version = False, vf_args = [''x'']\<rparr>) = 0"
proof -
  have u: "unmarshal cx l1 = Some forged_header" "unmarshal cx l2 = Some (forged_retention (line_hash cx l1))"
    using codec_okD(1) [OF assms(1)] assms(2,3) by blast+
  have k: "line_hash cx l1 \<noteq> ''''" by (rule line_hash_ne [OF assms(1)])
  have v: "\<exists>res. VerifyFile cx [l1, l2] (Some p) = Inr res \<and> v_Uncovered res \<le> 0 \<and> v_Segment res = 2 \<and>
      v_FirstSeq res = 2 ^ 63 \<and> v_PrunedThroughSeq res = 2 ^ 63 - 1"
    using assms(4,5)
    by (simp add: VerifyFile_def verify_line_def Let_def u forged_header_def forged_retention_def count_line_def
        vstate_init_def seed_continuation_def check_link_def on_kind_def on_header_def on_retention_def
        advance_def verify_finish_def zero_result_def)
  then obtain res where res: "VerifyFile cx [l1, l2] (Some p) = Inr res" "v_Uncovered res \<le> 0"
    "v_Segment res = 2" "v_FirstSeq res = 2 ^ 63" "v_PrunedThroughSeq res = 2 ^ 63 - 1" by blast
  have "\<not> rs_failed (verify_all cx (\<lambda>_. RegFile [l1, l2]) (Some p) False [''x''])"
    using res by (simp add: verify_all_def run_arg_def expand_def run_file_def verify_path_def
        seamProblems_none chain_problems_def start_problem_def Let_def)
  with assms(6,7) have "run_verify cx readPubKey (\<lambda>_. RegFile [l1, l2])
       (Flags \<lparr>vf_pubkey = key, vf_allowTail = False, vf_version = False, vf_args = [''x'']\<rparr>) = 0"
    by (simp add: run_verify_def Let_def)
  moreover have "count_kind cx KindBatchSig [l1, l2] = 0"
    by (simp add: count_kind_def kind_of_def u forged_header_def forged_retention_def)
  ultimately show ?thesis by blast
qed

section \<open>Witnesses\<close>

definition two_header :: ledger_record where
  "two_header = zero_record\<lparr>r_Kind := KindHeader, r_Seq := 3, r_PubKey := ''K'', r_Kid := ''k'',
     r_Segment := 2, r_PrevHash := line_hash toy one_sig\<rparr>"

lemmas verify_eval = VerifyFile_def verify_line_def Let_def count_line_def vstate_init_def
  seed_continuation_def check_link_def on_kind_def on_header_def on_batchsig_def verifyBatchSig_def
  advance_def verify_finish_def zero_result_def zero_record_def maxLine_def line_hash_def

lemma one_verifies: "\<exists>r. VerifyFile toy [one_header, one_sig] (Some (CHR ''K'')) = Inr r \<and> v_Uncovered r = 0 \<and>
    v_Segment r = 1 \<and> v_LastSeq r = 2 \<and> v_HeadHash r = line_hash toy one_sig \<and> chain_key r = [CHR 0x00, CHR 0x00]"
  by (simp add: verify_eval one_header_def one_sig_def chain_key_def)

lemma two_verifies: "\<exists>r. VerifyFile toy [two_header] (Some (CHR ''K'')) = Inr r \<and>
    v_Segment r = 2 \<and> v_FirstSeq r = 3 \<and> v_ContinuesFrom r = line_hash toy one_sig \<and>
    chain_key r = [CHR 0x00, CHR 0x00]"
  by (simp add: verify_eval two_header_def one_sig_def chain_key_def)

theorem seams_make_one_chain_witness:
  "link toy '''' 0 (concat [[one_header, one_sig], [two_header]])"
proof -
  obtain r1 where r1: "VerifyFile toy [one_header, one_sig] (Some (CHR ''K'')) = Inr r1" "v_Segment r1 = 1"
    "v_LastSeq r1 = 2" "v_HeadHash r1 = line_hash toy one_sig" "chain_key r1 = [CHR 0x00, CHR 0x00]"
    using one_verifies by blast
  obtain r2 where r2: "VerifyFile toy [two_header] (Some (CHR ''K'')) = Inr r2" "v_Segment r2 = 2"
    "v_FirstSeq r2 = 3" "v_ContinuesFrom r2 = line_hash toy one_sig" "chain_key r2 = [CHR 0x00, CHR 0x00]"
    using two_verifies by blast
  let ?s1 = "\<lparr>sg_path = ''a'', sg_res = r1\<rparr>" and ?s2 = "\<lparr>sg_path = ''b'', sg_res = r2\<rparr>"
  have seam: "seamProblems (map snd [([one_header, one_sig], ?s1), ([two_header], ?s2)]) = []"
    using r1 r2 by (simp add: seamProblems_none chain_problems_def start_problem_def pair_problems_def Let_def)
  have "v_Segment (sg_res ?s1) \<le> 1 \<longrightarrow>
      link toy '''' 0 (concat (map fst [([one_header, one_sig], ?s1), ([two_header], ?s2)]))"
    by (rule seams_make_one_chain [OF toy_ok seam, THEN conjunct2]) (use r1 r2 in auto)
  with r1(2) show ?thesis by simp
qed

definition plain_flags :: verify_flags where
  "plain_flags = \<lparr>vf_pubkey = ''key.pem'', vf_allowTail = False, vf_version = False, vf_args = [''x.jsonl'']\<rparr>"


theorem seam_check_exact_witness:
  "seamProblems [\<lparr>sg_path = ''a'', sg_res = zero_result\<lparr>v_Segment := 2, v_FirstSeq := 5\<rparr>\<rparr>] \<noteq> []"
  by (subst seam_check_exact) (simp add: chain_good_def Let_def zero_result_def)

theorem unsigned_export_passes_witness:
  "\<exists>l1 l2. count_kind toy KindBatchSig [l1, l2] = 0 \<and>
     run_verify toy (\<lambda>_. Some (CHR ''K'')) (\<lambda>_. RegFile [l1, l2])
       (Flags \<lparr>vf_pubkey = ''key.pem'', vf_allowTail = False, vf_version = False, vf_args = [''x'']\<rparr>) = 0"
  using unsigned_export_passes [OF toy_ok, of forged_header "forged_retention (line_hash toy forged_header)"
      "\<lambda>_. Some (CHR ''K'')" "''key.pem''" "CHR ''K''"]
  by (intro exI) (simp add: maxLine_def)

end
