(* ===== verification/Tis_Keyring.thy ===== *)
theory Tis_Keyring
  imports Ledger_Writer
begin

text \<open>
  The deployment keyring: \<open>proxy/internal/keyfile/keyfile.go\<close> (\<open>load\<close>, \<open>LoadOrCreate\<close>,
  \<open>Replace\<close>) and \<open>proxy/internal/tis/keyring.go\<close> (\<open>KeyID\<close>, \<open>prevPath\<close>, \<open>loadKeyring\<close>,
  \<open>byKid\<close>, \<open>candidates\<close>, \<open>Rotate\<close>, \<open>JWKS\<close>, \<open>RotateDue\<close>).

  The state directory is a map from paths to key files; a file holds a private key or
  something that is not PEM.  Every I/O call has a number and the environment says which
  ones fail, so a crash after \<open>n\<close> calls is the environment in which all later calls fail:
  the code then performs no further effect on a name it reads.  The temporary file of a
  write is not such a name and is not part of the map.  Two processes that share a state
  directory interleave at the granularity of \<open>loc_probe\<close> and \<open>loc_install\<close>.
\<close>

section \<open>Key files\<close>

datatype 'k keyfile = KeyPem 'k | NotPem

record 'k keyenv =
  ke_disk :: "'k keyfile gomap"
  ke_fault :: "nat \<Rightarrow> bool"
  ke_io :: nat
  ke_now :: gotime

datatype key_error =
    NotExist string
  | NotAKey string
  | IoError nat
  | NoRandom
  | PreviousKey key_error
  | PersistPrevious key_error
  | PersistNew key_error

text \<open>
  What the code uses of the standard cryptography: key generation from the numbered
  randomness, the public half, its PKIX encoding and SHA-256.
\<close>

record ('k, 'p) keylib =
  kl_gen :: "nat \<Rightarrow> 'k option"
  kl_pub :: "'k \<Rightarrow> 'p"
  kl_pkix :: "'p \<Rightarrow> string option"
  kl_sha :: "string \<Rightarrow> string"
  kl_coord :: "'p \<Rightarrow> nat \<times> nat"

definition ke_tick :: "'k keyenv \<Rightarrow> 'k keyenv" where
  "ke_tick e = e\<lparr>ke_io := Suc (ke_io e)\<rparr>"

text \<open>The next \<open>n\<close> I/O calls in sequence, none of which changes what a name holds.\<close>

fun io_calls :: "nat \<Rightarrow> 'k keyenv \<Rightarrow> key_error option \<times> 'k keyenv" where
  "io_calls 0 e = (None, e)"
| "io_calls (Suc n) e =
     (if ke_fault e (ke_io e) then (Some (IoError (ke_io e)), ke_tick e) else io_calls n (ke_tick e))"

definition load :: "string \<Rightarrow> 'k keyenv \<Rightarrow> (key_error + 'k) \<times> 'k keyenv" where
  "load path e =
     (if ke_fault e (ke_io e) then (Inl (IoError (ke_io e)), ke_tick e)
      else case map_of (ke_disk e) path of
        None \<Rightarrow> (Inl (NotExist path), ke_tick e)
      | Some NotPem \<Rightarrow> (Inl (NotAKey path), ke_tick e)
      | Some (KeyPem k) \<Rightarrow> (Inr k, ke_tick e))"

text \<open>
  \<open>LoadOrCreate\<close> up to the point where its own key waits in a temporary file: the file's
  key, an error, or a fresh key to install.  Between the two halves another process may run.
\<close>

datatype 'k probe = Have 'k | Fresh 'k | ProbeErr key_error

definition loc_probe :: "('k, 'p) keylib \<Rightarrow> string \<Rightarrow> 'k keyenv \<Rightarrow> 'k probe \<times> 'k keyenv" where
  "loc_probe lib path e =
     (case load path e of
        (Inr k, e) \<Rightarrow> (Have k, e)
      | (Inl (NotExist p), e) \<Rightarrow>
          (case io_calls 1 e of
             (Some er, e) \<Rightarrow> (ProbeErr er, e)
           | (None, e) \<Rightarrow>
               (case kl_gen lib (ke_io e) of
                  None \<Rightarrow> (ProbeErr NoRandom, e)
                | Some k \<Rightarrow>
                    (case io_calls 3 (ke_tick e) of
                       (Some er, e) \<Rightarrow> (ProbeErr er, e)
                     | (None, e) \<Rightarrow> (Fresh k, e))))
      | (Inl er, e) \<Rightarrow> (ProbeErr er, e))"

text \<open>\<open>os.Link\<close>: it fails when the name exists, and then the file's key is the key.\<close>

definition loc_install :: "string \<Rightarrow> 'k \<Rightarrow> 'k keyenv \<Rightarrow> (key_error + 'k) \<times> 'k keyenv" where
  "loc_install path k e =
     (if ke_fault e (ke_io e) then (Inl (IoError (ke_io e)), ke_tick e)
      else if map_of (ke_disk e) path \<noteq> None then load path (ke_tick e)
      else (Inr k, (ke_tick e)\<lparr>ke_disk := map_put path (KeyPem k) (ke_disk e)\<rparr>))"

definition LoadOrCreate :: "('k, 'p) keylib \<Rightarrow> string \<Rightarrow> 'k keyenv \<Rightarrow> (key_error + 'k) \<times> 'k keyenv" where
  "LoadOrCreate lib path e =
     (case loc_probe lib path e of
        (Have k, e) \<Rightarrow> (Inr k, e)
      | (ProbeErr er, e) \<Rightarrow> (Inl er, e)
      | (Fresh k, e) \<Rightarrow> loc_install path k e)"

text \<open>\<open>Replace\<close>: directory, temporary file, write, sync, close, and the rename that clobbers.\<close>

definition Replace :: "string \<Rightarrow> 'k \<Rightarrow> 'k keyenv \<Rightarrow> key_error option \<times> 'k keyenv" where
  "Replace path k e =
     (case io_calls 5 e of
        (Some er, e) \<Rightarrow> (Some er, e)
      | (None, e) \<Rightarrow>
          (if ke_fault e (ke_io e) then (Some (IoError (ke_io e)), ke_tick e)
           else (None, (ke_tick e)\<lparr>ke_disk := map_put path (KeyPem k) (ke_disk e)\<rparr>)))"

section \<open>The keyring\<close>

definition RotateEvery :: int where "RotateEvery = 24 * 3600 * 1000000000"

record 'k keyring =
  kr_current :: 'k
  kr_previous :: "'k option"
  kr_curKid :: string
  kr_prevKid :: string
  kr_rotated :: gotime

definition KeyID :: "('k, 'p) keylib \<Rightarrow> 'p \<Rightarrow> string" where
  "KeyID lib pub =
     (case kl_pkix lib pub of None \<Rightarrow> '''' | Some der \<Rightarrow> hex (take 8 (kl_sha lib der)))"

text \<open>\<open>filepath.Ext\<close>: from the last dot of the last path element, empty without one.\<close>

definition file_ext :: "string \<Rightarrow> string" where
  "file_ext p =
     (let tail = takeWhile (\<lambda>c. c \<noteq> CHR ''.'' \<and> c \<noteq> CHR ''/'') (rev p);
          rest = drop (length tail) (rev p)
      in case rest of [] \<Rightarrow> '''' | c # _ \<Rightarrow> if c = CHR ''.'' then CHR ''.'' # rev tail else '''')"

definition prevPath :: "string \<Rightarrow> string" where
  "prevPath keyPath =
     (let ext = file_ext keyPath in take (length keyPath - length ext) keyPath @ ''.prev'' @ ext)"

definition loadKeyring :: "('k, 'p) keylib \<Rightarrow> string \<Rightarrow> 'k keyenv
    \<Rightarrow> (key_error + 'k keyring) \<times> 'k keyenv" where
  "loadKeyring lib keyPath e =
     (case LoadOrCreate lib keyPath e of
        (Inl er, e) \<Rightarrow> (Inl er, e)
      | (Inr cur, e) \<Rightarrow>
          let kr = \<lparr>kr_current = cur, kr_previous = None, kr_curKid = KeyID lib (kl_pub lib cur),
                    kr_prevKid = '''', kr_rotated = ke_now e\<rparr>
          in (case load (prevPath keyPath) e of
                (Inr prev, e) \<Rightarrow> (Inr (kr\<lparr>kr_previous := Some prev, kr_prevKid := KeyID lib (kl_pub lib prev)\<rparr>), e)
              | (Inl (NotExist p), e) \<Rightarrow> (Inr kr, e)
              | (Inl er, e) \<Rightarrow> (Inl (PreviousKey er), e)))"

definition byKid :: "('k, 'p) keylib \<Rightarrow> 'k keyring \<Rightarrow> string \<Rightarrow> 'p option" where
  "byKid lib kr kid =
     (if kid = kr_curKid kr then Some (kl_pub lib (kr_current kr))
      else if kid = kr_prevKid kr then map_option (kl_pub lib) (kr_previous kr)
      else None)"

definition candidates :: "('k, 'p) keylib \<Rightarrow> 'k keyring \<Rightarrow> 'p list" where
  "candidates lib kr =
     kl_pub lib (kr_current kr) # (case kr_previous kr of None \<Rightarrow> [] | Some k \<Rightarrow> [kl_pub lib k])"

text \<open>\<open>big.Int.FillBytes\<close> into \<open>w\<close> bytes, and \<open>base64.RawURLEncoding\<close>.\<close>

definition fill_bytes :: "nat \<Rightarrow> nat \<Rightarrow> nat list" where
  "fill_bytes w n = map (\<lambda>i. n div 256 ^ (w - 1 - i) mod 256) [0..<w]"

definition b64_char :: "nat \<Rightarrow> char" where
  "b64_char i = ''ABCDEFGHIJKLMNOPQRSTUVWXYZabcdefghijklmnopqrstuvwxyz0123456789-_'' ! (i mod 64)"

fun b64url :: "nat list \<Rightarrow> string" where
  "b64url (a # b # c # bs) =
     [b64_char (a div 4), b64_char (a * 16 + b div 16), b64_char (b * 4 + c div 64), b64_char c] @ b64url bs"
| "b64url [a, b] = [b64_char (a div 4), b64_char (a * 16 + b div 16), b64_char (b * 4)]"
| "b64url [a] = [b64_char (a div 4), b64_char (a * 16)]"
| "b64url [] = []"

record jwk =
  jwk_kty :: string
  jwk_crv :: string
  jwk_x :: string
  jwk_y :: string
  jwk_kid :: string
  jwk_use :: string
  jwk_alg :: string

definition jwkOf :: "('k, 'p) keylib \<Rightarrow> 'p \<Rightarrow> string \<Rightarrow> jwk" where
  "jwkOf lib pub kid =
     \<lparr>jwk_kty = ''EC'', jwk_crv = ''P-256'', jwk_x = b64url (fill_bytes 32 (fst (kl_coord lib pub))),
      jwk_y = b64url (fill_bytes 32 (snd (kl_coord lib pub))),
      jwk_kid = kid, jwk_use = ''sig'', jwk_alg = ''ES256''\<rparr>"


section \<open>The service and its rotation\<close>

text \<open>
  The struct \<open>TIS\<close>, with the environment of its process.  \<open>t_replay\<close> maps a \<open>jti\<close> to its
  expiry in seconds.
\<close>

record 'k tis =
  t_aud :: string
  t_keyPath :: string
  t_keyGen :: u64
  t_ring :: "'k keyring"
  t_replay :: "int gomap"
  t_sinceSweep :: nat
  t_env :: "'k keyenv"

definition with_env :: "'k tis \<Rightarrow> 'k keyenv \<Rightarrow> 'k tis" where
  "with_env t e = t\<lparr>t_env := e\<rparr>"

text \<open>What \<open>Rotate\<close> does to the disk: the current key to \<open>.prev\<close>, then the new key into place.\<close>

definition persist_rotation :: "string \<Rightarrow> 'k \<Rightarrow> 'k \<Rightarrow> 'k keyenv \<Rightarrow> key_error option \<times> 'k keyenv" where
  "persist_rotation keyPath cur new e =
     (if keyPath = '''' then (None, e)
      else case Replace (prevPath keyPath) cur e of
        (Some er, e) \<Rightarrow> (Some (PersistPrevious er), e)
      | (None, e) \<Rightarrow>
          (case Replace keyPath new e of
             (Some er, e) \<Rightarrow> (Some (PersistNew er), e)
           | (None, e) \<Rightarrow> (None, e)))"

definition Rotate :: "('k, 'p) keylib \<Rightarrow> 'k tis \<Rightarrow> key_error option \<times> 'k tis" where
  "Rotate lib t =
     (case kl_gen lib (ke_io (t_env t)) of
        None \<Rightarrow> (Some NoRandom, t)
      | Some new \<Rightarrow>
          (case persist_rotation (t_keyPath t) (kr_current (t_ring t)) new (ke_tick (t_env t)) of
             (Some er, e) \<Rightarrow> (Some er, with_env t e)
           | (None, e) \<Rightarrow>
               let kr = t_ring t
               in (None, (with_env t e)\<lparr>t_ring := \<lparr>kr_current = new, kr_previous = Some (kr_current kr),
                                         kr_curKid = KeyID lib (kl_pub lib new), kr_prevKid = kr_curKid kr,
                                         kr_rotated = ke_now e\<rparr>,
                                       t_keyGen := t_keyGen t + 1\<rparr>)))"

definition KeyGen :: "'k tis \<Rightarrow> u64" where "KeyGen t = t_keyGen t"

definition JWKS :: "('k, 'p) keylib \<Rightarrow> 'k tis \<Rightarrow> jwk list" where
  "JWKS lib t =
     jwkOf lib (kl_pub lib (kr_current (t_ring t))) (kr_curKid (t_ring t)) #
     (case kr_previous (t_ring t) of
        None \<Rightarrow> []
      | Some k \<Rightarrow> [jwkOf lib (kl_pub lib k) (kr_prevKid (t_ring t))])"

definition RotateDue :: "gotime \<Rightarrow> 'k tis \<Rightarrow> bool" where
  "RotateDue now t \<longleftrightarrow> now - kr_rotated (t_ring t) \<ge> RotateEvery"

definition CurrentKid :: "'k tis \<Rightarrow> string" where "CurrentKid t = kr_curKid (t_ring t)"

section \<open>Calls and their effects\<close>

lemma ke_tick_simps [simp]:
  "ke_disk (ke_tick e) = ke_disk e" "ke_fault (ke_tick e) = ke_fault e" "ke_now (ke_tick e) = ke_now e"
  "ke_io (ke_tick e) = Suc (ke_io e)"
  by (simp_all add: ke_tick_def)

lemma io_calls_frame:
  "io_calls n e = (r, e') \<Longrightarrow> ke_disk e' = ke_disk e \<and> ke_fault e' = ke_fault e \<and> ke_now e' = ke_now e"
  by (induction n arbitrary: e) (auto split: if_splits)

lemma load_frame:
  "load path e = (r, e') \<Longrightarrow> ke_disk e' = ke_disk e \<and> ke_fault e' = ke_fault e \<and> ke_now e' = ke_now e"
  by (auto simp: load_def split: if_splits option.splits keyfile.splits)

lemma load_Inr: "load path e = (Inr k, e') \<Longrightarrow> map_of (ke_disk e) path = Some (KeyPem k)"
  by (auto simp: load_def split: if_splits option.splits keyfile.splits)

lemma probe_frame:
  "loc_probe lib path e = (r, e') \<Longrightarrow> ke_disk e' = ke_disk e \<and> ke_fault e' = ke_fault e \<and> ke_now e' = ke_now e"
  by (auto simp: loc_probe_def split: prod.splits sum.splits key_error.splits option.splits if_splits
      dest!: load_frame io_calls_frame)

lemma probe_Have: "loc_probe lib path e = (Have k, e') \<Longrightarrow> map_of (ke_disk e) path = Some (KeyPem k)"
  by (auto simp: loc_probe_def split: prod.splits sum.splits key_error.splits option.splits if_splits
      dest!: load_Inr)

lemma install_cases:
  assumes "loc_install path k e = (r, e')"
  shows "(\<exists>er. r = Inl er \<and> ke_disk e' = ke_disk e) \<or>
     (\<exists>k'. r = Inr k' \<and> map_of (ke_disk e) path = Some (KeyPem k') \<and> ke_disk e' = ke_disk e) \<or>
     (r = Inr k \<and> map_of (ke_disk e) path = None \<and> ke_disk e' = map_put path (KeyPem k) (ke_disk e))"
  using assms by (auto simp: loc_install_def load_def split: if_splits option.splits keyfile.splits)

lemma Replace_cases:
  assumes "Replace path k e = (r, e')"
  shows "(\<exists>er. r = Some er \<and> ke_disk e' = ke_disk e) \<or> (r = None \<and> ke_disk e' = map_put path (KeyPem k) (ke_disk e))"
  using assms by (auto simp: Replace_def split: prod.splits option.splits if_splits dest!: io_calls_frame)

lemma prevPath_ne: "prevPath p \<noteq> p"
proof
  assume "prevPath p = p"
  then have "length (prevPath p) = length p" by simp
  moreover have "length (file_ext p) \<le> length p"
  proof -
    let ?tl = "takeWhile (\<lambda>c. c \<noteq> CHR ''.'' \<and> c \<noteq> CHR ''/'') (rev p)"
    have "length ?tl \<le> length p" using length_takeWhile_le [of _ "rev p"] by simp
    moreover have "length ?tl < length p" if "drop (length ?tl) (rev p) = c # r" for c r
      using that by (metis drop_eq_Nil length_rev list.distinct(1) not_le)
    ultimately show ?thesis by (auto simp: file_ext_def Let_def Suc_le_eq split: list.splits)
  qed
  ultimately show False by (simp add: prevPath_def Let_def)
qed


section \<open>Racing processes\<close>

text \<open>
  Any number of processes run \<open>LoadOrCreate\<close> on one path.  Each has its own randomness,
  faults and clock; they share the disk, and their two halves interleave freely.
\<close>

datatype 'k pc = Starting | Holding 'k | Returned "key_error + 'k"

definition of_probe :: "'k probe \<Rightarrow> 'k pc" where
  "of_probe r = (case r of Have k \<Rightarrow> Returned (Inr k) | Fresh k \<Rightarrow> Holding k | ProbeErr er \<Rightarrow> Returned (Inl er))"

inductive loc_step :: "('k, 'p) keylib \<Rightarrow> string \<Rightarrow> 'k keyfile gomap \<times> (nat \<Rightarrow> 'k pc)
    \<Rightarrow> 'k keyfile gomap \<times> (nat \<Rightarrow> 'k pc) \<Rightarrow> bool" for lib path where
  Probe: "pcs i = Starting \<Longrightarrow> ke_disk e = d \<Longrightarrow> loc_probe lib path e = (r, e') \<Longrightarrow>
    loc_step lib path (d, pcs) (ke_disk e', pcs(i := of_probe r))"
| Install: "pcs i = Holding k \<Longrightarrow> ke_disk e = d \<Longrightarrow> loc_install path k e = (r, e') \<Longrightarrow>
    loc_step lib path (d, pcs) (ke_disk e', pcs(i := Returned r))"

definition settled :: "string \<Rightarrow> 'k keyfile gomap \<times> (nat \<Rightarrow> 'k pc) \<Rightarrow> bool" where
  "settled path s \<longleftrightarrow> (\<forall>i k. snd s i = Returned (Inr k) \<longrightarrow> map_of (fst s) path = Some (KeyPem k))"

lemma settled_step:
  assumes "loc_step lib path s s'" and "settled path s"
  shows "settled path s'"
  using assms(1)
proof cases
  case (Probe pcs i e d r e')
  from probe_frame [OF Probe(5)] Probe(4) have d: "ke_disk e' = d" by simp
  have "map_of d path = Some (KeyPem k)" if "of_probe r = Returned (Inr k)" for k
    using that probe_Have [of lib path e k e'] Probe(4,5) by (cases r) (auto simp: of_probe_def)
  with assms(2) Probe(1,2) d show ?thesis by (auto simp: settled_def)
next
  case (Install pcs i k e d r e')
  from install_cases [OF Install(5)] Install(4) assms(2) Install(1,2) show ?thesis
    by (auto simp: settled_def)
qed

lemma settled_reach: "(loc_step lib path)\<^sup>*\<^sup>* s s' \<Longrightarrow> settled path s \<Longrightarrow> settled path s'"
  by (induction rule: rtranclp_induct) (auto intro: settled_step)

section \<open>Properties\<close>

text \<open>
  C29.  Racing processes converge on one key.  However the two halves of \<open>LoadOrCreate\<close>
  interleave between processes sharing a state directory, every process that returns a key
  returns the one in the file.
\<close>

theorem load_or_create_converges:
  assumes "(loc_step lib path)\<^sup>*\<^sup>* (d, \<lambda>_. Starting) (d', pcs)"
    and "pcs i = Returned (Inr k)" and "pcs j = Returned (Inr k')"
  shows "k = k' \<and> map_of d' path = Some (KeyPem k)"
proof -
  have "settled path (d', pcs)" by (rule settled_reach [OF assms(1)]) (simp add: settled_def)
  then have "pcs i = Returned (Inr k) \<Longrightarrow> map_of d' path = Some (KeyPem k)" for i k
    by (simp add: settled_def)
  from this [OF assms(2)] this [OF assms(3)] show ?thesis by simp
qed

lemma loadKeyring_quiet:
  assumes "\<And>n. \<not> ke_fault e n" and "map_of (ke_disk e) path = Some (KeyPem cur)"
    and "map_of (ke_disk e) (prevPath path) \<noteq> Some NotPem"
  shows "\<exists>kr e'. loadKeyring lib path e = (Inr kr, e') \<and> kr_current kr = cur \<and>
     kr_previous kr = (case map_of (ke_disk e) (prevPath path) of Some (KeyPem k) \<Rightarrow> Some k | _ \<Rightarrow> None)"
  using assms by (auto simp: loadKeyring_def LoadOrCreate_def loc_probe_def load_def Let_def
      split: option.splits keyfile.splits)

lemma persist_cases:
  assumes "persist_rotation path cur new e = (r, e')" and "path \<noteq> ''''"
  shows "r \<noteq> None \<and> (ke_disk e' = ke_disk e \<or> ke_disk e' = map_put (prevPath path) (KeyPem cur) (ke_disk e)) \<or>
    r = None \<and> ke_disk e' = map_put path (KeyPem new) (map_put (prevPath path) (KeyPem cur) (ke_disk e))"
  using assms by (auto simp: persist_rotation_def split: prod.splits option.splits dest!: Replace_cases)

text \<open>
  C29.  A rotation may stop anywhere.  Whatever subset of its I/O calls fails, and so at
  whatever call the process dies, a restart on the disk it leaves finds a keyring that
  still verifies with the key the process was signing with; a rotation that reports an
  error has not touched the keyring in memory, and one that reports none is found again.
\<close>

theorem rotate_crash_safe:
  assumes "t_keyPath t \<noteq> ''''" and "map_of (ke_disk (t_env t)) (t_keyPath t) = Some (KeyPem (kr_current (t_ring t)))"
    and "map_of (ke_disk (t_env t)) (prevPath (t_keyPath t)) \<noteq> Some NotPem"
    and "Rotate lib t = (r, t')" and "ke_disk e = ke_disk (t_env t')" and "\<And>n. \<not> ke_fault e n"
  shows "\<exists>kr. fst (loadKeyring lib (t_keyPath t) e) = Inr kr \<and>
     kl_pub lib (kr_current (t_ring t)) \<in> set (candidates lib kr) \<and>
     (r \<noteq> None \<longrightarrow> t_ring t' = t_ring t \<and> t_keyGen t' = t_keyGen t) \<and>
     (r = None \<longrightarrow> kr_current kr = kr_current (t_ring t') \<and> kr_previous kr = Some (kr_current (t_ring t)))"
proof (cases "kl_gen lib (ke_io (t_env t))")
  case None
  with assms(4) have "r = Some NoRandom" "t' = t" by (auto simp: Rotate_def)
  with loadKeyring_quiet [of e "t_keyPath t" "kr_current (t_ring t)" lib] assms(2,3,5,6)
  show ?thesis by (auto simp: candidates_def)
next
  case (Some new)
  obtain r1 e1 where p: "persist_rotation (t_keyPath t) (kr_current (t_ring t)) new (ke_tick (t_env t)) = (r1, e1)"
    by fastforce
  have t': "r = r1" "ke_disk (t_env t') = ke_disk e1"
    "r \<noteq> None \<Longrightarrow> t_ring t' = t_ring t \<and> t_keyGen t' = t_keyGen t"
    "r = None \<Longrightarrow> kr_current (t_ring t') = new"
    using assms(4) Some p by (auto simp: Rotate_def with_env_def Let_def split: option.splits)
  from persist_cases [OF p assms(1)] show ?thesis
    using loadKeyring_quiet [of e "t_keyPath t" _ lib] t' assms(2,3,5,6) prevPath_ne [of "t_keyPath t"]
    by (auto simp: candidates_def split: option.splits)
qed


section \<open>Published coordinates\<close>

lemma b64_char_inj: "m < 64 \<Longrightarrow> n < 64 \<Longrightarrow> b64_char m = b64_char n \<Longrightarrow> m = n"
proof -
  let ?a = "''ABCDEFGHIJKLMNOPQRSTUVWXYZabcdefghijklmnopqrstuvwxyz0123456789-_''"
  have "distinct ?a" "length ?a = 64" by simp_all
  then show "m < 64 \<Longrightarrow> n < 64 \<Longrightarrow> b64_char m = b64_char n \<Longrightarrow> m = n"
    unfolding b64_char_def by (metis mod_less nth_eq_iff_index_eq)
qed

lemma b64_char_eq: "b64_char m = b64_char n \<Longrightarrow> m mod 64 = n mod 64"
  by (rule b64_char_inj) (simp_all add: b64_char_def)


lemma length_b64url: "length (b64url bs) = (4 * length bs + 2) div 3"
  by (induction bs rule: b64url.induct) auto

lemma pack2: "r < 16 \<Longrightarrow> (a * 16 + r) mod 64 = a mod 4 * 16 + (r :: nat)"
  using mod_mult2_eq [of "a * 16 + r" 16 4] by simp

lemma pack4: "r < 4 \<Longrightarrow> (b * 4 + r) mod 64 = b mod 16 * 4 + (r :: nat)"
  using mod_mult2_eq [of "b * 4 + r" 4 16] by simp

lemma pack2_inj:
  assumes "a < 256" "a' < 256" "r < 16" "r' < (16 :: nat)"
    and "a div 4 mod 64 = a' div 4 mod 64" "(a * 16 + r) mod 64 = (a' * 16 + r') mod 64"
  shows "a = a' \<and> r = r'"
proof -
  have "a mod 4 * 16 + r = a' mod 4 * 16 + r'" using assms(3,4,6) by (simp add: pack2)
  then have "(a mod 4 * 16 + r) mod 16 = (a' mod 4 * 16 + r') mod 16"
    "(a mod 4 * 16 + r) div 16 = (a' mod 4 * 16 + r') div 16" by simp_all
  with assms(3,4) have "r = r'" "a mod 4 = a' mod 4" by simp_all
  moreover have "a div 4 = a' div 4" using assms(1,2,5) by simp
  ultimately show ?thesis by (metis mod_div_decomp)
qed

lemma pack4_inj:
  assumes "b div 16 = b' div 16" "r < 4" "r' < (4 :: nat)" "(b * 4 + r) mod 64 = (b' * 4 + r') mod 64"
  shows "b = b' \<and> r = r'"
proof -
  have "b mod 16 * 4 + r = b' mod 16 * 4 + r'" using assms(2-4) by (simp add: pack4)
  then have "(b mod 16 * 4 + r) mod 4 = (b' mod 16 * 4 + r') mod 4"
    "(b mod 16 * 4 + r) div 4 = (b' mod 16 * 4 + r') div 4" by simp_all
  with assms(2,3) have "r = r'" "b mod 16 = b' mod 16" by simp_all
  with assms(1) show ?thesis by (metis mod_div_decomp)
qed

lemma b64url_inj:
  "length xs = length ys \<Longrightarrow> set xs \<subseteq> {..<256} \<Longrightarrow> set ys \<subseteq> {..<256} \<Longrightarrow> b64url xs = b64url ys \<Longrightarrow> xs = ys"
proof (induction xs arbitrary: ys rule: b64url.induct)
  case (1 a b c bs)
  then obtain a' b' c' bs' where ys: "ys = a' # b' # c' # bs'"
    by (cases ys rule: b64url.cases) auto
  have e: "b64url bs = b64url bs'" "a div 4 mod 64 = a' div 4 mod 64"
    "(a * 16 + b div 16) mod 64 = (a' * 16 + b' div 16) mod 64"
    "(b * 4 + c div 64) mod 64 = (b' * 4 + c' div 64) mod 64" "c mod 64 = c' mod 64"
    using 1(5) ys by (auto dest!: b64_char_eq)
  have l: "a < 256" "b < 256" "c < 256" "a' < 256" "b' < 256" "c' < 256" using 1(3,4) ys by auto
  have ab: "a = a' \<and> b div 16 = b' div 16" using pack2_inj [OF l(1,4) _ _ e(2,3)] l by simp
  then have bc: "b = b' \<and> c div 64 = c' div 64" using pack4_inj [OF _ _ _ e(4)] l by simp
  with e(5) have "c = c'" by (metis mod_div_decomp)
  with 1 ys e(1) ab bc show ?case by simp
next
  case (2 a b)
  then obtain a' b' where ys: "ys = [a', b']" by (cases ys rule: b64url.cases) auto
  have e: "a div 4 mod 64 = a' div 4 mod 64" "(a * 16 + b div 16) mod 64 = (a' * 16 + b' div 16) mod 64"
    "b * 4 mod 64 = b' * 4 mod 64"
    using 2(4) ys by (auto dest!: b64_char_eq)
  have l: "a < 256" "b < 256" "a' < 256" "b' < 256" using 2(2,3) ys by auto
  have ab: "a = a' \<and> b div 16 = b' div 16" using pack2_inj [OF l(1,3) _ _ e(1,2)] l by simp
  then have "b = b'" using pack4_inj [of b b' 0 0] e(3) by simp
  with ab ys show ?case by simp
next
  case (3 a)
  then obtain a' where ys: "ys = [a']" by (cases ys rule: b64url.cases) auto
  have e: "a div 4 mod 64 = a' div 4 mod 64" "a * 16 mod 64 = a' * 16 mod 64"
    using 3(4) ys by (auto dest!: b64_char_eq)
  have l: "a < 256" "a' < 256" using 3(2,3) ys by auto
  have "a = a'" using pack2_inj [OF l, of 0 0] e by simp
  with ys show ?case by simp
next
  case 4
  then show ?case by simp
qed

lemma fill_bytes_inj: "m < 256 ^ w \<Longrightarrow> n < 256 ^ w \<Longrightarrow> fill_bytes w m = fill_bytes w n \<Longrightarrow> m = n"
proof (induction w arbitrary: m n)
  case 0
  then show ?case by simp
next
  case (Suc w)
  have step: "fill_bytes (Suc w) k = fill_bytes w (k div 256) @ [k mod 256]" for k
  proof -
    have "k div 256 ^ (w - i) mod 256 = k div 256 div 256 ^ (w - 1 - i) mod 256" if "i < w" for i
    proof -
      have "(256 :: nat) ^ (w - i) = 256 * 256 ^ (w - 1 - i)"
        using that by (metis Suc_diff_Suc diff_Suc_eq_diff_pred power_Suc)
      then show ?thesis by (simp add: div_mult2_eq)
    qed
    then show ?thesis by (simp add: fill_bytes_def)
  qed
  have "m div 256 < 256 ^ w" "n div 256 < 256 ^ w"
    using Suc.prems(1,2) by (simp_all add: less_mult_imp_div_less)
  with Suc step have "m div 256 = n div 256" "m mod 256 = n mod 256" by auto
  then show ?case by (metis mod_div_decomp)
qed

text \<open>
   A published key is complete.  Each coordinate of a JWK is 43 characters whatever its
  leading bytes, and the coordinates determine the key's point.
\<close>

theorem jwk_fixed_width:
  assumes "fst (kl_coord lib p) < 256 ^ 32" and "snd (kl_coord lib p) < 256 ^ 32"
    and "fst (kl_coord lib q) < 256 ^ 32" and "snd (kl_coord lib q) < 256 ^ 32"
  shows "length (jwk_x (jwkOf lib p kid)) = 43 \<and> length (jwk_y (jwkOf lib p kid)) = 43 \<and>
     (jwk_x (jwkOf lib p kid) = jwk_x (jwkOf lib q kid') \<and> jwk_y (jwkOf lib p kid) = jwk_y (jwkOf lib q kid')
        \<longrightarrow> kl_coord lib p = kl_coord lib q)"
proof -
  have len: "length (fill_bytes 32 n) = 32" "set (fill_bytes 32 n) \<subseteq> {..<256}" for n
    by (auto simp: fill_bytes_def)
  have inj: "b64url (fill_bytes 32 m) = b64url (fill_bytes 32 n) \<Longrightarrow> m < 256 ^ 32 \<Longrightarrow> n < 256 ^ 32 \<Longrightarrow> m = n" for m n
    using b64url_inj [of "fill_bytes 32 m" "fill_bytes 32 n"] len fill_bytes_inj [of m 32 n] by simp
  from assms show ?thesis
    by (auto simp: jwkOf_def length_b64url len intro!: prod_eqI dest!: inj)
qed


section \<open>Witnesses\<close>

text \<open>Keys are the numbers of the randomness they were drawn with.\<close>

definition toy_keys :: "(nat, nat) keylib" where
  "toy_keys = \<lparr>kl_gen = Some, kl_pub = (\<lambda>k. k), kl_pkix = (\<lambda>p. Some (itoa p)), kl_sha = (\<lambda>s. s),
     kl_coord = (\<lambda>p. (p, p + 1))\<rparr>"

definition toy_kenv :: "nat keyfile gomap \<Rightarrow> (nat \<Rightarrow> bool) \<Rightarrow> nat keyenv" where
  "toy_kenv d fault = \<lparr>ke_disk = d, ke_fault = fault, ke_io = 7, ke_now = 0\<rparr>"

definition toy_ring :: "nat keyring" where
  "toy_ring = \<lparr>kr_current = 3, kr_previous = None, kr_curKid = ''33'', kr_prevKid = '''', kr_rotated = 0\<rparr>"

definition toy_tis :: "(nat \<Rightarrow> bool) \<Rightarrow> nat tis" where
  "toy_tis fault = \<lparr>t_aud = ''d#1'', t_keyPath = ''k.pem'', t_keyGen = 0, t_ring = toy_ring, t_replay = [],
     t_sinceSweep = 0, t_env = toy_kenv [(''k.pem'', KeyPem 3)] fault\<rparr>"

text \<open>The process dies between the two renames.\<close>

theorem rotate_crash_safe_witness:
  "\<exists>kr. fst (loadKeyring toy_keys ''k.pem'' ((t_env (snd (Rotate toy_keys (toy_tis (\<lambda>n. n \<ge> 14)))))\<lparr>ke_fault := \<lambda>_. False\<rparr>)) = Inr kr \<and>
     3 \<in> set (candidates toy_keys kr) \<and>
     map_of (ke_disk (t_env (snd (Rotate toy_keys (toy_tis (\<lambda>n. n \<ge> 14)))))) (prevPath ''k.pem'') = Some (KeyPem 3) \<and>
     map_of (ke_disk (t_env (snd (Rotate toy_keys (toy_tis (\<lambda>n. n \<ge> 14)))))) ''k.pem'' = Some (KeyPem 3)"
proof -
  let ?t = "toy_tis (\<lambda>n. n \<ge> 14)"
  obtain r t' where r: "Rotate toy_keys ?t = (r, t')" by fastforce
  have d: "ke_disk (t_env t') = [(''k.pem'', KeyPem 3), (''k.prev.pem'', KeyPem 3)]"
    using r by (auto simp: Rotate_def toy_tis_def toy_keys_def toy_kenv_def toy_ring_def persist_rotation_def
        Replace_def numeral_eq_Suc ke_tick_def prevPath_def file_ext_def with_env_def Let_def)
  have "\<exists>kr. fst (loadKeyring toy_keys (t_keyPath ?t) ((t_env t')\<lparr>ke_fault := \<lambda>_. False\<rparr>)) = Inr kr \<and>
      kl_pub toy_keys (kr_current (t_ring ?t)) \<in> set (candidates toy_keys kr)"
    using rotate_crash_safe [OF _ _ _ r, of "(t_env t')\<lparr>ke_fault := \<lambda>_. False\<rparr>"]
    by (auto simp: toy_tis_def toy_kenv_def toy_ring_def prevPath_def file_ext_def Let_def)
  with r d show ?thesis by (auto simp: toy_tis_def toy_ring_def toy_keys_def prevPath_def file_ext_def Let_def)
qed

theorem load_or_create_converges_witness:
  "\<exists>d' pcs. (loc_step toy_keys ''k'')\<^sup>*\<^sup>* ([], \<lambda>_. Starting) (d', pcs) \<and> pcs 0 = Returned (Inr 9) \<and> pcs 1 = Returned (Inr 9) \<and>
     map_of d' ''k'' = Some (KeyPem 9)"
proof -
  let ?e0 = "toy_kenv [] (\<lambda>_. False)" and ?d = "[(''k'', KeyPem 9)]"
  have p: "loc_probe toy_keys ''k'' ?e0 = (Fresh 9, ?e0\<lparr>ke_io := 13\<rparr>)"
    by (simp add: loc_probe_def load_def toy_keys_def toy_kenv_def ke_tick_def numeral_eq_Suc)
  have p': "loc_probe toy_keys ''k'' (?e0\<lparr>ke_io := 8\<rparr>) = (Fresh 10, ?e0\<lparr>ke_io := 14\<rparr>)"
    by (simp add: loc_probe_def load_def toy_keys_def toy_kenv_def ke_tick_def numeral_eq_Suc)
  have i0: "loc_install ''k'' 9 ?e0 = (Inr 9, ?e0\<lparr>ke_io := 8, ke_disk := ?d\<rparr>)"
    by (simp add: loc_install_def toy_kenv_def ke_tick_def)
  have i1: "loc_install ''k'' 10 (toy_kenv ?d (\<lambda>_. False)) = (Inr 9, toy_kenv ?d (\<lambda>_. False)\<lparr>ke_io := 9\<rparr>)"
    by (simp add: loc_install_def load_def toy_kenv_def ke_tick_def)
  let ?p0 = "(\<lambda>_. Starting)(0 := Holding (9::nat))" let ?p1 = "?p0(1 := Holding 10)"
  let ?p2 = "?p1(0 := Returned (Inr 9))" let ?p3 = "?p2(1 := Returned (Inr 9))"
  have s: "loc_step toy_keys ''k'' ([], \<lambda>_. Starting) ([], ?p0)" "loc_step toy_keys ''k'' ([], ?p0) ([], ?p1)"
    "loc_step toy_keys ''k'' ([], ?p1) (?d, ?p2)" "loc_step toy_keys ''k'' (?d, ?p2) (?d, ?p3)"
    using loc_step.Probe [OF _ _ p, of "\<lambda>_. Starting" 0 "[]"] loc_step.Probe [OF _ _ p', of ?p0 1 "[]"]
      loc_step.Install [OF _ _ i0, of ?p1 0 "[]" toy_keys] loc_step.Install [OF _ _ i1, of ?p2 1 ?d toy_keys]
    by (simp_all add: of_probe_def toy_kenv_def)
  have run: "(loc_step toy_keys ''k'')\<^sup>*\<^sup>* ([], \<lambda>_. Starting) (?d, ?p3)"
    using s by (meson converse_rtranclp_into_rtranclp rtranclp.rtrancl_refl)
  have "map_of ?d ''k'' = Some (KeyPem 9)"
    using load_or_create_converges [OF run, of 0 9 1 9] by simp
  with run show ?thesis by (intro exI [of _ ?d] exI [of _ ?p3]) simp
qed

theorem jwk_fixed_width_witness:
  "length (jwk_x (jwkOf toy_keys 1 ''k'')) = 43 \<and>
   \<not> (jwk_x (jwkOf toy_keys 1 ''k'') = jwk_x (jwkOf toy_keys 256 ''k'') \<and> jwk_y (jwkOf toy_keys 1 ''k'') = jwk_y (jwkOf toy_keys 256 ''k''))"
  using jwk_fixed_width [of toy_keys 1 256 "''k''" "''k''"] by (auto simp: toy_keys_def)

end
