(* ===== verification/Tis.thy ===== *)
theory Tis
  imports Tis_Keyring Tis_Scope
begin

text \<open>
  The identity service, \<open>proxy/internal/tis/tis.go\<close> with \<open>sign\<close> of \<open>keyring.go\<close>: minting and
  deriving transaction tokens, per-call assertions, verification with the replay cache.

  The JWT library, ULIDs and the ECDSA signature are the parameter \<open>jwtlib\<close>.  A token's
  payload is the set of JSON members either claims type can write; a claims type reads its
  own members and ignores the rest, as \<open>encoding/json\<close> does.  \<open>jwt.NumericDate\<close> is a whole
  number of seconds; \<open>time.Time\<close> is in nanoseconds.
\<close>

section \<open>Tokens\<close>

record payload =
  p_txn_id :: string
  p_parent_txn :: string
  p_act :: string
  p_scope :: scope
  p_lineage :: "string list"
  p_pol_ver :: string
  p_tool :: string
  p_sub :: string
  p_jti :: string
  p_aud :: "string list"
  p_iat :: "int option"
  p_exp :: "int option"

record ('k, 'p, 'tok) jwtlib =
  jl_keys :: "('k, 'p) keylib"
  jl_sign :: "'k \<Rightarrow> nat \<Rightarrow> string \<Rightarrow> payload \<Rightarrow> 'tok option"
  jl_decode :: "'tok \<Rightarrow> (string \<times> payload) option"
  jl_check :: "'p \<Rightarrow> 'tok \<Rightarrow> bool"
  jl_ulid :: "nat \<Rightarrow> string"
  jl_utf8 :: "string \<Rightarrow> string"

text \<open>\<open>encoding/json\<close> writes a string as UTF-8 text, with what is not UTF-8 replaced.\<close>

definition map_scope :: "(string \<Rightarrow> string) \<Rightarrow> scope \<Rightarrow> scope" where
  "map_scope f s = \<lparr>compartments = map f (compartments s), resource_types = map f (resource_types s),
     actions = map f (actions s), purpose = f (purpose s)\<rparr>"

definition text_of :: "(string \<Rightarrow> string) \<Rightarrow> payload \<Rightarrow> payload" where
  "text_of f p = \<lparr>p_txn_id = f (p_txn_id p), p_parent_txn = f (p_parent_txn p), p_act = f (p_act p),
     p_scope = map_scope f (p_scope p), p_lineage = map f (p_lineage p), p_pol_ver = f (p_pol_ver p),
     p_tool = f (p_tool p), p_sub = f (p_sub p), p_jti = f (p_jti p), p_aud = map f (p_aud p),
     p_iat = p_iat p, p_exp = p_exp p\<rparr>"

definition ascii :: "string \<Rightarrow> bool" where
  "ascii s \<longleftrightarrow> (\<forall>c \<in> set s. of_char c < (128 :: nat))"

text \<open>
  What the service relies on: a signed token decodes to its header and payload text, and
  verifies under the signing key; text replacement is idempotent, leaves ASCII alone and
  never yields it.
\<close>

definition jwt_ok :: "('k, 'p, 'tok) jwtlib \<Rightarrow> bool" where
  "jwt_ok lib \<longleftrightarrow>
     (\<forall>k n kid p t. jl_sign lib k n kid p = Some t \<longrightarrow>
        jl_decode lib t = Some (jl_utf8 lib kid, text_of (jl_utf8 lib) p) \<and>
        jl_check lib (kl_pub (jl_keys lib) k) t) \<and>
     (\<forall>s. jl_utf8 lib (jl_utf8 lib s) = jl_utf8 lib s) \<and>
     (\<forall>s. ascii s \<longrightarrow> jl_utf8 lib s = s) \<and> (\<forall>s. ascii (jl_utf8 lib s) \<longrightarrow> jl_utf8 lib s = s)"

section \<open>Claims\<close>

definition DefaultTxnTTL :: int where "DefaultTxnTTL = 15 * 60 * 1000000000"
definition MaxTxnTTL :: int where "MaxTxnTTL = 4 * 3600 * 1000000000"
definition CallTTL :: int where "CallTTL = 60 * 1000000000"

record registered =
  rc_ID :: string
  rc_Subject :: string
  rc_Audience :: "string list"
  rc_IssuedAt :: "int option"
  rc_ExpiresAt :: "int option"

record txn_claims =
  tc_TxnID :: string
  tc_Act :: string
  tc_Scope :: scope
  tc_Lineage :: "string list"
  tc_PolVer :: string
  tc_Registered :: registered

record call_claims =
  cc_ParentTxn :: string
  cc_Act :: string
  cc_Scope :: scope
  cc_Lineage :: "string list"
  cc_Tool :: string
  cc_Registered :: registered

definition txn_payload :: "txn_claims \<Rightarrow> payload" where
  "txn_payload c = \<lparr>p_txn_id = tc_TxnID c, p_parent_txn = '''', p_act = tc_Act c, p_scope = tc_Scope c,
     p_lineage = tc_Lineage c, p_pol_ver = tc_PolVer c, p_tool = '''', p_sub = rc_Subject (tc_Registered c),
     p_jti = rc_ID (tc_Registered c), p_aud = rc_Audience (tc_Registered c),
     p_iat = rc_IssuedAt (tc_Registered c), p_exp = rc_ExpiresAt (tc_Registered c)\<rparr>"

definition call_payload :: "call_claims \<Rightarrow> payload" where
  "call_payload c = \<lparr>p_txn_id = '''', p_parent_txn = cc_ParentTxn c, p_act = cc_Act c, p_scope = cc_Scope c,
     p_lineage = cc_Lineage c, p_pol_ver = '''', p_tool = cc_Tool c, p_sub = rc_Subject (cc_Registered c),
     p_jti = rc_ID (cc_Registered c), p_aud = rc_Audience (cc_Registered c),
     p_iat = rc_IssuedAt (cc_Registered c), p_exp = rc_ExpiresAt (cc_Registered c)\<rparr>"

definition registered_of :: "payload \<Rightarrow> registered" where
  "registered_of p = \<lparr>rc_ID = p_jti p, rc_Subject = p_sub p, rc_Audience = p_aud p, rc_IssuedAt = p_iat p,
     rc_ExpiresAt = p_exp p\<rparr>"

definition txn_of :: "payload \<Rightarrow> txn_claims" where
  "txn_of p = \<lparr>tc_TxnID = p_txn_id p, tc_Act = p_act p, tc_Scope = p_scope p, tc_Lineage = p_lineage p,
     tc_PolVer = p_pol_ver p, tc_Registered = registered_of p\<rparr>"

definition call_of :: "payload \<Rightarrow> call_claims" where
  "call_of p = \<lparr>cc_ParentTxn = p_parent_txn p, cc_Act = p_act p, cc_Scope = p_scope p, cc_Lineage = p_lineage p,
     cc_Tool = p_tool p, cc_Registered = registered_of p\<rparr>"

section \<open>Operations\<close>

datatype parse_error = Malformed | UnknownKey string | BadSignature | NoExpiry | Expired

datatype tis_error =
    ErrScopeWidens
  | ErrReplay
  | ErrAudience
  | ErrNoAgent
  | SignFailed
  | VerifyParent parse_error
  | VerifyTxnFailed parse_error
  | ParseFailed parse_error
  | NilExpiry

definition t_now :: "'k tis \<Rightarrow> gotime" where "t_now t = ke_now (t_env t)"

definition numeric_date :: "gotime \<Rightarrow> int" where "numeric_date t = t div 1000000000"

definition date_time :: "int \<Rightarrow> gotime" where "date_time s = s * 1000000000"

text \<open>Each use of randomness takes the next number.\<close>

definition draw :: "'k tis \<Rightarrow> 'k tis" where "draw t = with_env t (ke_tick (t_env t))"

definition New :: "('k, 'p, 'tok) jwtlib \<Rightarrow> string \<Rightarrow> string \<Rightarrow> 'k keyenv \<Rightarrow> (key_error + 'k tis) \<times> 'k keyenv" where
  "New lib deployID keyPath e =
     (case loadKeyring (jl_keys lib) keyPath e of
        (Inl er, e) \<Rightarrow> (Inl er, e)
      | (Inr ring, e) \<Rightarrow>
          (Inr \<lparr>t_aud = deployID @ ''#'' @ jl_ulid lib (ke_io e), t_keyPath = keyPath, t_keyGen = 0, t_ring = ring,
                t_replay = [], t_sinceSweep = 0, t_env = ke_tick e\<rparr>, ke_tick e))"

definition Instance :: "'k tis \<Rightarrow> string" where "Instance t = t_aud t"

definition sign :: "('k, 'p, 'tok) jwtlib \<Rightarrow> payload \<Rightarrow> 'k tis \<Rightarrow> (tis_error + 'tok) \<times> 'k tis" where
  "sign lib p t =
     (case jl_sign lib (kr_current (t_ring t)) (ke_io (t_env t)) (kr_curKid (t_ring t)) p of
        None \<Rightarrow> (Inl SignFailed, draw t)
      | Some tok \<Rightarrow> (Inr tok, draw t))"

text \<open>The keys a token is tried against: both without a \<open>kid\<close>, else the one it names.\<close>

definition keys_for :: "('k, 'p, 'tok) jwtlib \<Rightarrow> 'k keyring \<Rightarrow> string \<Rightarrow> 'p list option" where
  "keys_for lib kr kid =
     (if kid = '''' then Some (candidates (jl_keys lib) kr)
      else map_option (\<lambda>p. [p]) (byKid (jl_keys lib) kr kid))"

definition parse :: "('k, 'p, 'tok) jwtlib \<Rightarrow> 'tok \<Rightarrow> 'k tis \<Rightarrow> parse_error + payload" where
  "parse lib tok t =
     (case jl_decode lib tok of
        None \<Rightarrow> Inl Malformed
      | Some (kid, p) \<Rightarrow>
          (case keys_for lib (t_ring t) kid of
             None \<Rightarrow> Inl (UnknownKey kid)
           | Some ks \<Rightarrow>
               if \<not> list_ex (\<lambda>k. jl_check lib k tok) ks then Inl BadSignature
               else case p_exp p of
                 None \<Rightarrow> Inl NoExpiry
               | Some ex \<Rightarrow> if t_now t < date_time ex then Inr p else Inl Expired))"

definition VerifyTxn :: "('k, 'p, 'tok) jwtlib \<Rightarrow> 'tok \<Rightarrow> 'k tis \<Rightarrow> parse_error + txn_claims" where
  "VerifyTxn lib tok t = (case parse lib tok t of Inl er \<Rightarrow> Inl er | Inr p \<Rightarrow> Inr (txn_of p))"

definition clamp_ttl :: "int \<Rightarrow> int" where
  "clamp_ttl ttl = (let ttl = (if ttl \<le> 0 then DefaultTxnTTL else ttl) in if ttl > MaxTxnTTL then MaxTxnTTL else ttl)"

definition mint_claims :: "('k, 'p, 'tok) jwtlib \<Rightarrow> string \<Rightarrow> string \<Rightarrow> scope \<Rightarrow> string \<Rightarrow> int \<Rightarrow> 'k tis \<Rightarrow> txn_claims" where
  "mint_claims lib agent human s polVer ttl t =
     \<lparr>tc_TxnID = jl_ulid lib (ke_io (t_env t)), tc_Act = human, tc_Scope = s, tc_Lineage = [agent], tc_PolVer = polVer,
      tc_Registered = \<lparr>rc_ID = '''', rc_Subject = agent, rc_Audience = [],
        rc_IssuedAt = Some (numeric_date (t_now t)),
        rc_ExpiresAt = Some (numeric_date (t_now t + clamp_ttl ttl))\<rparr>\<rparr>"

definition MintTxn :: "('k, 'p, 'tok) jwtlib \<Rightarrow> string \<Rightarrow> string \<Rightarrow> scope \<Rightarrow> string \<Rightarrow> int \<Rightarrow> 'k tis
    \<Rightarrow> (tis_error + 'tok) \<times> 'k tis" where
  "MintTxn lib agent human s polVer ttl t =
     (if trim_space agent = '''' then (Inl ErrNoAgent, t)
      else sign lib (txn_payload (mint_claims lib agent human s polVer ttl t)) (draw t))"

definition child_claims :: "txn_claims \<Rightarrow> string \<Rightarrow> scope \<Rightarrow> gotime \<Rightarrow> txn_claims" where
  "child_claims parent childAgent childScope now =
     \<lparr>tc_TxnID = tc_TxnID parent, tc_Act = tc_Act parent, tc_Scope = childScope,
      tc_Lineage = tc_Lineage parent @ [childAgent], tc_PolVer = tc_PolVer parent,
      tc_Registered = \<lparr>rc_ID = '''', rc_Subject = childAgent, rc_Audience = [],
        rc_IssuedAt = Some (numeric_date now), rc_ExpiresAt = rc_ExpiresAt (tc_Registered parent)\<rparr>\<rparr>"

definition DeriveChildTxn :: "('k, 'p, 'tok) jwtlib \<Rightarrow> 'tok \<Rightarrow> string \<Rightarrow> scope \<Rightarrow> 'k tis
    \<Rightarrow> (tis_error + 'tok) \<times> 'k tis" where
  "DeriveChildTxn lib parentToken childAgent childScope t =
     (if trim_space childAgent = '''' then (Inl ErrNoAgent, t)
      else case VerifyTxn lib parentToken t of
        Inl er \<Rightarrow> (Inl (VerifyParent er), t)
      | Inr parent \<Rightarrow>
          if \<not> narrows childScope (tc_Scope parent) then (Inl ErrScopeWidens, t)
          else sign lib (txn_payload (child_claims parent childAgent childScope (t_now t))) t)"

definition call_claims_of :: "('k, 'p, 'tok) jwtlib \<Rightarrow> txn_claims \<Rightarrow> int \<Rightarrow> string \<Rightarrow> 'k tis \<Rightarrow> call_claims" where
  "call_claims_of lib txn ex tool t =
     (let limit = t_now t + CallTTL;
          limit = (if date_time ex < limit then date_time ex else limit)
      in \<lparr>cc_ParentTxn = tc_TxnID txn, cc_Act = tc_Act txn, cc_Scope = tc_Scope txn, cc_Lineage = tc_Lineage txn,
          cc_Tool = tool,
          cc_Registered = \<lparr>rc_ID = jl_ulid lib (ke_io (t_env t)), rc_Subject = rc_Subject (tc_Registered txn),
            rc_Audience = [t_aud t], rc_IssuedAt = Some (numeric_date (t_now t)),
            rc_ExpiresAt = Some (numeric_date limit)\<rparr>\<rparr>)"

definition DeriveCall :: "('k, 'p, 'tok) jwtlib \<Rightarrow> 'tok \<Rightarrow> string \<Rightarrow> 'k tis \<Rightarrow> (tis_error + 'tok) \<times> 'k tis" where
  "DeriveCall lib txnToken tool t =
     (case VerifyTxn lib txnToken t of
        Inl er \<Rightarrow> (Inl (VerifyTxnFailed er), t)
      | Inr txn \<Rightarrow>
          (case rc_ExpiresAt (tc_Registered txn) of
             None \<Rightarrow> (Inl NilExpiry, t)
           | Some ex \<Rightarrow> sign lib (call_payload (call_claims_of lib txn ex tool t)) (draw t)))"

text \<open>The half of \<open>VerifyCall\<close> under the lock: the replay cache and its amortized sweep.\<close>

definition sweep :: "gotime \<Rightarrow> int gomap \<Rightarrow> int gomap" where
  "sweep now m = filter (\<lambda>(jti, ex). \<not> date_time ex < now) m"

definition sweepEvery :: nat where "sweepEvery = 1024"

definition claim_jti :: "string \<Rightarrow> int \<Rightarrow> 'k tis \<Rightarrow> bool \<times> 'k tis" where
  "claim_jti jti ex t =
     (if map_of (t_replay t) jti \<noteq> None then (False, t)
      else
        let m = map_put jti ex (t_replay t); n = t_sinceSweep t + 1
        in if n \<ge> sweepEvery then (True, t\<lparr>t_replay := sweep (t_now t) m, t_sinceSweep := 0\<rparr>)
           else (True, t\<lparr>t_replay := m, t_sinceSweep := n\<rparr>))"

definition VerifyCall :: "('k, 'p, 'tok) jwtlib \<Rightarrow> 'tok \<Rightarrow> 'k tis \<Rightarrow> (tis_error + call_claims) \<times> 'k tis" where
  "VerifyCall lib tok t =
     (case parse lib tok t of
        Inl er \<Rightarrow> (Inl (ParseFailed er), t)
      | Inr p \<Rightarrow>
          let c = call_of p
          in if length (rc_Audience (cc_Registered c)) \<noteq> 1 \<or> hd (rc_Audience (cc_Registered c)) \<noteq> t_aud t
             then (Inl ErrAudience, t)
             else case rc_ExpiresAt (cc_Registered c) of
               None \<Rightarrow> (Inl NilExpiry, t)
             | Some ex \<Rightarrow>
                 (case claim_jti (rc_ID (cc_Registered c)) ex t of
                    (False, t) \<Rightarrow> (Inl ErrReplay, t)
                  | (True, t) \<Rightarrow> (Inr c, t)))"


section \<open>What the operations leave alone\<close>

lemma draw_simps [simp]:
  "t_ring (draw t) = t_ring t" "t_now (draw t) = t_now t" "t_replay (draw t) = t_replay t" "t_aud (draw t) = t_aud t"
  "t_sinceSweep (draw t) = t_sinceSweep t" "ke_io (t_env (draw t)) = Suc (ke_io (t_env t))"
  by (simp_all add: draw_def with_env_def t_now_def)

lemma sign_cases:
  assumes "sign lib p t = (r, t')"
  shows "t' = draw t \<and> (r = Inl SignFailed \<or>
    (\<exists>tok. r = Inr tok \<and> jl_sign lib (kr_current (t_ring t)) (ke_io (t_env t)) (kr_curKid (t_ring t)) p = Some tok))"
  using assms by (auto simp: sign_def split: option.splits)

lemma persist_frame:
  "persist_rotation path cur new e = (r, e') \<Longrightarrow> ke_now e' = ke_now e \<and> ke_fault e' = ke_fault e"
  by (auto simp: persist_rotation_def Replace_def split: if_splits prod.splits option.splits dest!: io_calls_frame)

lemma Rotate_frame:
  assumes "Rotate kl t = (r, t')"
  shows "t_now t' = t_now t \<and> t_replay t' = t_replay t \<and> t_aud t' = t_aud t \<and> t_sinceSweep t' = t_sinceSweep t"
  using assms persist_frame
  by (fastforce simp: Rotate_def with_env_def t_now_def Let_def split: option.splits prod.splits)

lemma Rotate_ring:
  assumes "Rotate kl t = (None, t')"
  shows "kr_previous (t_ring t') = Some (kr_current (t_ring t)) \<and> kr_prevKid (t_ring t') = kr_curKid (t_ring t) \<and>
    kr_curKid (t_ring t') = KeyID kl (kl_pub kl (kr_current (t_ring t')))"
  using assms by (auto simp: Rotate_def with_env_def Let_def split: option.splits prod.splits)

section \<open>Parsing\<close>

lemma keys_for_candidates: "keys_for lib kr kid = Some ks \<Longrightarrow> set ks \<subseteq> set (candidates (jl_keys lib) kr)"
  by (auto simp: keys_for_def byKid_def candidates_def split: if_splits option.splits)

lemma parse_Inr:
  "parse lib tok t = Inr p \<longleftrightarrow>
     (\<exists>kid ks ex. jl_decode lib tok = Some (kid, p) \<and> keys_for lib (t_ring t) kid = Some ks \<and>
        (\<exists>k \<in> set ks. jl_check lib k tok) \<and> p_exp p = Some ex \<and> t_now t < date_time ex)"
  by (auto simp: parse_def list_ex_iff split: option.splits prod.splits)

lemma VerifyTxn_Inr:
  "VerifyTxn lib tok t = Inr c \<longleftrightarrow> (\<exists>p. parse lib tok t = Inr p \<and> c = txn_of p)"
  by (auto simp: VerifyTxn_def split: sum.splits)

text \<open>A keyring names its keys by their ids, so that a name is ASCII text.\<close>

definition ring_ok :: "('k, 'p) keylib \<Rightarrow> 'k keyring \<Rightarrow> bool" where
  "ring_ok kl kr \<longleftrightarrow> kr_curKid kr = KeyID kl (kl_pub kl (kr_current kr))"

lemma ascii_hex: "ascii (hex s)"
proof -
  have "of_char (hex_digit n) < (128 :: nat)" if "n < 16" for n
    using that by (simp add: hex_digit_def)
  moreover have "of_char c div 16 < (16 :: nat)" for c :: char
    by (metis of_char_mod_256 mod_less_divisor zero_less_numeral less_mult_imp_div_less mult_numeral_1_right
        numeral_times_numeral Num.mult_num_simps)
  ultimately show ?thesis by (auto simp: ascii_def hex_def)
qed

lemma ascii_KeyID: "ascii (KeyID kl p)"
proof (cases "kl_pkix kl p")
  case None
  then show ?thesis by (simp add: KeyID_def ascii_def)
next
  case (Some der)
  then show ?thesis by (simp add: KeyID_def ascii_hex)
qed

lemma jwt_okD:
  assumes "jwt_ok lib"
  shows "jl_sign lib k n kid p = Some t \<Longrightarrow> jl_decode lib t = Some (jl_utf8 lib kid, text_of (jl_utf8 lib) p)"
    and "jl_sign lib k n kid p = Some t \<Longrightarrow> jl_check lib (kl_pub (jl_keys lib) k) t"
    and "jl_utf8 lib (jl_utf8 lib s) = jl_utf8 lib s" and "ascii s \<Longrightarrow> jl_utf8 lib s = s"
    and "ascii (jl_utf8 lib s) \<Longrightarrow> jl_utf8 lib s = s"
  using assms unfolding jwt_ok_def by blast+

text \<open>What a token signed at \<open>t\<close> decodes to, and where it verifies: any later state whose
  keyring still offers the key under its name.\<close>

lemma signed_parse:
  assumes "jwt_ok lib" and "ring_ok (jl_keys lib) (t_ring t)"
    and "jl_sign lib (kr_current (t_ring t)) n (kr_curKid (t_ring t)) p = Some tok"
    and "keys_for lib (t_ring t2) (kr_curKid (t_ring t)) = Some ks"
    and "kl_pub (jl_keys lib) (kr_current (t_ring t)) \<in> set ks"
    and "p_exp p = Some ex" and "t_now t2 < date_time ex"
  shows "parse lib tok t2 = Inr (text_of (jl_utf8 lib) p)"
proof -
  have "jl_utf8 lib (kr_curKid (t_ring t)) = kr_curKid (t_ring t)"
    using assms(2) by (intro jwt_okD(4) [OF assms(1)]) (simp add: ring_ok_def ascii_KeyID)
  then have "jl_decode lib tok = Some (kr_curKid (t_ring t), text_of (jl_utf8 lib) p)"
    using jwt_okD(1) [OF assms(1,3)] by simp
  then show ?thesis using assms(4-7) jwt_okD(2) [OF assms(1,3)]
    by (auto simp: parse_Inr text_of_def)
qed

lemma keys_for_current:
  "\<exists>ks. keys_for lib (t_ring t) (kr_curKid (t_ring t)) = Some ks \<and> kl_pub (jl_keys lib) (kr_current (t_ring t)) \<in> set ks"
  by (auto simp: keys_for_def candidates_def byKid_def)

lemma keys_for_rotated:
  assumes "Rotate (jl_keys lib) t = (None, t2)" and "kr_curKid (t_ring t2) \<noteq> kr_curKid (t_ring t)"
  shows "\<exists>ks. keys_for lib (t_ring t2) (kr_curKid (t_ring t)) = Some ks \<and>
    kl_pub (jl_keys lib) (kr_current (t_ring t)) \<in> set ks"
  using Rotate_ring [OF assms(1)] assms(2) by (auto simp: keys_for_def candidates_def byKid_def)


section \<open>Minting, rotation and retirement\<close>

lemma MintTxn_signed:
  assumes "MintTxn lib agent human s polVer ttl t = (Inr tok, t')"
  shows "jl_sign lib (kr_current (t_ring t)) (Suc (ke_io (t_env t))) (kr_curKid (t_ring t))
      (txn_payload (mint_claims lib agent human s polVer ttl t)) = Some tok \<and> trim_space agent \<noteq> '''' \<and> t' = draw (draw t)"
  using assms sign_cases [of lib _ "draw t" "Inr tok" t']
  by (auto simp: MintTxn_def split: if_splits)

lemma mint_exp: "p_exp (txn_payload (mint_claims lib agent human s polVer ttl t)) = Some (numeric_date (t_now t + clamp_ttl ttl))"
  by (simp add: txn_payload_def mint_claims_def)

text \<open>
  C28.  A token outlives the key that signed it by one rotation.  What \<open>MintTxn\<close> signs
  verifies, with exactly the claims that were minted, for its whole life: before and after
  a rotation, as long as the two keys have different ids.  Its life is at most four hours.
\<close>

theorem token_survives_rotation:
  assumes "jwt_ok lib" and "ring_ok (jl_keys lib) (t_ring t)"
    and "MintTxn lib agent human s polVer ttl t = (Inr tok, t')"
    and "t_ring t1 = t_ring t" and "Rotate (jl_keys lib) t1 = (None, t2)"
    and "CurrentKid t2 \<noteq> CurrentKid t" and "t_ring t3 = t_ring t \<or> t_ring t3 = t_ring t2"
    and "t_now t3 < date_time (numeric_date (t_now t + clamp_ttl ttl))"
  shows "VerifyTxn lib tok t3 = Inr (txn_of (text_of (jl_utf8 lib) (txn_payload (mint_claims lib agent human s polVer ttl t)))) \<and>
     0 < clamp_ttl ttl \<and> clamp_ttl ttl \<le> MaxTxnTTL"
proof -
  have "\<exists>ks. keys_for lib (t_ring t3) (kr_curKid (t_ring t)) = Some ks \<and>
      kl_pub (jl_keys lib) (kr_current (t_ring t)) \<in> set ks"
    using assms(7)
  proof
    assume "t_ring t3 = t_ring t"
    then show ?thesis using keys_for_current [of lib t] by simp
  next
    assume "t_ring t3 = t_ring t2"
    then show ?thesis using keys_for_rotated [OF assms(5)] assms(4,6) by (simp add: CurrentKid_def)
  qed
  then show ?thesis
    using signed_parse [OF assms(1,2) MintTxn_signed [OF assms(3), THEN conjunct1] _ _ mint_exp assms(8)]
    by (auto simp: VerifyTxn_Inr clamp_ttl_def Let_def MaxTxnTTL_def DefaultTxnTTL_def)
qed

text \<open>
   Two rotations retire a token however much life it has left.  After a second rotation,
  forced through the admin API a moment later, every verification of a token signed before
  the first one fails with an unknown key.
\<close>

theorem two_rotations_retire:
  assumes "jwt_ok lib" and "ring_ok (jl_keys lib) (t_ring t)"
    and "MintTxn lib agent human s polVer ttl t = (Inr tok, t')"
    and "t_ring t1 = t_ring t" and "Rotate (jl_keys lib) t1 = (None, t2)"
    and "t_ring t3 = t_ring t2" and "Rotate (jl_keys lib) t3 = (None, t4)"
    and "CurrentKid t \<notin> {'''', CurrentKid t2, CurrentKid t4}"
  shows "VerifyTxn lib tok t4 = Inl (UnknownKey (CurrentKid t))"
proof -
  let ?kid = "kr_curKid (t_ring t)"
  have "jl_utf8 lib ?kid = ?kid"
    using assms(2) by (intro jwt_okD(4) [OF assms(1)]) (simp add: ring_ok_def ascii_KeyID)
  then have "\<exists>p. jl_decode lib tok = Some (?kid, p)"
    using jwt_okD(1) [OF assms(1) MintTxn_signed [OF assms(3), THEN conjunct1]] by simp
  moreover have "keys_for lib (t_ring t4) ?kid = None"
    using Rotate_ring [OF assms(7)] assms(6,8) by (auto simp: keys_for_def byKid_def CurrentKid_def)
  ultimately show ?thesis by (auto simp: VerifyTxn_def parse_def CurrentKid_def)
qed

section \<open>Derived credentials\<close>

lemma map_scope_narrows:
  assumes "narrows c p" and "map_scope f p = p"
  shows "narrows (map_scope f c) p"
proof -
  have sub: "subset_or_top (map f xs) ys" if "subset_or_top xs ys" and "map f ys = ys" for xs ys
  proof (cases "top_dim ys")
    case False
    with that(1) have x: "star \<notin> set xs" "set xs \<subseteq> set ys" by (simp_all add: subset_or_top_iff)
    moreover have "f y = y" if "y \<in> set ys" for y
      using \<open>map f ys = ys\<close> that by (metis map_eq_conv map_idI list.map_ident)
    ultimately have "map f xs = xs" by (meson map_idI subsetD)
    with x show ?thesis by (simp add: subset_or_top_iff)
  qed (simp add: subset_or_top_iff)
  have p: "map f (compartments p) = compartments p" "map f (resource_types p) = resource_types p"
    "map f (actions p) = actions p" "f (purpose p) = purpose p"
    using assms(2) by (cases p; simp add: map_scope_def)+
  have n: "subset_or_top (compartments c) (compartments p)" "subset_or_top (resource_types c) (resource_types p)"
    "subset_or_top (actions c) (actions p)" "purpose p = star \<or> purpose c = purpose p"
    using assms(1) by (simp_all add: narrows_def)
  have "purpose p = star \<or> f (purpose c) = purpose p" using n(4) p(4) by metis
  with sub [OF n(1) p(1)] sub [OF n(2) p(2)] sub [OF n(3) p(3)] show ?thesis
    by (simp add: narrows_def map_scope_def)
qed

text \<open>
  Runs of the service.  Beside its state they carry the payloads of the root transactions it
  minted and the tokens it handed out.  Whoever calls may present anything, but a token that
  checks under one of the deployment's keys is one the service signed (\<open>genuine\<close>).
\<close>

definition genuine :: "('k, 'p, 'tok) jwtlib \<Rightarrow> 'k tis \<Rightarrow> 'tok set \<Rightarrow> 'tok \<Rightarrow> bool" where
  "genuine lib t issued tok \<longleftrightarrow>
     ((\<exists>k \<in> set (candidates (jl_keys lib) (t_ring t)). jl_check lib k tok) \<longrightarrow> tok \<in> issued)"

inductive service :: "('k, 'p, 'tok) jwtlib \<Rightarrow> 'k tis \<times> payload set \<times> 'tok set
    \<Rightarrow> 'k tis \<times> payload set \<times> 'tok set \<Rightarrow> bool" for lib where
  Mint: "MintTxn lib agent human s polVer ttl t = (Inr tok, t') \<Longrightarrow> jl_decode lib tok = Some (kid, p) \<Longrightarrow>
    service lib (t, R, I) (t', insert p R, insert tok I)"
| Child: "genuine lib t I parent \<Longrightarrow> DeriveChildTxn lib parent agent s t = (Inr tok, t') \<Longrightarrow>
    service lib (t, R, I) (t', R, insert tok I)"
| Call: "genuine lib t I txn \<Longrightarrow> DeriveCall lib txn tool t = (Inr tok, t') \<Longrightarrow>
    service lib (t, R, I) (t', R, insert tok I)"
| Verify: "VerifyCall lib tok t = (r, t') \<Longrightarrow> service lib (t, R, I) (t', R, I)"
| Turn: "Rotate (jl_keys lib) t = (r, t') \<Longrightarrow> service lib (t, R, I) (t', R, I)"
| World: "t_now t \<le> ke_now e \<Longrightarrow> service lib (t, R, I) (with_env t e, R, I)"


definition within :: "payload \<Rightarrow> payload \<Rightarrow> bool" where
  "within p r \<longleftrightarrow> permits (p_scope p) \<subseteq> permits (p_scope r) \<and> p_act p = p_act r \<and>
     (\<exists>hops. p_lineage p = p_lineage r @ hops) \<and>
     (\<forall>ex. p_exp p = Some ex \<longrightarrow> (\<exists>rx. p_exp r = Some rx \<and> ex \<le> rx))"

definition bounded_creds :: "('k, 'p, 'tok) jwtlib \<Rightarrow> payload set \<Rightarrow> 'tok set \<Rightarrow> bool" where
  "bounded_creds lib R I \<longleftrightarrow>
     (\<forall>tok \<in> I. \<exists>kid p. jl_decode lib tok = Some (kid, p) \<and> text_of (jl_utf8 lib) p = p \<and> (\<exists>r \<in> R. within p r))"

lemma text_idem: "jwt_ok lib \<Longrightarrow> text_of (jl_utf8 lib) (text_of (jl_utf8 lib) p) = text_of (jl_utf8 lib) p"
  by (simp add: text_of_def map_scope_def jwt_okD(3))

lemma within_refl [simp]: "within p p"
  by (auto simp: within_def)

lemma parse_bounded:
  assumes "bounded_creds lib R I" and "genuine lib t I tok" and "parse lib tok t = Inr p"
  shows "text_of (jl_utf8 lib) p = p \<and> (\<exists>r \<in> R. within p r)"
proof -
  from assms(3) obtain kid ks where d: "jl_decode lib tok = Some (kid, p)"
    "keys_for lib (t_ring t) kid = Some ks" "\<exists>k \<in> set ks. jl_check lib k tok" by (auto simp: parse_Inr)
  with keys_for_candidates [OF d(2)] assms(2) have "tok \<in> I" by (auto simp: genuine_def)
  with assms(1) d(1) show ?thesis by (force simp: bounded_creds_def)
qed

lemma child_within:
  assumes "jwt_ok lib" and "text_of (jl_utf8 lib) p = p" and "within p r" and "narrows s (p_scope p)"
  shows "within (text_of (jl_utf8 lib) (txn_payload (child_claims (txn_of p) agent s now))) r"
proof -
  have fixed: "map_scope (jl_utf8 lib) (p_scope p) = p_scope p" "map (jl_utf8 lib) (p_lineage p) = p_lineage p"
    "jl_utf8 lib (p_act p) = p_act p"
    using assms(2) by (cases p; simp add: text_of_def)+
  have "permits (map_scope (jl_utf8 lib) s) \<subseteq> permits (p_scope p)"
    by (rule scopes.le_sound [OF map_scope_narrows [OF assms(4) fixed(1)]])
  with assms(3) fixed(2,3) show ?thesis
    by (auto simp: within_def text_of_def txn_payload_def child_claims_def txn_of_def registered_of_def)
qed

lemma call_within:
  assumes "jwt_ok lib" and "text_of (jl_utf8 lib) p = p" and "within p r" and "p_exp p = Some ex"
  shows "within (text_of (jl_utf8 lib) (call_payload (call_claims_of lib (txn_of p) ex tool t))) r"
proof -
  have fixed: "map_scope (jl_utf8 lib) (p_scope p) = p_scope p" "map (jl_utf8 lib) (p_lineage p) = p_lineage p"
    "jl_utf8 lib (p_act p) = p_act p"
    using assms(2) by (cases p; simp add: text_of_def)+
  have "numeric_date (if date_time ex < t_now t + CallTTL then date_time ex else t_now t + CallTTL) \<le> ex"
  proof -
    have "numeric_date (date_time ex) = ex" by (simp add: numeric_date_def date_time_def)
    moreover have "numeric_date a \<le> numeric_date b" if "a \<le> b" for a b
      using that by (simp add: numeric_date_def zdiv_mono1)
    ultimately show ?thesis by (metis linorder_not_less order_refl)
  qed
  with assms(3,4) fixed show ?thesis
    by (force simp: within_def text_of_def call_payload_def call_claims_of_def txn_of_def registered_of_def Let_def)
qed

lemma issued_bounded:
  assumes "jwt_ok lib" and "bounded_creds lib R I" and "jl_sign lib k n kid p = Some tok"
    and "within (text_of (jl_utf8 lib) p) r" and "r \<in> R"
  shows "bounded_creds lib R (insert tok I)"
  using assms(2,4,5) jwt_okD(1) [OF assms(1,3)] text_idem [OF assms(1)] by (auto simp: bounded_creds_def)

lemma bounded_mono: "bounded_creds lib R I \<Longrightarrow> bounded_creds lib (insert p R) I"
  unfolding bounded_creds_def by blast

lemma bounded_step:
  assumes "service lib (t, R, I) (t', R', I')" and "jwt_ok lib" and "bounded_creds lib R I"
  shows "bounded_creds lib R' I'"
  using assms(1)
proof cases
  case (Mint agent human s polVer ttl tok kid p)
  note s = MintTxn_signed [OF Mint(3), THEN conjunct1]
  have "p = text_of (jl_utf8 lib) (txn_payload (mint_claims lib agent human s polVer ttl t))"
    using jwt_okD(1) [OF assms(2) s] Mint(4) by simp
  with issued_bounded [OF assms(2) bounded_mono [OF assms(3), of p] s, of p] show ?thesis
    unfolding Mint(1,2) by simp
next
  case (Child parent agent s tok)
  from Child(4) obtain p where p: "parse lib parent t = Inr p" "narrows s (p_scope p)"
    "sign lib (txn_payload (child_claims (txn_of p) agent s (t_now t))) t = (Inr tok, t')"
    by (auto simp: DeriveChildTxn_def VerifyTxn_def txn_of_def split: if_splits sum.splits)
  from parse_bounded [OF assms(3) Child(3) p(1)] obtain r where r: "text_of (jl_utf8 lib) p = p" "r \<in> R" "within p r" by blast
  from sign_cases [OF p(3)] have s: "jl_sign lib (kr_current (t_ring t)) (ke_io (t_env t)) (kr_curKid (t_ring t))
      (txn_payload (child_claims (txn_of p) agent s (t_now t))) = Some tok" by simp
  show ?thesis
    unfolding Child(1,2) by (rule issued_bounded [OF assms(2,3) s child_within [OF assms(2) r(1,3) p(2)] r(2)])
next
  case (Call txn tool tok)
  from Call(4) obtain p ex where p: "parse lib txn t = Inr p" "p_exp p = Some ex"
    "sign lib (call_payload (call_claims_of lib (txn_of p) ex tool t)) (draw t) = (Inr tok, t')"
    by (auto simp: DeriveCall_def VerifyTxn_def txn_of_def registered_of_def split: option.splits sum.splits)
  from parse_bounded [OF assms(3) Call(3) p(1)] obtain r where r: "text_of (jl_utf8 lib) p = p" "r \<in> R" "within p r" by blast
  from sign_cases [OF p(3)] have s: "jl_sign lib (kr_current (t_ring t)) (Suc (ke_io (t_env t))) (kr_curKid (t_ring t))
      (call_payload (call_claims_of lib (txn_of p) ex tool t)) = Some tok" by simp
  show ?thesis
    unfolding Call(1,2) by (rule issued_bounded [OF assms(2,3) s call_within [OF assms(2) r(1,3) p(2)] r(2)])
qed (use assms(3) in auto)

lemma bounded_run:
  "(service lib)\<^sup>*\<^sup>* s s' \<Longrightarrow> jwt_ok lib \<Longrightarrow> bounded_creds lib (fst (snd s)) (snd (snd s)) \<Longrightarrow>
   bounded_creds lib (fst (snd s')) (snd (snd s'))"
proof (induction rule: rtranclp_induct)
  case (step y z)
  obtain t R I where y: "y = (t, R, I)" by (cases y)
  obtain t' R' I' where z: "z = (t', R', I')" by (cases z)
  have "service lib (t, R, I) (t', R', I')" using step.hyps(2) y z by simp
  from bounded_step [OF this] step show ?case by (simp add: y z)
qed

text \<open>
  C24.  No credential exceeds its root.  After any run of the service, whatever token passes
  the checks of \<open>VerifyTxn\<close> and \<open>VerifyCall\<close> is bounded by one root transaction the service
  minted: it permits no more, acts for the same human, extends the root's lineage, and
  expires no later.
\<close>

theorem no_credential_exceeds_root:
  assumes "jwt_ok lib" and "(service lib)\<^sup>*\<^sup>* (t0, {}, {}) (t, R, I)" and "genuine lib t I tok"
    and "parse lib tok t = Inr p"
  shows "\<exists>r \<in> R. permits (p_scope p) \<subseteq> permits (p_scope r) \<and> p_act p = p_act r \<and>
     (\<exists>hops. p_lineage p = p_lineage r @ hops) \<and>
     (\<exists>ex rx. p_exp p = Some ex \<and> p_exp r = Some rx \<and> ex \<le> rx \<and> t_now t < date_time rx)"
proof -
  have "bounded_creds lib R I" using bounded_run [OF assms(2,1)] by (simp add: bounded_creds_def)
  from parse_bounded [OF this assms(3,4)] obtain r where r: "r \<in> R" "within p r" by blast
  from assms(4) obtain ex where ex: "p_exp p = Some ex" "t_now t < date_time ex" by (auto simp: parse_Inr)
  from r(2) ex obtain rx where "p_exp r = Some rx" "ex \<le> rx" by (auto simp: within_def)
  moreover from this ex have "t_now t < date_time rx" by (simp add: date_time_def)
  ultimately show ?thesis using r ex(1) by (auto simp: within_def intro!: bexI [OF _ r(1)])
qed


section \<open>Single use\<close>

text \<open>An assertion is spent when its id is in the cache for as long as it could pass, or it has expired.\<close>

definition spent :: "string \<Rightarrow> int \<Rightarrow> 'k tis \<Rightarrow> bool" where
  "spent jti ex t \<longleftrightarrow> (\<exists>ex'. map_of (t_replay t) jti = Some ex' \<and> ex \<le> ex') \<or> date_time ex < t_now t"

lemma map_of_sweep: "gomap_ok m \<Longrightarrow> map_of (sweep now m) k = (case map_of m k of None \<Rightarrow> None | Some ex \<Rightarrow> if date_time ex < now then None else Some ex)"
proof (induction m)
  case Nil
  then show ?case by (simp add: sweep_def)
next
  case (Cons a m)
  have "map_of m (fst a) = None" using Cons.prems by (simp add: map_of_eq_None_iff)
  with Cons show ?case by (cases a) (auto simp: sweep_def split: option.splits)
qed

lemma gomap_ok_sweep: "gomap_ok m \<Longrightarrow> gomap_ok (sweep now m)"
  by (simp add: sweep_def distinct_map_filter)

lemma claim_jti_frame:
  "claim_jti j x t = (r, t') \<Longrightarrow> t_now t' = t_now t \<and> t_aud t' = t_aud t \<and> t_ring t' = t_ring t \<and>
     (gomap_ok (t_replay t) \<longrightarrow> gomap_ok (t_replay t'))"
  by (auto simp: claim_jti_def t_now_def Let_def intro!: gomap_ok_sweep split: if_splits)

lemma claim_jti_spends:
  assumes "claim_jti j x t = (True, t')" and "gomap_ok (t_replay t)"
  shows "spent j x t'"
  using assms by (auto simp: claim_jti_def spent_def Let_def map_of_sweep t_now_def split: if_splits)

lemma claim_jti_keeps:
  assumes "claim_jti j x t = (r, t')" and "gomap_ok (t_replay t)" and "spent jti ex t"
  shows "spent jti ex t'"
proof -
  have old: "date_time ex < t_now t" if "map_of (t_replay t) jti = Some ex'" "ex \<le> ex'" "date_time ex' < t_now t" for ex'
    using that by (simp add: date_time_def)
  from assms old show ?thesis
    by (fastforce simp: claim_jti_def spent_def Let_def map_of_sweep t_now_def split: if_splits)
qed

lemma VerifyCall_cases:
  assumes "VerifyCall lib tok t = (r, t')"
  shows "(\<exists>er. r = Inl er \<and> t' = t) \<or>
    (\<exists>p ex. parse lib tok t = Inr p \<and> p_aud p = [t_aud t] \<and> p_exp p = Some ex \<and>
       (r = Inr (call_of p) \<and> claim_jti (p_jti p) ex t = (True, t') \<or>
        r = Inl ErrReplay \<and> claim_jti (p_jti p) ex t = (False, t')))"
  using assms
  by (auto simp: VerifyCall_def Let_def call_of_def registered_of_def length_Suc_conv
      split: sum.splits if_splits option.splits prod.splits bool.splits)

lemma claim_jti_False: "claim_jti j x t = (False, t') \<Longrightarrow> t' = t"
  by (auto simp: claim_jti_def Let_def split: if_splits)

lemma service_frame:
  assumes "service lib (t, R, I) (t', R', I')" and "gomap_ok (t_replay t)"
  shows "gomap_ok (t_replay t') \<and> t_now t \<le> t_now t' \<and> t_aud t' = t_aud t \<and> (spent jti ex t \<longrightarrow> spent jti ex t')"
  using assms(1)
proof cases
  case (Mint agent human s polVer ttl tok kid p)
  with MintTxn_signed [OF Mint(3)] assms(2) show ?thesis by (simp add: spent_def)
next
  case (Child parent agent s tok)
  from Child(4) have "t' = draw t"
    by (auto simp: DeriveChildTxn_def split: if_splits sum.splits dest!: sign_cases)
  with assms(2) show ?thesis by (simp add: spent_def)
next
  case (Call txn tool tok)
  from Call(4) have "t' = draw (draw t)"
    by (auto simp: DeriveCall_def split: option.splits sum.splits dest!: sign_cases)
  with assms(2) show ?thesis by (simp add: spent_def)
next
  case (Verify tok r)
  from VerifyCall_cases [OF Verify(3)] assms(2) show ?thesis
    by (auto dest: claim_jti_frame claim_jti_keeps)
next
  case (Turn r)
  from Rotate_frame [OF Turn(3)] assms(2) show ?thesis by (simp add: spent_def)
next
  case (World e)
  with assms(2) show ?thesis by (auto simp: spent_def with_env_def t_now_def)
qed

lemma service_run_frame:
  assumes "(service lib)\<^sup>*\<^sup>* s s'" and "gomap_ok (t_replay (fst s))" and "spent jti ex (fst s)"
  shows "gomap_ok (t_replay (fst s')) \<and> spent jti ex (fst s') \<and> t_aud (fst s') = t_aud (fst s)"
  using assms(1)
proof (induction rule: rtranclp_induct)
  case base
  with assms(2,3) show ?case by simp
next
  case (step y z)
  obtain t R I where y: "y = (t, R, I)" by (cases y)
  obtain t' R' I' where z: "z = (t', R', I')" by (cases z)
  have "service lib (t, R, I) (t', R', I')" using step.hyps(2) y z by simp
  from service_frame [OF this] step.IH show ?case by (simp add: y z)
qed


text \<open>
  C29.  The two halves of \<open>VerifyCall\<close> leave a window.  A token is parsed outside the lock and
  its id claimed inside; when its expiry and a sweep fall between the two, the claim of an id
  that has already been used succeeds again.
\<close>

theorem sweep_reopens_claim:
  assumes "gomap_ok (t_replay t)" and "claim_jti jti ex t = (True, t1)" and "date_time ex < ke_now e"
    and "t_sinceSweep t1 = sweepEvery - 1" and "map_of (t_replay t1) other = None"
    and "claim_jti other ex2 (with_env t1 e) = (True, t2)"
  shows "fst (claim_jti jti ex t2)"
proof -
  have "gomap_ok (t_replay t1)" using claim_jti_frame [OF assms(2)] assms(1) by simp
  moreover have "other \<noteq> jti \<or> map_of (t_replay t1) jti = None" using assms(5) by auto
  moreover have "map_of (t_replay t1) jti \<in> {None, Some ex}"
    using assms(1,2) by (auto simp: claim_jti_def Let_def map_of_sweep split: if_splits)
  moreover have "t_replay t2 = sweep (ke_now e) (map_put other ex2 (t_replay t1))"
    using assms(4-6) by (auto simp: claim_jti_def Let_def with_env_def t_now_def sweepEvery_def)
  ultimately have "map_of (t_replay t2) jti = None \<or> other = jti" using assms(3) by (auto simp: map_of_sweep)
  then show ?thesis using assms(2,4,5)
    by (auto simp: claim_jti_def Let_def sweepEvery_def split: if_splits)
qed


section \<open>Derived assertions\<close>

lemma DeriveCall_signed:
  assumes "DeriveCall lib txnTok tool t = (Inr tok, t')"
  shows "\<exists>txn p ex. VerifyTxn lib txnTok t = Inr txn \<and> rc_ExpiresAt (tc_Registered txn) = Some ex \<and>
     t_now t < date_time ex \<and> p = call_payload (call_claims_of lib txn ex tool (draw t)) \<and>
     jl_sign lib (kr_current (t_ring t)) (Suc (ke_io (t_env t))) (kr_curKid (t_ring t))
       (call_payload (call_claims_of lib txn ex tool t)) = Some tok \<and> t' = draw (draw t)"
  using assms
  by (auto simp: DeriveCall_def VerifyTxn_Inr parse_Inr txn_of_def registered_of_def
      split: option.splits sum.splits dest!: sign_cases)

lemma never_NilExpiry: "fst (DeriveCall lib txnTok tool t) \<noteq> Inl NilExpiry"
  by (auto simp: DeriveCall_def VerifyTxn_def parse_def txn_of_def registered_of_def sign_def
      split: option.splits sum.splits if_splits prod.splits)

lemma call_exp:
  assumes "t_now t < date_time ex"
  shows "\<exists>cx. rc_ExpiresAt (cc_Registered (call_claims_of lib txn ex tool t)) = Some cx \<and> cx \<le> ex \<and>
     t_now t < date_time cx \<and> date_time cx \<le> t_now t + CallTTL"
proof -
  let ?l = "if date_time ex < t_now t + CallTTL then date_time ex else t_now t + CallTTL"
  have d: "date_time (numeric_date a) \<le> a" "a < date_time (numeric_date a) + 1000000000" for a
    using mult_div_mod_eq [of 1000000000 a] pos_mod_bound [of 1000000000 a] pos_mod_sign [of 1000000000 a]
    by (simp_all add: date_time_def numeric_date_def)
  have e: "numeric_date (date_time ex) = ex" by (simp add: numeric_date_def date_time_def)
  have "numeric_date ?l \<le> ex"
  proof (cases "date_time ex < t_now t + CallTTL")
    case False
    then have "numeric_date (t_now t + CallTTL) \<le> numeric_date (date_time ex)"
      by (simp add: numeric_date_def zdiv_mono1)
    with False e show ?thesis by simp
  qed (simp add: e)
  moreover have "t_now t < date_time (numeric_date ?l)"
    using assms d(2) [of "t_now t + CallTTL"] by (simp add: e CallTTL_def)
  moreover have "date_time (numeric_date ?l) \<le> t_now t + CallTTL"
    using d(1) [of "t_now t + CallTTL"] by (simp add: e)
  ultimately show ?thesis by (auto simp: call_claims_of_def Let_def)
qed

text \<open>
   A derived assertion works here, once, and nowhere else.  A call assertion the service
  derives verifies at the instance that made it while its id is unused, names its parent
  transaction and the tool, expires within a minute and not after the transaction; another
  instance rejects it whatever its clock and its cache hold.
\<close>

theorem derived_call_binds:
  assumes "jwt_ok lib" and "ring_ok (jl_keys lib) (t_ring t)" and "ascii (t_aud t)"
    and "DeriveCall lib txnTok tool t = (Inr tok, t')"
    and "map_of (t_replay t') (jl_utf8 lib (jl_ulid lib (ke_io (t_env t)))) = None"
  shows "\<exists>txn c. VerifyTxn lib txnTok t = Inr txn \<and> fst (VerifyCall lib tok t') = Inr c \<and>
     cc_ParentTxn c = jl_utf8 lib (tc_TxnID txn) \<and> cc_Tool c = jl_utf8 lib tool \<and>
     cc_Scope c = map_scope (jl_utf8 lib) (tc_Scope txn) \<and>
     (\<exists>cx ex. rc_ExpiresAt (cc_Registered c) = Some cx \<and> rc_ExpiresAt (tc_Registered txn) = Some ex \<and>
        cx \<le> ex \<and> date_time cx \<le> t_now t + CallTTL) \<and>
     (\<forall>t2. t_aud t2 \<noteq> t_aud t \<longrightarrow> (\<exists>er. fst (VerifyCall lib tok t2) = Inl er))"
proof -
  from DeriveCall_signed [OF assms(4)] obtain txn ex where
    txn: "VerifyTxn lib txnTok t = Inr txn" "rc_ExpiresAt (tc_Registered txn) = Some ex" "t_now t < date_time ex"
    and s: "jl_sign lib (kr_current (t_ring t)) (Suc (ke_io (t_env t))) (kr_curKid (t_ring t))
       (call_payload (call_claims_of lib txn ex tool t)) = Some tok" and t': "t' = draw (draw t)" by blast
  let ?p = "call_payload (call_claims_of lib txn ex tool t)"
  let ?q = "text_of (jl_utf8 lib) ?p"
  from call_exp [OF txn(3), of lib txn tool] obtain cx where cx: "p_exp ?p = Some cx" "cx \<le> ex"
    "t_now t < date_time cx" "date_time cx \<le> t_now t + CallTTL"
    by (auto simp: call_payload_def)
  have ks: "\<exists>ks. keys_for lib (t_ring t') (kr_curKid (t_ring t)) = Some ks \<and>
      kl_pub (jl_keys lib) (kr_current (t_ring t)) \<in> set ks"
    using keys_for_current [of lib t] t' by simp
  have p: "parse lib tok t' = Inr ?q"
    using signed_parse [OF assms(1,2) s _ _ cx(1), of t'] ks cx(3) t' by auto
  have aud: "jl_utf8 lib (t_aud t) = t_aud t" by (rule jwt_okD(4) [OF assms(1,3)])
  have q: "p_aud ?q = [t_aud t]" "p_jti ?q = jl_utf8 lib (jl_ulid lib (ke_io (t_env t)))" "p_exp ?q = Some cx"
    "p_parent_txn ?q = jl_utf8 lib (tc_TxnID txn)" "p_tool ?q = jl_utf8 lib tool"
    "p_scope ?q = map_scope (jl_utf8 lib) (tc_Scope txn)"
    using aud cx(1) by (simp_all add: text_of_def call_payload_def call_claims_of_def Let_def)
  have v: "fst (VerifyCall lib tok t') = Inr (call_of ?q)"
    using p q(1-3) assms(5) t'
    by (simp add: VerifyCall_def call_of_def registered_of_def claim_jti_def Let_def)
  have other: "\<exists>er. fst (VerifyCall lib tok t2) = Inl er" if "t_aud t2 \<noteq> t_aud t" for t2
  proof (cases "fst (VerifyCall lib tok t2)")
    case (Inr c)
    obtain r t3 where r: "VerifyCall lib tok t2 = (r, t3)" by fastforce
    from VerifyCall_cases [OF r] Inr r obtain p2 where p2: "parse lib tok t2 = Inr p2" "p_aud p2 = [t_aud t2]" by auto
    from p2(1) p have "p2 = ?q" by (auto simp: parse_Inr)
    with p2(2) q(1) that show ?thesis by simp
  qed simp
  show ?thesis
    using txn(1,2) v q cx(2,4) other by (intro exI [of _ txn] exI [of _ "call_of ?q"]) (auto simp: call_of_def registered_of_def)
qed

text \<open>
  C32.  A call assertion is also a transaction token.  Nothing in a token says which of the
  two it is, and \<open>VerifyTxn\<close> asks for no audience: the single-use assertion passes it, with
  an empty transaction id, and derives further assertions for the minute it lives.
\<close>

theorem call_assertion_is_txn_token:
  assumes "jwt_ok lib" and "ring_ok (jl_keys lib) (t_ring t)"
    and "DeriveCall lib txnTok tool t = (Inr tok, t')"
    and "\<And>n p. jl_sign lib (kr_current (t_ring t)) n (kr_curKid (t_ring t)) p \<noteq> None"
  shows "\<exists>c. VerifyTxn lib tok t' = Inr c \<and> tc_TxnID c = '''' \<and>
     (\<exists>tok2 t2. DeriveCall lib tok tool2 t' = (Inr tok2, t2))"
proof -
  from DeriveCall_signed [OF assms(3)] obtain txn ex where
    txn: "rc_ExpiresAt (tc_Registered txn) = Some ex" "t_now t < date_time ex"
    and s: "jl_sign lib (kr_current (t_ring t)) (Suc (ke_io (t_env t))) (kr_curKid (t_ring t))
       (call_payload (call_claims_of lib txn ex tool t)) = Some tok" and t': "t' = draw (draw t)" by blast
  let ?p = "call_payload (call_claims_of lib txn ex tool t)"
  from call_exp [OF txn(2), of lib txn tool] obtain cx where cx: "p_exp ?p = Some cx" "t_now t < date_time cx"
    by (auto simp: call_payload_def)
  have ks: "\<exists>ks. keys_for lib (t_ring t') (kr_curKid (t_ring t)) = Some ks \<and>
      kl_pub (jl_keys lib) (kr_current (t_ring t)) \<in> set ks"
    using keys_for_current [of lib t] t' by simp
  have "parse lib tok t' = Inr (text_of (jl_utf8 lib) ?p)"
    using signed_parse [OF assms(1,2) s _ _ cx(1), of t'] ks cx(2) t' by auto
  then have v: "VerifyTxn lib tok t' = Inr (txn_of (text_of (jl_utf8 lib) ?p))" by (simp add: VerifyTxn_def)
  have e: "jl_utf8 lib '''' = ''''" by (rule jwt_okD(4) [OF assms(1)]) (simp add: ascii_def)
  have "\<exists>tok2 t2. DeriveCall lib tok tool2 t' = (Inr tok2, t2)"
    using v cx(1) assms(4) t'
    by (auto simp: DeriveCall_def sign_def txn_of_def registered_of_def text_of_def split: option.splits)
  with v e show ?thesis by (simp add: txn_of_def text_of_def call_payload_def)
qed


section \<open>Witnesses\<close>

definition toy_jwt :: "(nat, nat, nat \<times> string \<times> payload) jwtlib" where
  "toy_jwt = \<lparr>jl_keys = toy_keys, jl_sign = (\<lambda>k n kid p. Some (k, kid, p)), jl_decode = (\<lambda>(k, t). Some t),
     jl_check = (\<lambda>k t. k = fst t), jl_ulid = itoa, jl_utf8 = (\<lambda>s. s)\<rparr>"

definition toy_root :: "nat keyring" where
  "toy_root = toy_ring\<lparr>kr_curKid := KeyID toy_keys 3\<rparr>"

definition toy_service :: "int \<Rightarrow> nat tis" where
  "toy_service now = (toy_tis (\<lambda>_. False))\<lparr>t_ring := toy_root, t_env := (toy_kenv [] (\<lambda>_. False))\<lparr>ke_now := now\<rparr>\<rparr>"

definition full_scope :: scope where
  "full_scope = \<lparr>compartments = [''*''], resource_types = [''*''], actions = [''*''], purpose = ''*''\<rparr>"

definition minted :: payload where
  "minted = txn_payload (mint_claims toy_jwt ''agent'' ''ann'' full_scope ''v1'' 0 (toy_service 0))"

lemma text_of_id [simp]: "text_of (\<lambda>s. s) p = p"
  by (simp add: text_of_def map_scope_def)

lemma toy_jwt_ok: "jwt_ok toy_jwt"
  by (simp add: jwt_ok_def toy_jwt_def toy_keys_def)

lemma toy_service_simps [simp]:
  "t_ring (toy_service n) = toy_root" "t_now (toy_service n) = n" "t_replay (toy_service n) = []"
  "t_aud (toy_service n) = ''d#1''" "ke_io (t_env (toy_service n)) = 7" "jl_keys toy_jwt = toy_keys"
  by (simp_all add: toy_service_def t_now_def toy_tis_def toy_kenv_def toy_jwt_def)

lemma toy_lib_simps [simp]:
  "kl_gen toy_keys = Some" "kl_pub toy_keys k = k" "jl_sign toy_jwt k n kid p = Some (k, kid, p)"
  "jl_decode toy_jwt tok = Some (snd tok)" "jl_check toy_jwt q tok = (q = fst tok)" "jl_utf8 toy_jwt = (\<lambda>s. s)"
  by (simp_all add: toy_keys_def toy_jwt_def split: prod.splits)

lemma toy_root_simps [simp]:
  "kr_current toy_root = 3" "kr_previous toy_root = None" "kr_curKid toy_root = KeyID toy_keys 3" "kr_prevKid toy_root = ''''"
  "ke_now (t_env (toy_service n)) = n"
  by (simp_all add: toy_root_def toy_ring_def toy_service_def)

lemma toy_ring_ok: "ring_ok (jl_keys toy_jwt) (t_ring (toy_service n))"
  by (simp add: ring_ok_def)

lemma agent_named [simp]: "trim_space ''agent'' \<noteq> []"
  by code_simp

lemma toy_mint: "MintTxn toy_jwt ''agent'' ''ann'' full_scope ''v1'' 0 (toy_service 0)
    = (Inr (3, KeyID toy_keys 3, minted), draw (draw (toy_service 0)))"
  by (simp add: MintTxn_def sign_def minted_def)

lemma toy_kids: "KeyID toy_keys 3 = ''33''" "KeyID toy_keys 4 = ''34''" "KeyID toy_keys 5 = ''35''"
  by (simp_all add: KeyID_def toy_keys_def numeral_eq_Suc) code_simp+

definition rotated :: "nat \<Rightarrow> nat tis" where
  "rotated k = (toy_service 0)\<lparr>t_keyPath := '''', t_env := (toy_kenv [] (\<lambda>_. False))\<lparr>ke_io := k\<rparr>\<rparr>"

lemma toy_rotate:
  "\<exists>t2. Rotate toy_keys (rotated 4) = (None, t2) \<and> CurrentKid t2 = ''34'' \<and>
     (\<forall>e. \<exists>t4. Rotate toy_keys (t2\<lparr>t_env := e\<lparr>ke_io := 5\<rparr>\<rparr>) = (None, t4) \<and> CurrentKid t4 = ''35'')"
  by (simp add: Rotate_def rotated_def persist_rotation_def with_env_def CurrentKid_def Let_def toy_kids toy_kenv_def)

theorem token_survives_rotation_witness:
  "\<exists>t2. Rotate toy_keys (rotated 4) = (None, t2) \<and>
     VerifyTxn toy_jwt (3, KeyID toy_keys 3, minted) (t2\<lparr>t_env := (t_env t2)\<lparr>ke_now := 600000000000\<rparr>\<rparr>) = Inr (txn_of minted)"
proof -
  obtain t2 where t2: "Rotate toy_keys (rotated 4) = (None, t2)" "CurrentKid t2 = ''34''" using toy_rotate by blast
  have "VerifyTxn toy_jwt (3, KeyID toy_keys 3, minted) (t2\<lparr>t_env := (t_env t2)\<lparr>ke_now := 600000000000\<rparr>\<rparr>)
      = Inr (txn_of (text_of (jl_utf8 toy_jwt) minted))"
    unfolding minted_def
    by (rule token_survives_rotation [OF toy_jwt_ok toy_ring_ok toy_mint [unfolded minted_def], of "rotated 4" t2, THEN conjunct1])
      (use t2 in \<open>simp_all add: rotated_def CurrentKid_def toy_kids t_now_def numeric_date_def date_time_def
        clamp_ttl_def DefaultTxnTTL_def MaxTxnTTL_def\<close>)
  with t2(1) show ?thesis by simp
qed

theorem two_rotations_retire_witness:
  "\<exists>t2 t4. Rotate toy_keys (rotated 4) = (None, t2) \<and> Rotate toy_keys (t2\<lparr>t_env := (t_env t2)\<lparr>ke_io := 5\<rparr>\<rparr>) = (None, t4) \<and>
     VerifyTxn toy_jwt (3, KeyID toy_keys 3, minted) t4 = Inl (UnknownKey ''33'')"
proof -
  obtain t2 t4 where t: "Rotate toy_keys (rotated 4) = (None, t2)" "CurrentKid t2 = ''34''"
    "Rotate toy_keys (t2\<lparr>t_env := (t_env t2)\<lparr>ke_io := 5\<rparr>\<rparr>) = (None, t4)" "CurrentKid t4 = ''35''"
    using toy_rotate by blast
  have k: "CurrentKid (toy_service 0) = ''33''" by (simp add: CurrentKid_def toy_kids)
  have "VerifyTxn toy_jwt (3, KeyID toy_keys 3, minted) t4 = Inl (UnknownKey (CurrentKid (toy_service 0)))"
    by (rule two_rotations_retire [OF toy_jwt_ok toy_ring_ok toy_mint, of "rotated 4" t2
          "t2\<lparr>t_env := (t_env t2)\<lparr>ke_io := 5\<rparr>\<rparr>" t4])
      (use t k in \<open>simp_all add: rotated_def\<close>)
  with t k show ?thesis by auto
qed

theorem no_credential_exceeds_root_witness:
  "\<exists>r \<in> {minted}. permits (p_scope minted) \<subseteq> permits (p_scope r) \<and> p_lineage r = [''agent'']"
proof -
  let ?tok = "(3, KeyID toy_keys 3, minted) :: nat \<times> string \<times> payload"
  have "service toy_jwt (toy_service 0, {}, {}) (draw (draw (toy_service 0)), {minted}, {?tok})"
    by (rule service.Mint [OF toy_mint]) simp
  then have run: "(service toy_jwt)\<^sup>*\<^sup>* (toy_service 0, {}, {}) (draw (draw (toy_service 0)), {minted}, {?tok})" by blast
  have "parse toy_jwt ?tok (draw (draw (toy_service 0))) = Inr minted"
    by (auto simp: parse_Inr minted_def mint_exp clamp_ttl_def DefaultTxnTTL_def numeric_date_def date_time_def MaxTxnTTL_def
        keys_for_def byKid_def candidates_def)
  from no_credential_exceeds_root [OF toy_jwt_ok run _ this] show ?thesis
    by (auto simp: genuine_def minted_def txn_payload_def mint_claims_def candidates_def)
qed

definition call_made :: "nat \<times> string \<times> payload" where
  "call_made = (3, KeyID toy_keys 3, call_payload (call_claims_of toy_jwt (txn_of minted) 900 ''read'' (toy_service 0)))"

lemma minted_verifies: "VerifyTxn toy_jwt (3, KeyID toy_keys 3, minted) (toy_service 0) = Inr (txn_of minted)"
  by (auto simp: VerifyTxn_Inr parse_Inr minted_def mint_exp clamp_ttl_def DefaultTxnTTL_def numeric_date_def date_time_def
      MaxTxnTTL_def keys_for_def byKid_def candidates_def)

lemma toy_call: "DeriveCall toy_jwt (3, KeyID toy_keys 3, minted) ''read'' (toy_service 0) = (Inr call_made, draw (draw (toy_service 0)))"
proof -
  have "rc_ExpiresAt (tc_Registered (txn_of minted)) = Some 900"
    by (simp add: txn_of_def registered_of_def minted_def mint_exp clamp_ttl_def DefaultTxnTTL_def numeric_date_def MaxTxnTTL_def)
  then show ?thesis
    by (simp add: DeriveCall_def minted_verifies sign_def call_made_def)
qed

theorem derived_call_binds_witness:
  "\<exists>c. fst (VerifyCall toy_jwt call_made (draw (draw (toy_service 0)))) = Inr c \<and> cc_Tool c = ''read'' \<and>
     (\<exists>er. fst (VerifyCall toy_jwt call_made ((toy_service 0)\<lparr>t_aud := ''d#2''\<rparr>)) = Inl er)"
  using derived_call_binds [OF toy_jwt_ok toy_ring_ok _ toy_call]
  by (fastforce simp: ascii_def)

theorem call_assertion_is_txn_token_witness:
  "\<exists>c. VerifyTxn toy_jwt call_made (draw (draw (toy_service 0))) = Inr c \<and> tc_TxnID c = ''''"
  using call_assertion_is_txn_token [OF toy_jwt_ok toy_ring_ok toy_call, of "''''"] by auto


definition busy_service :: "nat tis" where
  "busy_service = (toy_service 0)\<lparr>t_sinceSweep := 1022\<rparr>"

theorem sweep_reopens_claim_witness:
  "\<exists>t1 t2. claim_jti ''a'' 60 busy_service = (True, t1) \<and>
     claim_jti ''b'' 120 (with_env t1 ((t_env t1)\<lparr>ke_now := 61000000000\<rparr>)) = (True, t2) \<and> fst (claim_jti ''a'' 60 t2)"
proof -
  obtain t1 where t1: "claim_jti ''a'' 60 busy_service = (True, t1)" "t_sinceSweep t1 = 1023" "t_replay t1 = [(''a'', 60)]"
    by (auto simp: claim_jti_def busy_service_def sweepEvery_def Let_def)
  obtain t2 where t2: "claim_jti ''b'' 120 (with_env t1 ((t_env t1)\<lparr>ke_now := 61000000000\<rparr>)) = (True, t2)"
    using t1(2,3) by (auto simp: claim_jti_def with_env_def sweepEvery_def Let_def)
  have "fst (claim_jti ''a'' 60 t2)"
    by (rule sweep_reopens_claim [OF _ t1(1) _ _ _ t2])
      (use t1 in \<open>simp_all add: busy_service_def sweepEvery_def date_time_def\<close>)
  with t1(1) t2 show ?thesis by blast
qed

end
