(* ===== verification/Clock.thy ===== *)
theory Clock
  imports Complex_Main "HOL-Library.Multiset" Prelude
begin

text \<open>
  Live latency percentiles, \<open>proxy/internal/clock/clock.go\<close>: the log-linear buckets, a
  stage's counters, and the percentile walk of \<open>Snapshot\<close>.

  Counters are 64-bit words; atomics make each \<open>Observe\<close> one step.  \<open>float64\<close> arithmetic is
  exact arithmetic on rationals followed by a rounding \<open>rnd\<close>, of which IEEE 754 promises
  that it is monotone and keeps small integers; percentiles do not depend on more.
\<close>

section \<open>Buckets\<close>

definition subBits :: nat where "subBits = 4"
definition subCount :: nat where "subCount = 16"
definition octaves :: nat where "octaves = 32"
definition numBucket :: nat where "numBucket = subCount + octaves * subCount"

lemmas bucket_consts = subBits_def subCount_def octaves_def numBucket_def

text \<open>\<open>bits.Len64\<close>.\<close>

fun bit_len :: "nat \<Rightarrow> nat" where
  "bit_len n = (if n = 0 then 0 else Suc (bit_len (n div 2)))"

declare bit_len.simps [simp del]

definition bucketFor :: "int \<Rightarrow> nat" where
  "bucketFor ns =
     (if ns < 0 then 0
      else if ns < int subCount then nat ns
      else
        let k = bit_len (nat ns) - 1 - subBits
        in if k \<ge> octaves then numBucket - 1
           else subCount + k * subCount + drop_bit k (nat ns - push_bit k subCount))"

definition lowerBound :: "nat \<Rightarrow> int" where
  "lowerBound i =
     (if i < subCount then int i
      else
        let k = (i - subCount) div subCount; sub = (i - subCount) mod subCount
        in int (push_bit k subCount + push_bit k sub))"

lemma bit_len_bounds: "n > 0 \<Longrightarrow> 2 ^ (bit_len n - 1) \<le> n \<and> n < 2 ^ bit_len n"
proof (induction n rule: bit_len.induct)
  case (1 n)
  show ?case
  proof (cases "n div 2 = 0")
    case True
    with 1 have "n = 1" by simp
    then show ?thesis by (simp add: bit_len.simps)
  next
    case False
    with 1 have ih: "2 ^ (bit_len (n div 2) - 1) \<le> n div 2 \<and> n div 2 < 2 ^ bit_len (n div 2)" by simp
    from False have b: "bit_len (n div 2) \<ge> 1" by (subst bit_len.simps) simp
    from 1 have n: "bit_len n = Suc (bit_len (n div 2))" by (subst bit_len.simps) simp
    have e: "(2 :: nat) ^ bit_len (n div 2) = 2 * 2 ^ (bit_len (n div 2) - 1)" using b by (cases "bit_len (n div 2)") auto
    have "2 * a \<le> n \<and> n < 2 * c" if "a \<le> n div 2" "n div 2 < c" for a c :: nat
      using that by presburger
    from this [OF ih [THEN conjunct1] ih [THEN conjunct2]] show ?thesis by (simp add: n e)
  qed
qed

lemma bit_len_eq: "2 ^ m \<le> n \<Longrightarrow> n < 2 ^ Suc m \<Longrightarrow> bit_len n = Suc m"
proof -
  assume a: "2 ^ m \<le> n" "n < 2 ^ Suc m"
  then have "n > 0" by (metis less_le_trans zero_less_numeral zero_less_power)
  from bit_len_bounds [OF this] have b: "2 ^ (bit_len n - 1) \<le> n" "n < 2 ^ bit_len n" by simp_all
  from a(1) b(2) have "m < bit_len n" by (meson le_less_trans one_less_numeral_iff power_less_imp_less_exp semiring_norm(76))
  moreover from a(2) b(1) have "bit_len n - 1 < Suc m"
    by (meson le_less_trans one_less_numeral_iff power_less_imp_less_exp semiring_norm(76))
  ultimately show ?thesis by simp
qed

text \<open>The bucket of a duration from 16 ns on: octave \<open>k\<close> and sub-bucket \<open>j\<close>.\<close>

lemma bucketFor_octave:
  assumes "(16 + j) * 2 ^ k \<le> n" "n < (17 + j) * 2 ^ k" "j < 16" "k < 32"
  shows "bucketFor (int n) = 16 + 16 * k + j"
proof -
  have lo: "16 * 2 ^ k \<le> n" using assms(1) by (simp add: add_mult_distrib)
  have "(17 + j) * 2 ^ k \<le> 32 * (2 :: nat) ^ k" using assms(3) by (intro mult_right_mono) auto
  with assms(2) have hi: "n < 32 * 2 ^ k" by (rule less_le_trans)
  have "bit_len n = Suc (k + 4)" using lo hi by (intro bit_len_eq) (simp_all add: power_add)
  moreover have "n \<ge> 16" using lo by (metis le_trans mult_le_mono2 mult.right_neutral one_le_numeral one_le_power)
  moreover have "(n - 16 * 2 ^ k) div 2 ^ k = j"
  proof (rule div_nat_eqI)
    have "16 * 2 ^ k + j * 2 ^ k \<le> n" "n < 16 * 2 ^ k + Suc j * 2 ^ k"
      using assms(1,2) by (simp_all add: add_mult_distrib)
    then have "j * 2 ^ k \<le> n - 16 * 2 ^ k" "n - 16 * 2 ^ k < Suc j * 2 ^ k" using lo by linarith+
    then show "2 ^ k * j \<le> n - 16 * 2 ^ k" "n - 16 * 2 ^ k < 2 ^ k * Suc j"
      by (simp_all only: mult.commute)
  qed
  ultimately show ?thesis using assms(4)
    by (simp add: bucketFor_def bucket_consts Let_def push_bit_eq_mult drop_bit_eq_div)
qed

lemma octave_exists:
  assumes "16 \<le> n" "n < (2 :: nat) ^ 36"
  shows "\<exists>k j. (16 + j) * 2 ^ k \<le> n \<and> n < (17 + j) * 2 ^ k \<and> j < 16 \<and> k < 32"
proof -
  from bit_len_bounds [of n] assms(1) have b: "2 ^ (bit_len n - 1) \<le> n" "n < 2 ^ bit_len n" by auto
  have "4 < bit_len n"
  proof (rule ccontr)
    assume "\<not> 4 < bit_len n"
    then have "(2 :: nat) ^ bit_len n \<le> 2 ^ 4" by (intro power_increasing) auto
    with b(2) assms(1) show False by simp
  qed
  then obtain k where k: "bit_len n = Suc (k + 4)" by (metis Suc_diff_Suc add.commute diff_Suc_eq_diff_pred le_add_diff_inverse2 less_imp_le_nat less_natE add_Suc_right)
  have "k < 32"
  proof (rule ccontr)
    assume "\<not> k < 32"
    then have "(2 :: nat) ^ 36 \<le> 2 ^ (bit_len n - 1)" using k by (intro power_increasing) auto
    with b(1) assms(2) show False by simp
  qed
  define q where "q = n div 2 ^ k"
  have "16 \<le> q" unfolding q_def using b(1) k div_le_mono [of "16 * 2 ^ k" n "2 ^ k"] by (simp add: power_add mult.commute)
  moreover have "q < 32" unfolding q_def using b(2) k by (intro less_mult_imp_div_less) (simp add: power_add)
  moreover have "q * 2 ^ k \<le> n" "n < Suc q * 2 ^ k"
    unfolding q_def using div_times_less_eq_dividend [of n "2 ^ k"] dividend_less_div_times [of "2 ^ k" n] by (simp_all add: add.commute)
  ultimately have "(16 + (q - 16)) * 2 ^ k \<le> n" "n < (17 + (q - 16)) * 2 ^ k" "q - 16 < 16" by simp_all
  with \<open>k < 32\<close> show ?thesis by blast
qed

lemma lowerBound_octave: "j < 16 \<Longrightarrow> lowerBound (16 + 16 * k + j) = int ((16 + j) * 2 ^ k)"
  by (simp add: lowerBound_def bucket_consts Let_def push_bit_eq_mult add_mult_distrib)


lemma lowerBound_pos: "lowerBound i \<ge> 0"
  by (simp add: lowerBound_def Let_def)

text \<open>
  C33.  A bucket is narrow.  For every duration below \<open>2^36\<close> ns (about 68 s) the index is in
  range, the bucket's low edge does not exceed the duration, and what it understates is
  less than a sixteenth of the edge; below 16 ns it is exact.  Longer durations share the last bucket.
\<close>

theorem bucket_error_bound:
  assumes "0 \<le> ns"
  shows "bucketFor ns < 528 \<and> lowerBound (bucketFor ns) \<le> ns \<and>
     (ns < 16 \<longrightarrow> lowerBound (bucketFor ns) = ns) \<and>
     (16 \<le> ns \<and> ns < 2 ^ 36 \<longrightarrow> 16 * (ns - lowerBound (bucketFor ns)) < lowerBound (bucketFor ns)) \<and>
     (2 ^ 36 \<le> ns \<longrightarrow> bucketFor ns = 527)"
proof -
  obtain n where n: "ns = int n" using assms nonneg_int_cases by blast
  consider (small) "n < 16" | (mid) "16 \<le> n" "n < 2 ^ 36" | (big) "2 ^ 36 \<le> n" by linarith
  then show ?thesis
  proof cases
    case small
    then show ?thesis using n by (simp add: bucketFor_def lowerBound_def bucket_consts)
  next
    case mid
    from octave_exists [OF mid] obtain k j where kj: "(16 + j) * 2 ^ k \<le> n" "n < (17 + j) * 2 ^ k" "j < 16" "k < 32" by blast
    have b: "bucketFor ns = 16 + 16 * k + j" using bucketFor_octave [OF kj] n by simp
    have l: "lowerBound (bucketFor ns) = int ((16 + j) * 2 ^ k)" using lowerBound_octave [OF kj(3)] b by simp
    have "n - (16 + j) * 2 ^ k < 2 ^ k" using kj(1,2) by (simp add: add_mult_distrib less_diff_conv2)
    then have "16 * (n - (16 + j) * 2 ^ k) < 16 * 2 ^ k" by simp
    also have "16 * 2 ^ k \<le> (16 + j) * (2 :: nat) ^ k" by (simp add: add_mult_distrib)
    finally have "16 * (n - (16 + j) * 2 ^ k) < (16 + j) * 2 ^ k" .
    then have "16 * (int n - int ((16 + j) * 2 ^ k)) < int ((16 + j) * 2 ^ k)"
      using kj(1) by (metis (mono_tags) of_nat_diff of_nat_less_iff of_nat_mult of_nat_numeral)
    moreover have "int ((16 + j) * 2 ^ k) \<le> int n" using kj(1) by (simp only: of_nat_le_iff)
    ultimately show ?thesis using kj b mid n unfolding l by simp
  next
    case big
    then have "bit_len n > 36"
      using bit_len_bounds [of n] by (metis le_less_trans less_le_trans not_le one_less_numeral_iff
          power_increasing_iff power_strict_increasing_iff semiring_norm(76) zero_less_numeral zero_less_power)
    then have "bucketFor ns = 527" using big n by (simp add: bucketFor_def bucket_consts Let_def)
    moreover have "lowerBound 527 = 31 * 2 ^ 31" by (simp add: lowerBound_def bucket_consts Let_def push_bit_eq_mult)
    ultimately show ?thesis using big n by simp
  qed
qed


text \<open>
  C21.  The low edge of a bucket falls into it: \<open>bucketFor\<close> and \<open>lowerBound\<close> are inverse on
  the 528 buckets.
\<close>

theorem bucket_roundtrip:
  assumes "i < numBucket"
  shows "bucketFor (lowerBound i) = i"
proof (cases "i < 16")
  case True
  then show ?thesis by (simp add: lowerBound_def bucketFor_def bucket_consts)
next
  case False
  define m where "m = i - 16"
  have i: "i = 16 + 16 * (m div 16) + m mod 16" using False by (simp add: m_def)
  have "m div 16 < 32" using assms False by (simp add: m_def bucket_consts)
  moreover have "(16 + m mod 16) * 2 ^ (m div 16) < (17 + m mod 16) * 2 ^ (m div 16)" by simp
  ultimately show ?thesis
    using bucketFor_octave [of "m mod 16" "m div 16" "(16 + m mod 16) * 2 ^ (m div 16)"]
      lowerBound_octave [of "m mod 16" "m div 16"] i by (metis le_refl mod_less_divisor zero_less_numeral)
qed

lemma lowerBound_step: "lowerBound i < lowerBound (Suc i)"
proof (cases "i < 16")
  case True
  then show ?thesis
    by (cases "Suc i < 16") (auto simp: lowerBound_def bucket_consts Let_def)
next
  case False
  define m where "m = i - 16"
  define k j where "k = m div 16" and "j = m mod 16"
  have i: "i = 16 + 16 * k + j" "j < 16" using False by (simp_all add: m_def k_def j_def)
  show ?thesis
  proof (cases "j = 15")
    case True
    have "Suc i = 16 + 16 * Suc k + 0" using i True by simp
    then show ?thesis using lowerBound_octave [of 0 "Suc k"] lowerBound_octave [of j k] i True by simp
  next
    case False
    then have "Suc i = 16 + 16 * k + Suc j" "Suc j < 16" using i by simp_all
    then show ?thesis using lowerBound_octave [of "Suc j" k] lowerBound_octave [of j k] i by simp
  qed
qed

lemma lowerBound_mono: "i < j \<Longrightarrow> lowerBound i < lowerBound j"
  by (rule lift_Suc_mono_less [of lowerBound, OF lowerBound_step])

lemma bucketFor_mono: "a \<le> b \<Longrightarrow> bucketFor a \<le> bucketFor b"
proof (rule ccontr)
  assume ab: "a \<le> b" and "\<not> bucketFor a \<le> bucketFor b"
  then have lt: "bucketFor b < bucketFor a" by simp
  have pos: "0 \<le> b" using ab lt by (auto simp: bucketFor_def split: if_splits)
  have a0: "0 \<le> a" using lt by (auto simp: bucketFor_def split: if_splits)
  have b: "bucketFor b < 528" "bucketFor a < 528" "lowerBound (bucketFor a) \<le> a"
    using bucket_error_bound [OF pos] bucket_error_bound [OF a0] by simp_all
  have nb: "b < 2 ^ 36" using bucket_error_bound [OF pos] b(2) lt by force
  have "b < lowerBound (Suc (bucketFor b))"
  proof (cases "b < 16")
    case True
    then show ?thesis using pos lowerBound_step [of "bucketFor b"] bucket_error_bound [OF pos] by simp
  next
    case False
    then have "16 \<le> nat b" "nat b < 2 ^ 36" using nb pos by (simp_all add: nat_less_iff)
    from octave_exists [OF this] obtain k j where kj: "(16 + j) * 2 ^ k \<le> nat b" "nat b < (17 + j) * 2 ^ k" "j < 16" "k < 32" by blast
    have bb: "bucketFor b = 16 + 16 * k + j" using bucketFor_octave [OF kj] pos by simp
    have "lowerBound (Suc (bucketFor b)) = int ((17 + j) * 2 ^ k)"
    proof (cases "j = 15")
      case True
      then have "Suc (bucketFor b) = 16 + 16 * Suc k + 0" using bb by simp
      then show ?thesis using lowerBound_octave [of 0 "Suc k"] True by simp
    next
      case False
      then have "Suc (bucketFor b) = 16 + 16 * k + Suc j" "Suc j < 16" using bb kj(3) by simp_all
      then show ?thesis using lowerBound_octave [of "Suc j" k] by simp
    qed
    then show ?thesis using kj(2) pos by linarith
  qed
  also have "\<dots> \<le> lowerBound (bucketFor a)" using lt lowerBound_mono [of "Suc (bucketFor b)" "bucketFor a"]
    by (cases "Suc (bucketFor b) = bucketFor a") auto
  also have "\<dots> \<le> a" by (rule b)
  finally show False using ab by simp
qed


section \<open>Stages\<close>

record stage =
  sg_name :: string
  sg_buckets :: "u64 list"
  sg_count :: u64
  sg_sum :: u64
  sg_maximum :: int

definition new_stage :: "string \<Rightarrow> stage" where
  "new_stage name = \<lparr>sg_name = name, sg_buckets = replicate numBucket 0, sg_count = 0, sg_sum = 0, sg_maximum = 0\<rparr>"

definition Observe :: "int \<Rightarrow> stage \<Rightarrow> stage" where
  "Observe ns s = s\<lparr>sg_buckets := (sg_buckets s)[bucketFor ns := sg_buckets s ! bucketFor ns + 1],
     sg_count := sg_count s + 1, sg_sum := sg_sum s + of_int ns,
     sg_maximum := (if ns > sg_maximum s then ns else sg_maximum s)\<rparr>"

definition Reset :: "stage list \<Rightarrow> stage list" where
  "Reset all = map (\<lambda>s. s\<lparr>sg_buckets := map (\<lambda>_. 0) (sg_buckets s), sg_count := 0, sg_sum := 0, sg_maximum := 0\<rparr>) all"

record snapshot =
  sn_Stage :: string
  sn_Count :: u64
  sn_MeanUS :: rat
  sn_P50US :: rat
  sn_P90US :: rat
  sn_P99US :: rat
  sn_P999US :: rat
  sn_MaxUS :: rat

definition targets :: "rat list" where "targets = [50, 90, 99, 999 / 10]"

text \<open>\<open>float64(cum) >= p/100*float64(total)\<close>, with \<open>p\<close> itself a \<open>float64\<close>.\<close>

definition reached :: "(rat \<Rightarrow> rat) \<Rightarrow> u64 \<Rightarrow> rat \<Rightarrow> u64 \<Rightarrow> bool" where
  "reached rnd tot p cum \<longleftrightarrow>
     rnd (of_nat (unat cum)) \<ge> rnd (rnd (rnd p / 100) * rnd (of_nat (unat tot)))"

text \<open>
  The walk over the buckets: those of the remaining targets that the running count has
  reached take this bucket's low edge; it ends when none remains.
\<close>

fun percentile_walk :: "(rat \<Rightarrow> u64 \<Rightarrow> bool) \<Rightarrow> (nat \<times> u64) list \<Rightarrow> u64 \<Rightarrow> rat list \<Rightarrow> int list \<Rightarrow> int list" where
  "percentile_walk rch [] cum ts out = out"
| "percentile_walk rch ((i, c) # cs) cum ts out =
     (if c = 0 then percentile_walk rch cs cum ts out
      else
        let cum = cum + c; hit = takeWhile (\<lambda>t. rch t cum) ts; ts = drop (length hit) ts;
            out = out @ map (\<lambda>_. lowerBound i) hit
        in if ts = [] then out else percentile_walk rch cs cum ts out)"

definition edge_at :: "(rat \<Rightarrow> rat) \<Rightarrow> int list \<Rightarrow> nat \<Rightarrow> rat" where
  "edge_at rnd out j = (if j < length out then rnd (rnd (of_int (out ! j)) / 1000) else 0)"

definition Snapshot :: "(rat \<Rightarrow> rat) \<Rightarrow> stage \<Rightarrow> snapshot" where
  "Snapshot rnd s =
     (let n = sg_count s;
          out = \<lparr>sn_Stage = sg_name s, sn_Count = n, sn_MeanUS = 0, sn_P50US = 0, sn_P90US = 0, sn_P99US = 0,
                 sn_P999US = 0, sn_MaxUS = 0\<rparr>
      in if n = 0 then out
      else
        let out = out\<lparr>sn_MeanUS := rnd (rnd (rnd (of_int (sint (sg_sum s))) / rnd (of_nat (unat n))) / 1000),
                      sn_MaxUS := rnd (rnd (of_int (sg_maximum s)) / 1000)\<rparr>;
            tot = sum_list (sg_buckets s)
        in if tot = 0 then out
        else
          let ps = percentile_walk (reached rnd tot) (enumerate 0 (sg_buckets s)) 0 targets []
          in out\<lparr>sn_P50US := edge_at rnd ps 0, sn_P90US := edge_at rnd ps 1, sn_P99US := edge_at rnd ps 2,
                 sn_P999US := edge_at rnd ps 3\<rparr>)"

definition Snapshots :: "(rat \<Rightarrow> rat) \<Rightarrow> stage list \<Rightarrow> snapshot list" where
  "Snapshots rnd all = map (Snapshot rnd) all"

section \<open>Percentiles are ranks\<close>

text \<open>The reference: the first element of a sorted list whose rank satisfies a test.\<close>

fun pick :: "(nat \<Rightarrow> bool) \<Rightarrow> nat \<Rightarrow> nat list \<Rightarrow> nat option" where
  "pick rt n [] = None"
| "pick rt n (b # bs) = (if rt (Suc n) then Some b else pick rt (Suc n) bs)"

definition runs :: "(nat \<times> u64) list \<Rightarrow> nat list" where
  "runs cs = concat (map (\<lambda>(i, c). replicate (unat c) i) cs)"

lemma pick_replicate:
  assumes "mono rt"
  shows "pick rt n (replicate c i @ bs) = (if c > 0 \<and> rt (n + c) then Some i else pick rt (n + c) bs)"
proof (induction c arbitrary: n)
  case (Suc c)
  have "rt (n + Suc c)" if "rt (Suc n)" using that assms by (metis add_Suc_shift le_add1 le_boolD monoD)
  with Suc show ?case by (auto simp: le_bool_def)
qed simp

lemma pick_rank:
  "pick rt n bs = Some b \<Longrightarrow> \<exists>k < length bs. bs ! k = b \<and> rt (Suc (n + k)) \<and> (\<forall>m < k. \<not> rt (Suc (n + m)))"
proof (induction bs arbitrary: n)
  case (Cons a bs)
  show ?case
  proof (cases "rt (Suc n)")
    case True
    with Cons.prems show ?thesis by (intro exI [of _ 0]) auto
  next
    case False
    with Cons.prems have "pick rt (Suc n) bs = Some b" by simp
    from Cons.IH [OF this] obtain k where k: "k < length bs" "bs ! k = b" "rt (Suc (Suc n + k))"
      "\<forall>m < k. \<not> rt (Suc (Suc n + m))" by blast
    have "\<not> rt (Suc (n + m))" if "m < Suc k" for m
      using that k(4) False by (cases m) auto
    with k show ?thesis by (intro exI [of _ "Suc k"]) auto
  qed
qed simp

lemma walk_picks:
  assumes "\<And>t. mono (rt t)" and "\<And>t c. rch t c \<longleftrightarrow> rt t (unat c)"
    and "sorted_wrt (\<lambda>s t. \<forall>n. rt t n \<longrightarrow> rt s n) ts"
    and "unat cum + length (runs cs) < 2 ^ 64" and "\<And>t. t \<in> set ts \<Longrightarrow> \<not> rt t (unat cum)"
    and "\<And>t. t \<in> set ts \<Longrightarrow> rt t (unat cum + length (runs cs))"
  shows "percentile_walk rch cs cum ts out = out @ map (\<lambda>t. lowerBound (the (pick (rt t) (unat cum) (runs cs)))) ts"
  using assms(3-6)
proof (induction cs arbitrary: cum ts out)
  case Nil
  have "t \<notin> set ts" for t
    using Nil.prems(3) [of t] Nil.prems(4) [of t] by (auto simp: runs_def)
  then have "ts = []" by (metis list.set_intros(1) neq_Nil_conv)
  then show ?case by simp
next
  case (Cons a cs)
  obtain i c where a: "a = (i, c)" by (cases a)
  have runs: "runs (a # cs) = replicate (unat c) i @ runs cs" by (simp add: runs_def a)
  show ?case
  proof (cases "c = 0")
    case True
    with Cons a runs show ?thesis by simp
  next
    case False
    have u: "unat (cum + c) = unat cum + unat c"
      using Cons.prems(2) runs by (intro unat_add_lem [THEN iffD1]) simp
    have c0: "unat c > 0" using False by (simp add: unat_gt_0)
    let ?hit = "takeWhile (\<lambda>t. rch t (cum + c)) ts" and ?rest = "dropWhile (\<lambda>t. rch t (cum + c)) ts"
    have pk: "pick (rt t) (unat cum) (runs (a # cs)) =
        (if rt t (unat (cum + c)) then Some i else pick (rt t) (unat (cum + c)) (runs cs))" for t
      using c0 by (simp add: runs pick_replicate [OF assms(1)] u)
    have srest: "sorted_wrt (\<lambda>s t. \<forall>n. rt t n \<longrightarrow> rt s n) ?rest"
      using Cons.prems(1) by (simp add: dropWhile_eq_drop sorted_wrt_drop)
    have down: "\<not> rt t (unat (cum + c))" if "t \<in> set ?rest" for t
    proof -
      have "?rest \<noteq> []"
      proof
        assume "?rest = []"
        with that show False by (simp only: list.set(1) empty_iff)
      qed
      then obtain y ys where r: "?rest = y # ys" unfolding neq_Nil_conv by blast
      then have "\<not> rt y (unat (cum + c))"
        using hd_dropWhile [of "\<lambda>t. rch t (cum + c)" ts] assms(2) by (metis list.distinct(1) list.sel(1))
      moreover have "\<forall>t \<in> set ys. rt t (unat (cum + c)) \<longrightarrow> rt y (unat (cum + c))"
        using srest r by simp
      ultimately show ?thesis using that r by auto
    qed
    have hit: "map (\<lambda>t. lowerBound (the (pick (rt t) (unat cum) (runs (a # cs))))) ?hit = map (\<lambda>_. lowerBound i) ?hit"
      using assms(2) set_takeWhileD [of _ "\<lambda>t. rch t (cum + c)" ts] by (intro map_cong) (auto simp: pk)
    have rest: "map (\<lambda>t. lowerBound (the (pick (rt t) (unat cum) (runs (a # cs))))) ?rest
        = map (\<lambda>t. lowerBound (the (pick (rt t) (unat (cum + c)) (runs cs)))) ?rest"
      using down by (intro map_cong) (auto simp: pk)
    have ih: "percentile_walk rch cs (cum + c) ?rest out'
        = out' @ map (\<lambda>t. lowerBound (the (pick (rt t) (unat (cum + c)) (runs cs)))) ?rest" for out'
    proof (rule Cons.IH)
      show "sorted_wrt (\<lambda>s t. \<forall>n. rt t n \<longrightarrow> rt s n) ?rest" by (rule srest)
      show "unat (cum + c) + length (runs cs) < 2 ^ 64" using Cons.prems(2) runs u by simp
      show "t \<in> set ?rest \<Longrightarrow> \<not> rt t (unat (cum + c))" for t by (rule down)
      show "t \<in> set ?rest \<Longrightarrow> rt t (unat (cum + c) + length (runs cs))" for t
        using Cons.prems(4) [of t] runs u by (auto dest: set_dropWhileD simp: add.assoc)
    qed
    have "map f ts = map f ?hit @ map f ?rest" for f :: "rat \<Rightarrow> int"
      by (metis map_append takeWhile_dropWhile_id)
    then have whole: "map (\<lambda>t. lowerBound (the (pick (rt t) (unat cum) (runs (a # cs))))) ts
        = map (\<lambda>_. lowerBound i) ?hit @ map (\<lambda>t. lowerBound (the (pick (rt t) (unat (cum + c)) (runs cs)))) ?rest"
      using hit rest by simp
    have e: "drop (length ?hit) ts = ?rest" by (simp add: dropWhile_eq_drop)
    have "percentile_walk rch (a # cs) cum ts out =
        (if ?rest = [] then out @ map (\<lambda>_. lowerBound i) ?hit
         else percentile_walk rch cs (cum + c) ?rest (out @ map (\<lambda>_. lowerBound i) ?hit))"
      unfolding a percentile_walk.simps Let_def e using False by (simp only: if_False)
    also have "\<dots> = out @ map (\<lambda>t. lowerBound (the (pick (rt t) (unat cum) (runs (a # cs))))) ts"
      unfolding whole ih by (cases "?rest = []") (simp_all only: simp_thms if_True if_False list.map append_Nil2 append_assoc)
    finally show ?thesis .
  qed
qed


section \<open>A stage holds the histogram of what it observed\<close>

lemma bucketFor_range: "bucketFor ns < numBucket"
proof (cases "ns < 0")
  case True
  then show ?thesis by (simp add: bucketFor_def bucket_consts)
next
  case False
  with bucket_error_bound [of ns] show ?thesis by (simp add: bucket_consts)
qed

definition observe_all :: "int list \<Rightarrow> stage \<Rightarrow> stage" where
  "observe_all ds s = fold Observe ds s"

lemma observe_all_buckets:
  "length (sg_buckets (observe_all ds (new_stage name))) = numBucket \<and>
   sg_count (observe_all ds (new_stage name)) = of_nat (length ds) \<and>
   (\<forall>i < numBucket. sg_buckets (observe_all ds (new_stage name)) ! i = of_nat (count_list (map bucketFor ds) i))"
proof (induction ds rule: rev_induct)
  case Nil
  then show ?case by (simp add: observe_all_def new_stage_def)
next
  case (snoc d ds)
  with bucketFor_range [of d] show ?case
    by (auto simp: observe_all_def Observe_def nth_list_update)
qed

lemma runs_of_counts:
  assumes "\<And>i. i < n \<Longrightarrow> unat (f i) = count_list bs i" and "set bs \<subseteq> {..<n}"
  shows "runs (map (\<lambda>i. (i, f i)) [0..<n]) = sort bs"
proof -
  have r: "runs (map (\<lambda>i. (i, f i)) [0..<n]) = concat (map (\<lambda>i. replicate (count_list bs i) i) [0..<n])"
    using assms(1) by (auto simp: runs_def intro!: arg_cong [of _ _ concat])
  have srt: "sorted (concat (map (\<lambda>i. replicate (g i) i) [0..<m]))" for g :: "nat \<Rightarrow> nat" and m
    by (induction m) (auto simp: sorted_append)
  have cnt: "count (mset (concat (map (\<lambda>i. replicate (g i) i) [0..<m]))) x = (if x < m then g x else 0)" for g :: "nat \<Rightarrow> nat" and m x
    by (induction m) auto
  have "mset (concat (map (\<lambda>i. replicate (count_list bs i) i) [0..<n])) = mset bs"
  proof (rule multiset_eqI)
    fix x
    have "count_list bs x = 0" if "\<not> x < n" using that assms(2) by (auto simp: count_list_0_iff)
    then show "count (mset (concat (map (\<lambda>i. replicate (count_list bs i) i) [0..<n]))) x = count (mset bs) x"
      unfolding cnt by (simp add: count_mset)
  qed
  then show ?thesis using srt r by (metis properties_for_sort)
qed

lemma sort_map_bucket: "sort (map bucketFor ds) = map bucketFor (sort ds)"
proof (rule properties_for_sort)
  show "mset (map bucketFor (sort ds)) = mset (map bucketFor ds)" by simp
  show "sorted (map bucketFor (sort ds))"
    unfolding sorted_map by (rule sorted_wrt_mono_rel [OF _ sorted_sort]) (simp add: bucketFor_mono)
qed


text \<open>What IEEE 754 promises of rounding: monotone, idempotent, exact on a half and on small integers.\<close>

definition rounding :: "(rat \<Rightarrow> rat) \<Rightarrow> bool" where
  "rounding rnd \<longleftrightarrow> mono rnd \<and> (\<forall>n \<le> (100 :: nat). rnd (of_nat n) = of_nat n) \<and> rnd (1 / 2) = 1 / 2 \<and>
     (\<forall>x. rnd (rnd x) = rnd x)"

lemma roundingD:
  assumes "rounding rnd"
  shows "mono rnd" and "rnd 0 = 0" and "rnd 1 = 1" and "rnd 50 = 50" and "rnd 100 = 100"
    and "rnd (1 / 2) = 1 / 2" and "rnd (rnd x) = rnd x"
proof -
  have n: "rnd (of_nat n) = of_nat n" if "n \<le> 100" for n
    using assms that unfolding rounding_def by blast
  show "rnd 0 = 0" "rnd 1 = 1" "rnd 50 = 50" "rnd 100 = 100"
    using n [of 0] n [of 1] n [of 50] n [of 100] by simp_all
qed (use assms in \<open>simp_all add: rounding_def\<close>)

lemma reached_mono:
  assumes "rounding rnd" and "m \<le> n" and "reached rnd tot p (of_nat m)" and "n < 2 ^ 64"
  shows "reached rnd tot p (of_nat n)"
proof -
  have "unat (of_nat m :: u64) = m" "unat (of_nat n :: u64) = n"
    using assms(2,4) by (simp_all add: unsigned_of_nat take_bit_nat_eq_self)
  then have "rnd (of_nat (unat (of_nat m :: u64))) \<le> rnd (of_nat (unat (of_nat n :: u64)))"
    using assms(2) by (intro monoD [OF roundingD(1) [OF assms(1)]]) simp
  with assms(3) show ?thesis unfolding reached_def by (rule order_trans)
qed

lemma reached_total:
  assumes "rounding rnd" and "p \<le> 100"
  shows "reached rnd tot p tot"
proof -
  note r = roundingD(1,3,5,7,2) [OF assms(1)]
  have "rnd p \<le> 100" using monoD [OF r(1) assms(2)] r(3) by simp
  then have "rnd (rnd p / 100) \<le> 1" using monoD [OF r(1), of "rnd p / 100" 1] r(2) by simp
  moreover have "0 \<le> rnd (of_nat (unat tot))"
    using monoD [OF r(1) of_nat_0_le_iff [of "unat tot"]] unfolding r(5) .
  ultimately have "rnd (rnd p / 100) * rnd (of_nat (unat tot)) \<le> 1 * rnd (of_nat (unat tot))"
    by (rule mult_right_mono)
  then have "rnd (rnd (rnd p / 100) * rnd (of_nat (unat tot))) \<le> rnd (rnd (of_nat (unat tot)))"
    using monoD [OF r(1)] by simp
  then show ?thesis by (simp add: reached_def r(4))
qed

lemma reached_zero:
  assumes "rounding rnd" and "50 \<le> p" and "tot \<noteq> 0"
  shows "\<not> reached rnd tot p 0"
proof -
  note r = roundingD(1,3,4,2,6) [OF assms(1)]
  have "50 \<le> rnd p" using monoD [OF r(1) assms(2)] r(3) by simp
  then have a: "1 / 2 \<le> rnd (rnd p / 100)" using monoD [OF r(1), of "1 / 2" "rnd p / 100"] r(5) by simp
  have "1 \<le> unat tot" using assms(3) by (simp add: Suc_le_eq unat_gt_0)
  then have "(1 :: rat) \<le> of_nat (unat tot)" by (metis of_nat_1 of_nat_le_iff)
  from monoD [OF r(1) this] have b: "1 \<le> rnd (of_nat (unat tot))" unfolding r(2) .
  from mult_mono [OF a b] a have "1 / 2 \<le> rnd (rnd p / 100) * rnd (of_nat (unat tot))" by simp
  from monoD [OF r(1) this] have "1 / 2 \<le> rnd (rnd (rnd p / 100) * rnd (of_nat (unat tot)))" unfolding r(5) .
  then show ?thesis unfolding reached_def using r(4) by auto
qed

lemma reached_order:
  assumes "rounding rnd" and "p \<le> q" and "reached rnd tot q c"
  shows "reached rnd tot p c"
proof -
  note r = roundingD(1,2) [OF assms(1)]
  have "rnd p \<le> rnd q" by (rule monoD [OF r(1) assms(2)])
  then have "rnd (rnd p / 100) \<le> rnd (rnd q / 100)" by (intro monoD [OF r(1)]) (simp add: divide_right_mono)
  moreover have "0 \<le> rnd (of_nat (unat tot))"
    using monoD [OF r(1) of_nat_0_le_iff [of "unat tot"]] unfolding r(2) .
  ultimately have "rnd (rnd p / 100) * rnd (of_nat (unat tot)) \<le> rnd (rnd q / 100) * rnd (of_nat (unat tot))"
    by (rule mult_right_mono)
  from monoD [OF r(1) this] assms(3) show ?thesis unfolding reached_def by (rule order_trans)
qed


section \<open>Snapshots\<close>

lemma sum_list_bump: "i < length xs \<Longrightarrow> sum_list (xs[i := xs ! i + 1]) = sum_list xs + (1 :: u64)"
proof (induction xs arbitrary: i)
  case (Cons x xs)
  then show ?case by (cases i) (auto simp: add.commute add.left_commute)
qed simp

lemma observe_all_sum: "sum_list (sg_buckets (observe_all ds (new_stage name))) = of_nat (length ds)"
proof (induction ds rule: rev_induct)
  case Nil
  then show ?case by (simp add: observe_all_def new_stage_def sum_list_replicate)
next
  case (snoc d ds)
  let ?s = "observe_all ds (new_stage name)"
  have "bucketFor d < length (sg_buckets ?s)"
    using bucketFor_range [of d] observe_all_buckets [of ds name] by simp
  from sum_list_bump [OF this] have "sum_list (sg_buckets (Observe d ?s)) = sum_list (sg_buckets ?s) + 1"
    by (simp add: Observe_def)
  with snoc show ?case by (simp add: observe_all_def)
qed

lemma enumerate_upt: "enumerate 0 xs = map (\<lambda>i. (i, xs ! i)) [0..<length xs]"
  by (rule nth_equalityI) (simp_all add: nth_enumerate_eq)

lemma mono_reached:
  assumes "rounding rnd"
  shows "mono (\<lambda>n. reached rnd tot p (of_nat (min n (2 ^ 64 - 1))))"
proof (rule monoI)
  fix x y :: nat
  assume "x \<le> y"
  then have "min x (2 ^ 64 - 1) \<le> min y (2 ^ 64 - 1)" "min y (2 ^ 64 - 1) < (2 :: nat) ^ 64" by auto
  from reached_mono [OF assms this(1) _ this(2)]
  show "reached rnd tot p (of_nat (min x (2 ^ 64 - 1))) \<le> reached rnd tot p (of_nat (min y (2 ^ 64 - 1)))"
    by (simp only: le_bool_def) blast
qed

text \<open>The percentiles of a stage that has observed \<open>ds\<close>, as bucket edges.\<close>

definition rank_edge :: "(rat \<Rightarrow> rat) \<Rightarrow> int list \<Rightarrow> rat \<Rightarrow> int \<Rightarrow> bool" where
  "rank_edge rnd ds p e \<longleftrightarrow> (\<exists>k < length ds. e = lowerBound (bucketFor (sort ds ! k)) \<and>
     reached rnd (of_nat (length ds)) p (of_nat (Suc k)) \<and> \<not> reached rnd (of_nat (length ds)) p (of_nat k))"

lemma walk_ranks:
  assumes "rounding rnd" and "ds \<noteq> []" and "length ds < 2 ^ 64"
  shows "\<exists>es. percentile_walk (reached rnd (of_nat (length ds)))
      (enumerate 0 (sg_buckets (observe_all ds (new_stage name)))) 0 targets [] = es \<and> length es = 4 \<and>
    (\<forall>j < 4. rank_edge rnd ds (targets ! j) (es ! j))"
proof -
  let ?tot = "of_nat (length ds) :: u64"
  let ?cs = "enumerate 0 (sg_buckets (observe_all ds (new_stage name)))"
  let ?bs = "map bucketFor (sort ds)"
  define rt where "rt p n = reached rnd ?tot p (of_nat (min n (2 ^ 64 - 1)))" for p n
  have cnt: "unat (sg_buckets (observe_all ds (new_stage name)) ! i) = count_list (map bucketFor ds) i" if "i < numBucket" for i
  proof -
    have "count_list (map bucketFor ds) i < 2 ^ 64"
      using assms(3) count_le_length [of "map bucketFor ds" i] by simp
    with observe_all_buckets [of ds name] that show ?thesis
      by (simp add: unsigned_of_nat take_bit_nat_eq_self)
  qed
  have len: "length (sg_buckets (observe_all ds (new_stage name))) = numBucket"
    using observe_all_buckets [of ds name] by simp
  have "runs ?cs = sort (map bucketFor ds)"
    unfolding enumerate_upt len by (rule runs_of_counts [OF cnt]) (use bucketFor_range in auto)
  then have runs: "runs ?cs = ?bs" by (simp add: sort_map_bucket)
  have t: "unat ?tot = length ds" using assms(3) by (simp add: unsigned_of_nat take_bit_nat_eq_self)
  have t0: "?tot \<noteq> 0" using assms(2) t by (metis length_0_conv unat_0)
  have rt_eq: "reached rnd ?tot p c \<longleftrightarrow> rt p (unat c)" for p c
  proof -
    have "unat c < 2 ^ LENGTH(64)" by (rule unsigned_less)
    then have "unat c \<le> 2 ^ 64 - 1" by simp
    then show ?thesis by (simp add: rt_def min_def)
  qed
  have pcts: "p \<in> set targets \<Longrightarrow> 50 \<le> p \<and> p \<le> 100" for p by (auto simp: targets_def)
  have w: "percentile_walk (reached rnd ?tot) ?cs 0 targets [] =
      [] @ map (\<lambda>p. lowerBound (the (pick (rt p) (unat (0 :: u64)) (runs ?cs)))) targets"
  proof (rule walk_picks)
    show "mono (rt p)" for p unfolding rt_def by (rule mono_reached [OF assms(1)])
    show "reached rnd ?tot p c \<longleftrightarrow> rt p (unat c)" for p c by (rule rt_eq)
    show "sorted_wrt (\<lambda>s t. \<forall>n. rt t n \<longrightarrow> rt s n) targets"
    proof -
      have o: "rt q n \<Longrightarrow> p \<le> q \<Longrightarrow> rt p n" for p q n
        unfolding rt_def by (rule reached_order [OF assms(1)])
      show ?thesis unfolding targets_def by simp (intro conjI allI impI; erule o; simp)
    qed
    show "unat (0 :: u64) + length (runs ?cs) < 2 ^ 64" using assms(3) runs by simp
    show "\<not> rt p (unat (0 :: u64))" if "p \<in> set targets" for p
      using reached_zero [OF assms(1) _ t0, of p] pcts [OF that] by (simp add: rt_def)
    show "rt p (unat (0 :: u64) + length (runs ?cs))" if "p \<in> set targets" for p
      using reached_total [OF assms(1), of p ?tot] pcts [OF that] rt_eq [of p ?tot] t runs by simp
  qed
  have rank: "rank_edge rnd ds p (lowerBound (the (pick (rt p) 0 ?bs)))" if "p \<in> set targets" for p
  proof -
    have "\<exists>b. pick r n bs = Some b" if "r (n + length bs)" "bs \<noteq> []" for r n bs
      using that
    proof (induction bs arbitrary: n)
      case (Cons b bs)
      then show ?case by (cases bs) auto
    qed simp
    moreover have "rt p (0 + length ?bs)"
      using reached_total [OF assms(1), of p ?tot] pcts [OF that] rt_eq [of p ?tot] t by simp
    ultimately obtain b where b: "pick (rt p) 0 ?bs = Some b"
      using assms(2) by (metis length_0_conv length_map length_sort)
    from pick_rank [OF b] obtain k where k: "k < length ds" "bucketFor (sort ds ! k) = b" "rt p (Suc k)"
      "\<forall>m < k. \<not> rt p (Suc m)" by auto
    have le: "min (Suc k) (2 ^ 64 - 1) = Suc k" "min k (2 ^ 64 - 1) = k" using k(1) assms(3) by simp_all
    have "\<not> rt p k"
    proof (cases k)
      case 0
      then show ?thesis using reached_zero [OF assms(1) _ t0, of p] pcts [OF that] by (simp add: rt_def)
    qed (use k(4) in simp)
    with k le b show ?thesis unfolding rank_edge_def rt_def by auto
  qed
  have "\<forall>j < 4. rank_edge rnd ds (targets ! j)
      (map (\<lambda>p. lowerBound (the (pick (rt p) (unat (0 :: u64)) (runs ?cs)))) targets ! j)"
    using rank runs by (auto simp: targets_def less_Suc_eq numeral_eq_Suc)
  with w show ?thesis by (simp add: targets_def)
qed

text \<open>
   A reported percentile is the low edge of the bucket of the true percentile.  After
  any durations have been observed, each of the four figures is (in microseconds) the low
  edge of the bucket that holds the element of that rank of the sorted durations: the first
  rank whose share of the count reaches the percentage.
\<close>

theorem snapshot_percentiles:
  assumes "rounding rnd" and "ds \<noteq> []" and "length ds < 2 ^ 64"
    and "sn = Snapshot rnd (observe_all ds (new_stage name))"
  shows "sn_Count sn = of_nat (length ds) \<and>
     (\<forall>j < 4. \<exists>e. rank_edge rnd ds (targets ! j) e \<and>
        [sn_P50US sn, sn_P90US sn, sn_P99US sn, sn_P999US sn] ! j = rnd (rnd (of_int e) / 1000))"
proof -
  let ?s = "observe_all ds (new_stage name)"
  have t: "sg_count ?s = of_nat (length ds)" "sum_list (sg_buckets ?s) = of_nat (length ds)"
    using observe_all_buckets [of ds name] observe_all_sum [of ds name] by simp_all
  have t0: "(of_nat (length ds) :: u64) \<noteq> 0"
  proof
    assume "(of_nat (length ds) :: u64) = 0"
    then have "unat (of_nat (length ds) :: u64) = 0" by simp
    with assms(2,3) show False by (simp add: unsigned_of_nat take_bit_nat_eq_self)
  qed
  from walk_ranks [OF assms(1-3), of name] obtain es where es:
    "percentile_walk (reached rnd (of_nat (length ds))) (enumerate 0 (sg_buckets ?s)) 0 targets [] = es"
    "length es = 4" "\<forall>j < 4. rank_edge rnd ds (targets ! j) (es ! j)" by blast
  have "sn_Count sn = of_nat (length ds)" "[sn_P50US sn, sn_P90US sn, sn_P99US sn, sn_P999US sn] = map (edge_at rnd es) [0..<4]"
    using t0 unfolding assms(4) Snapshot_def Let_def t es(1) by (simp_all add: numeral_eq_Suc)
  then show ?thesis using es(2,3) by (auto simp: edge_at_def intro!: exI)
qed

theorem snapshot_percentiles_witness:
  "\<exists>e. rank_edge (\<lambda>x. x) [5, 900] 50 e \<and>
     sn_P50US (Snapshot (\<lambda>x. x) (observe_all [5, 900] (new_stage ''decide''))) = of_int e / 1000"
proof -
  have "rounding (\<lambda>x. x)" by (simp add: rounding_def mono_def)
  from snapshot_percentiles [OF this, of "[5, 900]" _ "''decide''", OF _ _ refl, THEN conjunct2, THEN spec, of 0]
  show ?thesis by (auto simp: targets_def)
qed

theorem bucket_error_bound_witness:
  "16 * (1000 - lowerBound (bucketFor 1000)) < lowerBound (bucketFor 1000)"
  using bucket_error_bound [of 1000] by simp

theorem bucket_roundtrip_witness: "bucketFor (lowerBound 111) = 111"
  by (rule bucket_roundtrip) (simp add: bucket_consts)

end
