(* ===== verification/Json.thy ===== *)
theory Json
  imports Prelude
begin

text \<open>
  What the sources use of \<open>encoding/json\<close>: the scanner with its nesting limit, the bytes of
  each element as \<open>json.RawMessage\<close> keeps them, the decoding of string literals and of
  objects into structs, and the compaction of \<open>json.Marshal\<close> on raw messages.

  The parser runs on fuel; twice the length of the input is always enough.  A value keeps
  the text of its literals and, for each child, the exact bytes of the child.
\<close>

section \<open>Bytes\<close>

abbreviation quote :: char where "quote \<equiv> CHR 0x22"
abbreviation backslash :: char where "backslash \<equiv> CHR 0x5C"

definition is_ws :: "char \<Rightarrow> bool" where
  "is_ws c \<longleftrightarrow> c \<in> {CHR '' '', CHR 0x09, CHR 0x0A, CHR 0x0D}"

definition skip_ws :: "string \<Rightarrow> string" where "skip_ws s = dropWhile is_ws s"

definition is_digit :: "char \<Rightarrow> bool" where
  "is_digit c \<longleftrightarrow> c \<in> set ''0123456789''"

definition is_hex :: "char \<Rightarrow> bool" where
  "is_hex c \<longleftrightarrow> c \<in> set ''0123456789abcdefABCDEF''"

definition hex_val :: "char \<Rightarrow> nat" where
  "hex_val c = (let n = of_char c in if n \<le> 57 then n - 48 else if n \<le> 70 then n - 55 else n - 87)"

definition hex4 :: "string \<Rightarrow> nat" where
  "hex4 s = foldl (\<lambda>a c. a * 16 + hex_val c) 0 (take 4 s)"

section \<open>UTF-8\<close>

definition cont :: "int \<Rightarrow> bool" where "cont b \<longleftrightarrow> 128 \<le> b \<and> b \<le> 191"

text \<open>\<open>utf8.DecodeRune\<close>: the width of the rune in front, 0 when the bytes encode none.\<close>

definition utf8_width :: "string \<Rightarrow> nat" where
  "utf8_width s =
     (let b = map of_char (take 4 s) :: int list in
      case b of
        [] \<Rightarrow> 0
      | b0 # bs \<Rightarrow>
          if b0 < 128 then 1
          else if 194 \<le> b0 \<and> b0 \<le> 223 then
            (case bs of b1 # _ \<Rightarrow> if cont b1 then 2 else 0 | _ \<Rightarrow> 0)
          else if 224 \<le> b0 \<and> b0 \<le> 239 then
            (case bs of b1 # b2 # _ \<Rightarrow>
               if cont b1 \<and> cont b2 \<and> (b0 = 224 \<longrightarrow> 160 \<le> b1) \<and> (b0 = 237 \<longrightarrow> b1 \<le> 159) then 3 else 0
             | _ \<Rightarrow> 0)
          else if 240 \<le> b0 \<and> b0 \<le> 244 then
            (case bs of b1 # b2 # b3 # _ \<Rightarrow>
               if cont b1 \<and> cont b2 \<and> cont b3 \<and> (b0 = 240 \<longrightarrow> 144 \<le> b1) \<and> (b0 = 244 \<longrightarrow> b1 \<le> 143) then 4 else 0
             | _ \<Rightarrow> 0)
          else 0)"

definition utf8_enc :: "nat \<Rightarrow> string" where
  "utf8_enc r =
     (if r < 128 then bytes [r]
      else if r < 2048 then bytes [192 + r div 64, 128 + r mod 64]
      else if r < 65536 then bytes [224 + r div 4096, 128 + r div 64 mod 64, 128 + r mod 64]
      else bytes [240 + r div 262144, 128 + r div 4096 mod 64, 128 + r div 64 mod 64, 128 + r mod 64])"

text \<open>The encoding of U+FFFD, which stands for what cannot be decoded.\<close>

definition fffd :: string where "fffd = [CHR 0xEF, CHR 0xBF, CHR 0xBD]"

lemma utf8_width_le: "utf8_width s \<le> length s"
  by (cases s rule: remdups_adj.cases; cases "tl (tl s)"; cases "tl (tl (tl s))")
    (auto simp: utf8_width_def Let_def split: list.splits if_splits)

section \<open>String literals\<close>

definition esc_ok :: "char \<Rightarrow> bool" where
  "esc_ok c \<longleftrightarrow> c \<in> {quote, backslash, CHR ''/'', CHR ''b'', CHR ''f'', CHR ''n'', CHR ''r'', CHR ''t''}"

text \<open>The literal after its opening quote: its text up to the closing quote, and what follows.\<close>

fun scan_str :: "string \<Rightarrow> (string \<times> string) option" where
  "scan_str [] = None"
| "scan_str (c # s) =
     (if c = quote then Some ([], s)
      else if c = backslash then
        (case s of
           [] \<Rightarrow> None
         | e # t \<Rightarrow>
             if esc_ok e then map_option (\<lambda>(l, r). (c # e # l, r)) (scan_str t)
             else if e = CHR ''u'' then
               (if length (take 4 t) = 4 \<and> list_all is_hex (take 4 t)
                then map_option (\<lambda>(l, r). (c # e # l, r)) (scan_str t) else None)
             else None)
      else if (of_char c :: int) < 32 then None
      else map_option (\<lambda>(l, r). (c # l, r)) (scan_str s))"

definition esc_char :: "char \<Rightarrow> char" where
  "esc_char c =
     (if c = CHR ''b'' then CHR 0x08 else if c = CHR ''f'' then CHR 0x0C else if c = CHR ''n'' then CHR 0x0A
      else if c = CHR ''r'' then CHR 0x0D else if c = CHR ''t'' then CHR 0x09 else c)"

text \<open>
  \<open>unquote\<close>: escapes are decoded, surrogate pairs joined, and whatever is not UTF-8, a lone
  surrogate included, becomes U+FFFD.
\<close>

function unquote :: "string \<Rightarrow> string" where
  "unquote s =
     (case s of
        [] \<Rightarrow> []
      | c # t \<Rightarrow>
          if c = backslash then
            (case t of
               [] \<Rightarrow> []
             | e # u \<Rightarrow>
                 if e = CHR ''u'' then
                   (let r = hex4 u; w = drop 4 u in
                    if 55296 \<le> r \<and> r < 57344 then
                      (let r1 = hex4 (drop 2 w) in
                       if has_prefix w [backslash, CHR ''u''] \<and> r < 56320 \<and> 56320 \<le> r1 \<and> r1 < 57344
                       then utf8_enc ((r - 55296) * 1024 + (r1 - 56320) + 65536) @ unquote (drop 6 w)
                       else fffd @ unquote w)
                    else utf8_enc r @ unquote w)
                 else esc_char e # unquote u)
          else if utf8_width s = 0 then fffd @ unquote t
          else take (utf8_width s) s @ unquote (drop (utf8_width s) s))"
  by pat_completeness auto

termination unquote by (relation "measure length") auto

declare unquote.simps [simp del]

section \<open>Numbers\<close>

definition numchar :: "char \<Rightarrow> bool" where
  "numchar c \<longleftrightarrow> is_digit c \<or> c \<in> {CHR ''-'', CHR ''+'', CHR ''.'', CHR ''e'', CHR ''E''}"

definition exp_ok :: "string \<Rightarrow> bool" where
  "exp_ok s =
     (case s of
        [] \<Rightarrow> True
      | c # u \<Rightarrow>
          c \<in> {CHR ''e'', CHR ''E''} \<and>
          (let u = (if u \<noteq> [] \<and> hd u \<in> {CHR ''+'', CHR ''-''} then tl u else u)
           in u \<noteq> [] \<and> list_all is_digit u))"

definition num_ok :: "string \<Rightarrow> bool" where
  "num_ok l =
     (let s = (if l \<noteq> [] \<and> hd l = CHR ''-'' then tl l else l);
          i = takeWhile is_digit s; s = dropWhile is_digit s
      in i \<noteq> [] \<and> (i = ''0'' \<or> hd i \<noteq> CHR ''0'') \<and>
         (if s \<noteq> [] \<and> hd s = CHR ''.''
          then takeWhile is_digit (tl s) \<noteq> [] \<and> exp_ok (dropWhile is_digit (tl s))
          else exp_ok s))"

section \<open>Values\<close>

text \<open>Children come with their bytes; an object's members with the text of their key.\<close>

datatype json =
    JNull | JTrue | JFalse
  | JNum string
  | JStr string
  | JArr "(string \<times> json) list"
  | JObj "(string \<times> string \<times> json) list"

definition maxNestingDepth :: int where "maxNestingDepth = 10000"

definition expect :: "char \<Rightarrow> string \<Rightarrow> string option" where
  "expect c s = (case skip_ws s of [] \<Rightarrow> None | d # r \<Rightarrow> if d = c then Some r else None)"

definition jlit :: "string \<Rightarrow> (json \<times> string) option" where
  "jlit t =
     (if has_prefix t ''null'' then Some (JNull, drop 4 t)
      else if has_prefix t ''true'' then Some (JTrue, drop 4 t)
      else if has_prefix t ''false'' then Some (JFalse, drop 5 t)
      else if num_ok (takeWhile numchar t) then Some (JNum (takeWhile numchar t), dropWhile numchar t)
      else None)"

type_synonym 'a parser = "int \<Rightarrow> string \<Rightarrow> ('a \<times> string) option"

text \<open>
  Parsers take the nesting depth that is left.  An array element is a value with its bytes, a
  member a key and an element; a sequence ends in its closing bracket or goes on after a
  comma; an array or object is empty or such a sequence, one level deeper.
\<close>

definition jelem :: "json parser \<Rightarrow> (string \<times> json) parser" where
  "jelem g d s =
     (let t = skip_ws s
      in map_option (\<lambda>(v, r). ((take (length t - length r) t, v), r)) (g d t))"

definition jmember :: "json parser \<Rightarrow> (string \<times> string \<times> json) parser" where
  "jmember g d s =
     (case Option.bind (expect quote s) scan_str of
        None \<Rightarrow> None
      | Some (k, u) \<Rightarrow>
          (case expect (CHR '':'') u of
             None \<Rightarrow> None
           | Some w \<Rightarrow> map_option (\<lambda>(x, r). ((k, x), r)) (jelem g d w)))"

definition jsep :: "char \<Rightarrow> 'a parser \<Rightarrow> 'a list parser \<Rightarrow> 'a list parser" where
  "jsep cl g f d s =
     (case g d s of
        None \<Rightarrow> None
      | Some (x, r) \<Rightarrow>
          (case expect cl r of
             Some r' \<Rightarrow> Some ([x], r')
           | None \<Rightarrow>
               (case expect (CHR '','') r of
                  Some r' \<Rightarrow> map_option (\<lambda>(xs, q). (x # xs, q)) (f d r')
                | None \<Rightarrow> None)))"

definition jbody :: "char \<Rightarrow> 'a list parser \<Rightarrow> 'a list parser" where
  "jbody cl f d u =
     (if d \<le> 0 then None
      else case expect cl u of Some r \<Rightarrow> Some ([], r) | None \<Rightarrow> f (d - 1) u)"

definition jstep :: "(string \<times> json) list parser \<Rightarrow> (string \<times> string \<times> json) list parser \<Rightarrow> json parser" where
  "jstep es ms d t =
     (case t of
        [] \<Rightarrow> None
      | c # u \<Rightarrow>
          if c = quote then map_option (\<lambda>(l, r). (JStr l, r)) (scan_str u)
          else if c = CHR ''['' then map_option (\<lambda>(xs, r). (JArr xs, r)) (jbody (CHR '']'') es d u)
          else if c = CHR ''{'' then map_option (\<lambda>(xs, r). (JObj xs, r)) (jbody (CHR ''}'') ms d u)
          else jlit t)"

fun jval :: "nat \<Rightarrow> json parser"
  and jelems :: "nat \<Rightarrow> (string \<times> json) list parser"
  and jmembers :: "nat \<Rightarrow> (string \<times> string \<times> json) list parser" where
  "jval 0 d t = None"
| "jval (Suc n) d t = jstep (jelems n) (jmembers n) d t"
| "jelems 0 d s = None"
| "jelems (Suc n) d s = jsep (CHR '']'') (jelem (jval n)) (jelems n) d s"
| "jmembers 0 d s = None"
| "jmembers (Suc n) d s = jsep (CHR ''}'') (jmember (jval n)) (jmembers n) d s"

lemma jparse_0: "jval 0 = (\<lambda>d t. None)" "jelems 0 = (\<lambda>d s. None)" "jmembers 0 = (\<lambda>d s. None)"
  by (intro ext; simp)+

lemma jparse_Suc:
  "jval (Suc n) = jstep (jelems n) (jmembers n)"
  "jelems (Suc n) = jsep (CHR '']'') (jelem (jval n)) (jelems n)"
  "jmembers (Suc n) = jsep (CHR ''}'') (jmember (jval n)) (jmembers n)"
  by (intro ext; simp)+

definition json_parse :: "string \<Rightarrow> json option" where
  "json_parse s =
     (let t = skip_ws s in
      case jval (2 * length t + 1) maxNestingDepth t of
        Some (v, r) \<Rightarrow> if skip_ws r = [] then Some v else None
      | None \<Rightarrow> None)"


section \<open>The parser reads a value wherever it stands\<close>

lemma take4_hex:
  assumes "length (take 4 (l @ quote # r)) = 4" and "list_all is_hex (take 4 (l @ quote # r))"
  shows "4 \<le> length l"
proof (rule ccontr)
  assume "\<not> ?thesis"
  then have "quote \<in> set (take 4 (l @ quote # r))" by (cases "4 - length l") (auto simp: take_Cons')
  with assms(2) have "is_hex quote" by (simp add: list_all_iff)
  then show False by (simp add: is_hex_def is_digit_def)
qed

lemma scan_str_local:
  "scan_str s = Some (l, r) \<Longrightarrow> s = l @ quote # r \<and> scan_str (l @ quote # r') = Some (l, r')"
proof (induction s arbitrary: l rule: scan_str.induct)
  case 1
  then show ?case by simp
next
  case (2 c s)
  show ?case
  proof (cases "c = quote")
    case True
    with 2 show ?thesis by simp
  next
    case nq: False
    show ?thesis
    proof (cases "c = backslash")
      case False
      with 2 nq show ?thesis by (auto split: if_splits)
    next
      case bs: True
      with nq 2(4) obtain e t where s: "s = e # t" by (auto split: list.splits)
      show ?thesis
      proof (cases "esc_ok e")
        case True
        with 2(4) nq bs s obtain m where m: "scan_str t = Some (m, r)" "l = c # e # m" by auto
        with 2(1) [OF nq bs s True] have "t = m @ quote # r \<and> scan_str (m @ quote # r') = Some (m, r')" by blast
        with m nq bs s True show ?thesis by simp
      next
        case False
        with 2(4) nq bs s have u: "e = CHR ''u''" "length (take 4 t) = 4 \<and> list_all is_hex (take 4 t)"
          by (auto split: if_splits)
        with 2(4) nq bs s False obtain m where m: "scan_str t = Some (m, r)" "l = c # e # m" by auto
        with 2(2) [OF nq bs s False u] have ih: "t = m @ quote # r" "scan_str (m @ quote # r') = Some (m, r')" by blast+
        with u(2) have "4 \<le> length m" using take4_hex [of m r] by blast
        then have four: "take 4 (m @ q) = take 4 m" "length (take 4 m) = 4" for q by simp_all
        have "list_all is_hex (take 4 m)" using u(2) unfolding ih(1) four by simp
        then have "length (take 4 (m @ quote # r')) = 4 \<and> list_all is_hex (take 4 (m @ quote # r'))" unfolding four by simp
        then have "scan_str (c # e # m @ quote # r') = Some (l, r')"
          using m(2) ih(2) nq bs s u(1) False by (simp del: length_take)
        with m(2) ih(1) s show ?thesis by simp
      qed
    qed
  qed
qed

lemmas scan_str_eq = scan_str_local [THEN conjunct1]
lemmas scan_str_app = scan_str_local [THEN conjunct2]

lemma skip_ws_app: "skip_ws b \<noteq> [] \<Longrightarrow> skip_ws (b @ r) = skip_ws b @ r"
  by (simp add: skip_ws_def dropWhile_append) (metis dropWhile_eq_Nil_conv)

lemma skip_ws_split: "\<exists>w. s = w @ skip_ws s \<and> (\<forall>c \<in> set w. is_ws c)"
  by (rule exI [of _ "takeWhile is_ws s"]) (auto simp: skip_ws_def dest: set_takeWhileD)

lemma skip_ws_hd: "skip_ws s = c # r \<Longrightarrow> \<not> is_ws c"
  using hd_dropWhile [of is_ws s] by (simp add: skip_ws_def)

lemma skip_ws_id: "s \<noteq> [] \<Longrightarrow> \<not> is_ws (hd s) \<Longrightarrow> skip_ws s = s"
  by (cases s) (auto simp: skip_ws_def)

lemma skip_ws_ws: "\<forall>c \<in> set w. is_ws c \<Longrightarrow> skip_ws (w @ s) = skip_ws s"
  by (simp add: skip_ws_def)

lemma skip_ws_length: "length (skip_ws s) \<le> length s"
  by (simp add: skip_ws_def length_dropWhile_le)

lemma skip_ws_idem [simp]: "skip_ws (skip_ws s) = skip_ws s"
  by (simp add: skip_ws_def)

text \<open>\<open>expect\<close> consumes some text \<open>b\<close>, and what comes after does not matter to it.\<close>

lemma expect_local:
  "expect c s = Some r \<Longrightarrow> \<exists>b. s = b @ r \<and> skip_ws b = [c] \<and> (\<forall>r'. expect c (b @ r') = Some r') \<and>
     (\<forall>c' r'. c' \<noteq> c \<longrightarrow> expect c' (b @ r') = None)"
proof -
  assume e: "expect c s = Some r"
  then have s: "skip_ws s = c # r" by (auto simp: expect_def split: list.splits if_splits)
  obtain w where w: "s = w @ c # r" "\<forall>x \<in> set w. is_ws x" using skip_ws_split [of s] s by auto
  have nw: "\<not> is_ws c" using skip_ws_hd [OF s] .
  then have k: "skip_ws (w @ c # q) = c # q" for q
    using skip_ws_ws [OF w(2), of "c # q"] by (simp add: skip_ws_id)
  then show ?thesis using w by (intro exI [of _ "w @ [c]"]) (simp add: expect_def k)
qed

lemma expect_localE:
  assumes "expect c s = Some r"
  obtains b where "s = b @ r" "skip_ws b = [c]" "\<And>r'. expect c (b @ r') = Some r'"
    "\<And>c' r'. c' \<noteq> c \<Longrightarrow> expect c' (b @ r') = None"
  using expect_local [OF assms] by metis

text \<open>What may follow a number: anything that is not itself a character of numbers.\<close>

definition jstop :: "string \<Rightarrow> bool" where "jstop r \<longleftrightarrow> (r = [] \<or> \<not> numchar (hd r))"

lemma is_ws_numchar: "is_ws c \<Longrightarrow> \<not> numchar c"
  by (auto simp: is_ws_def numchar_def is_digit_def)

lemma stop_expect:
  assumes "expect c s = Some r" and "\<not> numchar c"
  shows "jstop s"
proof (cases s)
  case (Cons x q)
  show ?thesis
  proof (cases "is_ws x")
    case True
    with Cons show ?thesis using is_ws_numchar by (simp add: jstop_def)
  next
    case False
    with Cons assms show ?thesis by (auto simp: expect_def skip_ws_id jstop_def split: if_splits)
  qed
qed (simp add: jstop_def)

lemma lit_local:
  assumes "jlit t = Some (v, r)"
  shows "\<exists>b. t = b @ r \<and> b \<noteq> [] \<and> \<not> is_ws (hd b) \<and> (\<forall>r'. jstop r' \<longrightarrow> jlit (b @ r') = Some (v, r'))"
proof -
  have word: "\<exists>b. t = b @ r \<and> b \<noteq> [] \<and> \<not> is_ws (hd b) \<and> (\<forall>r'. jstop r' \<longrightarrow> jlit (b @ r') = Some (v, r'))"
    if "has_prefix t k" "r = drop (length k) t" "k = ''null'' \<and> v = JNull \<or> k = ''true'' \<and> v = JTrue \<or> k = ''false'' \<and> v = JFalse" for k
  proof -
    have "t = k @ r" using that(1,2) unfolding has_prefix_def by (metis append_take_drop_id)
    then show ?thesis using that(3) by (intro exI [of _ k]) (auto simp: has_prefix_def jlit_def is_ws_def)
  qed
  show ?thesis
  proof (cases "has_prefix t ''null'' \<or> has_prefix t ''true'' \<or> has_prefix t ''false''")
    case True
    then consider "has_prefix t ''null''" | "\<not> has_prefix t ''null''" "has_prefix t ''true''"
      | "\<not> has_prefix t ''null''" "\<not> has_prefix t ''true''" "has_prefix t ''false''" by blast
    then show ?thesis
    proof cases
      case 1 with assms show ?thesis by (intro word [of "''null''"]) (auto simp: jlit_def numeral_eq_Suc)
    next
      case 2 with assms show ?thesis by (intro word [of "''true''"]) (auto simp: jlit_def numeral_eq_Suc)
    next
      case 3 with assms show ?thesis by (intro word [of "''false''"]) (auto simp: jlit_def numeral_eq_Suc)
    qed
  next
    case False
    let ?b = "takeWhile numchar t"
    from False assms have n: "num_ok ?b" "v = JNum ?b" "r = dropWhile numchar t" by (auto simp: jlit_def split: if_splits)
    then have ne: "?b \<noteq> []" by (auto simp: num_ok_def)
    then have h: "numchar (hd ?b)" by (metis hd_in_set set_takeWhileD)
    have np: "\<not> has_prefix (?b @ r') (c # k)" if "\<not> numchar c" for r' c k
      using ne h that by (cases ?b) (auto simp: has_prefix_def)
    have tw: "takeWhile numchar (?b @ r') = ?b \<and> dropWhile numchar (?b @ r') = r'" if "jstop r'" for r'
    proof -
      have "\<forall>c \<in> set ?b. numchar c" by (auto dest: set_takeWhileD)
      moreover have "takeWhile numchar r' = [] \<and> dropWhile numchar r' = r'" using that by (cases r') (auto simp: jstop_def)
      ultimately show ?thesis by (simp add: takeWhile_append2 dropWhile_append2)
    qed
    have "\<not> numchar CHR ''n''" "\<not> numchar CHR ''t''" "\<not> numchar CHR ''f''" by (auto simp: numchar_def is_digit_def)
    with np tw n ne h show ?thesis
      by (intro exI [of _ ?b]) (auto simp: jlit_def dest: is_ws_numchar)
  qed
qed


text \<open>
  A parse is local: the text \<open>b\<close> a parser consumed is read the same in front of any other
  continuation and at any lesser depth.  A value that stands alone must be followed by
  something that cannot continue a number.
\<close>

definition local_parse :: "bool \<Rightarrow> 'a parser \<Rightarrow> bool" where
  "local_parse st f \<longleftrightarrow> (\<forall>d t v r. f d t = Some (v, r) \<longrightarrow>
     (\<exists>b. t = b @ r \<and> skip_ws b \<noteq> [] \<and> (\<forall>d' r'. d \<le> d' \<longrightarrow> (st \<longrightarrow> jstop r') \<longrightarrow> f d' (b @ r') = Some (v, r'))))"

lemma local_parseI:
  assumes "\<And>d t v r. f d t = Some (v, r) \<Longrightarrow> \<exists>b. t = b @ r \<and> skip_ws b \<noteq> [] \<and>
     (\<forall>d' r'. d \<le> d' \<longrightarrow> (st \<longrightarrow> jstop r') \<longrightarrow> f d' (b @ r') = Some (v, r'))"
  shows "local_parse st f"
  using assms by (simp add: local_parse_def)

lemma local_parseE:
  assumes "local_parse st f" and "f d t = Some (v, r)"
  obtains b where "t = b @ r" "skip_ws b \<noteq> []" "\<And>d' r'. d \<le> d' \<Longrightarrow> (st \<Longrightarrow> jstop r') \<Longrightarrow> f d' (b @ r') = Some (v, r')"
  using assms unfolding local_parse_def by blast

lemma local_body: "local_parse False f \<Longrightarrow> local_parse False (jbody cl f)"
proof (rule local_parseI)
  fix d t v r
  assume f: "local_parse False f" and p: "jbody cl f d t = Some (v, r)"
  then have d: "\<not> d \<le> 0" by (auto simp: jbody_def split: if_splits)
  show "\<exists>b. t = b @ r \<and> skip_ws b \<noteq> [] \<and> (\<forall>d' r'. d \<le> d' \<longrightarrow> (False \<longrightarrow> jstop r') \<longrightarrow> jbody cl f d' (b @ r') = Some (v, r'))"
  proof (cases "expect cl t")
    case (Some q)
    with p d have "v = []" "q = r" by (auto simp: jbody_def)
    with expect_local [OF Some] d show ?thesis by (fastforce simp: jbody_def)
  next
    case None
    with p d have "f (d - 1) t = Some (v, r)" by (simp add: jbody_def)
    with f obtain b where b: "t = b @ r" "skip_ws b \<noteq> []" "\<And>d' r'. d - 1 \<le> d' \<Longrightarrow> f d' (b @ r') = Some (v, r')"
      by (elim local_parseE) auto
    from None b(1,2) have "expect cl (b @ r') = None" for r'
      by (cases "skip_ws b") (auto simp: expect_def skip_ws_app split: if_splits)
    with b d show ?thesis by (intro exI [of _ b]) (auto simp: jbody_def)
  qed
qed

lemma local_sep:
  assumes g: "local_parse True g" and f: "local_parse False f" and cl: "\<not> numchar cl" "cl \<noteq> CHR '',''"
  shows "local_parse False (jsep cl g f)"
proof (rule local_parseI)
  fix d t v r
  assume p: "jsep cl g f d t = Some (v, r)"
  then obtain x q where x: "g d t = Some (x, q)" by (cases "g d t") (auto simp: jsep_def)
  from g x obtain a where a: "t = a @ q" "skip_ws a \<noteq> []" "\<And>d' r'. d \<le> d' \<Longrightarrow> jstop r' \<Longrightarrow> g d' (a @ r') = Some (x, r')"
    by (elim local_parseE) auto
  have comma: "\<not> numchar CHR '',''" by (simp add: numchar_def is_digit_def)
  show "\<exists>b. t = b @ r \<and> skip_ws b \<noteq> [] \<and> (\<forall>d' r'. d \<le> d' \<longrightarrow> (False \<longrightarrow> jstop r') \<longrightarrow> jsep cl g f d' (b @ r') = Some (v, r'))"
  proof (cases "expect cl q")
    case (Some q')
    with p x have v: "v = [x]" "q' = r" by (simp_all add: jsep_def)
    from Some obtain b where b: "q = b @ r" "\<And>r'. expect cl (b @ r') = Some r'" using v(2) by (elim expect_localE) metis
    have "jsep cl g f d' (a @ b @ r') = Some (v, r')" if "d \<le> d'" for d' r'
      using a(3) [OF that stop_expect [OF b(2) cl(1)]] b(2) v by (simp add: jsep_def)
    then show ?thesis using a(1,2) b(1) by (intro exI [of _ "a @ b"]) (simp add: skip_ws_app)
  next
    case None
    with p x obtain q' where e: "expect (CHR '','') q = Some q'" by (cases "expect (CHR '','') q") (auto simp: jsep_def)
    with p x None obtain xs where q': "f d q' = Some (xs, r)" "v = x # xs" by (auto simp: jsep_def)
    from e obtain b where b: "q = b @ q'" "\<And>r'. expect (CHR '','') (b @ r') = Some r'"
      "\<And>r'. expect cl (b @ r') = None" using cl(2) by (elim expect_localE) metis
    from f q'(1) obtain c where c: "q' = c @ r" "\<And>d' r'. d \<le> d' \<Longrightarrow> f d' (c @ r') = Some (xs, r')"
      by (elim local_parseE) auto
    have "jsep cl g f d' (a @ b @ c @ r') = Some (v, r')" if "d \<le> d'" for d' r'
      using a(3) [OF that stop_expect [OF b(2) comma]] b(2,3) c(2) [OF that] q'(2) by (simp add: jsep_def)
    then show ?thesis using a(1,2) b(1) c(1) by (intro exI [of _ "a @ b @ c"]) (simp add: skip_ws_app)
  qed
qed


lemma local_elem: "local_parse True g \<Longrightarrow> local_parse True (jelem g)"
proof (rule local_parseI)
  fix d t x r
  assume g: "local_parse True g" and "jelem g d t = Some (x, r)"
  then obtain v where v: "g d (skip_ws t) = Some (v, r)" "x = (take (length (skip_ws t) - length r) (skip_ws t), v)"
    by (auto simp: jelem_def Let_def)
  from g v(1) obtain b where b: "skip_ws t = b @ r" "skip_ws b \<noteq> []"
    "\<And>d' r'. d \<le> d' \<Longrightarrow> jstop r' \<Longrightarrow> g d' (b @ r') = Some (v, r')" by (elim local_parseE) auto
  obtain w where w: "t = w @ skip_ws t" "\<forall>c \<in> set w. is_ws c" using skip_ws_split by blast
  have "b \<noteq> []" using b(2) by (auto simp: skip_ws_def)
  moreover have "\<not> is_ws (hd b)" if "b \<noteq> []"
    using that b(1) skip_ws_hd [of t "hd b" "tl b @ r"] by simp
  ultimately have k: "skip_ws (w @ b @ r') = b @ r'" for r' using skip_ws_ws [OF w(2)] by (simp add: skip_ws_id)
  have "jelem g d' ((w @ b) @ r') = Some (x, r')" if "d \<le> d'" "jstop r'" for d' r'
    using b(1) b(3) [OF that] v(2) by (simp add: jelem_def k Let_def)
  moreover have "t = (w @ b) @ r" "skip_ws (w @ b) \<noteq> []" using w b k [of "[]"] \<open>b \<noteq> []\<close> by simp_all
  ultimately show "\<exists>b. t = b @ r \<and> skip_ws b \<noteq> [] \<and> (\<forall>d' r'. d \<le> d' \<longrightarrow> (True \<longrightarrow> jstop r') \<longrightarrow> jelem g d' (b @ r') = Some (x, r'))"
    by blast
qed

lemma local_member: "local_parse True g \<Longrightarrow> local_parse True (jmember g)"
proof (rule local_parseI)
  fix d t x r
  assume g: "local_parse True g" and p: "jmember g d t = Some (x, r)"
  then obtain u0 where q: "expect quote t = Some u0" by (cases "expect quote t") (auto simp: jmember_def)
  with p obtain k u where u: "scan_str u0 = Some (k, u)" by (cases "scan_str u0") (auto simp: jmember_def)
  with p q obtain w where w: "expect (CHR '':'') u = Some w" by (cases "expect (CHR '':'') u") (auto simp: jmember_def)
  with p q u obtain y where y: "jelem g d w = Some (y, r)" "x = (k, y)" by (auto simp: jmember_def)
  from local_elem [OF g] y(1) obtain c where c: "w = c @ r" "\<And>d' r'. d \<le> d' \<Longrightarrow> jstop r' \<Longrightarrow> jelem g d' (c @ r') = Some (y, r')"
    by (elim local_parseE) auto
  from q obtain a where a: "t = a @ u0" "skip_ws a = [quote]" "\<And>r'. expect quote (a @ r') = Some r'" by (elim expect_localE) metis
  from w obtain b where b: "u = b @ w" "\<And>r'. expect (CHR '':'') (b @ r') = Some r'" by (elim expect_localE) metis
  have k: "u0 = k @ quote # u" "\<And>r'. scan_str (k @ quote # r') = Some (k, r')" using scan_str_local [OF u] by blast+
  let ?b = "a @ k @ quote # b @ c"
  have "jmember g d' (?b @ r') = Some (x, r')" if "d \<le> d'" "jstop r'" for d' r'
    using a(3) b(2) k(2) c(2) [OF that] y(2) by (simp add: jmember_def)
  moreover have "t = ?b @ r" "skip_ws ?b \<noteq> []" using a b k c by (simp_all add: skip_ws_app)
  ultimately show "\<exists>b. t = b @ r \<and> skip_ws b \<noteq> [] \<and> (\<forall>d' r'. d \<le> d' \<longrightarrow> (True \<longrightarrow> jstop r') \<longrightarrow> jmember g d' (b @ r') = Some (x, r'))"
    by blast
qed

lemma local_none: "local_parse st (\<lambda>d s. None)"
  by (simp add: local_parse_def)

lemma local_weaken: "local_parse False f \<Longrightarrow> local_parse st f"
  unfolding local_parse_def by blast

lemma local_jstep:
  assumes es: "local_parse False es" and ms: "local_parse False ms"
  shows "local_parse True (jstep es ms)"
proof (rule local_parseI)
  fix d t v r
  assume p: "jstep es ms d t = Some (v, r)"
  then obtain c u where t: "t = c # u" by (cases t) (auto simp: jstep_def)
  have nest: "\<exists>b. t = b @ r \<and> skip_ws b \<noteq> [] \<and> (\<forall>d' r'. d \<le> d' \<longrightarrow> (True \<longrightarrow> jstop r') \<longrightarrow> jstep es ms d' (b @ r') = Some (v, r'))"
    if "local_parse False f" "f d u = Some (x, r)" "\<not> is_ws c" "\<And>d' u' q. f d' u' = Some (x, q) \<Longrightarrow> jstep es ms d' (c # u') = Some (v, q)"
    for f :: "'a parser" and x
  proof -
    from that(1,2) obtain b where b: "u = b @ r" "\<And>d' r'. d \<le> d' \<Longrightarrow> f d' (b @ r') = Some (x, r')" by (elim local_parseE) auto
    with t that(3,4) show ?thesis by (intro exI [of _ "c # b"]) (auto simp: skip_ws_id)
  qed
  consider "c = quote" | "c = CHR ''[''" | "c = CHR ''{''" | "c \<noteq> quote" "c \<noteq> CHR ''[''" "c \<noteq> CHR ''{''" by blast
  then show "\<exists>b. t = b @ r \<and> skip_ws b \<noteq> [] \<and> (\<forall>d' r'. d \<le> d' \<longrightarrow> (True \<longrightarrow> jstop r') \<longrightarrow> jstep es ms d' (b @ r') = Some (v, r'))"
  proof cases
    case 1
    with p t obtain l where l: "scan_str u = Some (l, r)" "v = JStr l" by (auto simp: jstep_def)
    have "u = l @ quote # r" "\<And>r'. scan_str (l @ quote # r') = Some (l, r')" using scan_str_local [OF l(1)] by blast+
    with 1 t l show ?thesis by (intro exI [of _ "c # l @ [quote]"]) (auto simp: jstep_def skip_ws_id is_ws_def)
  next
    case 2
    with p t obtain x where x: "jbody (CHR '']'') es d u = Some (x, r)" "v = JArr x" by (auto simp: jstep_def)
    from 2 x(2) show ?thesis by (intro nest [OF local_body [OF es] x(1)]) (auto simp: jstep_def is_ws_def)
  next
    case 3
    with p t obtain x where x: "jbody (CHR ''}'') ms d u = Some (x, r)" "v = JObj x" by (auto simp: jstep_def)
    from 3 x(2) show ?thesis by (intro nest [OF local_body [OF ms] x(1)]) (auto simp: jstep_def is_ws_def)
  next
    case 4
    with p t have "jlit t = Some (v, r)" by (simp add: jstep_def)
    from lit_local [OF this] obtain b where b: "t = b @ r" "b \<noteq> []" "\<not> is_ws (hd b)"
      "\<And>r'. jstop r' \<Longrightarrow> jlit (b @ r') = Some (v, r')" by blast
    then obtain b' where b': "b = c # b'" using t by (cases b) auto
    have "jstep es ms d' (b @ r') = Some (v, r')" if "jstop r'" for d' r'
      using b(4) [OF that] 4 b' by (simp add: jstep_def)
    with b show ?thesis by (intro exI [of _ b]) (simp add: skip_ws_id)
  qed
qed

lemma jparse_local: "local_parse True (jval n) \<and> local_parse False (jelems n) \<and> local_parse False (jmembers n)"
proof (induction n)
  case 0
  show ?case by (simp add: jparse_0 local_none)
next
  case (Suc n)
  have "\<not> numchar CHR '']''" "\<not> numchar CHR ''}''" by (simp_all add: numchar_def is_digit_def)
  with Suc show ?case by (simp add: jparse_Suc local_jstep local_sep local_elem local_member)
qed

lemmas jval_local = jparse_local [THEN conjunct1]


section \<open>Fuel\<close>

text \<open>Two parsers agree on shorter inputs than \<open>k\<close>; one extends another.\<close>

definition agree :: "nat \<Rightarrow> 'a parser \<Rightarrow> 'a parser \<Rightarrow> bool" where
  "agree k p q \<longleftrightarrow> (\<forall>d s. length s < k \<longrightarrow> p d s = q d s)"

definition extends :: "'a parser \<Rightarrow> 'a parser \<Rightarrow> bool" where
  "extends q p \<longleftrightarrow> (\<forall>d s x. p d s = Some x \<longrightarrow> q d s = Some x)"

lemma agreeD: "agree k p q \<Longrightarrow> length s < k \<Longrightarrow> p d s = q d s"
  by (simp add: agree_def)

lemma extendsD: "extends q p \<Longrightarrow> p d s = Some x \<Longrightarrow> q d s = Some x"
  by (cases x) (simp add: extends_def)

lemma expect_shorter: "expect c s = Some r \<Longrightarrow> length r < length s"
  by (elim expect_localE) (auto simp: skip_ws_def)

lemma scan_str_shorter: "scan_str s = Some (l, r) \<Longrightarrow> length r < length s"
  using scan_str_eq [of s l r] by simp

lemma local_shorter: "local_parse st g \<Longrightarrow> g d s = Some (x, r) \<Longrightarrow> length r < length s"
  by (elim local_parseE) (auto simp: skip_ws_def)

lemma agree_elem: "agree k g g' \<Longrightarrow> agree k (jelem g) (jelem g')"
  by (simp add: agree_def jelem_def Let_def le_less_trans [OF skip_ws_length])

lemma agree_member:
  assumes g: "agree k g g'"
  shows "agree k (jmember g) (jmember g')"
  unfolding agree_def
proof (intro allI impI)
  fix d s assume s: "length (s :: string) < k"
  have "jelem g d w = jelem g' d w" if "expect quote s = Some u" "scan_str u = Some (x, v)" "expect c v = Some w" for u x v w c
    using expect_shorter [OF that(1)] scan_str_shorter [OF that(2)] expect_shorter [OF that(3)] s
    by (intro agreeD [OF agree_elem [OF g]]) simp
  then show "jmember g d s = jmember g' d s" by (auto simp: jmember_def split: option.splits bind_splits)
qed

lemma agree_sep:
  assumes g: "agree k g g'" and f: "agree (k - 1) f f'" and l: "local_parse True g"
  shows "agree k (jsep cl g f) (jsep cl g' f')"
  unfolding agree_def
proof (intro allI impI)
  fix d s assume s: "length (s :: string) < k"
  have "f d w = f' d w" if "g d s = Some (x, r)" "expect c r = Some w" for x r w c
    using local_shorter [OF l that(1)] expect_shorter [OF that(2)] s by (intro agreeD [OF f]) simp
  then show "jsep cl g f d s = jsep cl g' f' d s"
    using agreeD [OF g s] by (auto simp: jsep_def split: option.splits)
qed

lemma agree_jstep:
  assumes es: "agree (k - 1) es es'" and ms: "agree (k - 1) ms ms'"
  shows "agree k (jstep es ms) (jstep es' ms')"
  unfolding agree_def
proof (intro allI impI)
  fix d s assume s: "length (s :: string) < k"
  show "jstep es ms d s = jstep es' ms' d s"
  proof (cases s)
    case (Cons c u)
    with s have "length u < k - 1" by simp
    then have "jbody cl es d u = jbody cl es' d u" "jbody cl' ms d u = jbody cl' ms' d u" for cl cl'
      using agreeD [OF es] agreeD [OF ms] by (auto simp: jbody_def split: option.splits)
    with Cons show ?thesis by (simp add: jstep_def)
  qed (simp add: jstep_def)
qed

lemma jparse_agree:
  "(\<forall>n m. 2 * k \<le> n + 1 \<longrightarrow> 2 * k \<le> m + 1 \<longrightarrow> agree k (jval n) (jval m)) \<and>
   (\<forall>n m. 2 * k \<le> n \<longrightarrow> 2 * k \<le> m \<longrightarrow> agree k (jelems n) (jelems m) \<and> agree k (jmembers n) (jmembers m))"
proof (induction k)
  case 0
  show ?case by (simp add: agree_def)
next
  case (Suc k)
  have v: "agree (Suc k) (jval n) (jval m)" if "2 * Suc k \<le> n + 1" "2 * Suc k \<le> m + 1" for n m
  proof -
    from that obtain n' m' where n: "n = Suc n'" "m = Suc m'" by (cases n; cases m) auto
    with that Suc.IH show ?thesis by (simp add: jparse_Suc agree_jstep)
  qed
  moreover have "agree (Suc k) (jelems n) (jelems m) \<and> agree (Suc k) (jmembers n) (jmembers m)"
    if "2 * Suc k \<le> n" "2 * Suc k \<le> m" for n m
  proof -
    from that obtain n' m' where n: "n = Suc n'" "m = Suc m'" by (cases n; cases m) auto
    with that Suc.IH v [of n' m'] show ?thesis
      by (simp add: jparse_Suc agree_sep agree_elem agree_member local_elem local_member jval_local)
  qed
  ultimately show ?case by blast
qed

text \<open>
  C0. The scanner's recursion always ends with fuel to spare: with any fuel of more than
  twice the length of the input it returns what \<open>json_parse\<close> does.
\<close>

theorem json_fuel_enough:
  assumes "2 * length (skip_ws s) < n"
  shows "json_parse s =
    (case jval n maxNestingDepth (skip_ws s) of
       Some (v, r) \<Rightarrow> if skip_ws r = [] then Some v else None
     | None \<Rightarrow> None)"
proof -
  have "jval (2 * length (skip_ws s) + 1) maxNestingDepth (skip_ws s) = jval n maxNestingDepth (skip_ws s)"
    using jparse_agree [of "Suc (length (skip_ws s))"] assms
    by (intro agreeD [of _ "jval (2 * length (skip_ws s) + 1)" "jval n"]) (auto simp del: jval.simps)
  then show ?thesis by (simp add: json_parse_def)
qed

lemma extends_refl: "extends p p"
  by (simp add: extends_def)

lemma extends_elem: "extends g' g \<Longrightarrow> extends (jelem g') (jelem g)"
  unfolding extends_def jelem_def Let_def by (auto split: option.splits)

lemma extends_member: "extends g' g \<Longrightarrow> extends (jmember g') (jmember g)"
  using extendsD [OF extends_elem [of g' g]] unfolding extends_def jmember_def
  by (auto split: option.splits)

lemma extends_sep: "extends g' g \<Longrightarrow> extends f' f \<Longrightarrow> extends (jsep cl g' f') (jsep cl g f)"
  unfolding extends_def jsep_def by (fastforce split: option.splits)

lemma extends_body: "extends f' f \<Longrightarrow> extends (jbody cl f') (jbody cl f)"
  unfolding extends_def jbody_def by (auto split: option.splits)

lemma extends_jstep: "extends es' es \<Longrightarrow> extends ms' ms \<Longrightarrow> extends (jstep es' ms') (jstep es ms)"
  using extendsD [OF extends_body [of es' es]] extendsD [OF extends_body [of ms' ms]]
  unfolding extends_def jstep_def by (auto split: list.splits)

lemma jparse_extends: "extends (jval (Suc n)) (jval n) \<and> extends (jelems (Suc n)) (jelems n) \<and> extends (jmembers (Suc n)) (jmembers n)"
proof (induction n)
  case 0
  show ?case by (simp add: jparse_0 extends_def)
next
  case (Suc n)
  then show ?case
    unfolding jparse_Suc [of n] jparse_Suc [of "Suc n"]
    by (simp add: extends_jstep extends_sep extends_elem extends_member del: jval.simps jelems.simps jmembers.simps)
qed

lemma jval_extends: "n \<le> m \<Longrightarrow> extends (jval m) (jval n)"
proof (induction rule: dec_induct)
  case (step m)
  with jparse_extends [of m] show ?case by (auto simp: extends_def simp del: jval.simps)
qed (simp add: extends_refl)

text \<open>The bytes \<open>raw\<close> are one value, up to the nesting depth \<open>d\<close>.\<close>

definition is_value :: "int \<Rightarrow> string \<Rightarrow> json \<Rightarrow> bool" where
  "is_value d raw v \<longleftrightarrow> jval (2 * length raw + 1) d raw = Some (v, [])"

lemma jval_fuel:
  assumes "jval n d t = Some x"
  shows "2 * length t < m \<Longrightarrow> jval m d t = Some x"
proof -
  assume m: "2 * length t < m"
  have "jval (max n m) d t = Some x" using extendsD [OF jval_extends assms, of "max n m"] by simp
  moreover have "jval m d t = jval (max n m) d t"
    using jparse_agree [of "Suc (length t)"] m
    by (intro agreeD [of _ "jval m" "jval (max n m)"]) (auto simp del: jval.simps)
  ultimately show ?thesis by simp
qed

text \<open>A value is read wherever it stands, provided that what follows cannot continue a number.\<close>

lemma is_value_embed:
  assumes "is_value d raw v" and "d \<le> d'" and "jstop r" and "2 * length (raw @ r) < n"
  shows "jval n d' (raw @ r) = Some (v, r)"
proof -
  from assms(1) have p: "jval (2 * length raw + 1) d raw = Some (v, [])" by (simp add: is_value_def)
  obtain b where "raw = b @ []"
      "\<And>d' r'. d \<le> d' \<Longrightarrow> jstop r' \<Longrightarrow> jval (2 * length raw + 1) d' (b @ r') = Some (v, r')"
    using local_parseE [OF jval_local p] by metis
  with assms have "jval (2 * length raw + 1) d' (raw @ r) = Some (v, r)" by simp
  with assms(4) show ?thesis by (rule jval_fuel [rotated])
qed

lemma jval_starts: "jval n d t = Some (v, r) \<Longrightarrow> t \<noteq> [] \<and> \<not> is_ws (hd t)"
proof -
  assume p: "jval n d t = Some (v, r)"
  then obtain m where n: "n = Suc m" by (cases n) auto
  with p obtain c u where t: "t = c # u" by (cases t) (auto simp: jstep_def)
  have "\<not> is_ws c"
  proof
    assume w: "is_ws c"
    then have "c \<noteq> quote" "c \<noteq> CHR ''[''" "c \<noteq> CHR ''{''" by (auto simp: is_ws_def)
    with p n t have "jlit t = Some (v, r)" by (simp add: jstep_def)
    from lit_local [OF this] t w show False by (auto simp: neq_Nil_conv)
  qed
  with t show ?thesis by simp
qed

lemma is_value_starts: "is_value d raw v \<Longrightarrow> raw \<noteq> [] \<and> \<not> is_ws (hd raw)"
  unfolding is_value_def by (rule jval_starts)

lemma is_value_skip: "is_value d raw v \<Longrightarrow> skip_ws (raw @ r) = raw @ r"
  using is_value_starts [of d raw v] by (simp add: skip_ws_id)

lemma is_value_parse:
  assumes "is_value d raw v" and "d \<le> maxNestingDepth"
  shows "json_parse raw = Some v"
  using is_value_embed [OF assms, of "[]" "2 * length raw + 1"] is_value_skip [OF assms(1), of "[]"]
  by (simp add: json_parse_def jstop_def) (simp add: skip_ws_def)

lemma elem_value:
  assumes "jelem (jval n) d s = Some ((raw, v), r)"
  shows "is_value d raw v"
proof -
  let ?t = "skip_ws s"
  from assms have p: "jval n d ?t = Some (v, r)" and raw: "raw = take (length ?t - length r) ?t"
    by (auto simp: jelem_def Let_def)
  obtain b where b: "?t = b @ r" "\<And>d' r'. d \<le> d' \<Longrightarrow> jstop r' \<Longrightarrow> jval n d' (b @ r') = Some (v, r')"
    using local_parseE [OF jval_local p] by metis
  with raw have "jval n d raw = Some (v, [])" using b(2) [of d "[]"] by (simp add: jstop_def)
  then show ?thesis unfolding is_value_def by (rule jval_fuel) simp
qed

lemma sep_elems:
  assumes "jsep cl g f d s = Some (xs, r)" and "x \<in> set xs"
    and "\<And>s x r. g d s = Some (x, r) \<Longrightarrow> P x" and "\<And>s xs r. f d s = Some (xs, r) \<Longrightarrow> x \<in> set xs \<Longrightarrow> P x"
  shows "P x"
proof -
  from assms(1) obtain y q where y: "g d s = Some (y, q)" by (cases "g d s") (auto simp: jsep_def)
  show ?thesis
  proof (cases "expect cl q")
    case (Some q')
    with assms y show ?thesis by (auto simp: jsep_def)
  next
    case None
    with assms(1) y obtain q' where q': "expect (CHR '','') q = Some q'"
      by (cases "expect (CHR '','') q") (auto simp: jsep_def)
    with None assms(1) y obtain ys where "f d q' = Some (ys, r)" "xs = y # ys" by (auto simp: jsep_def)
    with assms y show ?thesis by auto
  qed
qed

lemma jelems_values: "jelems n d s = Some (xs, r) \<Longrightarrow> (raw, v) \<in> set xs \<Longrightarrow> is_value d raw v"
proof (induction n arbitrary: s xs r)
  case (Suc n)
  from Suc.prems(1) have "jsep (CHR '']'') (jelem (jval n)) (jelems n) d s = Some (xs, r)" by simp
  from sep_elems [OF this Suc.prems(2), of "\<lambda>(raw, v). is_value d raw v"] Suc.IH show ?case
    by (auto dest: elem_value)
qed simp

lemma jmembers_values: "jmembers n d s = Some (ms, r) \<Longrightarrow> (k, raw, v) \<in> set ms \<Longrightarrow> is_value d raw v"
proof (induction n arbitrary: s ms r)
  case (Suc n)
  have m: "is_value d raw v" if "jmember (jval n) d s = Some ((k, raw, v), r)" for s k raw v r
    using that by (auto simp: jmember_def dest: elem_value split: option.splits)
  from Suc.prems(1) have "jsep (CHR ''}'') (jmember (jval n)) (jmembers n) d s = Some (ms, r)" by simp
  from sep_elems [OF this Suc.prems(2), of "\<lambda>(k, raw, v). is_value d raw v"] Suc.IH m show ?case by auto
qed simp

definition child_of :: "json \<Rightarrow> string \<Rightarrow> json \<Rightarrow> bool" where
  "child_of v raw c =
     (case v of JArr xs \<Rightarrow> (raw, c) \<in> set xs | JObj ms \<Rightarrow> (raw, c) \<in> set (map snd ms) | _ \<Rightarrow> False)"

lemma child_value:
  assumes "jval n d t = Some (v, r)" and "child_of v raw c"
  shows "is_value (d - 1) raw c"
proof -
  from assms(1) obtain m where n: "n = Suc m" by (cases n) auto
  from assms(1) n obtain x u where t: "t = x # u" by (cases t) (auto simp: jstep_def)
  have "\<not> child_of v raw c" if "jlit t = Some (v, r)"
    using that by (auto simp: jlit_def child_of_def split: if_splits)
  with assms n t consider
      xs where "x = CHR ''[''" "jbody (CHR '']'') (jelems m) d u = Some (xs, r)" "(raw, c) \<in> set xs"
    | ms where "x = CHR ''{''" "jbody (CHR ''}'') (jmembers m) d u = Some (ms, r)" "(raw, c) \<in> set (map snd ms)"
    by (auto simp: jstep_def child_of_def split: if_splits)
  then show ?thesis
  proof cases
    case 1
    then have "jelems m (d - 1) u = Some (xs, r)" by (auto simp: jbody_def split: if_splits option.splits)
    with 1(3) show ?thesis by (auto intro: jelems_values)
  next
    case 2
    then have "jmembers m (d - 1) u = Some (ms, r)" by (auto simp: jbody_def split: if_splits option.splits)
    with 2(3) show ?thesis by (auto intro: jmembers_values)
  qed
qed

lemma parse_child_value:
  assumes "json_parse s = Some v" and "child_of v raw c"
  shows "is_value (maxNestingDepth - 1) raw c"
proof -
  from assms(1) obtain r where "jval (2 * length (skip_ws s) + 1) maxNestingDepth (skip_ws s) = Some (v, r)"
    unfolding json_parse_def Let_def by (auto simp del: jval.simps split: option.splits if_splits)
  from child_value [OF this assms(2)] show ?thesis .
qed

text \<open>
  C0. A raw message stands on its own: decoding the bytes that \<open>json.RawMessage\<close> keeps of an
  element or a member gives the value that stood there.
\<close>

theorem raw_message_reparses:
  assumes "json_parse s = Some v" and "child_of v raw c"
  shows "json_parse raw = Some c"
  using parse_child_value [OF assms] by (rule is_value_parse) simp


section \<open>Decoding\<close>

text \<open>A lower-case letter and its capital differ in the bit of value 32.\<close>

definition ascii_upper :: "char \<Rightarrow> char" where
  "ascii_upper c =
     (if 97 \<le> (of_char c :: int) \<and> (of_char c :: int) \<le> 122
      then (case c of Char b0 b1 b2 b3 b4 b5 b6 b7 \<Rightarrow> Char b0 b1 b2 b3 b4 False b6 b7) else c)"

text \<open>
  \<open>foldName\<close>: a key is compared to a field's name up to letter case, where the long s
  (U+017F) and the Kelvin sign (U+212A) are letters s and k.  No other rune folds to ASCII,
  and every field name is ASCII, so that other bytes need no folding.
\<close>

function fold_name :: "string \<Rightarrow> string" where
  "fold_name s =
     (case s of
        [] \<Rightarrow> []
      | c # t \<Rightarrow>
          if has_prefix s [CHR 0xC5, CHR 0xBF] then CHR ''S'' # fold_name (drop 2 s)
          else if has_prefix s [CHR 0xE2, CHR 0x84, CHR 0xAA] then CHR ''K'' # fold_name (drop 3 s)
          else ascii_upper c # fold_name t)"
  by pat_completeness auto

termination fold_name by (relation "measure length") (auto simp: has_prefix_def)

declare fold_name.simps [simp del]

text \<open>
  A decoded key selects the field of that name, or of its folded name; the fields of each
  struct have distinct folded names.
\<close>

definition key_is :: "string \<Rightarrow> string \<Rightarrow> bool" where
  "key_is k name \<longleftrightarrow> fold_name k = fold_name name"

text \<open>
  \<open>json.Unmarshal\<close> into a struct: members in their order, each into its field over what the
  field holds, so that the last of a repeated key decides.  \<open>null\<close> changes nothing, a value
  of another type is an error, and an error anywhere fails the call.
\<close>

definition decode_struct :: "(string \<Rightarrow> string \<Rightarrow> json \<Rightarrow> 'a \<Rightarrow> 'a option) \<Rightarrow> 'a \<Rightarrow> json \<Rightarrow> 'a option" where
  "decode_struct set_field z v =
     (case v of
        JNull \<Rightarrow> Some z
      | JObj ms \<Rightarrow> foldl (\<lambda>a (k, raw, w). Option.bind a (set_field (unquote k) raw w)) (Some z) ms
      | _ \<Rightarrow> None)"

definition unmarshal_struct :: "(string \<Rightarrow> string \<Rightarrow> json \<Rightarrow> 'a \<Rightarrow> 'a option) \<Rightarrow> 'a \<Rightarrow> string \<Rightarrow> 'a option" where
  "unmarshal_struct set_field z s = Option.bind (json_parse s) (decode_struct set_field z)"

text \<open>Into a \<open>string\<close>, a \<open>bool\<close> and a \<open>*string\<close>.\<close>

definition into_string :: "json \<Rightarrow> string \<Rightarrow> string option" where
  "into_string v old = (case v of JNull \<Rightarrow> Some old | JStr l \<Rightarrow> Some (unquote l) | _ \<Rightarrow> None)"

definition into_bool :: "json \<Rightarrow> bool \<Rightarrow> bool option" where
  "into_bool v old = (case v of JNull \<Rightarrow> Some old | JTrue \<Rightarrow> Some True | JFalse \<Rightarrow> Some False | _ \<Rightarrow> None)"

definition into_pstring :: "json \<Rightarrow> string option option" where
  "into_pstring v = (case v of JNull \<Rightarrow> Some None | JStr l \<Rightarrow> Some (Some (unquote l)) | _ \<Rightarrow> None)"

text \<open>
  Into an \<open>int\<close>: \<open>strconv.ParseInt\<close> of the literal, which wants digits only, in 64 bits.
\<close>

definition digits_val :: "string \<Rightarrow> nat" where
  "digits_val s = foldl (\<lambda>a c. a * 10 + (of_char c - 48)) 0 s"

definition parse_int :: "string \<Rightarrow> int option" where
  "parse_int l =
     (let neg = (l \<noteq> [] \<and> hd l = CHR ''-''); s = (if neg then tl l else l); n = int (digits_val s)
      in if s = [] \<or> \<not> list_all is_digit s then None
         else if neg then (if n \<le> 2 ^ 63 then Some (- n) else None)
         else (if n < 2 ^ 63 then Some n else None))"

definition into_int :: "json \<Rightarrow> int \<Rightarrow> int option" where
  "into_int v old = (case v of JNull \<Rightarrow> Some old | JNum l \<Rightarrow> parse_int l | _ \<Rightarrow> None)"

text \<open>
  Into an interface: numbers become \<open>float64\<close>, and \<open>strconv.ParseFloat\<close> fails on those that
  round to infinity.  It stops counting a written exponent at five digits.
\<close>

definition exponent_of :: "string \<Rightarrow> int" where
  "exponent_of s =
     (if s = [] then 0
      else
        let u = tl s; neg = (u \<noteq> [] \<and> hd u = CHR ''-'');
            ds = (if u \<noteq> [] \<and> hd u \<in> {CHR ''+'', CHR ''-''} then tl u else u);
            n = foldl (\<lambda>e c. if e < 10000 then e * 10 + int (of_char c - 48) else e) 0 ds
        in if neg then - n else n)"

definition float_ok :: "string \<Rightarrow> bool" where
  "float_ok l =
     (let s = (if l \<noteq> [] \<and> hd l = CHR ''-'' then tl l else l);
          i = takeWhile is_digit s; s = dropWhile is_digit s;
          point = (s \<noteq> [] \<and> hd s = CHR ''.'');
          f = (if point then takeWhile is_digit (tl s) else []);
          s = (if point then dropWhile is_digit (tl s) else s);
          m = digits_val (i @ f); e = exponent_of s - int (length f); limit = 2 ^ 1024 - 2 ^ 970
      in if e \<ge> 0 then m * 10 ^ nat e < limit else m < limit * 10 ^ nat (- e))"

lemma size_child_arr: "(raw, v) \<in> set xs \<Longrightarrow> size v < size (JArr xs)"
  by (induction xs) (auto simp: prod.size_neq)

lemma size_child_obj: "(k, raw, v) \<in> set ms \<Longrightarrow> size v < size (JObj ms)"
  by (induction ms) (auto simp: prod.size_neq)


function any_ok :: "json \<Rightarrow> bool" where
  "any_ok v =
     (case v of
        JNum l \<Rightarrow> float_ok l
      | JArr xs \<Rightarrow> (\<forall>x \<in> set xs. any_ok (snd x))
      | JObj ms \<Rightarrow> (\<forall>m \<in> set ms. any_ok (snd (snd m)))
      | _ \<Rightarrow> True)"
  by pat_completeness auto

termination any_ok
  by (relation "measure size") (auto simp del: json.size dest: size_child_arr size_child_obj)

declare any_ok.simps [simp del]

text \<open>
  Into a \<open>map[string]any\<close>, which a repeated field adds to.  A value is kept as parsed: what
  the sources read of it is whether it is a string, and which.
\<close>

definition into_any_map :: "json \<Rightarrow> json gomap \<Rightarrow> json gomap option" where
  "into_any_map v old =
     (case v of
        JNull \<Rightarrow> Some []
      | JObj ms \<Rightarrow>
          if list_all (\<lambda>(k, raw, w). any_ok w) ms
          then Some (foldl (\<lambda>m (k, raw, w). map_put (unquote k) w m) old ms) else None
      | _ \<Rightarrow> None)"

text \<open>Into a slice of raw messages; \<open>null\<close> is the nil slice.\<close>

definition into_raws :: "json \<Rightarrow> string list option" where
  "into_raws v = (case v of JNull \<Rightarrow> Some [] | JArr xs \<Rightarrow> Some (map fst xs) | _ \<Rightarrow> None)"

section \<open>Encoding raw messages\<close>

definition html_escape :: "char \<Rightarrow> string" where
  "html_escape c =
     (if c = CHR ''<'' then backslash # ''u003c'' else if c = CHR ''>'' then backslash # ''u003e''
      else if c = CHR ''&'' then backslash # ''u0026'' else [c])"

text \<open>
  \<open>appendCompact\<close> with \<open>escapeHTML\<close>: the text inside string literals, where U+2028 and U+2029
  are escaped too, and the text outside, less its white space.
\<close>

fun compact_str :: "string \<Rightarrow> string" and compact_out :: "string \<Rightarrow> string" where
  "compact_out [] = []"
| "compact_out (c # s) =
     (if c = quote then c # compact_str s
      else if is_ws c then compact_out s
      else c # compact_out s)"
| "compact_str [] = []"
| "compact_str (c # s) =
     (if c = quote then c # compact_out s
      else if c = backslash then c # take 1 s @ (case s of [] \<Rightarrow> [] | e # t \<Rightarrow> compact_str t)
      else if has_prefix (c # s) [CHR 0xE2, CHR 0x80, CHR 0xA8] then backslash # ''u2028'' @ compact_str (drop 2 s)
      else if has_prefix (c # s) [CHR 0xE2, CHR 0x80, CHR 0xA9] then backslash # ''u2029'' @ compact_str (drop 2 s)
      else html_escape c @ compact_str s)"

fun commas :: "string list \<Rightarrow> string" where
  "commas [] = ''''"
| "commas [x] = x"
| "commas (x # y # xs) = x @ '','' @ commas (y # xs)"

text \<open>\<open>json.Marshal\<close> of a slice of raw messages, each a value.\<close>

definition marshal_raws :: "string list \<Rightarrow> string" where
  "marshal_raws xs = ''['' @ commas (map compact_out xs) @ '']''"


section \<open>Writing values\<close>

text \<open>A key that needs no escape; an object and an array written without white space.\<close>

definition plain :: "string \<Rightarrow> bool" where
  "plain k \<longleftrightarrow> list_all (\<lambda>c. c \<noteq> quote \<and> c \<noteq> backslash \<and> \<not> (of_char c :: int) < 32) k"

definition json_key :: "string \<Rightarrow> string" where "json_key s = quote # s @ [quote]"

definition json_obj :: "(string \<times> string) list \<Rightarrow> string" where
  "json_obj ms = ''{'' @ commas (map (\<lambda>(k, raw). json_key k @ '':'' @ raw) ms) @ ''}''"

definition json_arr :: "string list \<Rightarrow> string" where
  "json_arr xs = ''['' @ commas xs @ '']''"

text \<open>The text of a literal that the scanner accepts.\<close>

fun lit_valid :: "string \<Rightarrow> bool" where
  "lit_valid [] = True"
| "lit_valid (c # s) =
     (c \<noteq> quote \<and>
      (if c = backslash then
         (case s of
            [] \<Rightarrow> False
          | e # t \<Rightarrow>
              (esc_ok e \<or> (e = CHR ''u'' \<and> length (take 4 t) = 4 \<and> list_all is_hex (take 4 t))) \<and> lit_valid t)
       else \<not> (of_char c :: int) < 32 \<and> lit_valid s))"

lemma lit_valid_plain: "plain k \<Longrightarrow> lit_valid k"
  by (induction k) (auto simp: plain_def)

lemma scan_lit_valid: "scan_str s = Some (l, r) \<Longrightarrow> lit_valid l"
proof (induction s arbitrary: l rule: scan_str.induct)
  case (2 c s)
  show ?case
  proof (cases "c = quote \<or> c \<noteq> backslash")
    case True
    with 2 show ?thesis by (auto split: if_splits)
  next
    case False
    with 2(4) obtain e t where st: "s = e # t" by (cases s) auto
    have e: "esc_ok e \<or> (e = CHR ''u'' \<and> length (take 4 t) = 4 \<and> list_all is_hex (take 4 t))"
      using 2(4) False st by (cases "esc_ok e"; cases "e = CHR ''u''") (simp_all split: if_splits)
    with 2(4) False st obtain m where s: "s = e # t" "scan_str t = Some (m, r)" "l = c # e # m"
      by (cases "scan_str t"; cases "esc_ok e") auto
    have m: "lit_valid m"
    proof (cases "esc_ok e")
      case True
      with False show ?thesis by (intro 2(1) [OF _ _ s(1) _ s(2)]) auto
    next
      case ne: False
      with False e show ?thesis by (intro 2(2) [OF _ _ s(1) _ _ _ s(2)]) auto
    qed
    have t: "t = m @ quote # r" using scan_str_eq [OF s(2)] .
    have "length (take 4 m) = 4 \<and> list_all is_hex (take 4 m)"
      if "length (take 4 t) = 4" "list_all is_hex (take 4 t)"
    proof -
      have "4 \<le> length m" by (rule take4_hex [OF that [unfolded t]])
      then show ?thesis using that unfolding t by simp
    qed
    with m e False s(1,3) show ?thesis by (auto simp del: length_take)
  qed
qed simp

lemma scan_valid: "lit_valid k \<Longrightarrow> scan_str (k @ quote # r) = Some (k, r)"
proof (induction k rule: lit_valid.induct)
  case (2 c s)
  show ?case
  proof (cases "c = backslash")
    case False
    with 2 show ?thesis by simp
  next
    case True
    with 2(3) obtain e t where s: "s = e # t" "lit_valid t"
      "esc_ok e \<or> (e = CHR ''u'' \<and> length (take 4 t) = 4 \<and> list_all is_hex (take 4 t))"
      by (auto split: list.splits)
    from 2(1) [OF True s(1,2)] have "scan_str (t @ quote # r) = Some (t, r)" .
    moreover have "length (take 4 (t @ quote # r)) = 4 \<and> list_all is_hex (take 4 (t @ quote # r))"
      if "length (take 4 t) = 4" "list_all is_hex (take 4 t)" using that by auto
    ultimately show ?thesis using s True by (auto simp del: length_take take_append)
  qed
qed simp

lemma scan_plain: "plain k \<Longrightarrow> scan_str (k @ quote # r) = Some (k, r)"
  by (simp add: lit_valid_plain scan_valid)

lemma expect_hd [simp]: "\<not> is_ws c \<Longrightarrow> expect d (c # r) = (if c = d then Some r else None)"
  by (simp add: expect_def skip_ws_id)

lemma not_ws [simp]: "\<not> is_ws quote" "\<not> is_ws CHR '':''" "\<not> is_ws CHR '',''" "\<not> is_ws CHR '']''" "\<not> is_ws CHR ''}''"
    "\<not> is_ws CHR ''[''" "\<not> is_ws CHR ''{''"
  by (simp_all add: is_ws_def)

lemma jstop_cons [simp]: "jstop (CHR '','' # r)" "jstop (CHR '']'' # r)" "jstop (CHR ''}'' # r)"
  by (simp_all add: jstop_def numchar_def is_digit_def)

lemma jval_is_value: "jval n d raw = Some (v, []) \<Longrightarrow> is_value d raw v"
  unfolding is_value_def by (rule jval_fuel) simp_all

lemma elem_embed:
  assumes "is_value d raw v" and "jstop r" and "2 * length (raw @ r) < n"
  shows "jelem (jval n) d (raw @ r) = Some ((raw, v), r)"
  using is_value_embed [OF assms(1) _ assms(2,3), of d] is_value_skip [OF assms(1)] by (simp add: jelem_def)

lemma member_embed:
  assumes "is_value d raw v" and "lit_valid k" and "jstop r" and "2 * length (raw @ r) < n"
  shows "jmember (jval n) d (json_key k @ '':'' @ raw @ r) = Some ((k, raw, v), r)"
  using scan_valid [OF assms(2)] elem_embed [OF assms(1,3,4)] by (simp add: jmember_def json_key_def)

text \<open>A sequence of items, each of which its parser reads in front of a comma or the closing bracket.\<close>

lemma jelems_embed:
  assumes "xs \<noteq> []" and "\<forall>(raw, v) \<in> set xs. is_value d raw v"
    and "2 * length (commas (map fst xs) @ CHR '']'' # r) + 1 < n"
  shows "jelems n d (commas (map fst xs) @ CHR '']'' # r) = Some (xs, r)"
  using assms
proof (induction xs arbitrary: n rule: induct_list012)
  case (2 x)
  then obtain m raw v where n: "n = Suc m" "x = (raw, v)" by (cases n; cases x) auto
  with 2 show ?case using elem_embed [of d raw v "CHR '']'' # r" m] by (simp add: jsep_def)
next
  case (3 x y ys)
  then obtain m raw v where n: "n = Suc m" "x = (raw, v)" by (cases n; cases x) auto
  let ?t = "commas (map fst (y # ys)) @ CHR '']'' # r"
  from 3(4) n have e: "jelem (jval m) d (raw @ CHR '','' # ?t) = Some ((raw, v), CHR '','' # ?t)"
    using 3(5) by (intro elem_embed) auto
  moreover have "jelems m d ?t = Some (y # ys, r)" using 3(4,5) n by (intro "3.IH") auto
  ultimately show ?case using n by (simp add: jsep_def)
qed simp

lemma jmembers_embed:
  assumes "ms \<noteq> []" and "\<forall>(k, raw, v) \<in> set ms. lit_valid k \<and> is_value d raw v"
    and "2 * length (commas (map (\<lambda>(k, raw, v). json_key k @ '':'' @ raw) ms) @ CHR ''}'' # r) + 1 < n"
  shows "jmembers n d (commas (map (\<lambda>(k, raw, v). json_key k @ '':'' @ raw) ms) @ CHR ''}'' # r) = Some (ms, r)"
  using assms
proof (induction ms arbitrary: n rule: induct_list012)
  case (2 x)
  then obtain m k raw v where n: "n = Suc m" "x = (k, raw, v)" by (cases n; cases x) auto
  with 2 have "jmember (jval m) d (json_key k @ '':'' @ raw @ CHR ''}'' # r) = Some ((k, raw, v), CHR ''}'' # r)"
    by (intro member_embed) auto
  with n show ?case by (simp add: jsep_def)
next
  case (3 x y ys)
  then obtain m k raw v where n: "n = Suc m" "x = (k, raw, v)" by (cases n; cases x) auto
  let ?t = "commas (map (\<lambda>(k, raw, v). json_key k @ '':'' @ raw) (y # ys)) @ CHR ''}'' # r"
  from 3(4,5) n have e: "jmember (jval m) d (json_key k @ '':'' @ raw @ CHR '','' # ?t) = Some ((k, raw, v), CHR '','' # ?t)"
    by (intro member_embed) auto
  moreover have "jmembers m d ?t = Some (y # ys, r)" using 3(4,5) n by (intro "3.IH") auto
  ultimately show ?case using n by (simp add: jsep_def)
qed simp

lemma commas_expect: "x \<noteq> [] \<Longrightarrow> \<not> is_ws (hd x) \<Longrightarrow> hd x \<noteq> c \<Longrightarrow> expect c (commas (x # xs) @ r) = None"
  by (cases xs; cases x) auto

lemma not_closing: "is_value d raw v \<Longrightarrow> hd raw \<noteq> CHR '']''"
  by (cases raw) (auto simp: is_value_def jstep_def jlit_def has_prefix_def num_ok_def numchar_def is_digit_def split: if_splits)

lemma is_value_arr:
  assumes "0 < d" and "\<forall>(raw, v) \<in> set xs. is_value (d - 1) raw v"
  shows "is_value d (json_arr (map fst xs)) (JArr xs)"
proof (rule jval_is_value)
  let ?t = "commas (map fst xs) @ '']''"
  define n where "n = 2 * length ?t + 2"
  show "jval (Suc n) d (json_arr (map fst xs)) = Some (JArr xs, [])"
  proof (cases xs)
    case Nil
    with assms show ?thesis by (simp add: json_arr_def jstep_def jbody_def)
  next
    case (Cons x ys)
    obtain raw v where x: "x = (raw, v)" by fastforce
    with assms Cons have "is_value (d - 1) raw v" by simp
    then have st: "raw \<noteq> []" "\<not> is_ws (hd raw)" and nb: "hd raw \<noteq> CHR '']''"
      using is_value_starts [of "d - 1" raw v] not_closing [of "d - 1" raw v] by auto
    have "expect (CHR '']'') ?t = None" using st nb x Cons by (simp add: commas_expect)
    moreover have "jelems n (d - 1) ?t = Some (xs, [])"
      using assms Cons jelems_embed [of xs "d - 1" "[]" n] by (simp add: n_def)
    ultimately show ?thesis using assms(1) by (simp add: json_arr_def jstep_def jbody_def)
  qed
qed

lemma is_value_obj:
  assumes "0 < d" and "\<forall>(k, raw, v) \<in> set ms. lit_valid k \<and> is_value (d - 1) raw v"
  shows "is_value d (json_obj (map (\<lambda>(k, raw, v). (k, raw)) ms)) (JObj ms)"
proof (rule jval_is_value)
  let ?t = "commas (map (\<lambda>(k, raw, v). json_key k @ '':'' @ raw) ms) @ ''}''"
  define n where "n = 2 * length ?t + 2"
  have "map (\<lambda>(k, raw). json_key k @ '':'' @ raw) (map (\<lambda>(k, raw, v). (k, raw)) ms) = map (\<lambda>(k, raw, v). json_key k @ '':'' @ raw) ms"
    by auto
  then have e: "json_obj (map (\<lambda>(k, raw, v). (k, raw)) ms) = CHR ''{'' # ?t"
    unfolding json_obj_def by (metis append_Cons append_Nil)
  show "jval (Suc n) d (json_obj (map (\<lambda>(k, raw, v). (k, raw)) ms)) = Some (JObj ms, [])"
  proof (cases ms)
    case Nil
    with assms show ?thesis unfolding e by (simp add: jstep_def jbody_def)
  next
    case (Cons x ys)
    obtain k raw v where x: "x = (k, raw, v)" by (cases x)
    have "expect (CHR ''}'') ?t = None"
      using x Cons commas_expect [of "json_key k @ CHR '':'' # raw" "CHR ''}''"] by (simp add: json_key_def)
    moreover have "jmembers n (d - 1) ?t = Some (ms, [])"
      using assms Cons jmembers_embed [of ms "d - 1" "[]" n] by (simp add: n_def)
    ultimately show ?thesis using assms(1) unfolding e by (simp add: jstep_def jbody_def)
  qed
qed

lemma is_value_str: "lit_valid k \<Longrightarrow> is_value d (json_key k) (JStr k)"
  by (intro jval_is_value [of "Suc 0"]) (simp add: json_key_def jstep_def scan_valid)


section \<open>Witnesses\<close>

definition sample_array :: string where \<open>sample_array = ''[1 , "a"]''\<close>

theorem json_fuel_enough_witness:
  \<open>json_parse sample_array = Some (JArr [(''1'', JNum ''1''), (''"a"'', JStr ''a'')]) \<and>
   jval 99 maxNestingDepth sample_array = Some (JArr [(''1'', JNum ''1''), (''"a"'', JStr ''a'')], [])\<close>
proof -
  have l: "2 * length (skip_ws sample_array) < 99" and s: "skip_ws sample_array = sample_array" by code_simp+
  have "jval 99 maxNestingDepth sample_array = Some (JArr [(''1'', JNum ''1''), (json_key ''a'', JStr ''a'')], [])"
    by code_simp
  with json_fuel_enough [OF l] s show ?thesis by (simp add: json_key_def skip_ws_def del: jval.simps)
qed

theorem raw_message_reparses_witness:
  \<open>json_parse ''"a"'' = Some (JStr ''a'') \<and> child_of (the (json_parse sample_array)) ''"a"'' (JStr ''a'')\<close>
proof -
  have p: "json_parse sample_array = Some (JArr [(''1'', JNum ''1''), (json_key ''a'', JStr ''a'')])" by code_simp
  have "child_of (JArr [(''1'', JNum ''1''), (json_key ''a'', JStr ''a'')]) (json_key ''a'') (JStr ''a'')"
    by (simp add: child_of_def)
  with raw_message_reparses [OF p this] p show ?thesis by (simp add: json_key_def)
qed

end
