(* ===== verification/Json_Compact.thy ===== *)
theory Json_Compact
  imports Json
begin

text \<open>
  \<open>json.Marshal\<close> of raw messages keeps their meaning: it writes the same values with white
  space left out and some characters of string literals escaped, and every literal still
  decodes to the same string.
\<close>

section \<open>Literals\<close>

fun compact_lit :: "string \<Rightarrow> string" where
  "compact_lit [] = []"
| "compact_lit (c # s) =
     (if c = backslash then c # take 1 s @ (case s of [] \<Rightarrow> [] | e # t \<Rightarrow> compact_lit t)
      else if has_prefix (c # s) [CHR 0xE2, CHR 0x80, CHR 0xA8] then backslash # ''u2028'' @ compact_lit (drop 2 s)
      else if has_prefix (c # s) [CHR 0xE2, CHR 0x80, CHR 0xA9] then backslash # ''u2029'' @ compact_lit (drop 2 s)
      else html_escape c @ compact_lit s)"

lemma has_prefix3: "has_prefix s [a, b, c] \<longleftrightarrow> (\<exists>t. s = a # b # c # t)"
  by (cases s; cases "tl s"; cases "tl (tl s)") (auto simp: has_prefix_def)

definition separator :: "char \<Rightarrow> bool" where "separator x \<longleftrightarrow> x = CHR 0xA8 \<or> x = CHR 0xA9"
definition html :: "char \<Rightarrow> bool" where "html c \<longleftrightarrow> c \<in> {CHR ''<'', CHR ''>'', CHR ''&''}"

lemma lit_valid_hex: "list_all is_hex h \<Longrightarrow> lit_valid (h @ t) = lit_valid t"
proof (induction h)
  case (Cons c h)
  then have "is_hex c" by simp
  then have "c \<noteq> backslash" "c \<noteq> quote" "\<not> (of_char c :: int) < 32" by (auto simp: is_hex_def)
  with Cons show ?case by simp
qed simp

text \<open>The text of a literal is a sequence of these pieces.\<close>

lemma lit_valid_cases:
  assumes "lit_valid l"
  obtains (Nil) "l = []"
    | (Esc) e t where "l = backslash # e # t" "esc_ok e" "lit_valid t"
    | (Uni) h t where "l = backslash # CHR ''u'' # h @ t" "length h = 4" "list_all is_hex h" "lit_valid t"
    | (Sep) x t where "l = CHR 0xE2 # CHR 0x80 # x # t" "separator x" "lit_valid t"
    | (Html) c t where "l = c # t" "html c" "lit_valid t"
    | (Other) c t where "l = c # t" "c \<noteq> quote" "c \<noteq> backslash" "\<not> html c" "\<not> (of_char c :: int) < 32"
        "\<nexists>x u. l = CHR 0xE2 # CHR 0x80 # x # u \<and> separator x" "lit_valid t"
proof (cases l)
  case (Cons c s)
  show thesis
  proof (cases "c = backslash")
    case True
    with assms Cons obtain e t where s: "s = e # t" "lit_valid t"
      "esc_ok e \<or> (e = CHR ''u'' \<and> length (take 4 t) = 4 \<and> list_all is_hex (take 4 t))" by (auto split: list.splits)
    show thesis
    proof (cases "esc_ok e")
      case False
      with s have h: "length (take 4 t) = 4" "list_all is_hex (take 4 t)" "e = CHR ''u''" by auto
      have "lit_valid (drop 4 t)"
        using lit_valid_hex [OF h(2), of "drop 4 t"] s(2) by simp
      with h s True Cons show thesis by (intro Uni [of "take 4 t" "drop 4 t"]) auto
    qed (use Esc s True Cons in blast)
  next
    case False
    with assms Cons have c: "c \<noteq> quote" "\<not> (of_char c :: int) < 32" "lit_valid s" by auto
    show thesis
    proof (cases "\<exists>x u. l = CHR 0xE2 # CHR 0x80 # x # u \<and> separator x")
      case True
      then obtain x u where u: "l = CHR 0xE2 # CHR 0x80 # x # u" "separator x" by blast
      with c Cons have "lit_valid u" by (auto simp: separator_def)
      with u show thesis by (rule Sep)
    next
      case ns: False
      show thesis
      proof (cases "html c")
        case True
        with Html Cons c show thesis by blast
      next
        case nh: False
        show thesis using Other [OF Cons c(1) False nh c(2) ns c(3)] .
      qed
    qed
  qed
qed (use Nil in blast)

lemma compact_esc: "compact_lit (backslash # e # t) = backslash # e # compact_lit t"
  by simp

lemma compact_sep: "separator x \<Longrightarrow>
    compact_lit (CHR 0xE2 # CHR 0x80 # x # t) = backslash # ''u202'' @ (if x = CHR 0xA8 then CHR ''8'' else CHR ''9'') # compact_lit t"
  by (auto simp: has_prefix3 separator_def)

lemma compact_html: "html c \<Longrightarrow> compact_lit (c # t) = html_escape c @ compact_lit t"
  by (auto simp: has_prefix3 html_def)

lemma compact_other:
  assumes "c \<noteq> backslash" and "\<not> html c" and "\<nexists>x u. c # t = CHR 0xE2 # CHR 0x80 # x # u \<and> separator x"
  shows "compact_lit (c # t) = c # compact_lit t"
proof -
  have "\<not> has_prefix (c # t) [CHR 0xE2, CHR 0x80, CHR 0xA8]" "\<not> has_prefix (c # t) [CHR 0xE2, CHR 0x80, CHR 0xA9]"
    using assms(3) by (auto simp: has_prefix3 separator_def)
  moreover have "html_escape c = [c]" using assms(2) by (simp add: html_def html_escape_def)
  ultimately show ?thesis using assms(1) by simp
qed

lemmas compact_pieces = compact_esc compact_sep compact_html compact_other

lemma compact_hex: "list_all is_hex h \<Longrightarrow> compact_lit (h @ t) = h @ compact_lit t"
proof (induction h)
  case (Cons c h)
  then have "is_hex c" by simp
  then have "c \<noteq> backslash" "\<not> html c" "c \<noteq> CHR 0xE2" by (auto simp: is_hex_def html_def)
  with Cons show ?case by (simp add: compact_other del: compact_lit.simps)
qed simp

lemma hex_digits [simp]: "is_hex CHR ''0''" "is_hex CHR ''2''" "is_hex CHR ''3''" "is_hex CHR ''6''" "is_hex CHR ''8''"
    "is_hex CHR ''9''" "is_hex CHR ''c''" "is_hex CHR ''e''"
  by (simp_all add: is_hex_def)


lemma lit_valid_uni: "length h = 4 \<Longrightarrow> list_all is_hex h \<Longrightarrow> lit_valid t \<Longrightarrow> lit_valid (backslash # CHR ''u'' # h @ t)"
  using lit_valid_hex [of h t] by simp

lemma html_escape_uni: "html c \<Longrightarrow> \<exists>h. html_escape c = backslash # CHR ''u'' # h \<and> length h = 4 \<and> list_all is_hex h \<and> hex4 (h @ t) = of_char c"
  by (auto simp: html_def html_escape_def hex4_def hex_val_def numeral_eq_Suc)

lemma compact_valid: "lit_valid l \<Longrightarrow> lit_valid (compact_lit l)"
proof (induction l rule: length_induct)
  case (1 l)
  from 1(2) show ?case
  proof (cases rule: lit_valid_cases)
    case (Esc e t)
    with 1(1) show ?thesis by (simp add: compact_pieces del: compact_lit.simps)
  next
    case (Uni h t)
    with 1(1) have "lit_valid (backslash # CHR ''u'' # h @ compact_lit t)" by (intro lit_valid_uni) auto
    with Uni show ?thesis by (simp add: compact_pieces compact_hex del: compact_lit.simps lit_valid.simps)
  next
    case (Sep x t)
    with 1(1) have "lit_valid (compact_lit t)" by simp
    then have "lit_valid (backslash # CHR ''u'' # [CHR ''2'', CHR ''0'', CHR ''2'', if x = CHR 0xA8 then CHR ''8'' else CHR ''9''] @ compact_lit t)"
      by (intro lit_valid_uni) auto
    with Sep show ?thesis by (simp add: compact_pieces del: compact_lit.simps lit_valid.simps)
  next
    case (Html c t)
    with 1(1) have v: "lit_valid (compact_lit t)" by simp
    from html_escape_uni [OF Html(2)] obtain h where h: "html_escape c = backslash # CHR ''u'' # h" "length h = 4" "list_all is_hex h" by blast
    from lit_valid_uni [OF h(2,3) v] Html h(1) show ?thesis by (simp add: compact_pieces del: compact_lit.simps lit_valid.simps)
  next
    case (Other c t)
    with 1(1) have "lit_valid (compact_lit t)" by simp
    with Other show ?thesis by (simp add: compact_other del: compact_lit.simps)
  qed simp
qed


section \<open>Compacted literals decode the same\<close>

definition contc :: "char \<Rightarrow> bool" where "contc c = cont (of_char c)"

lemma contc_other: "contc c \<Longrightarrow> c \<noteq> backslash \<and> c \<noteq> quote \<and> \<not> html c \<and> c \<noteq> CHR 0xE2 \<and> \<not> (of_char c :: int) < 32"
  by (auto simp: contc_def cont_def html_def)

lemma compact_conts: "list_all contc k \<Longrightarrow> compact_lit (k @ t) = k @ compact_lit t"
proof (induction k)
  case (Cons c k)
  with contc_other [of c] show ?case by (simp add: compact_other del: compact_lit.simps)
qed simp

lemma lit_valid_conts: "list_all contc k \<Longrightarrow> lit_valid (k @ t) = lit_valid t"
proof (induction k)
  case (Cons c k)
  with contc_other [of c] show ?case by simp
qed simp

lemma takeWhile_cont_compact: "lit_valid l \<Longrightarrow> takeWhile contc (compact_lit l) = takeWhile contc l"
proof (induction l rule: length_induct)
  case (1 l)
  have n: "\<not> contc backslash" "\<not> contc CHR 0xE2" by (simp_all add: contc_def cont_def)
  from 1(2) show ?case
  proof (cases rule: lit_valid_cases)
    case (Html c t)
    from html_escape_uni [OF Html(2), of "[]"] obtain h where "html_escape c = backslash # CHR ''u'' # h" by blast
    with Html n show ?thesis by (auto simp: compact_html simp del: compact_lit.simps dest: contc_other)
  next
    case (Other c t)
    with 1(1) show ?thesis by (simp add: compact_other del: compact_lit.simps)
  qed (use n in \<open>simp_all add: compact_esc compact_sep del: compact_lit.simps(2)\<close>)
qed

lemma utf8_width_takeWhile: "utf8_width (c # s) = utf8_width (c # takeWhile contc s)"
proof -
  have t: "take 4 (x # ys) = x # take 3 ys" "take 3 (x # ys) = x # take 2 ys" "take 2 (x # ys) = x # take 1 ys"
      "take 1 (x # ys) = [x]" for x :: char and ys
    by (simp_all add: numeral_eq_Suc)
  show ?thesis
    by (cases s; cases "tl s"; cases "tl (tl s)")
      (auto simp: utf8_width_def Let_def contc_def t)
qed

lemma utf8_width_conts:
  assumes "utf8_width (c # t) = Suc n"
  shows "n \<le> length t \<and> list_all contc (take n t)"
proof -
  have "take 4 (x # ys) = x # take 3 ys" "take 3 (x # ys) = x # take 2 ys" "take 2 (x # ys) = x # take 1 ys"
      "take 1 (x # ys) = [x]" for x :: char and ys
    by (simp_all add: numeral_eq_Suc)
  with assms show ?thesis
    by (cases t; cases "tl t"; cases "tl (tl t)")
      (auto simp: utf8_width_def Let_def contc_def numeral_eq_Suc split: if_splits)
qed


lemma unquote_Nil [simp]: "unquote [] = []"
  by (simp add: unquote.simps)

lemma unquote_esc: "e \<noteq> CHR ''u'' \<Longrightarrow> unquote (backslash # e # t) = esc_char e # unquote t"
  by (subst unquote.simps) simp

lemma has_prefix2: "has_prefix s [a, b] \<longleftrightarrow> (\<exists>t. s = a # b # t)"
  by (cases s; cases "tl s") (auto simp: has_prefix_def)

lemma take4_Cons: "take 4 (x # ys) = x # take 3 ys" "take 3 (x # ys) = x # take 2 ys" "take 2 (x # ys) = x # take 1 ys"
    "take 1 (x # ys) = [x]"
  by (simp_all add: numeral_eq_Suc)

text \<open>What follows a surrogate escape: the low half of the pair, or something else.\<close>

definition low_half :: "string \<Rightarrow> nat option" where
  "low_half w =
     (let r1 = hex4 (drop 2 w)
      in if has_prefix w [backslash, CHR ''u''] \<and> 56320 \<le> r1 \<and> r1 < 57344 then Some r1 else None)"

lemma unquote_uni:
  "length h = 4 \<Longrightarrow> unquote (backslash # CHR ''u'' # h @ w) =
     (let r = hex4 h in
      if 55296 \<le> r \<and> r < 57344 then
        (case if r < 56320 then low_half w else None of
           Some r1 \<Rightarrow> utf8_enc ((r - 55296) * 1024 + (r1 - 56320) + 65536) @ unquote (drop 6 w)
         | None \<Rightarrow> fffd @ unquote w)
      else utf8_enc r @ unquote w)"
  by (subst unquote.simps) (simp add: Let_def low_half_def hex4_def)

lemma unquote_rune:
  "c \<noteq> backslash \<Longrightarrow> unquote (c # t) =
     (if utf8_width (c # t) = 0 then fffd @ unquote t
      else take (utf8_width (c # t)) (c # t) @ unquote (drop (utf8_width (c # t)) (c # t)))"
  by (subst unquote.simps) simp

lemma hex4_append: "length h = 4 \<Longrightarrow> hex4 (h @ t) = hex4 h"
  by (simp add: hex4_def)

lemma low_half_uni:
  "length h = 4 \<Longrightarrow> low_half (backslash # CHR ''u'' # h @ t) = (if 56320 \<le> hex4 h \<and> hex4 h < 57344 then Some (hex4 h) else None)"
  by (simp add: low_half_def has_prefix2 hex4_append Let_def)

lemma low_half_none: "w = [] \<or> hd w \<noteq> backslash \<or> tl w = [] \<or> hd (tl w) \<noteq> CHR ''u'' \<Longrightarrow> low_half w = None"
  by (auto simp: low_half_def has_prefix2 Let_def)

lemma html_low: "html c \<Longrightarrow> low_half (html_escape c @ t) = None"
proof -
  assume c: "html c"
  from html_escape_uni [OF c, of "[]"] obtain h where h: "html_escape c = backslash # CHR ''u'' # h" "length h = 4" "hex4 h = of_char c"
    by auto
  have "hex4 h < 56320" using c h(3) by (auto simp: html_def)
  with h low_half_uni [OF h(2), of t] show ?thesis by simp
qed

lemma low_half_compact:
  assumes "lit_valid w"
  shows "low_half (compact_lit w) = low_half w \<and>
    (low_half w \<noteq> None \<longrightarrow> drop 6 (compact_lit w) = compact_lit (drop 6 w) \<and> lit_valid (drop 6 w) \<and> w \<noteq> [])"
  using assms
proof (cases rule: lit_valid_cases)
  case (Esc e t)
  then have "e \<noteq> CHR ''u''" by (auto simp: esc_ok_def)
  with Esc show ?thesis by (simp add: compact_esc low_half_none del: compact_lit.simps)
next
  case (Uni h t)
  then have "compact_lit w = backslash # CHR ''u'' # h @ compact_lit t"
    by (simp add: compact_esc compact_hex del: compact_lit.simps)
  moreover have "drop 6 (backslash # CHR ''u'' # h @ s) = s" for s using Uni(2) by (simp add: numeral_eq_Suc)
  ultimately show ?thesis using Uni low_half_uni [OF Uni(2)] by (auto simp del: compact_lit.simps)
next
  case (Sep x t)
  have "low_half (backslash # CHR ''u'' # [CHR ''2'', CHR ''0'', CHR ''2'', y] @ s) = None"
    if "y = CHR ''8'' \<or> y = CHR ''9''" for y s
    using that by (subst low_half_uni) (auto simp: hex4_def hex_val_def)
  with Sep show ?thesis by (simp add: compact_sep low_half_none del: compact_lit.simps)
next
  case (Html c t)
  then have "c \<noteq> backslash" by (auto simp: html_def)
  with Html html_low show ?thesis by (simp add: compact_html low_half_none del: compact_lit.simps)
next
  case (Other c t)
  then show ?thesis by (simp add: compact_other low_half_none del: compact_lit.simps)
qed (simp add: low_half_none)

lemma utf8_width_1: "(of_char c :: int) < 128 \<Longrightarrow> utf8_width (c # t) = 1"
  by (simp add: utf8_width_def numeral_eq_Suc)

lemma html_enc: "html c \<Longrightarrow> utf8_enc (of_char c) = [c] \<and> (of_char c :: nat) < 55296 \<and> utf8_width (c # t) = 1"
  by (auto simp: html_def utf8_enc_def bytes_def utf8_width_1)

lemma sep_chars: "char_of (226 :: nat) = CHR 0xE2" "char_of (128 :: nat) = CHR 0x80" "char_of (168 :: nat) = CHR 0xA8"
    "char_of (169 :: nat) = CHR 0xA9"
  by code_simp+

lemma sep_enc: "separator x \<Longrightarrow> hex4 [CHR ''2'', CHR ''0'', CHR ''2'', if x = CHR 0xA8 then CHR ''8'' else CHR ''9''] =
      (if x = CHR 0xA8 then 8232 else 8233) \<and>
    utf8_enc (if x = CHR 0xA8 then 8232 else 8233) = [CHR 0xE2, CHR 0x80, x] \<and> utf8_width (CHR 0xE2 # CHR 0x80 # x # t) = 3"
  by (auto simp: separator_def utf8_enc_def bytes_def utf8_width_def hex4_def hex_val_def cont_def take4_Cons sep_chars)


lemma unquote_compact: "lit_valid l \<Longrightarrow> unquote (compact_lit l) = unquote l"
proof (induction l rule: length_induct)
  case (1 l)
  have IH: "unquote (compact_lit w) = unquote w" if "length w < length l" "lit_valid w" for w
    using 1(1) that by blast
  from 1(2) show ?case
  proof (cases rule: lit_valid_cases)
    case (Esc e t)
    then have "e \<noteq> CHR ''u''" by (auto simp: esc_ok_def)
    with Esc IH [of t] show ?thesis by (simp add: compact_esc unquote_esc del: compact_lit.simps(2))
  next
    case (Uni h t)
    have c: "compact_lit l = backslash # CHR ''u'' # h @ compact_lit t"
      using Uni by (simp add: compact_esc compact_hex del: compact_lit.simps(2))
    have t: "unquote (compact_lit t) = unquote t" using Uni by (intro IH) auto
    have d: "unquote (drop 6 (compact_lit t)) = unquote (drop 6 t)" if "low_half t \<noteq> None"
      using low_half_compact [OF Uni(4)] that Uni IH [of "drop 6 t"] by simp
    have "unquote (backslash # CHR ''u'' # h @ compact_lit t) = unquote (backslash # CHR ''u'' # h @ t)"
      unfolding unquote_uni [OF Uni(2)] low_half_compact [OF Uni(4), THEN conjunct1] t
      using d by (auto simp: Let_def split: option.splits)
    with c Uni(1) show ?thesis by simp
  next
    case (Sep x t)
    let ?d = "if x = CHR 0xA8 then CHR ''8'' else CHR ''9''"
    have c: "compact_lit l = backslash # CHR ''u'' # [CHR ''2'', CHR ''0'', CHR ''2'', ?d] @ compact_lit t"
      using Sep by (simp add: compact_sep del: compact_lit.simps(2))
    have "unquote (compact_lit l) = CHR 0xE2 # CHR 0x80 # x # unquote (compact_lit t)"
      unfolding c using sep_enc [OF Sep(2)] by (subst unquote_uni) (auto simp: Let_def)
    moreover have "unquote l = CHR 0xE2 # CHR 0x80 # x # unquote t"
      using Sep sep_enc [OF Sep(2)] by (subst Sep(1), subst unquote_rune) (auto simp: numeral_eq_Suc)
    ultimately show ?thesis using Sep IH [of t] by simp
  next
    case (Html c t)
    from html_escape_uni [OF Html(2), of "[]"] obtain h where h: "html_escape c = backslash # CHR ''u'' # h" "length h = 4" "hex4 h = of_char c"
      by auto
    have "c \<noteq> backslash" using Html by (auto simp: html_def)
    then have "unquote l = c # unquote t" using Html html_enc [OF Html(2)] by (simp add: unquote_rune)
    moreover have "unquote (compact_lit l) = c # unquote (compact_lit t)"
    proof -
      have lo: "\<not> 55296 \<le> (of_char c :: nat)" and e: "utf8_enc (of_char c) = [c]" using html_enc [OF Html(2)] by auto
      have "unquote (backslash # CHR ''u'' # h @ compact_lit t) = c # unquote (compact_lit t)"
        unfolding unquote_uni [OF h(2)] h(3) Let_def using lo e by simp
      with Html(1) h(1) show ?thesis by (simp add: compact_html [OF Html(2)] del: compact_lit.simps(2))
    qed
    ultimately show ?thesis using Html IH [of t] by simp
  next
    case (Other c t)
    have c: "compact_lit l = c # compact_lit t" using Other by (simp add: compact_other del: compact_lit.simps(2))
    have w: "utf8_width (c # compact_lit t) = utf8_width (c # t)"
      using utf8_width_takeWhile [of c t] utf8_width_takeWhile [of c "compact_lit t"] takeWhile_cont_compact [OF Other(7)] by simp
    show ?thesis
    proof (cases "utf8_width (c # t)")
      case 0
      with w c Other IH [of t] show ?thesis by (simp add: unquote_rune del: compact_lit.simps(2))
    next
      case (Suc n)
      from utf8_width_conts [OF Suc] have n: "n \<le> length t" "list_all contc (take n t)" by auto
      have ct: "compact_lit t = take n t @ compact_lit (drop n t)" using compact_conts [OF n(2), of "drop n t"] by simp
      have "lit_valid (drop n t)" using lit_valid_conts [OF n(2), of "drop n t"] Other(7) by simp
      with Other IH [of "drop n t"] have "unquote (compact_lit (drop n t)) = unquote (drop n t)" by simp
      with c w Suc Other n(1) show ?thesis by (simp add: unquote_rune ct del: compact_lit.simps(2))
    qed
  qed simp
qed


section \<open>Compacted values\<close>

text \<open>The value that a compacted text stands for.\<close>

function compact_json :: "json \<Rightarrow> json" where
  "compact_json v =
     (case v of
        JStr l \<Rightarrow> JStr (compact_lit l)
      | JArr xs \<Rightarrow> JArr (map (\<lambda>x. (compact_out (fst x), compact_json (snd x))) xs)
      | JObj ms \<Rightarrow> JObj (map (\<lambda>m. (compact_lit (fst m), compact_out (fst (snd m)), compact_json (snd (snd m)))) ms)
      | _ \<Rightarrow> v)"
  by pat_completeness auto

termination compact_json
  by (relation "measure size") (auto simp del: json.size dest: size_child_arr size_child_obj)

declare compact_json.simps [simp del]

lemma compact_json_simps [simp]:
  "compact_json JNull = JNull" "compact_json JTrue = JTrue" "compact_json JFalse = JFalse" "compact_json (JNum l) = JNum l"
  "compact_json (JStr l) = JStr (compact_lit l)"
  "compact_json (JArr xs) = JArr (map (\<lambda>x. (compact_out (fst x), compact_json (snd x))) xs)"
  "compact_json (JObj ms) = JObj (map (\<lambda>m. (compact_lit (fst m), compact_out (fst (snd m)), compact_json (snd (snd m)))) ms)"
  by (subst compact_json.simps, simp)+

lemma compact_str_lit: "lit_valid l \<Longrightarrow> compact_str (l @ quote # s) = compact_lit l @ quote # compact_out s"
proof (induction l rule: length_induct)
  case (1 l)
  from 1(2) show ?case
  proof (cases rule: lit_valid_cases)
    case (Esc e t)
    with 1(1) show ?thesis by simp
  next
    case (Uni h t)
    have "compact_str (h' @ t @ quote # s) = h' @ compact_str (t @ quote # s)" if "list_all is_hex h'" for h'
      using that
    proof (induction h')
      case (Cons c h')
      then have "is_hex c" by simp
      then have "c \<noteq> quote" "c \<noteq> backslash" "html_escape c = [c]" "c \<noteq> CHR 0xE2" by (auto simp: is_hex_def html_escape_def)
      with Cons show ?case by (simp add: has_prefix3)
    qed simp
    with 1(1) Uni show ?thesis by (simp add: compact_hex del: compact_lit.simps(2)) (simp add: compact_esc compact_hex)
  next
    case (Sep x t)
    then have "compact_str (t @ quote # s) = compact_lit t @ quote # compact_out s" using 1(1) by simp
    with Sep show ?thesis by (auto simp: separator_def has_prefix3)
  next
    case (Html c t)
    then have "compact_str (t @ quote # s) = compact_lit t @ quote # compact_out s" using 1(1) by simp
    with Html show ?thesis by (auto simp: html_def has_prefix3)
  next
    case (Other c t)
    then have ih: "compact_str (t @ quote # s) = compact_lit t @ quote # compact_out s" using 1(1) by simp
    have "\<not> has_prefix (c # t @ quote # s) [CHR 0xE2, CHR 0x80, x]" if "separator x" for x
      using Other(1,6) that by (cases t; cases "tl t") (auto simp: has_prefix3 separator_def)
    then have "\<not> has_prefix (c # t @ quote # s) [CHR 0xE2, CHR 0x80, CHR 0xA8]" "\<not> has_prefix (c # t @ quote # s) [CHR 0xE2, CHR 0x80, CHR 0xA9]"
      by (simp_all add: separator_def)
    moreover have "html_escape c = [c]" using Other(4) by (simp add: html_def html_escape_def)
    ultimately have "compact_str (c # t @ quote # s) = c # compact_str (t @ quote # s)" using Other(2,3) by simp
    with ih Other show ?thesis by (simp add: compact_other del: compact_lit.simps(2) compact_str.simps)
  qed simp
qed

lemma compact_ws: "\<forall>c \<in> set w. is_ws c \<Longrightarrow> compact_out (w @ s) = compact_out s"
  by (induction w) (auto simp: is_ws_def)

lemma compact_expect: "expect c s = Some r \<Longrightarrow> c \<noteq> quote \<Longrightarrow> \<exists>b. s = b @ r \<and> (\<forall>q. compact_out (b @ q) = c # compact_out q)"
proof -
  assume e: "expect c s = Some r" and c: "c \<noteq> quote"
  from e obtain b where b: "s = b @ r" "skip_ws b = [c]" by (elim expect_localE)
  obtain w where w: "b = w @ [c]" "\<forall>x \<in> set w. is_ws x" using skip_ws_split [of b] b(2) by auto
  have "\<not> is_ws c" using skip_ws_hd [of b c "[]"] b(2) by simp
  with w c have "compact_out (b @ q) = c # compact_out q" for q by (simp add: compact_ws)
  with b(1) show ?thesis by blast
qed

text \<open>The text \<open>b\<close> of a value is compacted on its own, to a text of the compacted value.\<close>

definition compacts :: "int \<Rightarrow> string \<Rightarrow> json \<Rightarrow> bool" where
  "compacts d b v \<longleftrightarrow> (\<forall>q. compact_out (b @ q) = compact_out b @ compact_out q) \<and> is_value d (compact_out b) (compact_json v)"


lemma compacts_lit:
  assumes "jlit t = Some (v, r)"
  shows "\<exists>b. t = b @ r \<and> compacts d b v"
proof -
  from lit_local [OF assms] obtain b where b: "t = b @ r" "b \<noteq> []" "\<not> is_ws (hd b)"
    "\<And>r'. jstop r' \<Longrightarrow> jlit (b @ r') = Some (v, r')" by blast
  have p: "jlit b = Some (v, [])" using b(4) [of "[]"] by (simp add: jstop_def)
  have c: "compact_out (b @ q) = b @ compact_out q" for q
  proof -
    have "\<forall>c \<in> set b. c \<noteq> quote \<and> \<not> is_ws c"
    proof (cases "has_prefix b ''null'' \<or> has_prefix b ''true'' \<or> has_prefix b ''false''")
      case True
      have "b = k" if "has_prefix b k" "drop (length k) b = []" for k
        using that by (auto simp: has_prefix_def)
      with True p have "b = ''null'' \<or> b = ''true'' \<or> b = ''false''"
        by (auto simp: jlit_def has_prefix_def split: if_splits)
      then show ?thesis by (auto simp: is_ws_def)
    next
      case False
      with p have "dropWhile numchar b = []" by (auto simp: jlit_def split: if_splits)
      then have "\<forall>c \<in> set b. numchar c" by (auto simp: dropWhile_eq_Nil_conv)
      moreover have "\<not> numchar quote" by (simp add: numchar_def is_digit_def)
      ultimately show ?thesis using is_ws_numchar by blast
    qed
    then show ?thesis by (induction b) auto
  qed
  have "compact_json v = v" using assms by (auto simp: jlit_def split: if_splits)
  moreover have "jval (Suc 0) d b = Some (v, [])"
  proof -
    have "b = c # u \<Longrightarrow> c \<noteq> quote \<and> c \<noteq> CHR ''['' \<and> c \<noteq> CHR ''{''" for c u
      using p by (auto simp: jlit_def has_prefix_def num_ok_def numchar_def is_digit_def split: if_splits)
    with b(2) p show ?thesis by (cases b) (auto simp: jstep_def)
  qed
  ultimately show ?thesis using b(1) c [of "[]"] c
    by (intro exI [of _ b]) (simp add: compacts_def jval_is_value del: jval.simps)
qed

definition compacts_elems :: "int \<Rightarrow> string \<Rightarrow> (string \<times> json) list \<Rightarrow> bool" where
  "compacts_elems d b xs \<longleftrightarrow>
     (\<forall>q. compact_out (b @ q) = commas (map (\<lambda>x. compact_out (fst x)) xs) @ CHR '']'' # compact_out q) \<and>
     (\<forall>(raw, v) \<in> set xs. is_value d (compact_out raw) (compact_json v))"

definition compacts_members :: "int \<Rightarrow> string \<Rightarrow> (string \<times> string \<times> json) list \<Rightarrow> bool" where
  "compacts_members d b ms \<longleftrightarrow>
     (\<forall>q. compact_out (b @ q) =
        commas (map (\<lambda>m. json_key (compact_lit (fst m)) @ CHR '':'' # compact_out (fst (snd m))) ms) @ CHR ''}'' # compact_out q) \<and>
     (\<forall>(k, raw, v) \<in> set ms. lit_valid k \<and> is_value d (compact_out raw) (compact_json v))"

lemma compacts_elem:
  assumes g: "\<And>d t v r. jval n d t = Some (v, r) \<Longrightarrow> \<exists>b. t = b @ r \<and> compacts d b v"
    and p: "jelem (jval n) d s = Some ((raw, v), r)"
  shows "\<exists>b. s = b @ r \<and> (\<forall>q. compact_out (b @ q) = compact_out raw @ compact_out q) \<and> is_value d (compact_out raw) (compact_json v)"
proof -
  from p have j: "jval n d (skip_ws s) = Some (v, r)" "raw = take (length (skip_ws s) - length r) (skip_ws s)"
    by (auto simp: jelem_def Let_def)
  from g [OF j(1)] obtain b where b: "skip_ws s = b @ r" "compacts d b v" by blast
  obtain w where w: "s = w @ skip_ws s" "\<forall>c \<in> set w. is_ws c" using skip_ws_split by blast
  from b j(2) have "raw = b" by simp
  with w b show ?thesis by (intro exI [of _ "w @ b"]) (simp add: compact_ws compacts_def)
qed

lemma compacts_elems_step:
  assumes g: "\<And>d t v r. jval n d t = Some (v, r) \<Longrightarrow> \<exists>b. t = b @ r \<and> compacts d b v"
    and f: "\<And>d s xs r. jelems n d s = Some (xs, r) \<Longrightarrow> xs \<noteq> [] \<and> (\<exists>b. s = b @ r \<and> compacts_elems d b xs)"
    and p: "jelems (Suc n) d s = Some (xs, r)"
  shows "xs \<noteq> [] \<and> (\<exists>b. s = b @ r \<and> compacts_elems d b xs)"
proof -
  from p have p': "jsep (CHR '']'') (jelem (jval n)) (jelems n) d s = Some (xs, r)" by simp
  then obtain raw v q where e: "jelem (jval n) d s = Some ((raw, v), q)"
    by (cases "jelem (jval n) d s") (auto simp: jsep_def)
  from compacts_elem [OF g e] obtain a where a: "s = a @ q" "\<And>q. compact_out (a @ q) = compact_out raw @ compact_out q"
    "is_value d (compact_out raw) (compact_json v)" by blast
  show ?thesis
  proof (cases "expect (CHR '']'') q")
    case (Some q')
    with p' e have v: "xs = [(raw, v)]" "q' = r" by (simp_all add: jsep_def)
    from compact_expect [OF Some] v(2) obtain b where "q = b @ r" "\<And>q. compact_out (b @ q) = CHR '']'' # compact_out q" by auto
    with a v show ?thesis by (intro conjI exI [of _ "a @ b"]) (auto simp: compacts_elems_def)
  next
    case None
    with p' e obtain q' where q': "expect (CHR '','') q = Some q'" by (cases "expect (CHR '','') q") (auto simp: jsep_def)
    with p' e None obtain ys where y: "jelems n d q' = Some (ys, r)" "xs = (raw, v) # ys" by (auto simp: jsep_def)
    from compact_expect [OF q'] obtain b where b: "q = b @ q'" "\<And>q. compact_out (b @ q) = CHR '','' # compact_out q" by auto
    from f [OF y(1)] obtain c where c: "ys \<noteq> []" "q' = c @ r" "compacts_elems d c ys" by blast
    with a b y show ?thesis
      by (intro conjI exI [of _ "a @ b @ c"]) (auto simp: compacts_elems_def neq_Nil_conv)
  qed
qed

lemma compacts_member:
  assumes g: "\<And>d t v r. jval n d t = Some (v, r) \<Longrightarrow> \<exists>b. t = b @ r \<and> compacts d b v"
    and p: "jmember (jval n) d s = Some ((k, raw, v), r)"
  shows "\<exists>b. s = b @ r \<and> (\<forall>q. compact_out (b @ q) = json_key (compact_lit k) @ CHR '':'' # compact_out raw @ compact_out q) \<and>
    lit_valid k \<and> is_value d (compact_out raw) (compact_json v)"
proof -
  from p obtain u0 where q: "expect quote s = Some u0" by (cases "expect quote s") (auto simp: jmember_def)
  with p obtain k' u where u: "scan_str u0 = Some (k', u)" by (cases "scan_str u0") (auto simp: jmember_def)
  with p q obtain w where w: "expect (CHR '':'') u = Some w" by (cases "expect (CHR '':'') u") (auto simp: jmember_def)
  with p q u have e: "jelem (jval n) d w = Some ((raw, v), r)" and k: "k' = k" by (auto simp: jmember_def)
  from q obtain b where b: "s = b @ u0" "skip_ws b = [quote]" by (elim expect_localE)
  obtain z where z: "b = z @ [quote]" "\<forall>x \<in> set z. is_ws x" using skip_ws_split [of b] b(2) by auto
  from compact_expect [OF w] obtain c where c: "u = c @ w" "\<And>q. compact_out (c @ q) = CHR '':'' # compact_out q" by auto
  from compacts_elem [OF g e] obtain a where a: "w = a @ r" "\<And>q. compact_out (a @ q) = compact_out raw @ compact_out q"
    "is_value d (compact_out raw) (compact_json v)" by blast
  have l: "lit_valid k" "u0 = k @ quote # u" using scan_lit_valid [OF u] scan_str_eq [OF u] k by simp_all
  have "compact_out (z @ quote # k @ quote # c @ a @ q) = json_key (compact_lit k) @ CHR '':'' # compact_out raw @ compact_out q" for q
    using z(2) c(2) a(2) l(1) by (simp add: compact_ws compact_str_lit json_key_def)
  then show ?thesis using b(1) z(1) l a c by (intro exI [of _ "z @ quote # k @ quote # c @ a"]) simp
qed

lemma compacts_members_step:
  assumes g: "\<And>d t v r. jval n d t = Some (v, r) \<Longrightarrow> \<exists>b. t = b @ r \<and> compacts d b v"
    and f: "\<And>d s xs r. jmembers n d s = Some (xs, r) \<Longrightarrow> xs \<noteq> [] \<and> (\<exists>b. s = b @ r \<and> compacts_members d b xs)"
    and p: "jmembers (Suc n) d s = Some (xs, r)"
  shows "xs \<noteq> [] \<and> (\<exists>b. s = b @ r \<and> compacts_members d b xs)"
proof -
  from p have p': "jsep (CHR ''}'') (jmember (jval n)) (jmembers n) d s = Some (xs, r)" by simp
  then obtain k raw v q where e: "jmember (jval n) d s = Some ((k, raw, v), q)"
    by (cases "jmember (jval n) d s") (auto simp: jsep_def)
  from compacts_member [OF g e] obtain a where a: "s = a @ q"
    "\<And>q. compact_out (a @ q) = json_key (compact_lit k) @ CHR '':'' # compact_out raw @ compact_out q"
    "lit_valid k" "is_value d (compact_out raw) (compact_json v)" by blast
  show ?thesis
  proof (cases "expect (CHR ''}'') q")
    case (Some q')
    with p' e have v: "xs = [(k, raw, v)]" "q' = r" by (simp_all add: jsep_def)
    from compact_expect [OF Some] v(2) obtain b where "q = b @ r" "\<And>q. compact_out (b @ q) = CHR ''}'' # compact_out q" by auto
    with a v show ?thesis by (intro conjI exI [of _ "a @ b"]) (auto simp: compacts_members_def)
  next
    case None
    with p' e obtain q' where q': "expect (CHR '','') q = Some q'" by (cases "expect (CHR '','') q") (auto simp: jsep_def)
    with p' e None obtain ys where y: "jmembers n d q' = Some (ys, r)" "xs = (k, raw, v) # ys" by (auto simp: jsep_def)
    from compact_expect [OF q'] obtain b where b: "q = b @ q'" "\<And>q. compact_out (b @ q) = CHR '','' # compact_out q" by auto
    from f [OF y(1)] obtain c where c: "ys \<noteq> []" "q' = c @ r" "compacts_members d c ys" by blast
    with a b y show ?thesis
      by (intro conjI exI [of _ "a @ b @ c"]) (auto simp: compacts_members_def neq_Nil_conv)
  qed
qed


lemma compacts_arr:
  assumes "0 < d" and "compacts_elems (d - 1) b xs"
  shows "compacts d (CHR ''['' # b) (JArr xs)"
proof -
  let ?xs = "map (\<lambda>x. (compact_out (fst x), compact_json (snd x))) xs"
  have "is_value d (json_arr (map fst ?xs)) (JArr ?xs)"
    using assms by (intro is_value_arr) (auto simp: compacts_elems_def)
  moreover have "compact_out (CHR ''['' # b @ q) = json_arr (map fst ?xs) @ compact_out q" for q
    using assms(2) by (simp add: compacts_elems_def json_arr_def is_ws_def comp_def)
  ultimately show ?thesis using \<open>\<And>q. compact_out (CHR ''['' # b @ q) = json_arr (map fst ?xs) @ compact_out q\<close> [of "[]"]
    by (simp add: compacts_def del: compact_out.simps(2))
qed

lemma compacts_obj:
  assumes "0 < d" and "compacts_members (d - 1) b ms"
  shows "compacts d (CHR ''{'' # b) (JObj ms)"
proof -
  let ?ms = "map (\<lambda>m. (compact_lit (fst m), compact_out (fst (snd m)), compact_json (snd (snd m)))) ms"
  have "is_value d (json_obj (map (\<lambda>(k, raw, v). (k, raw)) ?ms)) (JObj ?ms)"
    using assms by (intro is_value_obj) (auto simp: compacts_members_def compact_valid)
  moreover have "compact_out (CHR ''{'' # b @ q) = json_obj (map (\<lambda>(k, raw, v). (k, raw)) ?ms) @ compact_out q" for q
    using assms(2) by (simp add: compacts_members_def json_obj_def is_ws_def comp_def)
  ultimately show ?thesis
    using \<open>\<And>q. compact_out (CHR ''{'' # b @ q) = json_obj (map (\<lambda>(k, raw, v). (k, raw)) ?ms) @ compact_out q\<close> [of "[]"]
    by (simp add: compacts_def del: compact_out.simps(2))
qed

lemma compacts_jval: "jval n d t = Some (v, r) \<Longrightarrow> \<exists>b. t = b @ r \<and> compacts d b v"
  and compacts_jelems: "jelems n d s = Some (xs, r) \<Longrightarrow> xs \<noteq> [] \<and> (\<exists>b. s = b @ r \<and> compacts_elems d b xs)"
  and compacts_jmembers: "jmembers n d s = Some (ms, r) \<Longrightarrow> ms \<noteq> [] \<and> (\<exists>b. s = b @ r \<and> compacts_members d b ms)"
proof (induction n arbitrary: d t v s xs ms r)
  case (Suc n)
  {
    case 1
    then obtain c u where t: "t = c # u" by (cases t) (auto simp: jstep_def)
    consider "c = quote" | "c = CHR ''[''" | "c = CHR ''{''" | "c \<noteq> quote" "c \<noteq> CHR ''[''" "c \<noteq> CHR ''{''" by blast
    then show ?case
    proof cases
      assume c: "c = quote"
      with 1 t obtain l where l: "scan_str u = Some (l, r)" "v = JStr l" by (auto simp: jstep_def)
      note lv = scan_lit_valid [OF l(1)]
      have q: "compact_out (quote # l @ quote # q) = json_key (compact_lit l) @ compact_out q" for q
        using compact_str_lit [OF lv, of q] by (simp add: json_key_def)
      have "compacts d (quote # l @ [quote]) v"
        using q q [of "[]"] is_value_str [OF compact_valid [OF lv], of d] l(2)
        by (simp add: compacts_def del: compact_out.simps(2))
      with t c scan_str_eq [OF l(1)] show ?thesis by (intro exI [of _ "quote # l @ [quote]"]) simp
    next
      assume c: "c = CHR ''[''"
      with 1 t obtain xs where xs: "jbody (CHR '']'') (jelems n) d u = Some (xs, r)" "v = JArr xs" by (auto simp: jstep_def)
      then have d: "0 < d" by (auto simp: jbody_def split: if_splits)
      show ?thesis
      proof (cases "expect (CHR '']'') u")
        case (Some q)
        with xs d have v: "xs = []" "q = r" by (simp_all add: jbody_def)
        from compact_expect [OF Some] v(2) obtain b where "u = b @ r" "\<And>q. compact_out (b @ q) = CHR '']'' # compact_out q" by auto
        with t c v xs(2) compacts_arr [OF d, of b "[]"] show ?thesis
          by (intro exI [of _ "c # b"]) (simp add: compacts_elems_def)
      next
        case None
        with xs d have "jelems n (d - 1) u = Some (xs, r)" by (simp add: jbody_def)
        from Suc.IH(2) [OF this] obtain b where "u = b @ r" "compacts_elems (d - 1) b xs" by blast
        with t c xs(2) compacts_arr [OF d] show ?thesis by (intro exI [of _ "c # b"]) simp
      qed
    next
      assume c: "c = CHR ''{''"
      with 1 t obtain ms where ms: "jbody (CHR ''}'') (jmembers n) d u = Some (ms, r)" "v = JObj ms" by (auto simp: jstep_def)
      then have d: "0 < d" by (auto simp: jbody_def split: if_splits)
      show ?thesis
      proof (cases "expect (CHR ''}'') u")
        case (Some q)
        with ms d have v: "ms = []" "q = r" by (simp_all add: jbody_def)
        from compact_expect [OF Some] v(2) obtain b where "u = b @ r" "\<And>q. compact_out (b @ q) = CHR ''}'' # compact_out q" by auto
        with t c v ms(2) compacts_obj [OF d, of b "[]"] show ?thesis
          by (intro exI [of _ "c # b"]) (simp add: compacts_members_def)
      next
        case None
        with ms d have "jmembers n (d - 1) u = Some (ms, r)" by (simp add: jbody_def)
        from Suc.IH(3) [OF this] obtain b where "u = b @ r" "compacts_members (d - 1) b ms" by blast
        with t c ms(2) compacts_obj [OF d] show ?thesis by (intro exI [of _ "c # b"]) simp
      qed
    next
      assume "c \<noteq> quote" "c \<noteq> CHR ''[''" "c \<noteq> CHR ''{''"
      with 1 t have "jlit t = Some (v, r)" by (simp add: jstep_def)
      then show ?thesis by (rule compacts_lit)
    qed
  next
    case 2
    show ?case by (rule compacts_elems_step [OF _ _ 2]) (use Suc.IH in blast)+
  next
    case 3
    show ?case by (rule compacts_members_step [OF _ _ 3]) (use Suc.IH in blast)+
  }
qed simp_all

text \<open>A value compacts to the compacted value, decoded no deeper.\<close>

lemma compact_value: "is_value d raw v \<Longrightarrow> is_value d (compact_out raw) (compact_json v)"
  unfolding is_value_def [of d raw] by (drule compacts_jval) (auto simp: compacts_def)

end
