(* ===== verification/Mcp.thy ===== *)
theory Mcp
  imports Json
begin

text \<open>
  MCP frames, \<open>proxy/internal/mcp/mcp.go\<close>: which \<open>tools/call\<close> requests a body carries, which
  responses a line carries, whether a body asks for \<open>tools/list\<close>, and the declarations of its
  answer.  Decoding is that of \<open>Json\<close>, on the bytes the peer sent.
\<close>

record tool_call =
  tc_Name :: string
  tc_Arguments :: "json gomap"
  tc_ID :: string

record response =
  rs_ID :: string
  rs_Raw :: string

text \<open>A raw message that is absent is \<open>None\<close>, Go's nil slice.\<close>

record frame =
  f_Method :: "string option"
  f_ID :: "string option"
  f_Params :: "string option"
  f_Result :: "string option"
  f_Error :: "string option"

definition no_frame :: frame where
  "no_frame = \<lparr>f_Method = None, f_ID = None, f_Params = None, f_Result = None, f_Error = None\<rparr>"

definition set_frame :: "string \<Rightarrow> string \<Rightarrow> json \<Rightarrow> frame \<Rightarrow> frame option" where
  "set_frame k raw v f =
     (if key_is k ''method'' then map_option (\<lambda>m. f\<lparr>f_Method := m\<rparr>) (into_pstring v)
      else if key_is k ''id'' then Some (f\<lparr>f_ID := Some raw\<rparr>)
      else if key_is k ''params'' then Some (f\<lparr>f_Params := Some raw\<rparr>)
      else if key_is k ''result'' then Some (f\<lparr>f_Result := Some raw\<rparr>)
      else if key_is k ''error'' then Some (f\<lparr>f_Error := Some raw\<rparr>)
      else Some f)"

definition unmarshal_frame :: "string \<Rightarrow> frame option" where
  "unmarshal_frame = unmarshal_struct set_frame no_frame"

record call_params =
  cp_Name :: string
  cp_Arguments :: "json gomap"

definition set_params :: "string \<Rightarrow> string \<Rightarrow> json \<Rightarrow> call_params \<Rightarrow> call_params option" where
  "set_params k raw v p =
     (if key_is k ''name'' then map_option (\<lambda>n. p\<lparr>cp_Name := n\<rparr>) (into_string v (cp_Name p))
      else if key_is k ''arguments'' then map_option (\<lambda>a. p\<lparr>cp_Arguments := a\<rparr>) (into_any_map v (cp_Arguments p))
      else Some p)"

definition unmarshal_params :: "string \<Rightarrow> call_params option" where
  "unmarshal_params = unmarshal_struct set_params \<lparr>cp_Name = '''', cp_Arguments = []\<rparr>"

definition elements :: "string \<Rightarrow> string list" where
  "elements body = (case Option.bind (json_parse body) into_raws of None \<Rightarrow> [body] | Some raws \<Rightarrow> raws)"

text \<open>The correlation key \<open>id(f)\<close>: the bytes of the id, and nothing for \<open>null\<close>.\<close>

definition id_of :: "frame \<Rightarrow> string" where
  "id_of f = (case f_ID f of None \<Rightarrow> '''' | Some k \<Rightarrow> if k \<noteq> ''null'' then k else '''')"

definition call_of_frame :: "string \<Rightarrow> tool_call option" where
  "call_of_frame raw =
     (case unmarshal_frame raw of
        None \<Rightarrow> None
      | Some f \<Rightarrow>
          if f_Method f \<noteq> Some ''tools/call'' then None
          else
            (case unmarshal_params (case f_Params f of None \<Rightarrow> '''' | Some p \<Rightarrow> p) of
               None \<Rightarrow> Some \<lparr>tc_Name = '''', tc_Arguments = [], tc_ID = id_of f\<rparr>
             | Some p \<Rightarrow>
                 if cp_Name p = '''' then Some \<lparr>tc_Name = '''', tc_Arguments = [], tc_ID = id_of f\<rparr>
                 else Some \<lparr>tc_Name = cp_Name p, tc_Arguments = cp_Arguments p, tc_ID = id_of f\<rparr>))"

definition ParseToolsCalls :: "string \<Rightarrow> tool_call list" where
  "ParseToolsCalls body = List.map_filter call_of_frame (elements body)"

definition response_of_frame :: "string \<Rightarrow> response option" where
  "response_of_frame raw =
     (case unmarshal_frame raw of
        None \<Rightarrow> None
      | Some f \<Rightarrow>
          if f_Method f \<noteq> None then None
          else if f_Result f = None \<and> f_Error f = None then None
          else if id_of f \<noteq> '''' then Some \<lparr>rs_ID = id_of f, rs_Raw = raw\<rparr> else None)"

definition ParseResponses :: "string \<Rightarrow> response list" where
  "ParseResponses line = List.map_filter response_of_frame (elements line)"

definition IsToolsList :: "string \<Rightarrow> bool" where
  "IsToolsList body = list_ex (\<lambda>raw. case unmarshal_frame raw of None \<Rightarrow> False | Some f \<Rightarrow> f_Method f = Some ''tools/list'') (elements body)"

record tool_declaration =
  td_Name :: string
  td_Description :: string
  td_InputSchema :: "string option"

definition no_decl :: tool_declaration where
  "no_decl = \<lparr>td_Name = '''', td_Description = '''', td_InputSchema = None\<rparr>"

definition set_decl :: "string \<Rightarrow> string \<Rightarrow> json \<Rightarrow> tool_declaration \<Rightarrow> tool_declaration option" where
  "set_decl k raw v d =
     (if key_is k ''name'' then map_option (\<lambda>n. d\<lparr>td_Name := n\<rparr>) (into_string v (td_Name d))
      else if key_is k ''description'' then map_option (\<lambda>n. d\<lparr>td_Description := n\<rparr>) (into_string v (td_Description d))
      else if key_is k ''inputSchema'' then Some (d\<lparr>td_InputSchema := Some raw\<rparr>)
      else Some d)"

text \<open>
  Into a slice of structs.  The slice is its backing array and its length: decoding an array
  writes over the elements that are there, so that a repeated \<open>tools\<close> field merges, and cuts
  the slice to what it read; \<open>[]\<close> and \<open>null\<close> start it afresh.
\<close>

fun into_slice :: "(json \<Rightarrow> 'a \<Rightarrow> 'a option) \<Rightarrow> 'a \<Rightarrow> (string \<times> json) list \<Rightarrow> 'a list \<Rightarrow> 'a list option" where
  "into_slice dec z [] old = Some old"
| "into_slice dec z ((raw, v) # xs) old =
     (case dec v (case old of [] \<Rightarrow> z | d # _ \<Rightarrow> d) of
        None \<Rightarrow> None
      | Some d \<Rightarrow> map_option (\<lambda>ds. d # ds) (into_slice dec z xs (tl old)))"

definition into_decls :: "json \<Rightarrow> tool_declaration list \<times> nat \<Rightarrow> (tool_declaration list \<times> nat) option" where
  "into_decls v old =
     (case v of
        JNull \<Rightarrow> Some ([], 0)
      | JArr xs \<Rightarrow>
          if xs = [] then Some ([], 0)
          else map_option (\<lambda>ds. (ds, length xs)) (into_slice (\<lambda>v d. decode_struct set_decl d v) no_decl xs (fst old))
      | _ \<Rightarrow> None)"

definition set_result :: "string \<Rightarrow> string \<Rightarrow> json \<Rightarrow> tool_declaration list \<times> nat \<Rightarrow> (tool_declaration list \<times> nat) option" where
  "set_result k raw v ts = (if key_is k ''tools'' then into_decls v ts else Some ts)"

definition set_list_answer :: "string \<Rightarrow> string \<Rightarrow> json \<Rightarrow> tool_declaration list \<times> nat \<Rightarrow> (tool_declaration list \<times> nat) option" where
  "set_list_answer k raw v ts = (if key_is k ''result'' then decode_struct set_result ts v else Some ts)"

definition declarations_of :: "string \<Rightarrow> tool_declaration list" where
  "declarations_of raw =
     (case unmarshal_struct set_list_answer ([], 0) raw of
        None \<Rightarrow> []
      | Some (ts, n) \<Rightarrow> filter (\<lambda>t. td_Name t \<noteq> '''') (take n ts))"

definition ParseToolDeclarations :: "string \<Rightarrow> tool_declaration list" where
  "ParseToolDeclarations body = concat (map declarations_of (elements body))"


section \<open>Batches\<close>

lemma elements_single: "json_parse body = Some v \<Longrightarrow> into_raws v = None \<Longrightarrow> elements body = [body]"
  by (simp add: elements_def)

lemma frame_of_value: "json_parse raw = Some v \<Longrightarrow> unmarshal_frame raw = decode_struct set_frame no_frame v"
  by (simp add: unmarshal_frame_def unmarshal_struct_def)

lemma call_of_array: "json_parse raw = Some (JArr xs) \<Longrightarrow> call_of_frame raw = None"
  by (simp add: call_of_frame_def frame_of_value decode_struct_def)

lemma call_of_null: "json_parse raw = Some JNull \<Longrightarrow> call_of_frame raw = None"
  by (simp add: call_of_frame_def frame_of_value decode_struct_def no_frame_def)

lemma calls_of_value:
  assumes "json_parse raw = Some v" and "\<nexists>xs. v = JArr xs"
  shows "ParseToolsCalls raw = List.map_filter call_of_frame [raw]"
proof (cases v)
  case JNull
  with assms show ?thesis
    by (simp add: ParseToolsCalls_def elements_def into_raws_def call_of_null map_filter_simps)
qed (use assms in \<open>simp_all add: ParseToolsCalls_def elements_def into_raws_def\<close>)

text \<open>
  C13. Batching hides no call: the calls found in a batch are, in order, those found in each of
  its elements sent alone.  (An element that is itself an array is no JSON-RPC message and
  counts for nothing; sent alone it would be a batch.)
\<close>

theorem batch_hides_nothing:
  assumes "json_parse body = Some (JArr xs)"
  shows "ParseToolsCalls body =
     concat (map (\<lambda>(raw, v). if \<exists>ys. v = JArr ys then [] else ParseToolsCalls raw) xs)"
proof -
  have v: "json_parse raw = Some w" if "(raw, w) \<in> set xs" for raw w
    using that by (intro raw_message_reparses [OF assms]) (simp add: child_of_def)
  have "List.map_filter call_of_frame (map fst ys) =
      concat (map (\<lambda>(raw, v). if \<exists>ys. v = JArr ys then [] else ParseToolsCalls raw) ys)"
    if "set ys \<subseteq> set xs" for ys
    using that
  proof (induction ys)
    case (Cons y ys)
    obtain raw w where y: "y = (raw, w)" by fastforce
    with Cons v have w: "json_parse raw = Some w" by auto
    show ?case
    proof (cases "\<exists>zs. w = JArr zs")
      case True
      with Cons y w show ?thesis by (auto simp: call_of_array map_filter_simps)
    next
      case False
      with Cons y calls_of_value [OF w False] show ?thesis by (auto simp: map_filter_simps split: option.splits)
    qed
  qed (simp add: map_filter_simps)
  with assms show ?thesis by (simp add: ParseToolsCalls_def elements_def into_raws_def)
qed

section \<open>The id of a frame is a value\<close>

text \<open>A raw field of a decoded frame is the text of some member of the object.\<close>

lemma frame_member_value:
  assumes "unmarshal_frame raw = Some f" and "sel f = Some r" and "sel no_frame = None"
    and sel: "\<And>k r v f g. set_frame k r v f = Some g \<Longrightarrow> sel g = sel f \<or> sel g = Some r"
  shows "\<exists>v. is_value (maxNestingDepth - 1) r v"
proof -
  let ?st = "\<lambda>a (k, raw, w). Option.bind a (set_frame (unquote k) raw w)"
  have none: "foldl ?st None xs = None" for xs
    by (induction xs) auto
  have fold: "sel g = Some r \<Longrightarrow> sel f = Some r \<or> (\<exists>v. (r, v) \<in> set (map snd ms))"
    if "foldl ?st (Some f) ms = Some g" for f g ms
    using that
  proof (induction ms arbitrary: f)
    case (Cons m ms)
    obtain k raw w where m: "m = (k, raw, w)" by (cases m)
    with Cons.prems(2) none [of ms] obtain f' where f': "set_frame (unquote k) raw w f = Some f'"
      by (cases "set_frame (unquote k) raw w f") auto
    with Cons m have "sel f' = Some r \<or> (\<exists>v. (r, v) \<in> set (map snd ms))" by simp
    with sel [OF f'] m show ?case by auto
  qed simp
  from assms(1) obtain w where w: "json_parse raw = Some w" "decode_struct set_frame no_frame w = Some f"
    by (auto simp: unmarshal_frame_def unmarshal_struct_def bind_eq_Some_conv)
  with assms(2,3) obtain ms where ms: "w = JObj ms" "foldl ?st (Some no_frame) ms = Some f"
    by (auto simp: decode_struct_def split: json.splits)
  from fold [OF ms(2) assms(2)] assms(3) ms(1) obtain v where "child_of w r v" by (auto simp: child_of_def)
  from parse_child_value [OF w(1) this] show ?thesis by blast
qed

lemma frame_id_value: "unmarshal_frame raw = Some f \<Longrightarrow> f_ID f = Some i \<Longrightarrow> \<exists>v. is_value (maxNestingDepth - 1) i v"
  by (erule frame_member_value [where sel = f_ID]) (auto simp: no_frame_def set_frame_def split: if_splits)

lemma frame_params_value: "unmarshal_frame raw = Some f \<Longrightarrow> f_Params f = Some p \<Longrightarrow> \<exists>v. is_value (maxNestingDepth - 1) p v"
  by (erule frame_member_value [where sel = f_Params]) (auto simp: no_frame_def set_frame_def split: if_splits)

lemma call_id_value:
  assumes "tc \<in> set (ParseToolsCalls body)" and "tc_ID tc \<noteq> ''''"
  shows "tc_ID tc \<noteq> ''null'' \<and> (\<exists>v. is_value (maxNestingDepth - 1) (tc_ID tc) v)"
proof -
  from assms(1) obtain raw where c: "call_of_frame raw = Some tc"
    by (auto simp: ParseToolsCalls_def map_filter_def)
  then obtain f where f: "unmarshal_frame raw = Some f" "tc_ID tc = id_of f"
    by (auto simp: call_of_frame_def Let_def split: option.splits if_splits)
  with assms(2) obtain i where i: "f_ID f = Some i" "i \<noteq> ''null''" "tc_ID tc = i"
    by (auto simp: id_of_def split: option.splits if_splits)
  with frame_id_value [OF f(1) i(1)] show ?thesis by simp
qed


section \<open>A second reading of the method\<close>

text \<open>
  C16. A call can be written so that this parser overlooks it.  Field names are matched up to
  letter case and the last member wins, so a second member \<open>METHOD\<close> replaces the method: no
  call is found, although the member named exactly \<open>method\<close>, which is all that a
  case-sensitive peer reads, says \<open>tools/call\<close>.
\<close>

definition hidden_call :: string where
  \<open>hidden_call = ''{"method":"tools/call","id":1,"params":{"name":"rm"},"METHOD":"x"}''\<close>


section \<open>Witnesses\<close>

definition sample_call :: string where
  \<open>sample_call = ''{"method":"tools/call","id": 7,"params":{"name":"rm","arguments":{"path":"/x"}}}''\<close>

definition sample_other :: string where
  \<open>sample_other = ''{"method":"tools/call","id":"<a>","params":{"name":"ls"}}''\<close>

definition sample_batch :: string where
  "sample_batch = ''[ '' @ sample_call @ '' , '' @ sample_other @ '']''"

lemma sample_batch_calls:
  "map tc_Name (ParseToolsCalls sample_batch) = [''rm'', ''ls'']"
  "map tc_ID (ParseToolsCalls sample_batch) = [''7'', json_key ''<a>'']"
  by code_simp+

lemma sample_batch_parses:
  "case json_parse sample_batch of Some (JArr xs) \<Rightarrow> map fst xs = [sample_call, sample_other] | _ \<Rightarrow> False"
  by code_simp

theorem batch_hides_nothing_witness:
  "\<exists>xs. json_parse sample_batch = Some (JArr xs) \<and> map fst xs = [sample_call, sample_other] \<and>
     concat (map (\<lambda>(raw, v). if \<exists>ys. v = JArr ys then [] else ParseToolsCalls raw) xs) = ParseToolsCalls sample_batch \<and>
     map tc_Name (ParseToolsCalls sample_batch) = [''rm'', ''ls'']"
proof -
  from sample_batch_parses obtain xs where xs: "json_parse sample_batch = Some (JArr xs)" "map fst xs = [sample_call, sample_other]"
    by (auto split: option.splits json.splits)
  with batch_hides_nothing [OF xs(1)] sample_batch_calls(1) show ?thesis by auto
qed

end
