(* ===== verification/Block_Rpc.thy ===== *)
theory Block_Rpc
  imports Mcp
begin

text \<open>
  The JSON-RPC side of blocking, \<open>proxy/cmd/gurdy-proxy/block_rpc.go\<close>: the denial that
  answers a blocked call, and the body that is left when blocked calls are taken out of it.
\<close>

text \<open>The object is written without white space, its members in this order.\<close>

definition jsonRPCError :: "string \<Rightarrow> string" where
  "jsonRPCError i =
     (let i = (if i = '''' then ''null'' else i)
      in json_obj [(''jsonrpc'', json_key ''2.0''), (''id'', i),
           (''error'', json_obj [(''code'', ''-32003''), (''message'', json_key ''blocked by policy'')])])"

text \<open>\<open>blockedID\<close>: a \<open>tools/call\<close> whose id is among the blocked.  The struct has two fields.\<close>

definition set_envelope :: "string \<Rightarrow> string \<Rightarrow> json \<Rightarrow> string option \<times> string option \<Rightarrow> (string option \<times> string option) option" where
  "set_envelope k raw v f =
     (if key_is k ''method'' then map_option (\<lambda>m. (m, snd f)) (into_pstring v)
      else if key_is k ''id'' then Some (fst f, Some raw)
      else Some f)"

definition blockedID :: "string \<Rightarrow> string list \<Rightarrow> bool" where
  "blockedID raw blocked =
     (case unmarshal_struct set_envelope (None, None) raw of
        None \<Rightarrow> False
      | Some (m, i) \<Rightarrow>
          m = Some ''tools/call'' \<and>
          (let i = (case i of None \<Rightarrow> '''' | Some k \<Rightarrow> k); i = (if i = ''null'' then '''' else i)
           in i \<in> set blocked))"

text \<open>
  \<open>filterBlockedCalls\<close>: \<open>None\<close> is the nil slice, when nothing is left to send.  The blocked ids
  are the keys of a Go map, here a list.
\<close>

definition filterBlockedCalls :: "string \<Rightarrow> string list \<Rightarrow> string option" where
  "filterBlockedCalls chunk blocked =
     (if blocked = [] then Some chunk
      else
        let t = trim_space chunk
        in if t = [] then Some chunk
        else if hd t = CHR ''['' then
          (case Option.bind (json_parse t) into_raws of
             None \<Rightarrow> Some chunk
           | Some elems \<Rightarrow>
               let keep = filter (\<lambda>e. \<not> blockedID e blocked) elems
               in if keep = [] then None else Some (marshal_raws keep @ [CHR 0x0A]))
        else if blockedID t blocked then None
        else Some chunk)"

definition blockedSet :: "string list \<Rightarrow> string list" where
  "blockedSet ids = remdups ids"


section \<open>The denial answers the call\<close>

lemma names: "lit_valid ''jsonrpc''" "lit_valid ''2.0''" "lit_valid ''id''" "lit_valid ''error''" "lit_valid ''code''" "lit_valid ''message''"
    "lit_valid ''blocked by policy''"
  by code_simp+

lemma field_names:
  "unquote ''jsonrpc'' = ''jsonrpc''" "unquote ''id'' = ''id''" "unquote ''error'' = ''error''"
  "\<not> key_is ''jsonrpc'' ''method''" "\<not> key_is ''jsonrpc'' ''id''" "\<not> key_is ''jsonrpc'' ''params''"
  "\<not> key_is ''jsonrpc'' ''result''" "\<not> key_is ''jsonrpc'' ''error''"
  "\<not> key_is ''id'' ''method''" "key_is ''id'' ''id''"
  "\<not> key_is ''error'' ''method''" "\<not> key_is ''error'' ''id''" "\<not> key_is ''error'' ''params''"
  "\<not> key_is ''error'' ''result''" "key_is ''error'' ''error''"
  by code_simp+

lemma denial_parses:
  assumes "is_value (maxNestingDepth - 1) (if i = '''' then ''null'' else i) v"
  shows "\<exists>e. unmarshal_frame (jsonRPCError i) =
      Some (no_frame\<lparr>f_ID := Some (if i = '''' then ''null'' else i), f_Error := Some e\<rparr>) \<and>
    elements (jsonRPCError i) = [jsonRPCError i]"
proof -
  let ?i = "if i = '''' then ''null'' else i"
  let ?em = "[(''code'', ''-32003'', JNum ''-32003''), (''message'', json_key ''blocked by policy'', JStr ''blocked by policy'')]"
  let ?e = "json_obj (map (\<lambda>(k, raw, v). (k, raw)) ?em)"
  let ?ms = "[(''jsonrpc'', json_key ''2.0'', JStr ''2.0''), (''id'', ?i, v), (''error'', ?e, JObj ?em)]"
  have code: "is_value (maxNestingDepth - 1 - 1) ''-32003'' (JNum ''-32003'')" by code_simp
  have "is_value (maxNestingDepth - 1) ?e (JObj ?em)"
    using code is_value_str [OF names(7)] by (intro is_value_obj) (auto simp: names maxNestingDepth_def)
  then have "is_value maxNestingDepth (json_obj (map (\<lambda>(k, raw, v). (k, raw)) ?ms)) (JObj ?ms)"
    using assms is_value_str [OF names(2)] by (intro is_value_obj) (auto simp: names maxNestingDepth_def)
  moreover have "json_obj (map (\<lambda>(k, raw, v). (k, raw)) ?ms) = jsonRPCError i"
    by (simp add: jsonRPCError_def)
  ultimately have p: "json_parse (jsonRPCError i) = Some (JObj ?ms)"
    using is_value_parse [of maxNestingDepth] by simp
  have "unmarshal_frame (jsonRPCError i) = Some (no_frame\<lparr>f_ID := Some ?i, f_Error := Some ?e\<rparr>)"
    unfolding frame_of_value [OF p] decode_struct_def json.case by (simp add: set_frame_def field_names)
  moreover have "elements (jsonRPCError i) = [jsonRPCError i]"
    by (rule elements_single [OF p]) (simp only: into_raws_def json.case)
  ultimately show ?thesis by blast
qed

text \<open>
  C15. The denial written for a blocked call is a response to that call: read back, it is one
  response frame that carries exactly the bytes of the call's id, or none at all when the
  call had no id to answer.
\<close>

theorem denial_answers_call:
  assumes "tc \<in> set (ParseToolsCalls body)"
  shows "ParseResponses (jsonRPCError (tc_ID tc)) =
     (if tc_ID tc = '''' then [] else [\<lparr>rs_ID = tc_ID tc, rs_Raw = jsonRPCError (tc_ID tc)\<rparr>])"
proof (cases "tc_ID tc = ''''")
  case True
  have "is_value (maxNestingDepth - 1) ''null'' JNull" by code_simp
  then obtain e where "unmarshal_frame (jsonRPCError '''') = Some (no_frame\<lparr>f_ID := Some ''null'', f_Error := Some e\<rparr>)"
      "elements (jsonRPCError '''') = [jsonRPCError '''']"
    using denial_parses [of "''''" JNull] by auto
  with True show ?thesis
    by (simp add: ParseResponses_def response_of_frame_def no_frame_def id_of_def map_filter_simps)
next
  case False
  from call_id_value [OF assms False] obtain v where "tc_ID tc \<noteq> ''null''" "is_value (maxNestingDepth - 1) (tc_ID tc) v"
    by blast
  moreover from this(2) False obtain e where
      "unmarshal_frame (jsonRPCError (tc_ID tc)) = Some (no_frame\<lparr>f_ID := Some (tc_ID tc), f_Error := Some e\<rparr>)"
      "elements (jsonRPCError (tc_ID tc)) = [jsonRPCError (tc_ID tc)]"
    using denial_parses [of "tc_ID tc" v] by auto
  ultimately show ?thesis using False
    by (simp add: ParseResponses_def response_of_frame_def no_frame_def id_of_def map_filter_simps)
qed


section \<open>Witness\<close>

theorem denial_answers_call_witness:
  "map rs_ID (ParseResponses (jsonRPCError (json_key ''<a>''))) = [json_key ''<a>'']"
proof -
  obtain c1 c2 where c: "ParseToolsCalls sample_batch = [c1, c2]" "tc_ID c2 = json_key ''<a>''"
    using sample_batch_calls by (auto simp: map_eq_Cons_conv)
  then have "c2 \<in> set (ParseToolsCalls sample_batch)" by simp
  from denial_answers_call [OF this] c(2) show ?thesis by (simp add: json_key_def)
qed

end
