(* ===== verification/Block_Filter.thy ===== *)
theory Block_Filter
  imports Block_Rpc Json_Compact
begin

text \<open>
  What \<open>filterBlockedCalls\<close> sends on: the frames of the batch that are not blocked calls, each
  with the meaning it had.
\<close>

section \<open>Frames decode the same when compacted\<close>

lemma is_value_JStr: "is_value d raw (JStr l) \<Longrightarrow> lit_valid l"
  by (cases raw)
    (auto simp: is_value_def jstep_def jlit_def jbody_def dest: scan_lit_valid split: if_splits option.splits)

lemma is_value_JNull: "is_value d raw JNull \<Longrightarrow> raw = ''null''"
  by (cases raw)
    (auto simp: is_value_def jstep_def jlit_def jbody_def has_prefix_def split: if_splits option.splits)

lemma member_key_valid:
  assumes "is_value d raw (JObj ms)" and "(k, r, w) \<in> set ms"
  shows "lit_valid k"
proof -
  from assms(1) obtain n where p: "jval (Suc n) d raw = Some (JObj ms, [])" by (auto simp: is_value_def simp del: jval.simps)
  then obtain c u where t: "raw = c # u" by (cases raw) (auto simp: jstep_def)
  have "\<not> jlit raw = Some (JObj ms, [])" by (auto simp: jlit_def split: if_splits)
  with p t have b: "jbody (CHR ''}'') (jmembers n) d u = Some (ms, [])" by (auto simp: jstep_def split: if_splits)
  with assms(2) have "jmembers n (d - 1) u = Some (ms, [])" by (auto simp: jbody_def split: if_splits option.splits)
  from compacts_jmembers [OF this] assms(2) show ?thesis by (auto simp: compacts_members_def)
qed

lemma member_value:
  assumes "is_value d raw (JObj ms)" and "(k, r, w) \<in> set ms"
  shows "is_value (d - 1) r w"
proof -
  have "child_of (JObj ms) r w" using assms(2) by (force simp: child_of_def)
  with assms(1) show ?thesis unfolding is_value_def [of d] by (rule child_value)
qed

lemma into_pstring_compact: "is_value d raw v \<Longrightarrow> into_pstring (compact_json v) = into_pstring v"
  by (cases v) (auto simp: into_pstring_def unquote_compact dest: is_value_JStr)

lemma into_string_compact: "is_value d raw v \<Longrightarrow> into_string (compact_json v) old = into_string v old"
  by (cases v) (auto simp: into_string_def unquote_compact dest: is_value_JStr)

lemma any_ok_compact: "any_ok (compact_json v) = any_ok v"
proof (induction v rule: any_ok.induct)
  case (1 v)
  then show ?case
    by (cases v) (subst any_ok.simps, subst (2) any_ok.simps, simp)+
qed

definition compact_map :: "json gomap \<Rightarrow> json gomap" where
  "compact_map m = map (\<lambda>(k, v). (k, compact_json v)) m"

lemma compact_map_put: "compact_map (map_put k v m) = map_put k (compact_json v) (compact_map m)"
  by (induction m) (auto simp: compact_map_def)

lemma into_any_map_compact:
  assumes "is_value d raw v"
  shows "into_any_map (compact_json v) (compact_map old) = map_option compact_map (into_any_map v old)"
proof (cases v)
  case (JObj ms)
  have "foldl (\<lambda>m (k, raw, w). map_put (unquote k) w m) (compact_map m)
      (map (\<lambda>m. (compact_lit (fst m), compact_out (fst (snd m)), compact_json (snd (snd m)))) xs) =
    compact_map (foldl (\<lambda>m (k, raw, w). map_put (unquote k) w m) m xs)" if "set xs \<subseteq> set ms" for m xs
    using that
  proof (induction xs arbitrary: m)
    case (Cons x xs)
    obtain k r w where x: "x = (k, r, w)" by (cases x)
    with Cons.prems member_key_valid [of d raw ms k r w] assms JObj have "lit_valid k" by auto
    with Cons x show ?case by (simp add: unquote_compact compact_map_put [symmetric])
  qed simp
  with JObj show ?thesis by (simp add: into_any_map_def list_all_iff any_ok_compact case_prod_beta)
qed (auto simp: into_any_map_def compact_map_def)

definition compact_frame :: "frame \<Rightarrow> frame" where
  "compact_frame f = f\<lparr>f_ID := map_option compact_out (f_ID f), f_Params := map_option compact_out (f_Params f),
     f_Result := map_option compact_out (f_Result f), f_Error := map_option compact_out (f_Error f)\<rparr>"

text \<open>Decoding a compacted object, when each field decodes its compacted member to match.\<close>

lemma decode_struct_compact:
  assumes v: "is_value d raw v"
    and set: "\<And>k r w x. is_value (d - 1) r w \<Longrightarrow>
      setf' k (compact_out r) (compact_json w) (h x) = map_option h (setf k r w x)"
  shows "decode_struct setf' (h z) (compact_json v) = map_option h (decode_struct setf z v)"
proof (cases v)
  case (JObj ms)
  have none: "foldl (\<lambda>a (k, raw, w). Option.bind a (f (unquote k) raw w)) None xs = None" for xs and f :: "string \<Rightarrow> string \<Rightarrow> json \<Rightarrow> 'c \<Rightarrow> 'c option"
    by (induction xs) auto
  have "foldl (\<lambda>a (k, raw, w). Option.bind a (setf' (unquote k) raw w)) (map_option h a)
      (map (\<lambda>m. (compact_lit (fst m), compact_out (fst (snd m)), compact_json (snd (snd m)))) xs) =
    map_option h (foldl (\<lambda>a (k, raw, w). Option.bind a (setf (unquote k) raw w)) a xs)" if "set xs \<subseteq> set ms" for a xs
    using that
  proof (induction xs arbitrary: a)
    case (Cons x xs)
    obtain k r w where x: "x = (k, r, w)" by (cases x)
    with Cons.prems v JObj have "lit_valid k" "is_value (d - 1) r w"
      using member_key_valid [of d raw ms k r w] member_value [of d raw ms k r w] by auto
    then have "Option.bind (map_option h a) (setf' (unquote (compact_lit k)) (compact_out r) (compact_json w)) =
        map_option h (Option.bind a (setf (unquote k) r w))"
      by (cases a) (simp_all add: unquote_compact set)
    with Cons x show ?case by simp
  qed simp
  from this [of ms "Some z"] JObj show ?thesis by (simp add: decode_struct_def)
qed (simp_all add: decode_struct_def)

lemma set_frame_compact:
  "is_value d r w \<Longrightarrow> set_frame k (compact_out r) (compact_json w) (compact_frame f) = map_option compact_frame (set_frame k r w f)"
  by (cases f) (auto simp: set_frame_def compact_frame_def into_pstring_compact option.map_comp comp_def)

lemma frame_compact:
  assumes "is_value d raw v" and "d \<le> maxNestingDepth"
  shows "unmarshal_frame (compact_out raw) = map_option compact_frame (unmarshal_frame raw)"
proof -
  have "decode_struct set_frame (compact_frame no_frame) (compact_json v) = map_option compact_frame (decode_struct set_frame no_frame v)"
    by (rule decode_struct_compact [OF assms(1)]) (rule set_frame_compact)
  moreover have "compact_frame no_frame = no_frame" by (simp add: compact_frame_def no_frame_def)
  ultimately show ?thesis
    using is_value_parse [OF assms] is_value_parse [OF compact_value [OF assms(1)] assms(2)] by (simp add: frame_of_value)
qed

definition compact_params :: "call_params \<Rightarrow> call_params" where
  "compact_params p = p\<lparr>cp_Arguments := compact_map (cp_Arguments p)\<rparr>"

lemma params_compact:
  assumes "is_value d raw v" and "d \<le> maxNestingDepth"
  shows "unmarshal_params (compact_out raw) = map_option compact_params (unmarshal_params raw)"
proof -
  let ?z = "\<lparr>cp_Name = '''', cp_Arguments = []\<rparr>"
  have s: "set_params k (compact_out r) (compact_json w) (compact_params p) = map_option compact_params (set_params k r w p)"
    if "is_value (d - 1) r w" for k r w p
    using into_any_map_compact [OF that] into_string_compact [OF that]
    by (cases p) (auto simp: set_params_def compact_params_def option.map_comp comp_def)
  have "decode_struct set_params (compact_params ?z) (compact_json v) = map_option compact_params (decode_struct set_params ?z v)"
    by (rule decode_struct_compact [OF assms(1)]) (rule s)
  moreover have "compact_params ?z = ?z" by (simp add: compact_params_def compact_map_def)
  ultimately show ?thesis
    using is_value_parse [OF assms] is_value_parse [OF compact_value [OF assms(1)] assms(2)]
    by (simp add: unmarshal_params_def unmarshal_struct_def)
qed

section \<open>Calls\<close>

definition compact_call :: "tool_call \<Rightarrow> tool_call" where
  "compact_call c = c\<lparr>tc_Arguments := compact_map (tc_Arguments c), tc_ID := compact_out (tc_ID c)\<rparr>"

lemma compact_null: "is_value d i v \<Longrightarrow> compact_out i = ''null'' \<longleftrightarrow> i = ''null''"
proof
  assume v: "is_value d i v" and "compact_out i = ''null''"
  with compact_value [OF v] have n: "is_value d ''null'' (compact_json v)" by simp
  moreover have "is_value d ''null'' JNull" by (rule jval_is_value [of "Suc 0"]) (simp add: jstep_def jlit_def has_prefix_def)
  ultimately have "compact_json v = JNull" by (simp add: is_value_def)
  then have "v = JNull" by (cases v) auto
  with v show "i = ''null''" by (simp add: is_value_JNull)
qed (simp add: is_ws_def)

lemma compact_id: "unmarshal_frame raw = Some f \<Longrightarrow> id_of (compact_frame f) = compact_out (id_of f)"
proof (cases "f_ID f")
  case (Some i)
  assume "unmarshal_frame raw = Some f"
  from frame_id_value [OF this Some] obtain v where "is_value (maxNestingDepth - 1) i v" by blast
  from compact_null [OF this] Some show ?thesis by (simp add: id_of_def compact_frame_def)
qed (simp add: id_of_def compact_frame_def)

lemma call_compact:
  assumes "is_value d raw v" and "d \<le> maxNestingDepth"
  shows "call_of_frame (compact_out raw) = map_option compact_call (call_of_frame raw)"
proof (cases "unmarshal_frame raw")
  case None
  with frame_compact [OF assms] show ?thesis by (simp add: call_of_frame_def)
next
  case (Some f)
  let ?p = "case f_Params f of None \<Rightarrow> '''' | Some p \<Rightarrow> p"
  have m: "f_Method (compact_frame f) = f_Method f" by (simp add: compact_frame_def)
  have p: "unmarshal_params (case f_Params (compact_frame f) of None \<Rightarrow> '''' | Some p \<Rightarrow> p) = map_option compact_params (unmarshal_params ?p)"
  proof (cases "f_Params f")
    case None
    then show ?thesis by (simp add: compact_frame_def unmarshal_params_def unmarshal_struct_def json_parse_def skip_ws_def jstep_def)
  next
    case p: (Some q)
    from frame_params_value [OF Some p] obtain w where "is_value (maxNestingDepth - 1) q w" by blast
    from params_compact [OF this] p show ?thesis by (simp add: compact_frame_def)
  qed
  show ?thesis
    using Some frame_compact [OF assms] m compact_id [OF Some] p
    by (cases "unmarshal_params ?p") (auto simp: call_of_frame_def compact_call_def compact_map_def compact_params_def)
qed

text \<open>The struct of \<open>blockedID\<close> sees a frame's method and id.\<close>

lemma envelope_frame:
  "decode_struct set_envelope (None, None) v = map_option (\<lambda>f. (f_Method f, f_ID f)) (decode_struct set_frame no_frame v)"
proof (cases v)
  case (JObj ms)
  have s: "set_envelope k r w (f_Method f, f_ID f) = map_option (\<lambda>f. (f_Method f, f_ID f)) (set_frame k r w f)" for k r w f
    by (auto simp: set_envelope_def set_frame_def option.map_comp comp_def)
  have none: "foldl (\<lambda>a (k, raw, w). Option.bind a (f (unquote k) raw w)) None xs = None" for xs and f :: "string \<Rightarrow> string \<Rightarrow> json \<Rightarrow> 'c \<Rightarrow> 'c option"
    by (induction xs) auto
  have "foldl (\<lambda>a (k, raw, w). Option.bind a (set_envelope (unquote k) raw w)) (map_option (\<lambda>f. (f_Method f, f_ID f)) a) xs =
    map_option (\<lambda>f. (f_Method f, f_ID f)) (foldl (\<lambda>a (k, raw, w). Option.bind a (set_frame (unquote k) raw w)) a xs)" for a xs
  proof (induction xs arbitrary: a)
    case (Cons x xs)
    obtain k r w where x: "x = (k, r, w)" by (cases x)
    have "Option.bind (map_option (\<lambda>f. (f_Method f, f_ID f)) a) (set_envelope (unquote k) r w) =
        map_option (\<lambda>f. (f_Method f, f_ID f)) (Option.bind a (set_frame (unquote k) r w))"
      by (cases a) (simp_all add: s)
    with Cons x show ?case by simp
  qed simp
  from this [of "Some no_frame" ms] JObj show ?thesis by (simp add: decode_struct_def no_frame_def)
qed (simp_all add: decode_struct_def no_frame_def)

lemma blockedID_call:
  assumes "call_of_frame raw = Some tc"
  shows "blockedID raw blocked \<longleftrightarrow> tc_ID tc \<in> set blocked"
proof -
  from assms obtain f where f: "unmarshal_frame raw = Some f" "f_Method f = Some ''tools/call''" "tc_ID tc = id_of f"
    by (auto simp: call_of_frame_def Let_def split: option.splits if_splits)
  then obtain w where w: "json_parse raw = Some w" "decode_struct set_frame no_frame w = Some f"
    by (auto simp: unmarshal_frame_def unmarshal_struct_def bind_eq_Some_conv)
  then have "unmarshal_struct set_envelope (None, None) raw = Some (f_Method f, f_ID f)"
    by (simp add: unmarshal_struct_def envelope_frame)
  with f show ?thesis by (auto simp: blockedID_def id_of_def Let_def split: option.splits)
qed


section \<open>Trimming a JSON text\<close>

text \<open>A value's text begins and ends with a printable character.\<close>

definition printable :: "char \<Rightarrow> bool" where
  "printable c \<longleftrightarrow> 33 \<le> (of_char c :: nat) \<and> (of_char c :: nat) \<le> 126"

lemma expect_last: "expect c s = Some r \<Longrightarrow> \<exists>b. s = b @ r \<and> b \<noteq> [] \<and> last b = c"
proof -
  assume "expect c s = Some r"
  then obtain b where b: "s = b @ r" "skip_ws b = [c]" by (elim expect_localE)
  obtain w where "b = w @ skip_ws b" using skip_ws_split by blast
  with b show ?thesis by (intro exI [of _ b]) simp
qed

lemma sep_last:
  assumes "jsep cl g f d s = Some (xs, r)" and g: "local_parse True g"
    and f: "\<And>s xs r. f d s = Some (xs, r) \<Longrightarrow> \<exists>b. s = b @ r \<and> b \<noteq> [] \<and> last b = cl"
  shows "\<exists>b. s = b @ r \<and> b \<noteq> [] \<and> last b = cl"
proof -
  from assms(1) obtain x q where x: "g d s = Some (x, q)" by (cases "g d s") (auto simp: jsep_def)
  from local_parseE [OF g x] obtain a where a: "s = a @ q" by metis
  show ?thesis
  proof (cases "expect cl q")
    case (Some q')
    with assms(1) x have "q' = r" by (simp add: jsep_def)
    with expect_last [OF Some] a show ?thesis by force
  next
    case None
    with assms(1) x obtain q' where q': "expect (CHR '','') q = Some q'" by (cases "expect (CHR '','') q") (auto simp: jsep_def)
    with None assms(1) x obtain ys where "f d q' = Some (ys, r)" by (auto simp: jsep_def)
    from f [OF this] expect_last [OF q'] a show ?thesis by force
  qed
qed

lemma seq_last:
  "(\<forall>s xs r. jelems n d s = Some (xs, r) \<longrightarrow> (\<exists>b. s = b @ r \<and> b \<noteq> [] \<and> last b = CHR '']'')) \<and>
   (\<forall>s xs r. jmembers n d s = Some (xs, r) \<longrightarrow> (\<exists>b. s = b @ r \<and> b \<noteq> [] \<and> last b = CHR ''}''))"
proof (induction n)
  case (Suc n)
  show ?case
    unfolding jparse_Suc
    using sep_last [OF _ local_elem [OF jval_local], of "CHR '']''" n "jelems n" d]
      sep_last [OF _ local_member [OF jval_local], of "CHR ''}''" n "jmembers n" d] Suc
    by blast
qed simp

lemma body_last:
  assumes "jbody cl f d u = Some (xs, r)" and "\<And>d s xs r. f d s = Some (xs, r) \<Longrightarrow> \<exists>b. s = b @ r \<and> b \<noteq> [] \<and> last b = cl"
  shows "\<exists>b. u = b @ r \<and> b \<noteq> [] \<and> last b = cl"
proof (cases "expect cl u")
  case (Some q)
  with assms(1) have "q = r" by (simp add: jbody_def split: if_splits)
  with expect_last [OF Some] show ?thesis by simp
next
  case None
  with assms(1) have "f (d - 1) u = Some (xs, r)" by (simp add: jbody_def split: if_splits)
  then show ?thesis by (rule assms(2))
qed

lemma value_printable:
  assumes p: "jval n d t = Some (v, r)"
  shows "\<exists>b. t = b @ r \<and> b \<noteq> [] \<and> printable (hd b) \<and> printable (last b) \<and> (hd b = CHR ''['' \<longleftrightarrow> (\<exists>xs. v = JArr xs))"
proof -
  from p obtain m where n: "n = Suc m" by (cases n) auto
  from p n obtain c u where t: "t = c # u" by (cases t) (auto simp: jstep_def)
  have pr: "printable quote" "printable CHR ''[''" "printable CHR '']''" "printable CHR ''{''" "printable CHR ''}''"
    by (simp_all add: printable_def)
  consider "c = quote" | "c = CHR ''[''" | "c = CHR ''{''" | "c \<noteq> quote" "c \<noteq> CHR ''[''" "c \<noteq> CHR ''{''" by blast
  then show ?thesis
  proof cases
    case 1
    with p n t obtain l where l: "scan_str u = Some (l, r)" "v = JStr l" by (auto simp: jstep_def)
    with 1 t pr scan_str_eq [OF l(1)] show ?thesis by (intro exI [of _ "c # l @ [quote]"]) simp
  next
    case 2
    with p n t obtain xs where xs: "jbody (CHR '']'') (jelems m) d u = Some (xs, r)" "v = JArr xs" by (auto simp: jstep_def)
    from body_last [OF xs(1)] seq_last obtain b where "u = b @ r" "b \<noteq> []" "last b = CHR '']''" by blast
    with 2 t xs(2) pr show ?thesis by (intro exI [of _ "c # b"]) simp
  next
    case 3
    with p n t obtain ms where ms: "jbody (CHR ''}'') (jmembers m) d u = Some (ms, r)" "v = JObj ms" by (auto simp: jstep_def)
    from body_last [OF ms(1)] seq_last obtain b where "u = b @ r" "b \<noteq> []" "last b = CHR ''}''" by blast
    with 3 t ms(2) pr show ?thesis by (intro exI [of _ "c # b"]) simp
  next
    case 4
    with p n t have l: "jlit t = Some (v, r)" by (simp add: jstep_def)
    have nc: "printable c" if "numchar c" for c using that by (auto simp: printable_def numchar_def is_digit_def)
    show ?thesis
    proof (cases "has_prefix t ''null'' \<or> has_prefix t ''true'' \<or> has_prefix t ''false''")
      case True
      have k: "t = k @ r" if "has_prefix t k" "length k = i" "r = drop i t" for k i
        using that unfolding has_prefix_def by (metis append_take_drop_id)
      have pn: "printable CHR ''n''" "printable CHR ''l''" "printable CHR ''t''" "printable CHR ''e''" "printable CHR ''f''"
        by (simp_all add: printable_def)
      have "(v = JNull \<and> t = ''null'' @ r) \<or> (v = JTrue \<and> t = ''true'' @ r) \<or> (v = JFalse \<and> t = ''false'' @ r)"
      proof -
        from True consider "has_prefix t ''null''" | "\<not> has_prefix t ''null''" "has_prefix t ''true''"
          | "\<not> has_prefix t ''null''" "\<not> has_prefix t ''true''" "has_prefix t ''false''" by blast
        then show ?thesis
        proof cases
          case 1 with l have "v = JNull \<and> r = drop 4 t" by (simp add: jlit_def)
          with k [OF 1, of 4] show ?thesis by simp
        next
          case 2 with l have "v = JTrue \<and> r = drop 4 t" by (simp add: jlit_def)
          with k [OF 2(2), of 4] show ?thesis by simp
        next
          case 3 with l have "v = JFalse \<and> r = drop 5 t" by (simp add: jlit_def)
          with k [OF 3(3), of 5] show ?thesis by simp
        qed
      qed
      then consider "v = JNull" "t = ''null'' @ r" | "v = JTrue" "t = ''true'' @ r" | "v = JFalse" "t = ''false'' @ r" by blast
      then show ?thesis
      proof cases
        case 1 with pn show ?thesis by (intro exI [of _ "''null''"]) simp
      next
        case 2 with pn show ?thesis by (intro exI [of _ "''true''"]) simp
      next
        case 3 with pn show ?thesis by (intro exI [of _ "''false''"]) simp
      qed
    next
      case False
      let ?b = "takeWhile numchar t"
      from False l have b: "num_ok ?b" "v = JNum ?b" "r = dropWhile numchar t" by (auto simp: jlit_def split: if_splits)
      then have ne: "?b \<noteq> []" by (auto simp: num_ok_def)
      then have "numchar (hd ?b)" "numchar (last ?b)" by (metis hd_in_set last_in_set set_takeWhileD)+
      moreover have "\<not> numchar CHR ''[''" by (simp add: numchar_def is_digit_def)
      ultimately show ?thesis using ne b nc by (intro exI [of _ ?b]) auto
    qed
  qed
qed


text \<open>White space of JSON is white space of \<open>TrimSpace\<close>, and printable text is not.\<close>

lemma spaces_ws: "spaces ws \<Longrightarrow> is_ws c \<Longrightarrow> [c] \<in> set ws"
proof -
  have "char_of (9 :: nat) = CHR 0x09" "char_of (10 :: nat) = CHR 0x0A" "char_of (13 :: nat) = CHR 0x0D" "char_of (32 :: nat) = CHR '' ''"
    by code_simp+
  then show "spaces ws \<Longrightarrow> is_ws c \<Longrightarrow> [c] \<in> set ws" by (auto simp: spaces_def is_ws_def)
qed

lemma has_prefix_hd: "x \<noteq> [] \<Longrightarrow> has_prefix (c # s) x \<Longrightarrow> hd x = c"
  by (cases x) (auto simp: has_prefix_def)

lemma spacesD: "spaces ws \<Longrightarrow> w \<in> set ws \<Longrightarrow> w \<noteq> [] \<and> (tl w = [] \<and> (of_char (hd w) :: nat) < 33 \<or> 128 \<le> (of_char (hd w) :: nat))"
  unfolding spaces_def list_all_iff by blast

lemma find_mem:
  assumes "y \<in> set ys" and "P y"
  obtains x where "find P ys = Some x" "x \<in> set ys" "P x"
  using assms(1) that
proof (induction ys)
  case (Cons z zs)
  then show ?case using assms(2) by (cases "P z") auto
qed simp

lemma strip_ws:
  assumes "spaces ws" and "\<forall>c \<in> set w. is_ws c"
  shows "strip_left ws (w @ s) = strip_left ws s"
  using assms(2)
proof (induction w)
  case (Cons c w)
  then have c: "is_ws c" by simp
  have mem: "[c] \<in> set ws" by (rule spaces_ws [OF assms(1) c])
  have small: "(of_char c :: nat) < 128" using c by (auto simp: is_ws_def)
  let ?P = "\<lambda>x. x \<noteq> [] \<and> has_prefix (c # w @ s) x"
  have "?P [c]" by (simp add: has_prefix_def)
  then obtain x where f: "find ?P ws = Some x" and x: "x \<in> set ws" "?P x" by (rule find_mem [OF mem])
  have h: "hd x = c" using x(2) by (intro has_prefix_hd) auto
  with spacesD [OF assms(1) x(1)] small have "x = [c]" by (cases x) auto
  with f have "strip_left ws (c # w @ s) = strip_left ws (w @ s)" by (subst strip_left.simps) simp
  with Cons show ?case by simp
qed simp

lemma strip_printable:
  assumes "spaces ws" and "printable c"
  shows "strip_left ws (c # s) = c # s"
proof -
  have "find (\<lambda>x. x \<noteq> [] \<and> has_prefix (c # s) x) ws = None"
    unfolding find_None_iff
  proof
    assume "\<exists>x. x \<in> set ws \<and> x \<noteq> [] \<and> has_prefix (c # s) x"
    then obtain x where x: "x \<in> set ws" "x \<noteq> []" "has_prefix (c # s) x" by blast
    then have "hd x = c" using has_prefix_hd by blast
    with spacesD [OF assms(1) x(1)] assms(2) show False by (auto simp: printable_def)
  qed
  then show ?thesis by (subst strip_left.simps) simp
qed

lemma trim_printable:
  assumes "\<forall>c \<in> set w. is_ws c" "\<forall>c \<in> set w'. is_ws c" and "b \<noteq> []" "printable (hd b)" "printable (last b)"
  shows "trim_space (w @ b @ w') = b"
proof -
  obtain c u where c: "b = c # u" using assms(3) by (cases b) auto
  have "strip_left utf8_spaces (w @ b @ w') = b @ w'"
    using strip_ws [OF spaces_utf8 assms(1)] strip_printable [OF spaces_utf8, of c "u @ w'"] assms(4) c by simp
  moreover have "strip_left (map rev utf8_spaces) (rev (b @ w')) = rev b"
  proof -
    obtain e v where e: "rev b = e # v" "printable e" using assms(3,5) by (cases "rev b") (auto simp: last_rev hd_rev [symmetric])
    have "\<forall>c \<in> set (rev w'). is_ws c" using assms(2) by simp
    from strip_ws [OF spaces_rev_utf8 this, of "rev b"] strip_printable [OF spaces_rev_utf8 e(2), of v] e(1) show ?thesis by simp
  qed
  ultimately show ?thesis by (simp add: trim_space_def)
qed

lemma trim_value:
  assumes "json_parse chunk = Some v"
  shows "is_value maxNestingDepth (trim_space chunk) v" and "trim_space chunk \<noteq> []"
    and "hd (trim_space chunk) = CHR ''['' \<longleftrightarrow> (\<exists>xs. v = JArr xs)"
proof -
  from assms obtain n r where p: "jval n maxNestingDepth (skip_ws chunk) = Some (v, r)" "skip_ws r = []"
    unfolding json_parse_def Let_def by (auto simp del: jval.simps split: option.splits if_splits)
  from value_printable [OF p(1)] obtain b where b: "skip_ws chunk = b @ r" "b \<noteq> []" "printable (hd b)" "printable (last b)"
    "hd b = CHR ''['' \<longleftrightarrow> (\<exists>xs. v = JArr xs)" by blast
  from local_parseE [OF jval_local p(1)] obtain b' where "skip_ws chunk = b' @ r"
    "\<And>d' r'. maxNestingDepth \<le> d' \<Longrightarrow> jstop r' \<Longrightarrow> jval n d' (b' @ r') = Some (v, r')" by metis
  with b(1) have "jval n maxNestingDepth b = Some (v, [])" by (metis append.right_neutral append_same_eq jstop_def order_refl)
  then have iv: "is_value maxNestingDepth b v" by (rule jval_is_value)
  obtain w where w: "chunk = w @ skip_ws chunk" "\<forall>c \<in> set w. is_ws c" using skip_ws_split by blast
  have "\<forall>c \<in> set r. is_ws c" using p(2) by (auto simp: skip_ws_def dropWhile_eq_Nil_conv)
  with w b have "trim_space chunk = b" using trim_printable [of w r b] by simp
  with iv b show "is_value maxNestingDepth (trim_space chunk) v" "trim_space chunk \<noteq> []"
    "hd (trim_space chunk) = CHR ''['' \<longleftrightarrow> (\<exists>xs. v = JArr xs)" by simp_all
qed


section \<open>What is sent on\<close>

lemma json_parse_value:
  assumes "is_value d raw v" and "d \<le> maxNestingDepth" and "skip_ws w = []" and "jstop w"
  shows "json_parse (raw @ w) = Some v"
  using is_value_embed [OF assms(1,2,4), of "2 * length (raw @ w) + 1"] assms(3) is_value_skip [OF assms(1)]
  by (simp add: json_parse_def del: jval.simps)

lemma map_filter_kept:
  assumes "\<And>e tc. e \<in> set es \<Longrightarrow> f e = Some tc \<Longrightarrow> P e \<longleftrightarrow> Q tc"
  shows "List.map_filter f (filter P es) = filter Q (List.map_filter f es)"
  using assms by (induction es) (auto simp: map_filter_simps split: option.splits)

lemma map_filter_map:
  assumes "\<And>e. e \<in> set es \<Longrightarrow> f (g e) = map_option h (f e)"
  shows "List.map_filter f (map g es) = map h (List.map_filter f es)"
  using assms by (induction es) (auto simp: map_filter_simps split: option.splits)

lemma batch_out:
  assumes p: "json_parse chunk = Some (JArr xs)" and keep: "keep \<noteq> []" "set keep \<subseteq> set (map fst xs)"
  shows "ParseToolsCalls (marshal_raws keep @ [CHR 0x0A]) = map compact_call (List.map_filter call_of_frame keep)"
proof -
  have v: "\<exists>v. is_value (maxNestingDepth - 1) e v" if "e \<in> set keep" for e
    using that keep(2) parse_child_value [OF p] by (force simp: child_of_def)
  define val where "val e = (SOME v. is_value (maxNestingDepth - 1) e v)" for e
  have val: "is_value (maxNestingDepth - 1) e (val e)" if "e \<in> set keep" for e
    unfolding val_def using v [OF that] by (rule someI_ex)
  let ?ys = "map (\<lambda>e. (compact_out e, compact_json (val e))) keep"
  have m: "map fst ?ys = map compact_out keep" by (simp add: comp_def)
  have "is_value maxNestingDepth (json_arr (map fst ?ys)) (JArr ?ys)"
    by (rule is_value_arr) (use val compact_value in \<open>auto simp: maxNestingDepth_def\<close>)
  then have "is_value maxNestingDepth (marshal_raws keep) (JArr ?ys)"
    unfolding m by (simp add: json_arr_def marshal_raws_def)
  then have j: "json_parse (marshal_raws keep @ [CHR 0x0A]) = Some (JArr ?ys)"
    by (rule json_parse_value) (simp_all add: skip_ws_def is_ws_def jstop_def numchar_def is_digit_def)
  have "List.map_filter call_of_frame (map compact_out keep) = map compact_call (List.map_filter call_of_frame keep)"
    by (rule map_filter_map) (use call_compact [OF val] in \<open>simp add: maxNestingDepth_def\<close>)
  with j m show ?thesis by (simp add: ParseToolsCalls_def elements_def into_raws_def comp_def)
qed

lemma single_calls:
  assumes "json_parse chunk = Some v" and "\<nexists>xs. v = JArr xs"
  shows "(\<forall>tc \<in> set (ParseToolsCalls chunk). blockedID (trim_space chunk) blocked \<longleftrightarrow> tc_ID tc \<in> set blocked)"
proof -
  have j: "json_parse (trim_space chunk) = Some v" using is_value_parse [OF trim_value(1) [OF assms(1)]] by simp
  have "call_of_frame (trim_space chunk) = call_of_frame chunk"
    using assms(1) j by (simp add: call_of_frame_def frame_of_value)
  with calls_of_value [OF assms] show ?thesis
    by (auto simp: map_filter_simps dest: blockedID_call split: option.splits)
qed

lemma filter_calls:
  assumes "json_parse chunk \<noteq> None"
  shows "(case filterBlockedCalls chunk blocked of
       None \<Rightarrow> \<forall>tc \<in> set (ParseToolsCalls chunk). tc_ID tc \<in> set blocked
     | Some out \<Rightarrow> \<exists>f \<in> {\<lambda>tc. tc, compact_call}.
         ParseToolsCalls out = map f (filter (\<lambda>tc. tc_ID tc \<notin> set blocked) (ParseToolsCalls chunk)))"
proof (cases "blocked = []")
  case True
  then show ?thesis by (simp add: filterBlockedCalls_def)
next
  case False
  obtain v where p: "json_parse chunk = Some v" using assms by blast
  note t = trim_value [OF p]
  have j: "json_parse (trim_space chunk) = Some v" using is_value_parse [OF t(1)] by simp
  show ?thesis
  proof (cases "\<exists>xs. v = JArr xs")
    case True
    then obtain xs where v: "v = JArr xs" by blast
    let ?keep = "filter (\<lambda>e. \<not> blockedID e blocked) (map fst xs)"
    have f: "filterBlockedCalls chunk blocked = (if ?keep = [] then None else Some (marshal_raws ?keep @ [CHR 0x0A]))"
      using False t(2,3) v j by (simp add: filterBlockedCalls_def into_raws_def Let_def)
    have c: "ParseToolsCalls chunk = List.map_filter call_of_frame (map fst xs)"
      using p v by (simp add: ParseToolsCalls_def elements_def into_raws_def)
    have k: "List.map_filter call_of_frame ?keep = filter (\<lambda>tc. tc_ID tc \<notin> set blocked) (ParseToolsCalls chunk)"
      unfolding c by (rule map_filter_kept) (simp add: blockedID_call)
    show ?thesis
    proof (cases "?keep = []")
      case True
      with k have "filter (\<lambda>tc. tc_ID tc \<notin> set blocked) (ParseToolsCalls chunk) = []" by (simp add: map_filter_simps del: filter_map)
      with f True show ?thesis by (auto simp: filter_empty_conv)
    next
      case ne: False
      have "ParseToolsCalls (marshal_raws ?keep @ [CHR 0x0A]) = map compact_call (List.map_filter call_of_frame ?keep)"
        using p v ne by (intro batch_out) auto
      with f ne k show ?thesis by simp
    qed
  next
    case na: False
    with t(3) False j t(2) have f: "filterBlockedCalls chunk blocked = (if blockedID (trim_space chunk) blocked then None else Some chunk)"
      by (simp add: filterBlockedCalls_def Let_def)
    note s = single_calls [OF p na, of blocked]
    show ?thesis
    proof (cases "blockedID (trim_space chunk) blocked")
      case True
      with s f show ?thesis by simp
    next
      case nb: False
      with s have "filter (\<lambda>tc. tc_ID tc \<notin> set blocked) (ParseToolsCalls chunk) = ParseToolsCalls chunk"
        by (simp add: filter_id_conv)
      with nb f show ?thesis by simp
    qed
  qed
qed


lemma calls_parse: "ParseToolsCalls chunk \<noteq> [] \<Longrightarrow> json_parse chunk \<noteq> None"
proof (rule ccontr)
  assume n: "ParseToolsCalls chunk \<noteq> []" and "\<not> json_parse chunk \<noteq> None"
  then have p: "json_parse chunk = None" by simp
  then have "call_of_frame chunk = None" by (simp add: call_of_frame_def unmarshal_frame_def unmarshal_struct_def)
  with n p show False by (simp add: ParseToolsCalls_def elements_def map_filter_simps)
qed

text \<open>
  C14. Taking blocked calls out of a body removes those calls and nothing else: what is sent on
  carries the other calls, in order, with their names, and with their ids and arguments up to
  white space and escapes; nothing is sent only when every call was blocked.
\<close>

theorem filter_forwards_the_rest:
  assumes "json_parse chunk \<noteq> None"
  shows "(case filterBlockedCalls chunk blocked of
       None \<Rightarrow> \<forall>tc \<in> set (ParseToolsCalls chunk). tc_ID tc \<in> set blocked
     | Some out \<Rightarrow> \<exists>f \<in> {\<lambda>tc. tc, compact_call}.
         ParseToolsCalls out = map f (filter (\<lambda>tc. tc_ID tc \<notin> set blocked) (ParseToolsCalls chunk)))"
  using assms by (rule filter_calls)

section \<open>Witness\<close>

theorem filter_forwards_the_rest_witness:
  "\<exists>out. filterBlockedCalls sample_batch [''7''] = Some out \<and> map tc_Name (ParseToolsCalls out) = [''ls'']"
proof -
  have "json_parse sample_batch \<noteq> None" using sample_batch_parses by (auto split: option.splits)
  note f = filter_forwards_the_rest [OF this, of "[''7'']"]
  obtain c1 c2 where c: "ParseToolsCalls sample_batch = [c1, c2]" "tc_Name c1 = ''rm''" "tc_Name c2 = ''ls''"
      "tc_ID c1 = ''7''" "tc_ID c2 = json_key ''<a>''"
    using sample_batch_calls by (auto simp: map_eq_Cons_conv)
  have ne: "json_key ''<a>'' \<noteq> ''7''" by (simp add: json_key_def)
  from f c ne obtain out where o: "filterBlockedCalls sample_batch [''7''] = Some out"
    by (cases "filterBlockedCalls sample_batch [''7'']") auto
  with f c ne show ?thesis by (auto simp: compact_call_def)
qed

end
