(* ===== verification/Toolsig.thy ===== *)
theory Toolsig
  imports Mcp "HOL-Library.Char_ord" "HOL-Library.List_Lexorder" "HOL-Library.Multiset"
begin

text \<open>
  Tool signatures, \<open>proxy/internal/toolsig/toolsig.go\<close>: what an upstream declared about its
  tools, by endpoint and name; the content hash of a declared schema; and the roles the schema
  gives to arguments.  SHA-256 and the text of a \<open>float64\<close> (\<open>json.Marshal\<close> of the number that
  \<open>strconv.ParseFloat\<close> reads from a literal) are parameters.  Strings compare by bytes.
\<close>

section \<open>Decoded values\<close>

text \<open>A value of type \<open>any\<close> as \<open>json.Unmarshal\<close> makes it; a number is kept by its literal.\<close>

datatype go_any =
    ANull
  | ABool bool
  | ANum string
  | AStr string
  | AArr "go_any list"
  | AMap "(string \<times> go_any) list"

primrec any_of :: "json \<Rightarrow> go_any" where
  "any_of JNull = ANull"
| "any_of JTrue = ABool True"
| "any_of JFalse = ABool False"
| "any_of (JNum l) = ANum l"
| "any_of (JStr l) = AStr (unquote l)"
| "any_of (JArr xs) = AArr (map snd (map (map_prod id any_of) xs))"
| "any_of (JObj ms) = AMap (foldl (\<lambda>m (k, raw, w). map_put (unquote k) w m) [] (map (map_prod id (map_prod id any_of)) ms))"

definition unmarshal_any :: "string \<Rightarrow> go_any option" where
  "unmarshal_any s = (case json_parse s of None \<Rightarrow> None | Some v \<Rightarrow> if any_ok v then Some (any_of v) else None)"

text \<open>\<open>json.Marshal\<close> of a string, with HTML escaping.\<close>

definition esc_byte :: "char \<Rightarrow> string" where
  "esc_byte c =
     (if c = quote \<or> c = backslash then [backslash, c]
      else if c = CHR 0x08 then backslash # ''b'' else if c = CHR 0x0C then backslash # ''f''
      else if c = CHR 0x0A then backslash # ''n'' else if c = CHR 0x0D then backslash # ''r''
      else if c = CHR 0x09 then backslash # ''t''
      else if (of_char c :: int) < 32 then
        backslash # ''u00'' @ [if (of_char c :: int) < 16 then CHR ''0'' else CHR ''1'',
          ''0123456789abcdef'' ! nat (of_char c mod 16)]
      else html_escape c)"

function marshal_str :: "string \<Rightarrow> string" where
  "marshal_str s =
     (case s of
        [] \<Rightarrow> []
      | c # t \<Rightarrow>
          if (of_char c :: int) < 128 then esc_byte c @ marshal_str t
          else if utf8_width s = 0 then backslash # ''ufffd'' @ marshal_str t
          else if has_prefix s [CHR 0xE2, CHR 0x80, CHR 0xA8] then backslash # ''u2028'' @ marshal_str (drop 3 s)
          else if has_prefix s [CHR 0xE2, CHR 0x80, CHR 0xA9] then backslash # ''u2029'' @ marshal_str (drop 3 s)
          else take (utf8_width s) s @ marshal_str (drop (utf8_width s) s))"
  by pat_completeness auto

termination marshal_str by (relation "measure length") auto

declare marshal_str.simps [simp del]

definition json_string :: "string \<Rightarrow> string" where
  "json_string s = quote # marshal_str s @ [quote]"

text \<open>\<open>json.Marshal\<close> of a decoded value: map keys sorted, no white space.\<close>

primrec marshal_any :: "(string \<Rightarrow> string) \<Rightarrow> go_any \<Rightarrow> string" where
  "marshal_any ft ANull = ''null''"
| "marshal_any ft (ABool b) = (if b then ''true'' else ''false'')"
| "marshal_any ft (ANum l) = ft l"
| "marshal_any ft (AStr s) = json_string s"
| "marshal_any ft (AArr xs) = ''['' @ commas (map (marshal_any ft) xs) @ '']''"
| "marshal_any ft (AMap m) =
     ''{'' @ commas (map (\<lambda>(k, j). json_string k @ '':'' @ j) (sort_key fst (map (map_prod id (marshal_any ft)) m))) @ ''}''"

section \<open>Signatures\<close>

record signature =
  sn_Hash :: string
  sn_PathArgs :: "string list"
  sn_URLArgs :: "string list"

text \<open>\<open>canonical\<close> fills a new map in the order of the sorted keys.\<close>

primrec canonical :: "go_any \<Rightarrow> go_any" where
  "canonical ANull = ANull"
| "canonical (ABool b) = ABool b"
| "canonical (ANum l) = ANum l"
| "canonical (AStr s) = AStr s"
| "canonical (AArr xs) = AArr (map canonical xs)"
| "canonical (AMap m) = AMap (sort_key fst (map (map_prod id canonical) m))"

text \<open>\<open>sha_hex\<close> is \<open>fmt.Sprintf("%x", sha256.Sum256(b))\<close>.  The nil schema is the empty one.\<close>

definition schemaHash :: "(string \<Rightarrow> string) \<Rightarrow> (string \<Rightarrow> string) \<Rightarrow> string \<Rightarrow> string" where
  "schemaHash sha_hex ft raw =
     (if raw = '''' then ''''
      else case unmarshal_any raw of
        None \<Rightarrow> ''raw:'' @ take 32 (sha_hex raw)
      | Some v \<Rightarrow> take 32 (sha_hex (marshal_any ft (canonical v))))"

definition pathWords :: "string list" where
  "pathWords = [''path'', ''file'', ''filename'', ''directory'', ''dir'', ''target'', ''src'', ''source'',
     ''destination'', ''dest'', ''location'']"

definition urlWords :: "string list" where
  "urlWords = [''url'', ''uri'', ''endpoint'', ''href'', ''link'']"

definition containsWord :: "string \<Rightarrow> string list \<Rightarrow> bool" where
  "containsWord s ws = (let l = to_lower s in list_ex (\<lambda>w. str_contains l w) ws)"

definition looksLikePath :: "string \<Rightarrow> bool" where "looksLikePath s = containsWord s pathWords"
definition looksLikeURL :: "string \<Rightarrow> bool" where "looksLikeURL s = containsWord s urlWords"

text \<open>One property of the schema, and decoding the map of them: each value afresh.\<close>

record schema_prop =
  sp_Type :: string
  sp_Format :: string
  sp_Description :: string

definition set_prop :: "string \<Rightarrow> string \<Rightarrow> json \<Rightarrow> schema_prop \<Rightarrow> schema_prop option" where
  "set_prop k raw v p =
     (if key_is k ''type'' then map_option (\<lambda>x. p\<lparr>sp_Type := x\<rparr>) (into_string v (sp_Type p))
      else if key_is k ''format'' then map_option (\<lambda>x. p\<lparr>sp_Format := x\<rparr>) (into_string v (sp_Format p))
      else if key_is k ''description'' then map_option (\<lambda>x. p\<lparr>sp_Description := x\<rparr>) (into_string v (sp_Description p))
      else Some p)"

definition into_props :: "json \<Rightarrow> schema_prop gomap \<Rightarrow> schema_prop gomap option" where
  "into_props v old =
     (case v of
        JNull \<Rightarrow> Some []
      | JObj ms \<Rightarrow>
          foldl (\<lambda>a (k, raw, w). Option.bind a (\<lambda>m.
            map_option (\<lambda>p. map_put (unquote k) p m)
              (decode_struct set_prop \<lparr>sp_Type = '''', sp_Format = '''', sp_Description = ''''\<rparr> w))) (Some old) ms
      | _ \<Rightarrow> None)"

definition set_schema :: "string \<Rightarrow> string \<Rightarrow> json \<Rightarrow> schema_prop gomap \<Rightarrow> schema_prop gomap option" where
  "set_schema k raw v m = (if key_is k ''properties'' then into_props v m else Some m)"

text \<open>The role of one property, from the \<open>switch\<close> of \<open>argRoles\<close>.\<close>

datatype arg_role = PathArg | URLArg | OtherArg

definition role_of :: "string \<Rightarrow> schema_prop \<Rightarrow> arg_role" where
  "role_of name p =
     (if sp_Type p \<noteq> '''' \<and> sp_Type p \<noteq> ''string'' then OtherArg
      else if sp_Format p = ''uri'' \<or> sp_Format p = ''iri'' \<or> sp_Format p = ''url'' then URLArg
      else if looksLikePath name \<or> looksLikePath (sp_Description p) then PathArg
      else if looksLikeURL name then URLArg
      else OtherArg)"

definition args_with :: "arg_role \<Rightarrow> schema_prop gomap \<Rightarrow> string list" where
  "args_with r props = sort (map fst (filter (\<lambda>(name, p). role_of name p = r) props))"

definition argRoles :: "string \<Rightarrow> string list \<times> string list" where
  "argRoles raw =
     (case (if raw = '''' then None else unmarshal_struct set_schema [] raw) of
        None \<Rightarrow> ([], [])
      | Some props \<Rightarrow> (args_with PathArg props, args_with URLArg props))"

definition signature_of :: "(string \<Rightarrow> string) \<Rightarrow> (string \<Rightarrow> string) \<Rightarrow> tool_declaration \<Rightarrow> signature" where
  "signature_of sha_hex ft d =
     (let raw = (case td_InputSchema d of None \<Rightarrow> '''' | Some r \<Rightarrow> r)
      in \<lparr>sn_Hash = schemaHash sha_hex ft raw, sn_PathArgs = fst (argRoles raw), sn_URLArgs = snd (argRoles raw)\<rparr>)"

section \<open>The registry\<close>

record registry =
  rg_sigs :: "signature gomap"
  rg_maxTools :: nat

definition defaultMaxTools :: nat where "defaultMaxTools = 4096"

definition New :: registry where
  "New = \<lparr>rg_sigs = [], rg_maxTools = defaultMaxTools\<rparr>"

definition key :: "string \<Rightarrow> string \<Rightarrow> string" where
  "key endpoint tool = to_lower endpoint @ CHR 0x00 # to_lower tool"

text \<open>The loop of \<open>Observe\<close>: it stops, rather than evicts, when the registry is full.\<close>

fun observe_decls :: "(tool_declaration \<Rightarrow> signature) \<Rightarrow> string \<Rightarrow> tool_declaration list \<Rightarrow> nat \<Rightarrow> registry \<Rightarrow> nat \<times> registry" where
  "observe_decls sg endpoint [] n r = (n, r)"
| "observe_decls sg endpoint (d # ds) n r =
     (if td_Name d = '''' then observe_decls sg endpoint ds n r
      else if rg_maxTools r \<le> length (rg_sigs r) then (n, r)
      else observe_decls sg endpoint ds (n + 1) (r\<lparr>rg_sigs := map_put (key endpoint (td_Name d)) (sg d) (rg_sigs r)\<rparr>))"

definition Observe :: "(tool_declaration \<Rightarrow> signature) \<Rightarrow> string \<Rightarrow> tool_declaration list \<Rightarrow> registry \<Rightarrow> nat \<times> registry" where
  "Observe sg endpoint decls r = (if decls = [] then (0, r) else observe_decls sg endpoint decls 0 r)"

definition Lookup :: "string \<Rightarrow> string \<Rightarrow> registry \<Rightarrow> signature option" where
  "Lookup endpoint tool r = map_of (rg_sigs r) (key endpoint tool)"

definition Len :: "registry \<Rightarrow> nat" where
  "Len r = length (rg_sigs r)"


section \<open>The registry holds what upstreams declared\<close>

lemma ascii_lower_nul [simp]: "ascii_lower c = CHR 0x00 \<longleftrightarrow> c = CHR 0x00"
proof
  assume a: "ascii_lower c = CHR 0x00"
  show "c = CHR 0x00"
  proof (cases "65 \<le> (of_char c :: nat) \<and> (of_char c :: nat) \<le> 90")
    case True
    with a have "(char_of (of_char c + 32 :: nat) :: char) = CHR 0x00" by (simp add: ascii_lower_def Let_def)
    then have "(of_char (char_of (of_char c + 32 :: nat) :: char) :: nat) = of_char (CHR 0x00)" by (rule arg_cong)
    with True show ?thesis by simp
  next
    case False
    with a show ?thesis by (auto simp: ascii_lower_def Let_def)
  qed
qed (simp add: ascii_lower_def)

lemma nul_lower: "CHR 0x00 \<in> set (to_lower s) \<longleftrightarrow> CHR 0x00 \<in> set s"
  by (induction s) (simp_all add: to_lower_def eq_commute [of "CHR 0x00"])

lemma split_unique: "c \<notin> set a \<Longrightarrow> c \<notin> set b \<Longrightarrow> a @ c # x = b @ c # y \<longleftrightarrow> a = b \<and> x = y"
proof (induction a arbitrary: b)
  case Nil
  then show ?case by (cases b) auto
next
  case (Cons d a)
  then show ?case by (cases b) auto
qed

lemma key_eq:
  "CHR 0x00 \<notin> set e \<Longrightarrow> CHR 0x00 \<notin> set e' \<Longrightarrow>
     key e t = key e' t' \<longleftrightarrow> to_lower e = to_lower e' \<and> to_lower t = to_lower t'"
  by (simp add: key_def split_unique nul_lower)

text \<open>
  What the extractor relies on: a book of declarations answers with something some upstream
  declared, and never forgets that it did.
\<close>

locale tool_book =
  fixes observe :: "'e \<Rightarrow> 'd list \<Rightarrow> 'r \<Rightarrow> 'r"
    and lookup :: "'q \<Rightarrow> 'r \<Rightarrow> 's option"
    and names :: "'e \<Rightarrow> 'd \<Rightarrow> 'q"
    and sg :: "'d \<Rightarrow> 's"
    and start :: "'r"
  assumes lookup_start: "lookup q start = None"
    and lookup_observe: "lookup q (observe e ds r) = lookup q r \<or>
      (\<exists>d \<in> set ds. names e d = q \<and> lookup q (observe e ds r) = Some (sg d))"
begin

lemma lookup_keeps: "lookup q r \<noteq> None \<Longrightarrow> lookup q (observe e ds r) \<noteq> None"
  using lookup_observe [of q e ds r] by auto

lemma lookup_declared:
  assumes "lookup q (fold (\<lambda>(e, ds). observe e ds) h start) = Some s"
  shows "\<exists>(e, ds) \<in> set h. \<exists>d \<in> set ds. names e d = q \<and> s = sg d"
  using assms
proof (induction h rule: rev_induct)
  case Nil
  then show ?case by (simp add: lookup_start)
next
  case (snoc x h)
  obtain e ds where x: "x = (e, ds)" by fastforce
  with snoc.prems have l: "lookup q (observe e ds (fold (\<lambda>(e, ds). observe e ds) h start)) = Some s" by simp
  show ?case
  proof (cases "lookup q (fold (\<lambda>(e, ds). observe e ds) h start) = Some s")
    case True
    with snoc.IH show ?thesis by auto
  next
    case False
    with l lookup_observe [of q e ds "fold (\<lambda>(e, ds). observe e ds) h start"] x show ?thesis by auto
  qed
qed

lemma lookup_isolated: "(\<And>d. d \<in> set ds \<Longrightarrow> names e d \<noteq> q) \<Longrightarrow> lookup q (observe e ds r) = lookup q r"
  using lookup_observe [of q e ds r] by blast

end

lemma observe_decls_lookup:
  "map_of (rg_sigs (snd (observe_decls sg e ds n r))) k = map_of (rg_sigs r) k \<or>
     (\<exists>d \<in> set ds. key e (td_Name d) = k \<and> map_of (rg_sigs (snd (observe_decls sg e ds n r))) k = Some (sg d))"
proof (induction ds arbitrary: n r)
  case (Cons d ds)
  let ?r = "r\<lparr>rg_sigs := map_put (key e (td_Name d)) (sg d) (rg_sigs r)\<rparr>"
  show ?case
  proof (cases "td_Name d = '''' \<or> rg_maxTools r \<le> length (rg_sigs r)")
    case True
    with Cons.IH [of n r] show ?thesis by auto
  next
    case False
    with Cons.IH [of "n + 1" ?r] show ?thesis by (cases "key e (td_Name d) = k") auto
  qed
qed simp

lemma observe_decls_max [simp]: "rg_maxTools (snd (observe_decls sg e ds n r)) = rg_maxTools r"
  by (induction ds arbitrary: n r) auto

lemma observe_decls_bound:
  "length (rg_sigs r) \<le> rg_maxTools r \<Longrightarrow> length (rg_sigs (snd (observe_decls sg e ds n r))) \<le> rg_maxTools r"
proof (induction ds arbitrary: n r)
  case (Cons d ds)
  let ?r = "r\<lparr>rg_sigs := map_put (key e (td_Name d)) (sg d) (rg_sigs r)\<rparr>"
  have "\<not> rg_maxTools r \<le> length (rg_sigs r) \<Longrightarrow> length (rg_sigs ?r) \<le> rg_maxTools ?r"
    by (simp add: length_map_put)
  with Cons.IH [of r n] Cons.IH [of ?r "n + 1"] Cons.prems show ?case by auto
qed simp

interpretation book: tool_book "\<lambda>e ds r. snd (Observe sg e ds r)" "\<lambda>k r. map_of (rg_sigs r) k" "\<lambda>e d. key e (td_Name d)" sg New
  for sg
  by unfold_locales (auto simp: New_def Observe_def observe_decls_lookup)

text \<open>The registry after a history of answers to \<open>tools/list\<close>, each with its endpoint.\<close>

definition observed :: "(tool_declaration \<Rightarrow> signature) \<Rightarrow> (string \<times> tool_declaration list) list \<Rightarrow> registry" where
  "observed sg h = fold (\<lambda>(e, ds) r. snd (Observe sg e ds r)) h New"

lemma Observe_max [simp]: "rg_maxTools (snd (Observe sg e ds r)) = rg_maxTools r"
  by (simp add: Observe_def)

lemma Observe_bound: "Len r \<le> rg_maxTools r \<Longrightarrow> Len (snd (Observe sg e ds r)) \<le> rg_maxTools r"
  by (simp add: Observe_def Len_def observe_decls_bound)

lemma observed_bound: "Len (observed sg h) \<le> 4096 \<and> rg_maxTools (observed sg h) = 4096"
proof (induction h rule: rev_induct)
  case Nil
  then show ?case by (simp add: observed_def New_def Len_def defaultMaxTools_def)
next
  case (snoc x h)
  then show ?case using Observe_bound [of "observed sg h" sg "fst x" "snd x"] by (simp add: observed_def split_beta)
qed


text \<open>
  A flood of declarations displaces nothing: observing more never makes a declared tool
  undeclared, changes nothing for another endpoint, and leaves the registry within its bound.
\<close>

theorem flood_displaces_nothing:
  assumes "Len r \<le> rg_maxTools r" and "CHR 0x00 \<notin> set e"
  shows "Len (snd (Observe sg e ds r)) \<le> rg_maxTools r \<and>
     (\<forall>e' t. Lookup e' t r \<noteq> None \<longrightarrow> Lookup e' t (snd (Observe sg e ds r)) \<noteq> None) \<and>
     (\<forall>e' t. CHR 0x00 \<notin> set e' \<and> to_lower e' \<noteq> to_lower e \<longrightarrow> Lookup e' t (snd (Observe sg e ds r)) = Lookup e' t r)"
proof (intro conjI allI impI)
  show "Len (snd (Observe sg e ds r)) \<le> rg_maxTools r" using Observe_bound [OF assms(1)] by simp
  show "Lookup e' t (snd (Observe sg e ds r)) \<noteq> None" if "Lookup e' t r \<noteq> None" for e' t
    using book.lookup_keeps [OF that [unfolded Lookup_def]] by (simp add: Lookup_def)
  show "Lookup e' t (snd (Observe sg e ds r)) = Lookup e' t r" if "CHR 0x00 \<notin> set e' \<and> to_lower e' \<noteq> to_lower e" for e' t
    unfolding Lookup_def by (rule book.lookup_isolated) (use that assms(2) key_eq in auto)
qed


section \<open>The hash identifies the schema\<close>

text \<open>Equal decoded values: the same keys with equal values, in whatever order.\<close>

inductive same_any :: "go_any \<Rightarrow> go_any \<Rightarrow> bool" where
  same_null: "same_any ANull ANull"
| same_bool: "same_any (ABool b) (ABool b)"
| same_num: "same_any (ANum l) (ANum l)"
| same_str: "same_any (AStr s) (AStr s)"
| same_arr: "list_all2 same_any xs ys \<Longrightarrow> same_any (AArr xs) (AArr ys)"
| same_map: "gomap_ok m \<Longrightarrow> gomap_ok m' \<Longrightarrow> (\<forall>k. rel_option same_any (map_of m k) (map_of m' k)) \<Longrightarrow> same_any (AMap m) (AMap m')"

lemma sort_key_values: "sort_key fst (map (map_prod id f) m) = map (map_prod id f) (sort_key fst m)"
proof -
  have ins: "insort_key fst (map_prod id f x) (map (map_prod id f) xs) = map (map_prod id f) (insort_key fst x xs)" for x xs
    by (induction xs) auto
  show ?thesis by (induction m) (simp_all only: list.map sort_key_simps ins)
qed

lemma sort_key_maps:
  assumes "gomap_ok m" and "gomap_ok m'" and "map_of m = map_of m'"
  shows "sort_key fst m = sort_key fst m'"
proof (rule sort_key_inj_key_eq)
  have "distinct m" "distinct m'" using assms by (auto simp: distinct_map)
  moreover have "set m = set m'" using assms map_of_eqI [of m m']
    by (metis map_of_is_SomeI map_of_SomeD subsetI subset_antisym surj_pair)
  ultimately show "mset m = mset (sort_key fst m')" by (simp add: set_eq_iff_mset_eq_distinct)
  show "inj_on fst (set m)" using assms by (simp add: distinct_map)
qed simp

lemma sorted_twice:
  fixes m :: "'a gomap"
  assumes "gomap_ok m"
  shows "sort_key fst (map (map_prod id f) (sort_key fst (map (map_prod id g) m))) = sort_key fst (map (map_prod id (f \<circ> g)) m)"
proof -
  have "sort_key fst (sort_key fst m) = sort_key fst m"
    by (rule sort_key_inj_key_eq) (use assms in \<open>simp_all add: distinct_map\<close>)
  moreover have "map (map_prod id f) (map (map_prod id g) xs) = map (map_prod id (f \<circ> g)) xs" for xs :: "'a gomap"
    by (induction xs) auto
  ultimately show ?thesis by (simp only: sort_key_values)
qed

lemma same_marshal:
  "same_any v w \<Longrightarrow> marshal_any ft (canonical v) = marshal_any ft (canonical w)"
proof (induction rule: same_any.induct)
  case (same_arr xs ys)
  then have "map (marshal_any ft \<circ> canonical) xs = map (marshal_any ft \<circ> canonical) ys"
    by (induction rule: list_all2_induct) auto
  then show ?case by simp
next
  case (same_map m m')
  let ?g = "marshal_any ft \<circ> canonical"
  have mo: "map_of (map (map_prod id ?g) n) k = map_option ?g (map_of n k)" for n :: "go_any gomap" and k
    by (induction n) auto
  have "map_option ?g (map_of m k) = map_option ?g (map_of m' k)" for k
    using same_map(3) [rule_format, of k] by (cases rule: option.rel_cases) auto
  with mo have "map_of (map (map_prod id ?g) m) = map_of (map (map_prod id ?g) m')" by (simp add: fun_eq_iff)
  moreover have "gomap_ok (map (map_prod id ?g) n)" if "gomap_ok n" for n :: "go_any gomap"
    using that by (simp add: comp_def)
  ultimately have "sort_key fst (map (map_prod id ?g) m) = sort_key fst (map (map_prod id ?g) m')"
    using same_map(1,2) by (intro sort_key_maps)
  then show ?case
    by (simp only: canonical.simps marshal_any.simps sorted_twice [OF same_map(1), of "marshal_any ft" canonical]
        sorted_twice [OF same_map(2), of "marshal_any ft" canonical])
qed auto

text \<open>
  The content hash identifies a schema and not a spelling of it: schemas that decode to
  equal values, whatever their order of keys, white space and escapes, have the same hash, and
  one that does not decode never has the hash of one that does.
\<close>

theorem schema_hash_canonical:
  assumes "\<And>b. length (sha_hex b) = 64" and "unmarshal_any raw = Some v"
  shows "(\<forall>raw' w. unmarshal_any raw' = Some w \<and> same_any v w \<longrightarrow> schemaHash sha_hex ft raw' = schemaHash sha_hex ft raw) \<and>
     (\<forall>raw'. raw' \<noteq> '''' \<and> unmarshal_any raw' = None \<longrightarrow> schemaHash sha_hex ft raw' \<noteq> schemaHash sha_hex ft raw)"
proof -
  have e: "unmarshal_any '''' = None" by code_simp
  have h: "schemaHash sha_hex ft r = take 32 (sha_hex (marshal_any ft (canonical x)))" if "unmarshal_any r = Some x" for r x
    using that e by (auto simp: schemaHash_def)
  have "schemaHash sha_hex ft raw' \<noteq> schemaHash sha_hex ft raw" if "raw' \<noteq> ''''" "unmarshal_any raw' = None" for raw'
  proof
    assume "schemaHash sha_hex ft raw' = schemaHash sha_hex ft raw"
    then have "length (''raw:'' @ take 32 (sha_hex raw')) = length (take 32 (sha_hex (marshal_any ft (canonical v))))"
      using that h [OF assms(2)] by (simp add: schemaHash_def)
    then show False using assms(1) by simp
  qed
  moreover have "schemaHash sha_hex ft raw' = schemaHash sha_hex ft raw" if "unmarshal_any raw' = Some w" "same_any v w" for raw' w
    using h [OF that(1)] h [OF assms(2)] same_marshal [OF that(2)] by simp
  ultimately show ?thesis by blast
qed


section \<open>Argument roles\<close>

lemma into_props_ok: "into_props v old = Some m \<Longrightarrow> gomap_ok old \<Longrightarrow> gomap_ok m"
proof (cases v)
  case (JObj ms)
  let ?f = "\<lambda>a (k, raw, w). Option.bind a (\<lambda>m.
            map_option (\<lambda>p. map_put (unquote k) p m)
              (decode_struct set_prop \<lparr>sp_Type = '''', sp_Format = '''', sp_Description = ''''\<rparr> w))"
  have n: "foldl ?f None ms = None" for ms :: "(string \<times> string \<times> json) list" by (induction ms) auto
  have "foldl ?f (Some old) ms = Some m \<Longrightarrow> gomap_ok old \<Longrightarrow> gomap_ok m" for old
  proof (induction ms arbitrary: old)
    case (Cons x ms)
    obtain k raw w where x: "x = (k, raw, w)" by (cases x)
    show ?case
    proof (cases "decode_struct set_prop \<lparr>sp_Type = '''', sp_Format = '''', sp_Description = ''''\<rparr> w")
      case None
      with Cons.prems x n show ?thesis by simp
    next
      case (Some p)
      with Cons x show ?thesis by simp
    qed
  qed simp
  then show "into_props v old = Some m \<Longrightarrow> gomap_ok old \<Longrightarrow> gomap_ok m" using JObj by (simp add: into_props_def)
qed (auto simp: into_props_def)

lemma schema_props_ok:
  assumes "unmarshal_struct set_schema [] raw = Some props"
  shows "gomap_ok props"
proof -
  have n: "foldl (\<lambda>a (k, raw, w). Option.bind a (set_schema (unquote k) raw w)) None ms = None" for ms
    by (induction ms) auto
  have "foldl (\<lambda>a (k, raw, w). Option.bind a (set_schema (unquote k) raw w)) (Some old) ms = Some m \<Longrightarrow> gomap_ok old \<Longrightarrow> gomap_ok m"
    for ms old m
  proof (induction ms arbitrary: old)
    case (Cons x ms)
    obtain k r w where x: "x = (k, r, w)" by (cases x)
    show ?case
    proof (cases "set_schema (unquote k) r w old")
      case None
      with Cons.prems x n show ?thesis by simp
    next
      case (Some m')
      with Cons.prems(2) have "gomap_ok m'" by (auto simp: set_schema_def into_props_ok split: if_splits)
      with Some Cons x show ?thesis by simp
    qed
  qed simp
  then show ?thesis using assms by (auto simp: unmarshal_struct_def decode_struct_def split: bind_splits json.splits)
qed

lemma args_with_props:
  assumes "gomap_ok props"
  shows "sorted (args_with r props)" and "distinct (args_with r props)"
    and "set (args_with r props) = {n. \<exists>p. map_of props n = Some p \<and> role_of n p = r}"
proof -
  show "sorted (args_with r props)" by (simp add: args_with_def)
  show "distinct (args_with r props)" using assms
    by (simp add: args_with_def distinct_map_filter)
  show "set (args_with r props) = {n. \<exists>p. map_of props n = Some p \<and> role_of n p = r}"
    using assms by (force simp: args_with_def)
qed

text \<open>
  The roles of arguments are read off the declared schema alone: the path arguments are
  exactly the declared properties with that role, so are the URL arguments, each list sorted
  and without repetition, and no argument has both roles.
\<close>

theorem roles_from_schema:
  assumes "unmarshal_struct set_schema [] raw = Some props"
  shows "\<exists>paths urls. argRoles raw = (paths, urls) \<and> sorted paths \<and> distinct paths \<and> sorted urls \<and> distinct urls \<and>
     set paths = {n. \<exists>p. map_of props n = Some p \<and> role_of n p = PathArg} \<and>
     set urls = {n. \<exists>p. map_of props n = Some p \<and> role_of n p = URLArg} \<and> set paths \<inter> set urls = {}"
proof -
  have "unmarshal_struct set_schema [] '''' = None" by code_simp
  with assms have "raw \<noteq> ''''" by auto
  with assms have "argRoles raw = (args_with PathArg props, args_with URLArg props)" by (simp add: argRoles_def)
  with args_with_props [OF schema_props_ok [OF assms]] show ?thesis by auto
qed



section \<open>Witnesses\<close>

definition sample_schema :: string where
  "sample_schema = json_obj [(''properties'', json_obj [(''src'', json_obj []), (''at'', json_obj [(''format'', json_key ''uri'')])])]"

definition sample_respelt :: string where
  "sample_respelt = json_obj [(''b'', '' true''), (''a'', ''null '')]"

definition sample_list :: "(string \<times> tool_declaration list) list" where
  "sample_list = [(''h'', [\<lparr>td_Name = ''Mv'', td_Description = '''', td_InputSchema = None\<rparr>])]"

lemma sample_props:
  "unmarshal_struct set_schema [] sample_schema =
     Some [(''src'', \<lparr>sp_Type = '''', sp_Format = '''', sp_Description = ''''\<rparr>),
       (''at'', \<lparr>sp_Type = '''', sp_Format = ''uri'', sp_Description = ''''\<rparr>)]"
  by code_simp

theorem roles_from_schema_witness:
  "\<exists>paths urls. argRoles sample_schema = (paths, urls) \<and> set paths = {''src''} \<and> set urls = {''at''}"
proof -
  have r: "role_of ''src'' \<lparr>sp_Type = '''', sp_Format = '''', sp_Description = ''''\<rparr> = PathArg"
    "role_of ''at'' \<lparr>sp_Type = '''', sp_Format = ''uri'', sp_Description = ''''\<rparr> = URLArg" by code_simp+
  from roles_from_schema [OF sample_props] r show ?thesis by (auto split: if_splits)
qed


theorem flood_displaces_nothing_witness:
  "Lookup ''h'' ''mv'' (snd (Observe (signature_of id id) ''j'' (snd (hd sample_list)) (observed (signature_of id id) sample_list))) =
     Lookup ''h'' ''mv'' (observed (signature_of id id) sample_list)"
  using flood_displaces_nothing [of "observed (signature_of id id) sample_list" "''j''" "signature_of id id" "snd (hd sample_list)"] observed_bound
  by (auto simp: to_lower_def ascii_lower_def)

theorem schema_hash_canonical_witness:
  "schemaHash (\<lambda>b. take 64 (b @ replicate 64 (CHR ''0''))) id sample_respelt =
     schemaHash (\<lambda>b. take 64 (b @ replicate 64 (CHR ''0''))) id (json_obj [(''a'', ''null''), (''b'', ''true'')])"
proof -
  have "unmarshal_any (json_obj [(''a'', ''null''), (''b'', ''true'')]) = Some (AMap [(''a'', ANull), (''b'', ABool True)])"
    "unmarshal_any sample_respelt = Some (AMap [(''b'', ABool True), (''a'', ANull)])" by code_simp+
  moreover have "same_any (AMap [(''a'', ANull), (''b'', ABool True)]) (AMap [(''b'', ABool True), (''a'', ANull)])"
    by (rule same_map) (simp_all add: same_bool same_null)
  ultimately show ?thesis
    using schema_hash_canonical [of "\<lambda>b. take 64 (b @ replicate 64 (CHR ''0''))", THEN conjunct1] by auto
qed

end
