(* ===== verification/Extract.thy ===== *)
theory Extract
  imports Toolsig
begin

text \<open>
  Attribute extraction, \<open>proxy/internal/extract\<close>: the registry of extractors (\<open>extract.go\<close>), the
  extractor of MCP tool calls (\<open>tool.go\<close>) and that of model calls (\<open>llm.go\<close>).  \<open>url.Parse\<close> is a
  parameter: the host name of a URL, when it parses and has a host.
\<close>

section \<open>Calls, results and the registry\<close>

record intercepted =
  c_Tool :: string
  c_Arguments :: "json gomap"
  c_Host :: string
  c_Path :: string
  c_Body :: string
  c_Signature :: "signature option"

text \<open>A nil map of attributes is the empty one: \<open>Classify\<close> makes it so.\<close>

record classification =
  x_Action :: string
  x_Tool :: string
  x_Resource :: string
  x_Attrs :: "string gomap"
  x_Undecodable :: bool

text \<open>What a call of \<open>Extract\<close> comes to: not its business, a result, or a panic.\<close>

datatype extracted = NotMine | Claimed classification | Panicked

record extractor =
  e_Name :: string
  e_Extract :: "intercepted \<Rightarrow> extracted"

definition safeExtract :: "extractor \<Rightarrow> intercepted \<Rightarrow> classification option" where
  "safeExtract e c =
     (case e_Extract e c of
        NotMine \<Rightarrow> None
      | Claimed r \<Rightarrow> Some r
      | Panicked \<Rightarrow> Some \<lparr>x_Action = e_Name e @ ''/panic'', x_Tool = '''', x_Resource = '''',
          x_Attrs = [(''reason'', ''extractor panicked'')], x_Undecodable = True\<rparr>)"

fun Classify :: "extractor list \<Rightarrow> intercepted \<Rightarrow> classification option" where
  "Classify [] c = None"
| "Classify (e # reg) c = (case safeExtract e c of None \<Rightarrow> Classify reg c | Some r \<Rightarrow> Some r)"

section \<open>Tool calls\<close>

text \<open>The first key of a list that yields something.\<close>

fun first_some :: "('a \<Rightarrow> 'b option) \<Rightarrow> 'a list \<Rightarrow> 'b option" where
  "first_some f [] = None"
| "first_some f (k # ks) = (case f k of None \<Rightarrow> first_some f ks | Some v \<Rightarrow> Some v)"

definition pathKeys :: "string list" where
  "pathKeys = [''path'', ''file_path'', ''filepath'', ''filename'', ''target'', ''directory'']"

definition urlKeys :: "string list" where
  "urlKeys = [''url'', ''uri'', ''endpoint'']"

text \<open>\<open>c.Arguments[k].(string)\<close>, when it is a string and not the empty one.\<close>

definition arg_string :: "intercepted \<Rightarrow> string \<Rightarrow> string option" where
  "arg_string c k =
     (case map_of (c_Arguments c) k of
        Some (JStr l) \<Rightarrow> if unquote l = '''' then None else Some (unquote l)
      | _ \<Rightarrow> None)"

definition hostOf :: "(string \<Rightarrow> string option) \<Rightarrow> string \<Rightarrow> string" where
  "hostOf url_host v =
     (case url_host v of
        Some h \<Rightarrow> h
      | None \<Rightarrow>
          if has_prefix v ''/'' then ''''
          else case url_host (''//'' @ v) of Some h \<Rightarrow> h | None \<Rightarrow> '''')"

text \<open>A URL argument with its host, when it has one.\<close>

definition arg_host :: "(string \<Rightarrow> string option) \<Rightarrow> intercepted \<Rightarrow> string \<Rightarrow> (string \<times> string) option" where
  "arg_host uh c k =
     (case arg_string c k of
        None \<Rightarrow> None
      | Some v \<Rightarrow> if hostOf uh v = '''' then None else Some (v, hostOf uh v))"

text \<open>What the declaration contributes, and the two loops over argument names.\<close>

definition declared_attrs :: "intercepted \<Rightarrow> string gomap" where
  "declared_attrs c =
     (case c_Signature c of
        Some s \<Rightarrow> [(''tool_declared'', ''true'')] @ (if sn_Hash s = '''' then [] else [(''tool_signature'', sn_Hash s)])
      | None \<Rightarrow> [(''tool_declared'', ''false'')]) @
     (if c_Host c = '''' then [] else [(''tool_endpoint'', c_Host c)])"

definition take_path :: "intercepted \<Rightarrow> string list \<Rightarrow> classification \<Rightarrow> classification" where
  "take_path c keys r =
     (if map_of (x_Attrs r) ''resource_path'' \<noteq> None then r
      else case first_some (arg_string c) keys of
        None \<Rightarrow> r
      | Some v \<Rightarrow> r\<lparr>x_Attrs := map_put ''resource_path'' v (x_Attrs r), x_Resource := v\<rparr>)"

definition take_host :: "(string \<Rightarrow> string option) \<Rightarrow> intercepted \<Rightarrow> string list \<Rightarrow> classification \<Rightarrow> classification" where
  "take_host uh c keys r =
     (if map_of (x_Attrs r) ''resource_host'' \<noteq> None then r
      else case first_some (arg_host uh c) keys of
        None \<Rightarrow> r
      | Some (v, h) \<Rightarrow> r\<lparr>x_Attrs := map_put ''resource_host'' h (x_Attrs r),
          x_Resource := (if x_Resource r = '''' then v else x_Resource r)\<rparr>)"

definition tool_extract :: "(string \<Rightarrow> string option) \<Rightarrow> intercepted \<Rightarrow> extracted" where
  "tool_extract uh c =
     (if c_Tool c = '''' then NotMine
      else
        let r = \<lparr>x_Action = ''mcp/tools_call'', x_Tool = c_Tool c, x_Resource = '''',
                 x_Attrs = declared_attrs c, x_Undecodable = False\<rparr>;
            r = (case c_Signature c of
                   None \<Rightarrow> r
                 | Some s \<Rightarrow> take_host uh c (sn_URLArgs s) (take_path c (sn_PathArgs s) r))
        in Claimed (take_host uh c urlKeys (take_path c pathKeys r)))"

section \<open>Model calls\<close>

definition completionPaths :: "string list" where
  "completionPaths = [''/v1/messages'', ''/v1/chat/completions'', ''/v1/completions'', ''/v1/responses'',
     ''/api/chat'', ''/api/generate'', '':generatecontent'', '':streamgeneratecontent'', ''/converse'',
     ''/converse-stream'', ''/invoke'', ''/invoke-with-response-stream'']"

definition knownPath :: "string \<Rightarrow> bool" where
  "knownPath p = (let p = to_lower p in list_ex (\<lambda>s. has_suffix p s \<or> str_contains p (s @ ''?'')) completionPaths)"

text \<open>
  The regular expressions of \<open>pathModel\<close>.  Each is a literal, one or more characters outside a
  set, and what must follow; the literals match without regard to case, where a long s and a
  Kelvin sign are letters too.  As the text that must follow begins with a character of the
  set, the middle part has one possible extent.
\<close>

fun eat_fold :: "string \<Rightarrow> string \<Rightarrow> string option" where
  "eat_fold [] s = Some s"
| "eat_fold (p # ps) s =
     (if p = CHR ''S'' \<and> has_prefix s [CHR 0xC5, CHR 0xBF] then eat_fold ps (drop 2 s)
      else if p = CHR ''K'' \<and> has_prefix s [CHR 0xE2, CHR 0x84, CHR 0xAA] then eat_fold ps (drop 3 s)
      else case s of [] \<Rightarrow> None | c # t \<Rightarrow> if ascii_upper c = p then eat_fold ps t else None)"

record path_regexp =
  pr_lead :: string
  pr_stop :: string
  pr_follow :: "string list"

definition pathModel :: "path_regexp list" where
  "pathModel =
     [\<lparr>pr_lead = ''/OPENAI/DEPLOYMENTS/'', pr_stop = ''/'', pr_follow = [''/'']\<rparr>,
      \<lparr>pr_lead = ''/MODEL/'', pr_stop = ''/'', pr_follow = [''/CONVERSE'', ''/INVOKE'']\<rparr>,
      \<lparr>pr_lead = ''/MODELS/'', pr_stop = ''/:'', pr_follow = ['':STREAMGENERATECONTENT'', '':GENERATECONTENT'']\<rparr>]"

definition match_here :: "path_regexp \<Rightarrow> string \<Rightarrow> string option" where
  "match_here re s =
     (case eat_fold (pr_lead re) s of
        None \<Rightarrow> None
      | Some t \<Rightarrow>
          (let m = takeWhile (\<lambda>c. c \<notin> set (pr_stop re)) t; u = dropWhile (\<lambda>c. c \<notin> set (pr_stop re)) t
           in if m \<noteq> [] \<and> list_ex (\<lambda>f. eat_fold f u \<noteq> None) (pr_follow re) then Some m else None))"

text \<open>\<open>FindStringSubmatch\<close>: the leftmost match.\<close>

fun find_match :: "path_regexp \<Rightarrow> string \<Rightarrow> string option" where
  "find_match re [] = match_here re []"
| "find_match re (c # s) = (case match_here re (c # s) of Some m \<Rightarrow> Some m | None \<Rightarrow> find_match re s)"

definition modelFromPath :: "string \<Rightarrow> string" where
  "modelFromPath p = (case first_some (\<lambda>re. find_match re p) pathModel of Some m \<Rightarrow> m | None \<Rightarrow> '''')"

text \<open>
  \<open>net.SplitHostPort\<close>: host and port around the last colon; a host with a colon is in brackets.
\<close>

definition split_last :: "char \<Rightarrow> string \<Rightarrow> (string \<times> string) option" where
  "split_last c s =
     (if c \<in> set s then Some (rev (tl (dropWhile (\<lambda>x. x \<noteq> c) (rev s))), rev (takeWhile (\<lambda>x. x \<noteq> c) (rev s))) else None)"

definition SplitHostPort :: "string \<Rightarrow> (string \<times> string) option" where
  "SplitHostPort s =
     (case split_last (CHR '':'') s of
        None \<Rightarrow> None
      | Some (h, p) \<Rightarrow>
          if has_prefix s ''['' then
            (let host = takeWhile (\<lambda>c. c \<noteq> CHR '']'') (tl s) in
             if h \<noteq> ''['' @ host @ '']'' \<or> CHR '']'' \<notin> set s then None
             else if CHR ''['' \<in> set (tl s) \<or> CHR '']'' \<in> set p then None
             else Some (host, p))
          else if CHR '':'' \<in> set h then None
          else if CHR ''['' \<in> set s \<or> CHR '']'' \<in> set s then None
          else Some (h, p))"

definition trim_brackets :: "string \<Rightarrow> string" where
  "trim_brackets s = rev (dropWhile (\<lambda>c. c \<in> set ''[]'') (rev (dropWhile (\<lambda>c. c \<in> set ''[]'') s)))"

definition hostname :: "string \<Rightarrow> string" where
  "hostname h =
     (if h = '''' then ''''
      else case SplitHostPort h of Some (host, _) \<Rightarrow> host | None \<Rightarrow> trim_brackets h)"

text \<open>\<open>bedrockHost\<close>, anchored at both ends; no part can be read in two ways.\<close>

definition drop_prefix :: "string \<Rightarrow> string \<Rightarrow> string" where
  "drop_prefix p s = (if has_prefix s p then drop (length p) s else s)"

definition bedrockHost :: "string \<Rightarrow> bool" where
  "bedrockHost h =
     (let r = drop_prefix ''-fips'' (drop_prefix ''-runtime'' (drop 7 h));
          region = trim_suffix (tl r) ''.amazonaws.com''
      in has_prefix h ''bedrock'' \<and> has_prefix r ''.'' \<and> has_suffix (tl r) ''.amazonaws.com'' \<and>
         region \<noteq> '''' \<and> list_all (\<lambda>c. c \<in> set ''abcdefghijklmnopqrstuvwxyz0123456789-'') region)"

definition provider :: "string \<Rightarrow> string" where
  "provider host =
     (let h = to_lower (hostname host) in
      if h = '''' then ''unknown''
      else if h = ''api.anthropic.com'' then ''anthropic''
      else if h = ''api.openai.com'' then ''openai''
      else if has_suffix h ''.openai.azure.com'' then ''azure-openai''
      else if h = ''generativelanguage.googleapis.com'' \<or> has_suffix h ''-aiplatform.googleapis.com'' \<or>
              h = ''aiplatform.googleapis.com'' then ''google''
      else if bedrockHost h then ''bedrock''
      else if h = ''localhost'' \<or> h = ''127.0.0.1'' \<or> h = ''::1'' then ''local''
      else ''unlisted'')"

record completion_body =
  b_Model :: string
  b_Stream :: bool
  b_MaxTokens :: int
  b_Messages :: "string list"
  b_Contents :: "string list"
  b_Prompt :: "string option"
  b_Input :: "string option"

text \<open>Into a \<open>*json.RawMessage\<close>: \<open>null\<close> is the nil pointer.\<close>

definition into_praw :: "string \<Rightarrow> json \<Rightarrow> string option" where
  "into_praw raw v = (if v = JNull then None else Some raw)"

definition set_body :: "string \<Rightarrow> string \<Rightarrow> json \<Rightarrow> completion_body \<Rightarrow> completion_body option" where
  "set_body k raw v b =
     (if key_is k ''model'' then map_option (\<lambda>x. b\<lparr>b_Model := x\<rparr>) (into_string v (b_Model b))
      else if key_is k ''stream'' then map_option (\<lambda>x. b\<lparr>b_Stream := x\<rparr>) (into_bool v (b_Stream b))
      else if key_is k ''max_tokens'' then map_option (\<lambda>x. b\<lparr>b_MaxTokens := x\<rparr>) (into_int v (b_MaxTokens b))
      else if key_is k ''messages'' then map_option (\<lambda>x. b\<lparr>b_Messages := x\<rparr>) (into_raws v)
      else if key_is k ''contents'' then map_option (\<lambda>x. b\<lparr>b_Contents := x\<rparr>) (into_raws v)
      else if key_is k ''prompt'' then Some (b\<lparr>b_Prompt := into_praw raw v\<rparr>)
      else if key_is k ''input'' then Some (b\<lparr>b_Input := into_praw raw v\<rparr>)
      else Some b)"

definition unmarshal_body :: "string \<Rightarrow> completion_body option" where
  "unmarshal_body = unmarshal_struct set_body
     \<lparr>b_Model = '''', b_Stream = False, b_MaxTokens = 0, b_Messages = [], b_Contents = [], b_Prompt = None, b_Input = None\<rparr>"

definition llm_attrs :: "intercepted \<Rightarrow> completion_body \<Rightarrow> string \<Rightarrow> string gomap" where
  "llm_attrs c b model =
     (let host = hostname (c_Host c); n = length (b_Messages b) + length (b_Contents b) in
      [(''provider'', provider host), (''endpoint'', c_Path c), (''stream'', if b_Stream b then ''true'' else ''false'')] @
      (if host = '''' then [] else [(''resource_host'', host)]) @
      (if model = '''' then [] else [(''model'', model)]) @
      (if b_MaxTokens b > 0 then [(''max_tokens'', itoa (nat (b_MaxTokens b)))] else []) @
      (if n > 0 then [(''messages'', itoa n)] else []))"

definition llm_decoded :: "intercepted \<Rightarrow> completion_body \<Rightarrow> extracted" where
  "llm_decoded c b =
     (let known = knownPath (c_Path c);
          model = (if b_Model b = '''' then modelFromPath (c_Path c) else b_Model b);
          conversation = (b_Messages b \<noteq> [] \<or> b_Contents b \<noteq> [] \<or> (known \<and> (b_Prompt b \<noteq> None \<or> b_Input b \<noteq> None)));
          name = (if model = '''' then ''unnamed'' else model)
      in if \<not> conversation then NotMine
         else if model = '''' \<and> \<not> known then NotMine
         else Claimed \<lparr>x_Action = ''llm/completion'', x_Tool = name,
           x_Resource = provider (hostname (c_Host c)) @ ''/'' @ name, x_Attrs = llm_attrs c b model, x_Undecodable = False\<rparr>)"

definition llm_extract :: "intercepted \<Rightarrow> extracted" where
  "llm_extract c =
     (if c_Tool c \<noteq> '''' then NotMine
      else case (if c_Body c = '''' then None else unmarshal_body (c_Body c)) of
        None \<Rightarrow>
          if knownPath (c_Path c) then
            Claimed \<lparr>x_Action = ''llm/completion'', x_Tool = '''', x_Resource = '''',
              x_Attrs = [(''provider'', provider (hostname (c_Host c))), (''endpoint'', c_Path c)], x_Undecodable = True\<rparr>
          else NotMine
      | Some b \<Rightarrow> llm_decoded c b)"

section \<open>The built-in registry\<close>

definition llmExtractor :: extractor where
  "llmExtractor = \<lparr>e_Name = ''llm'', e_Extract = llm_extract\<rparr>"

definition toolExtractor :: "(string \<Rightarrow> string option) \<Rightarrow> extractor" where
  "toolExtractor uh = \<lparr>e_Name = ''mcp-tool'', e_Extract = tool_extract uh\<rparr>"

definition Default :: "(string \<Rightarrow> string option) \<Rightarrow> extractor list" where
  "Default uh = [llmExtractor, toolExtractor uh]"


section \<open>Extractors keep their contract\<close>

text \<open>
  What the registry and the gateway rely on: an extractor does not panic, names an action, and
  fills a map of attributes.
\<close>

locale sound_extractor =
  fixes e :: extractor
  assumes no_panic: "e_Extract e c \<noteq> Panicked"
    and attrs_ok: "e_Extract e c = Claimed r \<Longrightarrow> gomap_ok (x_Attrs r)"
    and acts: "e_Extract e c = Claimed r \<Longrightarrow> x_Action r \<noteq> ''''"
begin

lemma safe_is_extract: "safeExtract e c = Some r \<longleftrightarrow> e_Extract e c = Claimed r"
  using no_panic [of c] by (cases "e_Extract e c") (auto simp: safeExtract_def)

lemma safe_sound: "safeExtract e c = Some r \<Longrightarrow> gomap_ok (x_Attrs r) \<and> x_Action r \<noteq> ''''"
  using attrs_ok acts by (simp add: safe_is_extract)

end

lemma declared_attrs_ok: "gomap_ok (declared_attrs c)"
  by (cases "c_Signature c") (auto simp: declared_attrs_def)

lemma take_path_ok: "gomap_ok (x_Attrs r) \<Longrightarrow> gomap_ok (x_Attrs (take_path c ks r))"
  by (auto simp: take_path_def split: option.splits)

lemma take_host_ok: "gomap_ok (x_Attrs r) \<Longrightarrow> gomap_ok (x_Attrs (take_host uh c ks r))"
  by (auto simp: take_host_def split: option.splits)

lemma take_path_same [simp]:
  "x_Action (take_path c ks r) = x_Action r" "x_Tool (take_path c ks r) = x_Tool r"
  "x_Undecodable (take_path c ks r) = x_Undecodable r"
  by (auto simp: take_path_def split: option.splits)

lemma take_host_same [simp]:
  "x_Action (take_host uh c ks r) = x_Action r" "x_Tool (take_host uh c ks r) = x_Tool r"
  "x_Undecodable (take_host uh c ks r) = x_Undecodable r"
  "map_of (x_Attrs (take_host uh c ks r)) ''resource_path'' = map_of (x_Attrs r) ''resource_path''"
  "x_Resource r \<noteq> '''' \<Longrightarrow> x_Resource (take_host uh c ks r) = x_Resource r"
  by (auto simp: take_host_def split: option.splits)

lemma tool_claims:
  assumes "tool_extract uh c = Claimed r"
  shows "x_Action r = ''mcp/tools_call'' \<and> x_Tool r = c_Tool c \<and> \<not> x_Undecodable r \<and> gomap_ok (x_Attrs r)"
  using assms
  by (cases "c_Signature c") (auto simp: tool_extract_def Let_def declared_attrs_ok intro!: take_path_ok take_host_ok split: if_splits)

lemma llm_attrs_ok: "gomap_ok (llm_attrs c b model)"
  by (auto simp: llm_attrs_def Let_def)

lemma llm_decoded_claims:
  "llm_decoded c b \<noteq> Panicked \<and> (llm_decoded c b = Claimed r \<longrightarrow> x_Action r = ''llm/completion'' \<and> gomap_ok (x_Attrs r))"
  by (auto simp: llm_decoded_def Let_def llm_attrs_ok)

lemma llm_claims:
  "llm_extract c \<noteq> Panicked \<and> (llm_extract c = Claimed r \<longrightarrow> x_Action r = ''llm/completion'' \<and> gomap_ok (x_Attrs r))"
  using llm_decoded_claims [of c _ r] by (auto simp: llm_extract_def split: option.splits)

interpretation llm: sound_extractor llmExtractor
  using llm_claims by unfold_locales (auto simp: llmExtractor_def)

lemma tool_no_panic: "tool_extract uh c \<noteq> Panicked"
  by (simp add: tool_extract_def Let_def)

interpretation tool: sound_extractor "toolExtractor uh" for uh
  by unfold_locales (auto simp: toolExtractor_def tool_no_panic dest: tool_claims)

lemma Classify_default:
  "Classify (Default uh) c =
     (case llm_extract c of Claimed r \<Rightarrow> Some r
      | _ \<Rightarrow> (case tool_extract uh c of Claimed r \<Rightarrow> Some r | _ \<Rightarrow> None))"
  using llm.no_panic [of c] tool.no_panic [of uh c]
  by (auto simp: Default_def safeExtract_def llmExtractor_def toolExtractor_def split: extracted.splits)

lemma Classify_sound:
  assumes "Classify (Default uh) c = Some r"
  shows "gomap_ok (x_Attrs r) \<and> x_Action r \<noteq> ''''"
  using assms llm.safe_sound [of c r] tool.safe_sound [of uh c r] by (auto simp: Default_def split: option.splits)

lemma Classify_tool:
  assumes "c_Tool c \<noteq> ''''"
  shows "\<exists>r. Classify (Default uh) c = Some r \<and> tool_extract uh c = Claimed r"
  using assms by (simp add: Classify_default llm_extract_def tool_extract_def Let_def)

text \<open>
  A call that names a tool is recorded as a call of that tool, whatever its arguments, its
  body, its path and the upstream's declaration: it cannot pass for a model call, and no
  declaration or argument makes it undecodable or lost.
\<close>

theorem tool_call_cannot_pose:
  assumes "c_Tool c \<noteq> ''''"
  shows "\<exists>r. Classify (Default uh) c = Some r \<and> x_Action r = ''mcp/tools_call'' \<and> x_Tool r = c_Tool c \<and>
     \<not> x_Undecodable r \<and> gomap_ok (x_Attrs r)"
  using Classify_tool [OF assms] tool_claims by blast

definition same_shape :: "completion_body \<Rightarrow> completion_body \<Rightarrow> bool" where
  "same_shape a b \<longleftrightarrow> b_Model a = b_Model b \<and> b_Stream a = b_Stream b \<and> b_MaxTokens a = b_MaxTokens b \<and>
     length (b_Messages a) = length (b_Messages b) \<and> length (b_Contents a) = length (b_Contents b) \<and>
     (b_Prompt a = None \<longleftrightarrow> b_Prompt b = None) \<and> (b_Input a = None \<longleftrightarrow> b_Input b = None)"

lemma llm_decoded_shape:
  assumes "same_shape a b"
  shows "llm_decoded (c\<lparr>c_Body := x\<rparr>) a = llm_decoded (c\<lparr>c_Body := y\<rparr>) b"
proof -
  have e: "b_Messages a = [] \<longleftrightarrow> b_Messages b = []" "b_Contents a = [] \<longleftrightarrow> b_Contents b = []"
    using assms by (auto simp: same_shape_def simp flip: length_0_conv)
  have p: "b_Prompt a = None \<longleftrightarrow> b_Prompt b = None" "b_Input a = None \<longleftrightarrow> b_Input b = None" "b_Model a = b_Model b"
    using assms by (auto simp: same_shape_def)
  have at: "llm_attrs (c\<lparr>c_Body := x\<rparr>) a m = llm_attrs (c\<lparr>c_Body := y\<rparr>) b m" for m
    using assms by (simp add: llm_attrs_def same_shape_def)
  show ?thesis
    unfolding llm_decoded_def at e p Let_def by simp
qed

lemma tool_extract_no_body: "tool_extract uh (c\<lparr>c_Body := x\<rparr>) = tool_extract uh c"
proof -
  have a: "arg_string (c\<lparr>c_Body := x\<rparr>) = arg_string c" by (rule ext) (simp add: arg_string_def)
  have h: "arg_host uh (c\<lparr>c_Body := x\<rparr>) = arg_host uh c" by (rule ext) (simp add: arg_host_def a)
  have p: "take_path (c\<lparr>c_Body := x\<rparr>) = take_path c" by (intro ext) (simp add: take_path_def a)
  have t: "take_host uh (c\<lparr>c_Body := x\<rparr>) = take_host uh c" by (intro ext) (simp add: take_host_def h)
  show ?thesis unfolding tool_extract_def p t by (simp add: declared_attrs_def)
qed

text \<open>
  C18. Only metadata of a model call is read: two bodies with the same model, streaming flag,
  token ceiling and numbers of messages give the same classification, whatever the messages say.
\<close>

theorem payload_never_recorded:
  assumes "unmarshal_body body = Some a" and "unmarshal_body body' = Some b" and "same_shape a b"
  shows "Classify (Default uh) (c\<lparr>c_Body := body\<rparr>) = Classify (Default uh) (c\<lparr>c_Body := body'\<rparr>)"
proof -
  have "unmarshal_body '''' = None" by code_simp
  with assms have ne: "body \<noteq> ''''" "body' \<noteq> ''''" by auto
  have l: "llm_extract (c\<lparr>c_Body := body\<rparr>) = llm_extract (c\<lparr>c_Body := body'\<rparr>)"
    using assms(1,2) ne llm_decoded_shape [OF assms(3)] by (simp add: llm_extract_def)
  then show ?thesis by (simp only: Classify_default tool_extract_no_body)
qed

lemma arg_string_ne: "arg_string c k = Some v \<Longrightarrow> v \<noteq> ''''"
  by (cases "map_of (c_Arguments c) k"; cases "the (map_of (c_Arguments c) k)") (auto simp: arg_string_def split: if_splits)

lemma first_some_cong: "(\<And>k. k \<in> set ks \<Longrightarrow> f k = g k) \<Longrightarrow> first_some f ks = first_some g ks"
  by (induction ks) (auto split: option.splits)

lemma first_some_in: "first_some f ks = Some v \<Longrightarrow> \<exists>k \<in> set ks. f k = Some v"
  by (induction ks) (auto split: option.splits)

text \<open>
  When the upstream's schema names path arguments and the call has one, the path of record
  is the first of those, and no other argument of the call, however it is named, changes it.
\<close>

theorem declared_path_decides:
  assumes "c_Tool c \<noteq> ''''" and "c_Signature c = Some s" and "first_some (arg_string c) (sn_PathArgs s) = Some v"
    and "\<forall>k \<in> set (sn_PathArgs s). map_of args k = map_of (c_Arguments c) k"
  shows "\<exists>r. Classify (Default uh) (c\<lparr>c_Arguments := args\<rparr>) = Some r \<and>
     map_of (x_Attrs r) ''resource_path'' = Some v \<and> x_Resource r = v"
proof -
  let ?c = "c\<lparr>c_Arguments := args\<rparr>"
  have f: "first_some (arg_string ?c) (sn_PathArgs s) = Some v"
    using assms(3,4) by (subst first_some_cong [where g = "arg_string c"]) (auto simp: arg_string_def)
  have v: "v \<noteq> ''''" using first_some_in [OF assms(3)] arg_string_ne by blast
  obtain r where r: "Classify (Default uh) ?c = Some r" "tool_extract uh ?c = Claimed r"
    using Classify_tool [of ?c] assms(1) by auto
  let ?r0 = "\<lparr>x_Action = ''mcp/tools_call'', x_Tool = c_Tool c, x_Resource = '''', x_Attrs = declared_attrs ?c, x_Undecodable = False\<rparr>"
  let ?p = "take_path ?c (sn_PathArgs s) ?r0"
  have "map_of (declared_attrs ?c) ''resource_path'' = None" using assms(2) by (auto simp: declared_attrs_def)
  then have p: "map_of (x_Attrs ?p) ''resource_path'' = Some v" "x_Resource ?p = v"
    using f by (simp_all add: take_path_def)
  let ?h = "take_host uh ?c (sn_URLArgs s) ?p"
  have h: "map_of (x_Attrs ?h) ''resource_path'' = Some v" "x_Resource ?h = v" using p v by simp_all
  then have "take_path ?c pathKeys ?h = ?h" by (simp add: take_path_def)
  moreover have "r = take_host uh ?c urlKeys (take_path ?c pathKeys ?h)"
    using r(2) assms(1,2) by (simp add: tool_extract_def Let_def)
  ultimately have "map_of (x_Attrs r) ''resource_path'' = Some v" "x_Resource r = v" using h v by simp_all
  with r(1) show ?thesis by blast
qed

text \<open>Traffic on a completion endpoint whose body does not decode is claimed, as undecodable.\<close>

lemma broken_body_claimed:
  assumes "c_Tool c = ''''" and "knownPath (c_Path c)" and "unmarshal_body (c_Body c) = None"
  shows "\<exists>r. Classify (Default uh) c = Some r \<and> x_Undecodable r \<and> x_Action r = ''llm/completion''"
  using assms by (simp add: Classify_default llm_extract_def Let_def)


section \<open>Providers\<close>

lemma drop_prefix_cases: "drop_prefix p s = s \<or> s = p @ drop_prefix p s"
  by (auto simp: drop_prefix_def has_prefix_def) (metis append_take_drop_id)

lemma has_prefix_split: "has_prefix s p \<longleftrightarrow> (\<exists>t. s = p @ t)"
  by (auto simp: has_prefix_def) (metis append_take_drop_id)

lemma has_suffix_split: "has_suffix s p \<longleftrightarrow> (\<exists>t. s = t @ p)"
  by (auto simp: has_suffix_def) (metis append_take_drop_id)

text \<open>The language of \<open>bedrockHost\<close>.\<close>

definition bedrock_service :: "string list" where
  "bedrock_service = [''bedrock'', ''bedrock-runtime'', ''bedrock-fips'', ''bedrock-runtime-fips'']"

lemma bedrockHost_iff:
  "bedrockHost h \<longleftrightarrow>
     (\<exists>a \<in> set bedrock_service. \<exists>region. region \<noteq> '''' \<and> h = a @ ''.'' @ region @ ''.amazonaws.com'' \<and>
        set region \<subseteq> set ''abcdefghijklmnopqrstuvwxyz0123456789-'')"
proof
  assume b: "bedrockHost h"
  let ?r1 = "drop_prefix ''-runtime'' (drop 7 h)"
  let ?r2 = "drop_prefix ''-fips'' ?r1"
  let ?g = "trim_suffix (tl ?r2) ''.amazonaws.com''"
  from b have h: "h = ''bedrock'' @ drop 7 h" by (auto simp: bedrockHost_def Let_def has_prefix_split)
  have "drop 7 h = ''-runtime'' @ ?r1 \<or> drop 7 h = ?r1" using drop_prefix_cases [of "''-runtime''" "drop 7 h"] by auto
  moreover have "?r1 = ''-fips'' @ ?r2 \<or> ?r1 = ?r2" using drop_prefix_cases [of "''-fips''" ?r1] by auto
  ultimately have "\<exists>a \<in> set bedrock_service. h = a @ ?r2" using h by (auto simp: bedrock_service_def)
  moreover have "?r2 = ''.'' @ tl ?r2" using b by (auto simp: bedrockHost_def Let_def has_prefix_split)
  moreover have "tl ?r2 = ?g @ ''.amazonaws.com''" using b by (auto simp: bedrockHost_def Let_def has_suffix_split)
  moreover have "?g \<noteq> ''''" "set ?g \<subseteq> set ''abcdefghijklmnopqrstuvwxyz0123456789-''"
    using b by (simp_all add: bedrockHost_def Let_def list_all_iff subset_iff del: set_simps)
  ultimately show "\<exists>a \<in> set bedrock_service. \<exists>region. region \<noteq> '''' \<and> h = a @ ''.'' @ region @ ''.amazonaws.com'' \<and>
        set region \<subseteq> set ''abcdefghijklmnopqrstuvwxyz0123456789-''" by metis
next
  assume "\<exists>a \<in> set bedrock_service. \<exists>region. region \<noteq> '''' \<and> h = a @ ''.'' @ region @ ''.amazonaws.com'' \<and>
        set region \<subseteq> set ''abcdefghijklmnopqrstuvwxyz0123456789-''"
  then obtain a region where a: "a \<in> set bedrock_service" and r: "region \<noteq> ''''" "h = a @ ''.'' @ region @ ''.amazonaws.com''"
      "set region \<subseteq> set ''abcdefghijklmnopqrstuvwxyz0123456789-''" by blast
  have "drop_prefix ''-fips'' (drop_prefix ''-runtime'' (drop 7 h)) = ''.'' @ region @ ''.amazonaws.com''" "has_prefix h ''bedrock''"
    using a unfolding r(2) by (auto simp: bedrock_service_def drop_prefix_def has_prefix_def)
  then show "bedrockHost h" using r(1,3)
    by (simp add: bedrockHost_def Let_def list_all_iff subset_iff has_prefix_split del: set_simps)
qed

text \<open>
  A vendor's name is given to that vendor's hosts only: a host is reported as one of the
  listed providers exactly when its name, less port and brackets and up to letter case, is in
  the vendor's domain; a name that merely contains a vendor's is not.
\<close>

theorem provider_names_exactly:
  "let h = to_lower (hostname host) in
     (provider host = ''anthropic'' \<longleftrightarrow> h = ''api.anthropic.com'') \<and>
     (provider host = ''openai'' \<longleftrightarrow> h = ''api.openai.com'') \<and>
     (provider host = ''azure-openai'' \<longleftrightarrow> (\<exists>x. h = x @ ''.openai.azure.com'')) \<and>
     (provider host = ''google'' \<longleftrightarrow> h = ''generativelanguage.googleapis.com'' \<or>
        (\<exists>x. h = x @ ''-aiplatform.googleapis.com'') \<or> h = ''aiplatform.googleapis.com'') \<and>
     (provider host = ''bedrock'' \<longleftrightarrow> (\<exists>a \<in> set bedrock_service. \<exists>region. region \<noteq> '''' \<and>
        h = a @ ''.'' @ region @ ''.amazonaws.com'' \<and> set region \<subseteq> set ''abcdefghijklmnopqrstuvwxyz0123456789-''))"
proof -
  define h where "h = to_lower (hostname host)"
  define t where "t = take 6 (rev h)"
  have z: "h = '''' \<Longrightarrow> t = ''''" by (simp add: t_def)
  have no: "h = ''api.anthropic.com'' \<Longrightarrow> t = ''moc.ci''" "h = ''api.openai.com'' \<Longrightarrow> t = ''moc.ia''"
    "has_suffix h ''.openai.azure.com'' \<Longrightarrow> t = ''moc.er''" "h = ''generativelanguage.googleapis.com'' \<Longrightarrow> t = ''moc.si''"
    "h = ''aiplatform.googleapis.com'' \<Longrightarrow> t = ''moc.si''" "has_suffix h ''-aiplatform.googleapis.com'' \<Longrightarrow> t = ''moc.si''"
    "bedrockHost h \<Longrightarrow> t = ''moc.sw''"
    by (auto simp: t_def has_suffix_split bedrockHost_iff)
  define A B C D1 D2 D3 E where short:
    "A \<longleftrightarrow> h = ''api.anthropic.com''" "B \<longleftrightarrow> h = ''api.openai.com''" "C \<longleftrightarrow> has_suffix h ''.openai.azure.com''"
    "D1 \<longleftrightarrow> h = ''generativelanguage.googleapis.com''" "D2 \<longleftrightarrow> h = ''aiplatform.googleapis.com''"
    "D3 \<longleftrightarrow> has_suffix h ''-aiplatform.googleapis.com''" "E \<longleftrightarrow> bedrockHost h"
  define D where "D \<longleftrightarrow> D1 \<or> D3 \<or> D2"
  note no = no [folded short]
  have "D \<Longrightarrow> t = ''moc.si''" unfolding D_def using no(4-6) by (elim disjE)
  then have ex: "A \<Longrightarrow> \<not> (h = '''' \<or> B \<or> C \<or> D \<or> E)" "B \<Longrightarrow> \<not> (h = '''' \<or> C \<or> D \<or> E)" "C \<Longrightarrow> \<not> (h = '''' \<or> D \<or> E)"
      "D \<Longrightarrow> \<not> (h = '''' \<or> E)" "E \<Longrightarrow> h \<noteq> ''''"
    using z no(1,2,3,7) by force+
  have pr: "provider host = (if h = '''' then ''unknown'' else if A then ''anthropic'' else if B then ''openai''
      else if C then ''azure-openai'' else if D then ''google'' else if E then ''bedrock''
      else if h = ''localhost'' \<or> h = ''127.0.0.1'' \<or> h = ''::1'' then ''local'' else ''unlisted'')"
    unfolding provider_def h_def [symmetric] Let_def D_def short ..
  have "(provider host = ''anthropic'' \<longleftrightarrow> A) \<and> (provider host = ''openai'' \<longleftrightarrow> B) \<and> (provider host = ''azure-openai'' \<longleftrightarrow> C) \<and>
     (provider host = ''google'' \<longleftrightarrow> D) \<and> (provider host = ''bedrock'' \<longleftrightarrow> E)"
    unfolding pr using ex by (cases A; cases B; cases C; cases D; cases E) simp_all
  then show ?thesis
    unfolding Let_def bedrockHost_iff [symmetric] has_suffix_split [symmetric] h_def [symmetric] D_def short .
qed



section \<open>Witnesses\<close>

definition sample_sig :: signature where
  "sample_sig = \<lparr>sn_Hash = ''h'', sn_PathArgs = [''dest'', ''src''], sn_URLArgs = []\<rparr>"

definition sample_url :: "string \<Rightarrow> string option" where
  "sample_url v = (if has_prefix v ''https://'' then Some (takeWhile (\<lambda>c. c \<noteq> CHR ''/'') (drop 8 v)) else None)"

definition sample_mv :: intercepted where
  "sample_mv = \<lparr>c_Tool = ''mv'', c_Arguments = [(''path'', JStr ''/tmp''), (''src'', JStr ''/etc'')], c_Host = ''h'',
     c_Path = ''/'', c_Body = '''', c_Signature = Some sample_sig\<rparr>"

theorem tool_call_cannot_pose_witness:
  "\<exists>r. Classify (Default sample_url) sample_mv = Some r \<and> x_Action r = ''mcp/tools_call'' \<and> x_Tool r = ''mv'' \<and>
     \<not> x_Undecodable r \<and> gomap_ok (x_Attrs r)"
  using tool_call_cannot_pose [of sample_mv sample_url] by (simp add: sample_mv_def)

theorem declared_path_decides_witness:
  "\<exists>r. Classify (Default sample_url) (sample_mv\<lparr>c_Arguments := [(''src'', JStr ''/etc''), (''file_path'', JStr ''/x'')]\<rparr>) = Some r \<and>
     map_of (x_Attrs r) ''resource_path'' = Some ''/etc'' \<and> x_Resource r = ''/etc''"
proof -
  have "first_some (arg_string sample_mv) [''dest'', ''src''] = Some ''/etc''" by code_simp
  then show ?thesis
    using declared_path_decides [of sample_mv sample_sig "''/etc''" "[(''src'', JStr ''/etc''), (''file_path'', JStr ''/x'')]" sample_url]
    by (simp add: sample_mv_def sample_sig_def)
qed

definition prompt_body :: "string \<Rightarrow> string" where
  "prompt_body said = json_obj [(''model'', json_key ''m''), (''messages'', json_arr [json_key said])]"

theorem payload_never_recorded_witness:
  "Classify (Default sample_url) (sample_mv\<lparr>c_Tool := '''', c_Body := prompt_body ''a''\<rparr>) =
     Classify (Default sample_url) (sample_mv\<lparr>c_Tool := '''', c_Body := prompt_body ''bc''\<rparr>)"
proof -
  let ?b = "\<lparr>b_Model = ''m'', b_Stream = False, b_MaxTokens = 0, b_Messages = [json_key ''a''], b_Contents = [],
     b_Prompt = None, b_Input = None\<rparr>"
  have a: "unmarshal_body (prompt_body ''a'') = Some ?b" by code_simp
  have b: "unmarshal_body (prompt_body ''bc'') = Some (?b\<lparr>b_Messages := [json_key ''bc'']\<rparr>)" by code_simp
  show ?thesis by (rule payload_never_recorded [OF a b]) (simp add: same_shape_def)
qed

end
