(* ===== verification/Gateway.thy ===== *)
theory Gateway
  imports Actuator Extract Block_Rpc Tis Ledger_Durable
begin

text \<open>
  The decision path of the proxy, \<open>proxy/cmd/gurdy-proxy/main.go\<close>: \<open>decideCall\<close> and what it
  calls, on the models of the components it composes: the extractors classify, the identity
  service asserts, the evaluator decides, the actuator plans, and the ledger attests.  The
  gateway's state holds the state of each.  Logging and tracing are left out.
\<close>

section \<open>The gateway\<close>

text \<open>The libraries behind the components, and how the text of a header denotes a token.\<close>

record ('l, 'k, 'p, 's, 'q, 'tok, 'pol) platform =
  gx_codec :: "('l, 'k, 'p) codec"
  gx_jwt :: "('s, 'q, 'tok) jwtlib"
  gx_cedar :: "'pol cedar"
  gx_token :: "string \<Rightarrow> 'tok"
  gx_url :: "string \<Rightarrow> string option"
  gx_float :: "string \<Rightarrow> string"
  gx_text :: "nat \<Rightarrow> string"

record 'tok auto_tok =
  at_tok :: 'tok
  at_exp :: gotime
  at_gen :: u64

text \<open>\<open>g_rand\<close> counts the uses of \<open>crypto/rand\<close>; \<open>g_files\<close> is what \<open>os.ReadFile\<close> reads.\<close>

record ('l, 'k, 's, 'tok, 'pol) gateway =
  g_act :: "decision \<Rightarrow> plan"
  g_upstream :: string
  g_sigs :: registry
  g_store :: "'pol evaluator store"
  g_tis :: "'s tis"
  g_led :: "('l, 'k) ledger"
  g_tenant :: string
  g_mode :: string
  g_txnFile :: string
  g_autoTxn :: "'tok auto_tok gomap"
  g_rand :: nat
  g_files :: "string \<Rightarrow> string option"

definition autoRenew :: int where "autoRenew = 60000000000"

definition newGateway :: "'pol evaluator store \<Rightarrow> 's tis \<Rightarrow> ('l, 'k) ledger \<Rightarrow> string \<Rightarrow> (string \<Rightarrow> string option) \<Rightarrow>
    ('l, 'k, 's, 'tok, 'pol) gateway" where
  "newGateway store identity led tenant files =
     \<lparr>g_act = monitor_plan, g_upstream = '''', g_sigs = Toolsig.New, g_store = store, g_tis = identity, g_led = led,
      g_tenant = tenant, g_mode = '''', g_txnFile = '''', g_autoTxn = [], g_rand = 0, g_files = files\<rparr>"

definition newHTTPGateway :: "string \<Rightarrow> 'pol evaluator store \<Rightarrow> 's tis \<Rightarrow> ('l, 'k) ledger \<Rightarrow> string \<Rightarrow> (string \<Rightarrow> string option) \<Rightarrow>
    ('l, 'k, 's, 'tok, 'pol) gateway" where
  "newHTTPGateway targetHost store identity led tenant files =
     (newGateway store identity led tenant files)\<lparr>g_upstream := targetHost\<rparr>"

text \<open>The environment of the process: \<open>GURDY_HOME\<close>, the home directory and \<open>filepath.Join\<close>.\<close>

record process_env =
  pe_GurdyHome :: string
  pe_HomeDir :: "string option"
  pe_join :: "string list \<Rightarrow> string"

definition resolveTxnFile :: "process_env \<Rightarrow> string \<Rightarrow> string" where
  "resolveTxnFile env path =
     (if path = ''off'' then ''''
      else if path \<noteq> '''' then path
      else case (if pe_GurdyHome env = '''' then map_option (\<lambda>h. pe_join env [h, ''.gurdy'']) (pe_HomeDir env)
                 else Some (pe_GurdyHome env)) of
        None \<Rightarrow> ''''
      | Some home \<Rightarrow> pe_join env [home, ''identity'', ''current.txn''])"

definition applyActuator :: "process_env \<Rightarrow> bool \<Rightarrow> string \<Rightarrow> ('l, 'k, 's, 'tok, 'pol) gateway \<Rightarrow> ('l, 'k, 's, 'tok, 'pol) gateway" where
  "applyActuator env enforce txnFile g =
     (let g = (if enforce then g\<lparr>g_act := enforce_plan, g_mode := ModeEnforce\<rparr> else g)
      in g\<lparr>g_txnFile := resolveTxnFile env txnFile\<rparr>)"

definition sidecarTxn :: "('l, 'k, 's, 'tok, 'pol) gateway \<Rightarrow> string" where
  "sidecarTxn g =
     (if g_txnFile g = '''' then ''''
      else case g_files g (g_txnFile g) of None \<Rightarrow> '''' | Some b \<Rightarrow> trim_space b)"

definition policyMode :: "('l, 'k, 's, 'tok, 'pol) gateway \<Rightarrow> string" where
  "policyMode g = (if g_mode g \<noteq> '''' then g_mode g else ModeMonitor)"

text \<open>The ledger chain of a workload.\<close>

definition partition_name :: "('l, 'k, 's, 'tok, 'pol) gateway \<Rightarrow> string \<Rightarrow> string" where
  "partition_name g workload = g_tenant g @ ''/'' @ workload"

definition g_now :: "('l, 'k, 's, 'tok, 'pol) gateway \<Rightarrow> gotime" where
  "g_now g = t_now (g_tis g)"

definition newCallID :: "('l, 'k, 'p, 's, 'q, 'tok, 'pol) platform \<Rightarrow> ('l, 'k, 's, 'tok, 'pol) gateway \<Rightarrow>
    string \<times> ('l, 'k, 's, 'tok, 'pol) gateway" where
  "newCallID gx g = (gx_text gx (g_rand g), g\<lparr>g_rand := Suc (g_rand g)\<rparr>)"

definition decision_text :: "decision \<Rightarrow> string" where
  "decision_text d =
     (case d of Allow \<Rightarrow> ''allow'' | Flag \<Rightarrow> ''flag'' | Block \<Rightarrow> ''block'' | Indeterminate \<Rightarrow> ''indeterminate'')"

definition effects :: "policy_result \<Rightarrow> policy_effect list" where
  "effects r = map (\<lambda>e. \<lparr>pe_PolicyID = ef_PolicyID e, pe_Decision = decision_text (ef_Decision e), pe_Mode = ef_Mode e,
     pe_EnforceAction = ef_EnforceAction e, pe_OnError = ef_OnError e\<rparr>) (pr_Effects r)"

section \<open>Identity\<close>

text \<open>The client's address without its port.\<close>

definition coarsePrincipal :: "string \<Rightarrow> string" where
  "coarsePrincipal remoteAddr = ''host:'' @ (case SplitHostPort remoteAddr of None \<Rightarrow> remoteAddr | Some (host, _) \<Rightarrow> host)"

definition assertionStatus :: "('l, 'k, 'p, 's, 'q, 'tok, 'pol) platform \<Rightarrow> string \<Rightarrow> ('l, 'k, 's, 'tok, 'pol) gateway \<Rightarrow> string" where
  "assertionStatus gx txnTok g =
     (if txnTok = '''' then AssertionAbsent
      else case VerifyTxn (gx_jwt gx) (gx_token gx txnTok) (g_tis g) of
        Inl _ \<Rightarrow> AssertionInvalid
      | Inr _ \<Rightarrow> AssertionValid)"

definition top_scope :: scope where
  "top_scope = \<lparr>compartments = [star], resource_types = [star], actions = [star], purpose = star\<rparr>"

definition fresh_auto :: "'tok auto_tok gomap \<Rightarrow> string \<Rightarrow> u64 \<Rightarrow> gotime \<Rightarrow> 'tok option" where
  "fresh_auto m coarse gen now =
     (case map_of m coarse of
        None \<Rightarrow> None
      | Some ent \<Rightarrow> if at_gen ent = gen \<and> now < at_exp ent then Some (at_tok ent) else None)"

text \<open>
  \<open>autoMint\<close>: \<open>None\<close> is the empty token.  The second look, under the write lock, finds what the
  first found when no other request comes between.
\<close>

definition autoMint :: "('l, 'k, 'p, 's, 'q, 'tok, 'pol) platform \<Rightarrow> string \<Rightarrow> ('l, 'k, 's, 'tok, 'pol) gateway \<Rightarrow>
    'tok option \<times> ('l, 'k, 's, 'tok, 'pol) gateway" where
  "autoMint gx coarse g =
     (let now = g_now g; gen = KeyGen (g_tis g) in
      case fresh_auto (g_autoTxn g) coarse gen now of
        Some tok \<Rightarrow> (Some tok, g)
      | None \<Rightarrow>
          let live = filter (\<lambda>(k, v). now < at_exp v) (g_autoTxn g)
          in case MintTxn (gx_jwt gx) (''svc:'' @ coarse) '''' top_scope (ev_Version (st_current (g_store g))) 0 (g_tis g) of
               (Inl _, t) \<Rightarrow> (None, g\<lparr>g_autoTxn := live, g_tis := t\<rparr>)
             | (Inr tok, t) \<Rightarrow>
                 (case VerifyTxn (gx_jwt gx) tok t of
                    Inl _ \<Rightarrow> (None, g\<lparr>g_autoTxn := live, g_tis := t\<rparr>)
                  | Inr claims \<Rightarrow>
                      (let ex = (case rc_ExpiresAt (tc_Registered claims) of None \<Rightarrow> 0 | Some e \<Rightarrow> date_time e)
                       in (Some tok, g\<lparr>g_autoTxn := map_put coarse \<lparr>at_tok = tok, at_exp = ex - autoRenew, at_gen = gen\<rparr> live,
                                       g_tis := t\<rparr>))))"

text \<open>
  The half of \<open>identify\<close> that derives and checks the call assertion.  Without a token
  \<open>DeriveCall\<close> fails on the empty string.
\<close>

definition derive_checked :: "('l, 'k, 'p, 's, 'q, 'tok, 'pol) platform \<Rightarrow> 'tok option \<Rightarrow> string \<Rightarrow> string \<Rightarrow>
    ('l, 'k, 's, 'tok, 'pol) gateway \<Rightarrow> call_claims option \<times> ('l, 'k, 's, 'tok, 'pol) gateway" where
  "derive_checked gx tok coarse tool g =
     (let gap = (\<lambda>g. g\<lparr>g_led := RecordIdentityGap (partition_name g coarse) (g_led g)\<rparr>);
          (r, t) = DeriveCall (gx_jwt gx) (case tok of None \<Rightarrow> gx_token gx '''' | Some x \<Rightarrow> x) tool (g_tis g);
          g = g\<lparr>g_tis := t\<rparr>
      in case r of
           Inl _ \<Rightarrow> (None, gap g)
         | Inr callTok \<Rightarrow>
             (let (r, t) = VerifyCall (gx_jwt gx) callTok (g_tis g); g = g\<lparr>g_tis := t\<rparr>
              in case r of Inl _ \<Rightarrow> (None, gap g) | Inr call \<Rightarrow> (Some call, g)))"

definition identify :: "('l, 'k, 'p, 's, 'q, 'tok, 'pol) platform \<Rightarrow> string \<Rightarrow> string \<Rightarrow> string \<Rightarrow> ('l, 'k, 's, 'tok, 'pol) gateway \<Rightarrow>
    (txn_claims option \<times> call_claims option \<times> string) \<times> ('l, 'k, 's, 'tok, 'pol) gateway" where
  "identify gx txnTok coarse tool g =
     (let (status, asserted, tok) =
            (if txnTok = '''' then (AssertionAbsent, None, None)
             else case VerifyTxn (gx_jwt gx) (gx_token gx txnTok) (g_tis g) of
               Inl _ \<Rightarrow> (AssertionInvalid, None, None)
             | Inr claims \<Rightarrow> (AssertionValid, Some claims, Some (gx_token gx txnTok)));
          (tok, g) = (case tok of None \<Rightarrow> autoMint gx coarse g | Some _ \<Rightarrow> (tok, g));
          (call, g) = derive_checked gx tok coarse tool g
      in ((asserted, call, status), g))"

section \<open>Deciding one call\<close>

definition classify :: "('l, 'k, 'p, 's, 'q, 'tok, 'pol) platform \<Rightarrow> intercepted \<Rightarrow> classification" where
  "classify gx c =
     (case Classify (Default (gx_url gx)) c of
        Some r \<Rightarrow> r
      | None \<Rightarrow> \<lparr>x_Action = ''unknown'', x_Tool = c_Tool c, x_Resource = '''', x_Attrs = [], x_Undecodable = False\<rparr>)"

definition input_of :: "string \<Rightarrow> classification \<Rightarrow> txn_claims option \<Rightarrow> string \<Rightarrow> policy_input" where
  "input_of coarse x asserted status =
     \<lparr>in_Principal = ''svc:'' @ coarse,
      in_AssertedPrincipal = (case asserted of None \<Rightarrow> '''' | Some a \<Rightarrow> rc_Subject (tc_Registered a)),
      in_AssertionStatus = status, in_Tool = x_Tool x, in_Action = x_Action x, in_Resource = x_Resource x,
      in_Context = x_Attrs x\<rparr>"

definition decision_record :: "string \<Rightarrow> string \<Rightarrow> classification \<Rightarrow> txn_claims option \<times> call_claims option \<times> string \<Rightarrow>
    string \<Rightarrow> string \<Rightarrow> string \<Rightarrow> string \<Rightarrow> policy_result \<Rightarrow> plan \<Rightarrow> ledger_record" where
  "decision_record ts callID x who coarse mode version reqHash res pl =
     (case who of (asserted, call, status) \<Rightarrow>
      zero_record\<lparr>r_TS := ts, r_CallID := callID,
        r_TxnID := (case call of None \<Rightarrow> '''' | Some c \<Rightarrow> cc_ParentTxn c),
        r_AssertionJTI := (case call of None \<Rightarrow> '''' | Some c \<Rightarrow> rc_ID (cc_Registered c)),
        r_AssertionStatus := status, r_Principal := ''svc:'' @ coarse, r_PrincipalTier := TierCoarse,
        r_AssertedPrincipal := (case asserted of None \<Rightarrow> '''' | Some a \<Rightarrow> rc_Subject (tc_Registered a)),
        r_Lineage := (case asserted of None \<Rightarrow> [] | Some a \<Rightarrow> tc_Lineage a),
        r_AssertedHumanActor := (case asserted of None \<Rightarrow> '''' | Some a \<Rightarrow> tc_Act a),
        r_AssertedScope := map_option tc_Scope asserted,
        r_Tool := x_Tool x, r_Action := x_Action x, r_ResourceAttrs := x_Attrs x,
        r_Decision := decision_text (pr_Decision res), r_PolicyMode := mode, r_ActionApplied := pl_Applied pl,
        r_PolicyEffects := effects res, r_BundleVer := version, r_FailModeApplied := pl_FailMode pl,
        r_ReqHash := reqHash\<rparr>)"

text \<open>A stop that cannot be attested is not made.\<close>

definition unattested :: plan where
  "unattested = \<lparr>pl_Forward = True, pl_Applied = ActionFailedOpen, pl_FailMode = FailOpen, pl_Durable = False\<rparr>"

definition attest :: "('l, 'k, 'p) codec \<Rightarrow> string \<Rightarrow> ledger_record \<Rightarrow> plan \<Rightarrow> ('l, 'k) ledger \<Rightarrow> plan \<times> ('l, 'k) ledger" where
  "attest cx name rec pl led =
     (if pl_Durable pl then
        (case AppendSync cx name rec led of
           (None, led) \<Rightarrow> (pl, led)
         | (Some _, led) \<Rightarrow>
             (unattested, Append name (rec\<lparr>r_ActionApplied := pl_Applied unattested, r_FailModeApplied := pl_FailMode unattested\<rparr>) led))
      else (pl, Append name rec led))"

definition decideCall :: "('l, 'k, 'p, 's, 'q, 'tok, 'pol) platform \<Rightarrow> string \<Rightarrow> string \<Rightarrow> intercepted \<Rightarrow> string \<Rightarrow>
    ('l, 'k, 's, 'tok, 'pol) gateway \<Rightarrow> (string \<times> plan) \<times> ('l, 'k, 's, 'tok, 'pol) gateway" where
  "decideCall gx txnTok coarse c body g =
     (let txnTok = (if txnTok = '''' then sidecarTxn g else txnTok);
          x = classify gx c;
          (who, g) = identify gx txnTok coarse (x_Tool x) g;
          ev = st_current (g_store g);
          res = Evaluate (gx_cedar gx) ev (input_of coarse x (fst who) (snd (snd who)));
          ts = fmt_time (gx_codec gx) (g_now g);
          pl = g_act g (pr_Decision res);
          (callID, g) = newCallID gx g;
          rec = decision_record ts callID x who coarse (policyMode g) (ev_Version ev) (HashBody (gx_codec gx) body) res pl;
          (pl, led) = attest (gx_codec gx) (partition_name g coarse) rec pl (g_led g)
      in ((callID, pl), g\<lparr>g_led := led\<rparr>))"

definition indeterminateCall :: "('l, 'k, 'p, 's, 'q, 'tok, 'pol) platform \<Rightarrow> string \<Rightarrow> string \<Rightarrow> string \<Rightarrow>
    ('l, 'k, 's, 'tok, 'pol) gateway \<Rightarrow> string \<times> ('l, 'k, 's, 'tok, 'pol) gateway" where
  "indeterminateCall gx coarse status reason g =
     (let pl = g_act g Indeterminate;
          (callID, g) = newCallID gx g;
          rec = zero_record\<lparr>r_TS := fmt_time (gx_codec gx) (g_now g), r_CallID := callID, r_AssertionStatus := status,
            r_Principal := ''svc:'' @ coarse, r_PrincipalTier := TierCoarse, r_Action := ''http/request'',
            r_Decision := decision_text Indeterminate, r_PolicyMode := policyMode g, r_ActionApplied := pl_Applied pl,
            r_FailModeApplied := pl_FailMode pl, r_ResourceAttrs := [(''reason'', reason)],
            r_BundleVer := ev_Version (st_current (g_store g))\<rparr>
      in (callID, g\<lparr>g_led := Append (partition_name g coarse) rec (g_led g)\<rparr>))"


section \<open>What deciding leaves alone\<close>

definition settings :: "('l, 'k, 's, 'tok, 'pol) gateway \<Rightarrow> (decision \<Rightarrow> plan) \<times> string \<times> registry \<times> 'pol evaluator store \<times>
    string \<times> string \<times> string \<times> (string \<Rightarrow> string option)" where
  "settings g = (g_act g, g_upstream g, g_sigs g, g_store g, g_tenant g, g_mode g, g_txnFile g, g_files g)"

text \<open>From one gateway to a later one: the same configuration, and a run of ledger operations.\<close>

definition leads_to :: "('l, 'k, 'p) codec \<Rightarrow> ('l, 'k, 's, 'tok, 'pol) gateway \<Rightarrow> ('l, 'k, 's, 'tok, 'pol) gateway \<Rightarrow> bool" where
  "leads_to cx g g' \<longleftrightarrow> settings g' = settings g \<and> (ledger_step cx)\<^sup>*\<^sup>* (g_led g) (g_led g')"

lemma leads_refl [simp, intro]: "leads_to cx g g"
  by (simp add: leads_to_def)

lemma leads_trans [trans]: "leads_to cx a b \<Longrightarrow> leads_to cx b c \<Longrightarrow> leads_to cx a c"
  by (auto simp: leads_to_def)

lemma leads_one: "settings g' = settings g \<Longrightarrow> ledger_step cx (g_led g) (g_led g') \<Longrightarrow> leads_to cx g g'"
  by (simp add: leads_to_def r_into_rtranclp)

lemma leads_none: "settings g' = settings g \<Longrightarrow> g_led g' = g_led g \<Longrightarrow> leads_to cx g g'"
  by (simp add: leads_to_def)

lemma leads_act: "leads_to cx g g' \<Longrightarrow> g_act g' = g_act g"
  by (simp add: leads_to_def settings_def)

lemma leads_settings:
  "leads_to cx g g' \<Longrightarrow> policyMode g' = policyMode g \<and> partition_name g' = partition_name g \<and> sidecarTxn g' = sidecarTxn g \<and>
     g_store g' = g_store g"
  by (auto simp: leads_to_def settings_def policyMode_def partition_name_def [abs_def] sidecarTxn_def)

lemma steps_grow:
  "(ledger_step cx)\<^sup>*\<^sup>* l l' \<Longrightarrow> records_only (l_queue l) \<Longrightarrow> grows l l' \<and> records_only (l_queue l')"
proof (induction rule: rtranclp_induct)
  case base
  then show ?case by (simp add: grows_refl)
next
  case (step y z)
  with ledger_step_grows show ?case using grows_trans by blast
qed

lemma autoMint_leads: "autoMint gx coarse g = (r, g') \<Longrightarrow> leads_to cx g g'"
  by (intro leads_none) (auto simp: autoMint_def settings_def Let_def split: option.splits sum.splits prod.splits)

lemma derive_leads:
  assumes "derive_checked gx tok coarse tool g = (r, g')"
  shows "leads_to cx g g'"
proof -
  obtain r1 t1 where 1: "DeriveCall (gx_jwt gx) (case tok of None \<Rightarrow> gx_token gx '''' | Some x \<Rightarrow> x) tool (g_tis g) = (r1, t1)"
    by fastforce
  have gap: "leads_to cx g (g\<lparr>g_tis := t, g_led := RecordIdentityGap n (g_led g)\<rparr>)" for t n
    by (rule leads_one) (auto simp: settings_def intro: ledger_step.Identity)
  have no: "leads_to cx g (g\<lparr>g_tis := t\<rparr>)" for t by (rule leads_none) (simp_all add: settings_def)
  show ?thesis
  proof (cases r1)
    case (Inl e)
    with assms 1 gap show ?thesis by (auto simp: derive_checked_def)
  next
    case (Inr ct)
    obtain r2 t2 where "VerifyCall (gx_jwt gx) ct t1 = (r2, t2)" by fastforce
    with assms 1 Inr gap no show ?thesis by (cases r2) (auto simp: derive_checked_def)
  qed
qed

lemma identify_leads:
  assumes "identify gx txnTok coarse tool g = (who, g')"
  shows "leads_to cx g g'"
proof -
  obtain tok status asserted where t: "(if txnTok = '''' then (AssertionAbsent, None, None)
             else case VerifyTxn (gx_jwt gx) (gx_token gx txnTok) (g_tis g) of
               Inl _ \<Rightarrow> (AssertionInvalid, None, None)
             | Inr claims \<Rightarrow> (AssertionValid, Some claims, Some (gx_token gx txnTok))) = (status, asserted, tok)"
    by (metis prod_cases3)
  obtain tok1 g1 where g1: "(case tok of None \<Rightarrow> autoMint gx coarse g | Some _ \<Rightarrow> (tok, g)) = (tok1, g1)" by fastforce
  then have "leads_to cx g g1" by (auto split: option.splits dest: autoMint_leads)
  moreover obtain call g2 where g2: "derive_checked gx tok1 coarse tool g1 = (call, g2)" by fastforce
  moreover have "g' = g2" using assms unfolding identify_def t Let_def prod.case g1 g2 by simp
  ultimately show ?thesis using derive_leads leads_trans by blast
qed

text \<open>When a call assertion was derived and checked, the ledger has nothing to count.\<close>

lemma derived_keeps_ledger:
  assumes "identify gx txnTok coarse tool g = ((a, Some c, s), g')"
  shows "g_led g' = g_led g"
proof -
  have m: "g_led g1 = g_led g" if "autoMint gx coarse g = (r, g1)" for r g1
    using that by (auto simp: autoMint_def Let_def split: option.splits sum.splits prod.splits)
  have d: "g_led g2 = g_led g1" if "derive_checked gx tok coarse tool g1 = (Some c, g2)" for tok g1 g2
    using that by (auto simp: derive_checked_def Let_def split: option.splits sum.splits prod.splits)
  from assms show ?thesis
    by (auto simp: identify_def Let_def split: if_splits sum.splits prod.splits) (metis m d)+
qed

text \<open>An asserted identity is that of a token that verified.\<close>

lemma identify_asserted:
  assumes "identify gx txnTok coarse tool g = ((asserted, call, status), g')"
  shows "case asserted of
     None \<Rightarrow> status \<noteq> AssertionValid
   | Some c \<Rightarrow> txnTok \<noteq> '''' \<and> VerifyTxn (gx_jwt gx) (gx_token gx txnTok) (g_tis g) = Inr c \<and> status = AssertionValid"
  using assms
  by (auto simp: identify_def Let_def AssertionAbsent_def AssertionInvalid_def AssertionValid_def split: if_splits sum.splits prod.splits)

lemma attest_step:
  assumes "attest cx name rec pl led = (pl', led')"
  shows "(ledger_step cx)\<^sup>*\<^sup>* led led'"
proof (cases "pl_Durable pl")
  case True
  obtain e l1 where s: "AppendSync cx name rec led = (e, l1)" by fastforce
  have s1: "ledger_step cx led l1" using ledger_step.AppendSync [of cx led name rec] s by simp
  show ?thesis
  proof (cases e)
    case None
    with True assms s s1 show ?thesis by (auto simp: attest_def)
  next
    case (Some x)
    with True assms s have "ledger_step cx l1 led'" by (auto simp: attest_def intro: ledger_step.Append)
    with s1 show ?thesis by simp
  qed
next
  case False
  with assms show ?thesis by (auto simp: attest_def intro: ledger_step.Append)
qed

lemma attest_stops:
  assumes "attest cx name rec pl led = (pl', led')" and "\<not> pl_Forward pl'" and "pl_Durable pl"
    and "records_only (l_queue led)"
  shows "pl' = pl \<and> (\<exists>sq prev line. marshal cx (rec\<lparr>r_Kind := KindDecision, r_Seq := sq, r_PrevHash := prev\<rparr>) = Some line \<and>
     on_disk led' line)"
proof -
  obtain e l1 where s: "AppendSync cx name rec led = (e, l1)" by fastforce
  with assms have "e = None" "pl' = pl" "led' = l1"
    by (auto simp: attest_def unattested_def split: option.splits)
  with s AppendSync_step [OF assms(4) s] show ?thesis by blast
qed

lemma attest_forwards: "pl_Forward pl \<Longrightarrow> attest cx name rec pl led = (pl', led') \<Longrightarrow> pl_Forward pl'"
  by (auto simp: attest_def unattested_def split: if_splits option.splits prod.splits)

text \<open>The parts of one decision.\<close>

lemma decideCall_parts:
  assumes "decideCall gx txnTok coarse c body g = ((callID, pl), g')"
  obtains who g1 tok res rec led where
    "tok = (if txnTok = '''' then sidecarTxn g else txnTok)"
    "identify gx tok coarse (x_Tool (classify gx c)) g = (who, g1)"
    "res = Evaluate (gx_cedar gx) (st_current (g_store g1)) (input_of coarse (classify gx c) (fst who) (snd (snd who)))"
    "callID = gx_text gx (g_rand g1)"
    "rec = decision_record (fmt_time (gx_codec gx) (g_now g1)) callID (classify gx c) who coarse (policyMode g)
       (ev_Version (st_current (g_store g1))) (HashBody (gx_codec gx) body) res (g_act g (pr_Decision res))"
    "attest (gx_codec gx) (partition_name g coarse) rec (g_act g (pr_Decision res)) (g_led g1) = (pl, led)"
    "g' = g1\<lparr>g_rand := Suc (g_rand g1), g_led := led\<rparr>"
proof -
  let ?tok = "if txnTok = '''' then sidecarTxn g else txnTok"
  obtain who g1 where w: "identify gx ?tok coarse (x_Tool (classify gx c)) g = (who, g1)" by fastforce
  have l: "leads_to (gx_codec gx) g g1" by (rule identify_leads [OF w])
  note same = leads_act [OF l] leads_settings [OF l]
  let ?res = "Evaluate (gx_cedar gx) (st_current (g_store g1)) (input_of coarse (classify gx c) (fst who) (snd (snd who)))"
  let ?rec = "decision_record (fmt_time (gx_codec gx) (g_now g1)) (gx_text gx (g_rand g1)) (classify gx c) who coarse (policyMode g)
       (ev_Version (st_current (g_store g1))) (HashBody (gx_codec gx) body) ?res (g_act g (pr_Decision ?res))"
  obtain pl1 led where a: "attest (gx_codec gx) (partition_name g coarse) ?rec (g_act g (pr_Decision ?res)) (g_led g1) = (pl1, led)"
    by fastforce
  have r: "policyMode (g1\<lparr>g_rand := n\<rparr>) = policyMode g" "partition_name (g1\<lparr>g_rand := n\<rparr>) coarse = partition_name g coarse" for n
    using l by (auto simp: policyMode_def partition_name_def leads_to_def settings_def)
  have "decideCall gx txnTok coarse c body g = ((gx_text gx (g_rand g1), pl1), g1\<lparr>g_rand := Suc (g_rand g1), g_led := led\<rparr>)"
    unfolding decideCall_def Let_def w prod.case newCallID_def r using a same by simp
  with assms have "callID = gx_text gx (g_rand g1)" "pl = pl1" "g' = g1\<lparr>g_rand := Suc (g_rand g1), g_led := led\<rparr>" by auto
  with w a show thesis by (intro that [OF refl w refl _ refl]) simp_all
qed

lemma decideCall_leads:
  assumes "decideCall gx txnTok coarse c body g = ((callID, pl), g')"
  shows "leads_to (gx_codec gx) g g'"
  using assms
proof (rule decideCall_parts)
  fix who g1 tok res rec led
  assume w: "identify gx tok coarse (x_Tool (classify gx c)) g = (who, g1)"
    and a: "attest (gx_codec gx) (partition_name g coarse) rec (g_act g (pr_Decision res)) (g_led g1) = (pl, led)"
    and g': "g' = g1\<lparr>g_rand := Suc (g_rand g1), g_led := led\<rparr>"
  have "leads_to (gx_codec gx) g g1" by (rule identify_leads [OF w])
  also have "leads_to (gx_codec gx) g1 g'" using attest_step [OF a] g' by (simp add: leads_to_def settings_def)
  finally show ?thesis .
qed

text \<open>A record that says a call of this tool was blocked, for this principal and body.\<close>

definition blocked_record :: "('l, 'k, 'p) codec \<Rightarrow> string \<Rightarrow> string \<Rightarrow> string \<Rightarrow> ledger_record \<Rightarrow> bool" where
  "blocked_record cx coarse tool body rec \<longleftrightarrow>
     r_Kind rec = KindDecision \<and> r_Decision rec = ''block'' \<and> r_ActionApplied rec = ActionBlocked \<and>
     r_Principal rec = ''svc:'' @ coarse \<and> r_Tool rec = tool \<and> r_ReqHash rec = HashBody cx body"

lemma decideCall_stops:
  assumes "actuator (g_act g)" and "records_only (l_queue (g_led g))"
    and "decideCall gx txnTok coarse c body g = ((callID, pl), g')" and "\<not> pl_Forward pl"
  shows "\<exists>rec line. blocked_record (gx_codec gx) coarse (x_Tool (classify gx c)) body rec \<and> r_CallID rec = callID \<and>
     marshal (gx_codec gx) rec = Some line \<and> on_disk (g_led g') line"
  using assms(3)
proof (rule decideCall_parts)
  fix who g1 tok res rec led
  assume w: "identify gx tok coarse (x_Tool (classify gx c)) g = (who, g1)"
    and rec: "rec = decision_record (fmt_time (gx_codec gx) (g_now g1)) callID (classify gx c) who coarse (policyMode g)
       (ev_Version (st_current (g_store g1))) (HashBody (gx_codec gx) body) res (g_act g (pr_Decision res))"
    and a: "attest (gx_codec gx) (partition_name g coarse) rec (g_act g (pr_Decision res)) (g_led g1) = (pl, led)"
    and g': "g' = g1\<lparr>g_rand := Suc (g_rand g1), g_led := led\<rparr>"
  let ?pl = "g_act g (pr_Decision res)"
  have n: "\<not> pl_Forward ?pl" using attest_forwards [OF _ a] assms(4) by blast
  note law = actuator.not_forwarded_record [OF assms(1) n] actuator.only_block_stops [OF assms(1) n]
  have q: "records_only (l_queue (g_led g1))"
    using identify_leads [OF w, of "gx_codec gx"] assms(2) steps_grow by (auto simp: leads_to_def)
  from attest_stops [OF a assms(4) _ q] law obtain sq prev line where
    "marshal (gx_codec gx) (rec\<lparr>r_Kind := KindDecision, r_Seq := sq, r_PrevHash := prev\<rparr>) = Some line" "on_disk led line"
    by blast
  moreover have "blocked_record (gx_codec gx) coarse (x_Tool (classify gx c)) body (rec\<lparr>r_Kind := KindDecision, r_Seq := sq, r_PrevHash := prev\<rparr>)"
    "r_CallID (rec\<lparr>r_Kind := KindDecision, r_Seq := sq, r_PrevHash := prev\<rparr>) = callID"
    using law by (auto simp: blocked_record_def rec decision_record_def decision_text_def split: prod.splits)
  ultimately show ?thesis using g' by auto
qed

lemma decideCall_monitor:
  assumes "g_act g = monitor_plan" and "decideCall gx txnTok coarse c body g = ((callID, pl), g')"
  shows "pl_Forward pl"
  using assms(2)
proof (rule decideCall_parts)
  fix who g1 tok res rec led
  assume a: "attest (gx_codec gx) (partition_name g coarse) rec (g_act g (pr_Decision res)) (g_led g1) = (pl, led)"
  have "pl_Forward (g_act g (pr_Decision res))" using assms(1) by (simp add: monitor_plan_def)
  then show ?thesis by (rule attest_forwards) (rule a)
qed

lemma indeterminateCall_leads: "indeterminateCall gx coarse status reason g = (i, g') \<Longrightarrow> leads_to cx g g'"
  by (rule leads_one) (auto simp: indeterminateCall_def newCallID_def settings_def Let_def intro: ledger_step.Append)

lemma classify_tool: "c_Tool c \<noteq> '''' \<Longrightarrow> x_Tool (classify gx c) = c_Tool c"
  using Classify_tool [of c "gx_url gx"] tool_claims by (auto simp: classify_def)

end
