(* ===== verification/Gateway_Http.thy ===== *)
theory Gateway_Http
  imports Gateway Ledger_Sample "HOL-Library.Sublist"
begin

text \<open>
  The HTTP transport, \<open>proxy/cmd/gurdy-proxy/main.go\<close>: \<open>ServeHTTP\<close>, the writer that hashes the
  response on its way, and the records of responses.  The reverse proxy and the upstream are
  the environment: what they send back is a list of writer events that may depend on the
  request they were given.
\<close>

section \<open>Requests\<close>

text \<open>\<open>None\<close> is the nil body; \<open>q_BodyFails\<close> says that reading it fails.\<close>

record request =
  q_Method :: string
  q_Host :: string
  q_Path :: string
  q_RemoteAddr :: string
  q_Txn :: string
  q_Body :: "string option"
  q_BodyFails :: bool

definition destination :: "('l, 'k, 's, 'tok, 'pol) gateway \<Rightarrow> request \<Rightarrow> string" where
  "destination g q = (if g_upstream g \<noteq> '''' then g_upstream g else q_Host q)"

definition maxInspect :: int where "maxInspect = 4 * 1048576"
definition maxToolsListCapture :: int where "maxToolsListCapture = 1048576"

definition replaceRequestBody :: "request \<Rightarrow> string \<Rightarrow> request" where
  "replaceRequestBody q b = q\<lparr>q_Body := Some b\<rparr>"

definition decide :: "('l, 'k, 'p, 's, 'q, 'tok, 'pol) platform \<Rightarrow> request \<Rightarrow> intercepted \<Rightarrow> string \<Rightarrow>
    ('l, 'k, 's, 'tok, 'pol) gateway \<Rightarrow> (string \<times> plan) \<times> ('l, 'k, 's, 'tok, 'pol) gateway" where
  "decide gx q c body g =
     (let tok = (if q_Txn q = '''' then sidecarTxn g else q_Txn q)
      in decideCall gx tok (coarsePrincipal (q_RemoteAddr q)) c body g)"

definition indeterminate :: "('l, 'k, 'p, 's, 'q, 'tok, 'pol) platform \<Rightarrow> request \<Rightarrow> string \<Rightarrow>
    ('l, 'k, 's, 'tok, 'pol) gateway \<Rightarrow> string \<times> ('l, 'k, 's, 'tok, 'pol) gateway" where
  "indeterminate gx q reason g =
     indeterminateCall gx (coarsePrincipal (q_RemoteAddr q)) (assertionStatus gx (q_Txn q) g) reason g"

section \<open>Responses\<close>

definition noteBlockedResponse :: "('l, 'k, 'p, 's, 'q, 'tok, 'pol) platform \<Rightarrow> string \<Rightarrow> string \<Rightarrow> string \<Rightarrow>
    ('l, 'k, 's, 'tok, 'pol) gateway \<Rightarrow> ('l, 'k, 's, 'tok, 'pol) gateway" where
  "noteBlockedResponse gx coarse callID payload g =
     g\<lparr>g_led := AppendResponse (partition_name g coarse)
        (zero_record\<lparr>r_TS := fmt_time (gx_codec gx) (g_now g), r_CallID := callID,
           r_RespHash := HashBody (gx_codec gx) payload, r_Bytes := Some (int (length payload)), r_Status := 200\<rparr>) (g_led g)\<rparr>"

definition replyBlockedJSONRPC :: "tool_call list \<Rightarrow> string" where
  "replyBlockedJSONRPC tcs =
     (if length tcs = 1 then jsonRPCError (tc_ID (hd tcs)) else marshal_raws (map (\<lambda>tc. jsonRPCError (tc_ID tc)) tcs))"

text \<open>\<open>hashingWriter\<close>: \<open>hw_hashed\<close> is what the hash has been fed.\<close>

record hashing_writer =
  hw_hashed :: string
  hw_n :: int
  hw_status :: int
  hw_hijacked :: bool
  hw_capture :: "string option"
  hw_captureCap :: int

datatype writer_event = WHeader int | WWrite string nat | WHijack bool

text \<open>
  \<open>WWrite b n\<close>: the client's writer took \<open>n\<close> bytes of \<open>b\<close>.  \<open>WHijack\<close>: whether the connection
  was handed over.
\<close>

definition hw_write :: "string \<Rightarrow> nat \<Rightarrow> hashing_writer \<Rightarrow> hashing_writer" where
  "hw_write b n w =
     w\<lparr>hw_hashed := hw_hashed w @ take n b,
       hw_capture :=
         (case hw_capture w of
            None \<Rightarrow> None
          | Some c \<Rightarrow>
              if int (length c) < hw_captureCap w
              then Some (c @ take (nat (min (int n) (hw_captureCap w - int (length c)))) b) else Some c),
       hw_n := hw_n w + int n\<rparr>"

fun hw_step :: "writer_event \<Rightarrow> hashing_writer \<Rightarrow> hashing_writer" where
  "hw_step (WHeader code) w = w\<lparr>hw_status := code\<rparr>"
| "hw_step (WWrite b n) w = hw_write b n w"
| "hw_step (WHijack ok) w = (if ok then w\<lparr>hw_hijacked := True\<rparr> else w)"

definition new_writer :: "bool \<Rightarrow> hashing_writer" where
  "new_writer listing =
     \<lparr>hw_hashed = '''', hw_n = 0, hw_status = 200, hw_hijacked = False,
      hw_capture = (if listing then Some '''' else None), hw_captureCap = (if listing then maxToolsListCapture else 0)\<rparr>"

definition response_record :: "('l, 'k, 'p, 's, 'q, 'tok, 'pol) platform \<Rightarrow> hashing_writer \<Rightarrow> gotime \<Rightarrow> ledger_record" where
  "response_record gx w now =
     (let rec = zero_record\<lparr>r_TS := fmt_time (gx_codec gx) now\<rparr>
      in if hw_hijacked w then rec\<lparr>r_ResourceAttrs := [(''reason'', ''protocol switch '' @ bytes [226, 128, 148] @ '' response not captured'')]\<rparr>
         else rec\<lparr>r_RespHash := HashBody (gx_codec gx) (hw_hashed w), r_Status := hw_status w, r_Bytes := Some (hw_n w)\<rparr>)"

definition recordResponse :: "('l, 'k, 'p, 's, 'q, 'tok, 'pol) platform \<Rightarrow> string \<Rightarrow> string list \<Rightarrow> hashing_writer \<Rightarrow>
    ('l, 'k, 's, 'tok, 'pol) gateway \<Rightarrow> ('l, 'k, 's, 'tok, 'pol) gateway" where
  "recordResponse gx coarse calls w g =
     g\<lparr>g_led := fold (\<lambda>i led. AppendResponse (partition_name g coarse) (response_record gx w (g_now g)\<lparr>r_CallID := i\<rparr>) led)
        calls (g_led g)\<rparr>"

section \<open>ServeHTTP\<close>

text \<open>What becomes of a request: a reply of the proxy's own, or a request to the upstream.\<close>

datatype disposition = Replied int string | PassedOn request

text \<open>The calls of a body, each decided; the call ids awaiting a response and the ids blocked.\<close>

definition call_to_classify :: "('l, 'k, 's, 'tok, 'pol) gateway \<Rightarrow> request \<Rightarrow> tool_call \<Rightarrow> string \<Rightarrow> intercepted" where
  "call_to_classify g q tc body =
     \<lparr>c_Tool = tc_Name tc, c_Arguments = tc_Arguments tc, c_Host = destination g q, c_Path = q_Path q, c_Body = body,
      c_Signature = Lookup (destination g q) (tc_Name tc) (g_sigs g)\<rparr>"

fun decide_calls :: "('l, 'k, 'p, 's, 'q, 'tok, 'pol) platform \<Rightarrow> request \<Rightarrow> string \<Rightarrow> tool_call list \<Rightarrow>
    ('l, 'k, 's, 'tok, 'pol) gateway \<Rightarrow> string list \<times> string list \<times> ('l, 'k, 's, 'tok, 'pol) gateway" where
  "decide_calls gx q body [] g = ([], [], g)"
| "decide_calls gx q body (tc # tcs) g =
     (if tc_Name tc = '''' then
        (let (callID, g) = indeterminate gx q ''undecodable tools/call params'' g;
             (calls, blocked, g) = decide_calls gx q body tcs g
         in (callID # calls, blocked, g))
      else
        (let ((callID, pl), g) = decide gx q (call_to_classify g q tc body) body g
         in if \<not> pl_Forward pl then
              (let g = noteBlockedResponse gx (coarsePrincipal (q_RemoteAddr q)) callID (jsonRPCError (tc_ID tc)) g;
                   (calls, blocked, g) = decide_calls gx q body tcs g
               in (calls, tc_ID tc # blocked, g))
            else
              (let (calls, blocked, g) = decide_calls gx q body tcs g
               in (callID # calls, blocked, g))))"

text \<open>A body without tool calls: the registry says whether it is governed.\<close>

definition admit_other :: "('l, 'k, 'p, 's, 'q, 'tok, 'pol) platform \<Rightarrow> request \<Rightarrow> string \<Rightarrow>
    ('l, 'k, 's, 'tok, 'pol) gateway \<Rightarrow> (disposition \<times> string list) \<times> ('l, 'k, 's, 'tok, 'pol) gateway" where
  "admit_other gx q body g =
     (let c = \<lparr>c_Tool = '''', c_Arguments = [], c_Host = destination g q, c_Path = q_Path q, c_Body = body, c_Signature = None\<rparr> in
      case Classify (Default (gx_url gx)) c of
        None \<Rightarrow> ((PassedOn q, []), g)
      | Some r \<Rightarrow>
          if x_Undecodable r then
            (let (callID, g) = indeterminate gx q (''undecodable '' @ x_Action r @ '' request'') g in ((PassedOn q, [callID]), g))
          else
            (let ((callID, pl), g) = decide gx q c body g
             in if \<not> pl_Forward pl then
                  (let payload = json_obj [(''error'', json_key ''blocked by policy'')]
                   in ((Replied 403 payload, []), noteBlockedResponse gx (coarsePrincipal (q_RemoteAddr q)) callID payload g))
                else ((PassedOn q, [callID]), g)))"

definition trim_right_newlines :: "string \<Rightarrow> string" where
  "trim_right_newlines s = rev (dropWhile (\<lambda>c. c = CHR 0x0A) (rev s))"

text \<open>A body that is inspected.\<close>

definition admit_body :: "('l, 'k, 'p, 's, 'q, 'tok, 'pol) platform \<Rightarrow> request \<Rightarrow> string \<Rightarrow>
    ('l, 'k, 's, 'tok, 'pol) gateway \<Rightarrow> (disposition \<times> string list) \<times> ('l, 'k, 's, 'tok, 'pol) gateway" where
  "admit_body gx q body g =
     (let tcs = ParseToolsCalls body; (calls, blocked, g) = decide_calls gx q body tcs g
      in if tcs = [] then admit_other gx q body g
         else if blocked \<noteq> [] \<and> calls = [] \<and> \<not> IsToolsList body then ((Replied 200 (replyBlockedJSONRPC tcs), []), g)
         else if blocked \<noteq> [] then
           (case filterBlockedCalls body (blockedSet blocked) of
              None \<Rightarrow> ((PassedOn q, calls), g)
            | Some rewritten \<Rightarrow> ((PassedOn (replaceRequestBody q (trim_right_newlines rewritten)), calls), g))
         else ((PassedOn q, calls), g))"

text \<open>
  The first half of \<open>ServeHTTP\<close>: up to the request that goes to the upstream, without the
  transaction header; also whether it asks for the list of tools.
\<close>

definition without_txn :: "disposition \<Rightarrow> disposition" where
  "without_txn d = (case d of Replied s b \<Rightarrow> d | PassedOn q \<Rightarrow> PassedOn (q\<lparr>q_Txn := ''''\<rparr>))"

definition admit :: "('l, 'k, 'p, 's, 'q, 'tok, 'pol) platform \<Rightarrow> request \<Rightarrow>
    ('l, 'k, 's, 'tok, 'pol) gateway \<Rightarrow> (disposition \<times> string list \<times> bool) \<times> ('l, 'k, 's, 'tok, 'pol) gateway" where
  "admit gx q g =
     (case q_Body q of
        None \<Rightarrow> ((without_txn (PassedOn q), [], False), g)
      | Some body \<Rightarrow>
          if q_Method q \<noteq> ''POST'' then ((without_txn (PassedOn q), [], False), g)
          else if q_BodyFails q then ((Replied 502 (''read body'' @ [CHR 0x0A]), [], False), g)
          else if int (length body) > maxInspect then
            (let (callID, g) = indeterminate gx q ''body exceeds inspection limit'' g
             in ((without_txn (PassedOn q), [callID], False), g))
          else
            (let ((d, calls), g) = admit_body gx q body g in ((without_txn d, calls, IsToolsList body), g)))"

definition ServeHTTP :: "('l, 'k, 'p, 's, 'q, 'tok, 'pol) platform \<Rightarrow> (request \<Rightarrow> writer_event list) \<Rightarrow> request \<Rightarrow>
    ('l, 'k, 's, 'tok, 'pol) gateway \<Rightarrow> disposition \<times> ('l, 'k, 's, 'tok, 'pol) gateway" where
  "ServeHTTP gx upstream q g =
     (let ((d, calls, listing), g) = admit gx q g in
      case d of
        Replied s b \<Rightarrow> (d, g)
      | PassedOn q' \<Rightarrow>
          if calls = [] \<and> \<not> listing then (d, g)
          else
            (let w = fold hw_step (upstream q') (new_writer listing);
                 g = (case hw_capture w of
                        None \<Rightarrow> g
                      | Some c \<Rightarrow>
                          (let decls = ParseToolDeclarations c
                           in if decls = [] then g
                              else g\<lparr>g_sigs := snd (Toolsig.Observe (signature_of (HashBody (gx_codec gx)) (gx_float gx))
                                       (destination g q) decls (g_sigs g))\<rparr>))
             in (d, recordResponse gx (coarsePrincipal (q_RemoteAddr q)) calls w g)))"


section \<open>Monitor mode passes everything through\<close>

lemma indeterminate_leads: "indeterminate gx q reason g = (i, g') \<Longrightarrow> leads_to cx g g'"
  unfolding indeterminate_def by (rule indeterminateCall_leads)

lemma decide_leads: "decide gx q c body g = ((i, pl), g') \<Longrightarrow> leads_to (gx_codec gx) g g'"
  unfolding decide_def Let_def by (rule decideCall_leads)

lemma note_leads: "leads_to cx g (noteBlockedResponse gx coarse i payload g)"
  by (rule leads_one) (auto simp: noteBlockedResponse_def settings_def intro: ledger_step.AppendResponse)

text \<open>Each named call is decided, in order: the gateway before and after it.\<close>

lemma decide_calls_cases:
  assumes "decide_calls gx q body (tc # tcs) g = (calls, blocked, g')"
  obtains (undecodable) i g1 calls' where "tc_Name tc = ''''" "indeterminate gx q ''undecodable tools/call params'' g = (i, g1)"
      "decide_calls gx q body tcs g1 = (calls', blocked, g')" "calls = i # calls'"
  | (stopped) i pl g1 blocked' where "tc_Name tc \<noteq> ''''" "decide gx q (call_to_classify g q tc body) body g = ((i, pl), g1)"
      "\<not> pl_Forward pl" "blocked = tc_ID tc # blocked'"
      "decide_calls gx q body tcs (noteBlockedResponse gx (coarsePrincipal (q_RemoteAddr q)) i (jsonRPCError (tc_ID tc)) g1) =
         (calls, blocked', g')"
  | (forwarded) i pl g1 calls' where "tc_Name tc \<noteq> ''''" "decide gx q (call_to_classify g q tc body) body g = ((i, pl), g1)"
      "pl_Forward pl" "decide_calls gx q body tcs g1 = (calls', blocked, g')" "calls = i # calls'"
proof (cases "tc_Name tc = ''''")
  case True
  obtain i g1 where "indeterminate gx q ''undecodable tools/call params'' g = (i, g1)" by fastforce
  moreover obtain cs bs g2 where "decide_calls gx q body tcs g1 = (cs, bs, g2)" by (cases "decide_calls gx q body tcs g1") auto
  ultimately show thesis using True assms by (intro undecodable) auto
next
  case False
  obtain i pl g1 where d: "decide gx q (call_to_classify g q tc body) body g = ((i, pl), g1)"
    by (cases "decide gx q (call_to_classify g q tc body) body g") auto
  show thesis
  proof (cases "pl_Forward pl")
    case True
    obtain cs bs g2 where "decide_calls gx q body tcs g1 = (cs, bs, g2)" by (cases "decide_calls gx q body tcs g1") auto
    with True False d assms show thesis by (intro forwarded) auto
  next
    case n: False
    obtain cs bs g2 where "decide_calls gx q body tcs (noteBlockedResponse gx (coarsePrincipal (q_RemoteAddr q)) i (jsonRPCError (tc_ID tc)) g1) =
        (cs, bs, g2)"
      by (cases "decide_calls gx q body tcs (noteBlockedResponse gx (coarsePrincipal (q_RemoteAddr q)) i (jsonRPCError (tc_ID tc)) g1)") auto
    with n False d assms show thesis by (intro stopped) auto
  qed
qed

lemma decide_calls_leads:
  "decide_calls gx q body tcs g = (calls, blocked, g') \<Longrightarrow> leads_to (gx_codec gx) g g'"
proof (induction tcs arbitrary: g calls blocked)
  case (Cons tc tcs)
  from Cons.prems show ?case
  proof (cases rule: decide_calls_cases)
    case undecodable
    with Cons.IH indeterminate_leads leads_trans show ?thesis by blast
  next
    case (stopped i pl g1 blocked')
    show ?thesis by (rule leads_trans [OF leads_trans [OF decide_leads [OF stopped(2)] note_leads] Cons.IH [OF stopped(5)]])
  next
    case forwarded
    with Cons.IH decide_leads leads_trans show ?thesis by blast
  qed
qed simp

lemma decide_monitor: "g_act g = monitor_plan \<Longrightarrow> decide gx q c body g = ((i, pl), g') \<Longrightarrow> pl_Forward pl"
  unfolding decide_def Let_def by (rule decideCall_monitor)

lemma decide_calls_monitor:
  "g_act g = monitor_plan \<Longrightarrow> decide_calls gx q body tcs g = (calls, blocked, g') \<Longrightarrow> blocked = []"
proof (induction tcs arbitrary: g calls blocked)
  case (Cons tc tcs)
  from Cons.prems(2) show ?case
  proof (cases rule: decide_calls_cases)
    case (undecodable i g1 calls')
    with Cons.IH [OF _ undecodable(3)] leads_act [OF indeterminate_leads [OF undecodable(2)]] Cons.prems(1) show ?thesis by simp
  next
    case (stopped i pl g1 blocked')
    with decide_monitor [OF Cons.prems(1) stopped(2)] show ?thesis by simp
  next
    case (forwarded i pl g1 calls')
    with Cons.IH [OF _ forwarded(4)] leads_act [OF decide_leads [OF forwarded(2)]] Cons.prems(1) show ?thesis by simp
  qed
qed simp

lemma admit_body_monitor:
  assumes "g_act g = monitor_plan" and "admit_body gx q body g = ((d, calls), g')"
  shows "d = PassedOn q"
proof -
  obtain cs bs g1 where c: "decide_calls gx q body (ParseToolsCalls body) g = (cs, bs, g1)"
    by (cases "decide_calls gx q body (ParseToolsCalls body) g") auto
  have bs: "bs = []" by (rule decide_calls_monitor [OF assms(1) c])
  have act: "g_act g1 = monitor_plan" using leads_act [OF decide_calls_leads [OF c]] assms(1) by simp
  show ?thesis
  proof (cases "ParseToolsCalls body = []")
    case True
    then have g1: "g1 = g" using c by simp
    have "admit_other gx q body g = ((d, calls), g')" using assms(2) c True g1 by (simp add: admit_body_def)
    then show ?thesis
      by (auto simp: admit_other_def Let_def dest: decide_monitor [OF assms(1)] split: option.splits if_splits prod.splits)
  next
    case False
    with assms(2) c bs show ?thesis by (simp add: admit_body_def)
  qed
qed

text \<open>
  C4. Monitor mode never breaks traffic.  With the monitor actuator, every request whose body
  can be read goes to the upstream with its method, path and body byte for byte what the client
  sent, whatever the policies conclude and whatever the ledger does; only the transaction
  credential is taken out.
\<close>

theorem monitor_passes_through:
  assumes "g_act g = monitor_plan" and "\<not> q_BodyFails q"
  shows "fst (ServeHTTP gx upstream q g) = PassedOn (q\<lparr>q_Txn := ''''\<rparr>)"
proof -
  obtain d calls listing g' where a: "admit gx q g = ((d, calls, listing), g')" by (cases "admit gx q g") auto
  have "d = PassedOn (q\<lparr>q_Txn := ''''\<rparr>)"
  proof (cases "\<exists>body. q_Body q = Some body \<and> q_Method q = ''POST'' \<and> \<not> int (length body) > maxInspect")
    case True
    then obtain body where b: "q_Body q = Some body" "q_Method q = ''POST''" "\<not> int (length body) > maxInspect" by blast
    obtain d1 cs g1 where m: "admit_body gx q body g = ((d1, cs), g1)" by (cases "admit_body gx q body g") auto
    with admit_body_monitor [OF assms(1) m] a b assms(2) show ?thesis by (simp add: admit_def without_txn_def)
  next
    case False
    with a assms(2) show ?thesis
      by (auto simp: admit_def without_txn_def Let_def split: option.splits if_splits prod.splits)
  qed
  then show ?thesis using a by (simp add: ServeHTTP_def Let_def)
qed


section \<open>Enforcement is on the record\<close>

text \<open>The calls that were stopped, among those of the body: each has its record in an export.\<close>

definition on_record :: "('l, 'k, 'p) codec \<Rightarrow> ('l, 'k) ledger \<Rightarrow> string \<Rightarrow> string \<Rightarrow> tool_call \<Rightarrow> bool" where
  "on_record cx led coarse body tc \<longleftrightarrow>
     (\<exists>rec line. blocked_record cx coarse (tc_Name tc) body rec \<and> marshal cx rec = Some line \<and> on_disk led line)"

lemma on_record_later:
  "(ledger_step cx)\<^sup>*\<^sup>* led led' \<Longrightarrow> records_only (l_queue led) \<Longrightarrow> on_record cx led coarse body tc \<Longrightarrow> on_record cx led' coarse body tc"
  using steps_grow [of cx led led'] grows_on_disk [of led led'] unfolding on_record_def by blast

lemma decide_stops:
  assumes "actuator (g_act g)" and "records_only (l_queue (g_led g))" and "tc_Name tc \<noteq> ''''"
    and "decide gx q (call_to_classify g q tc body) body g = ((i, pl), g')" and "\<not> pl_Forward pl"
  shows "on_record (gx_codec gx) (g_led g') (coarsePrincipal (q_RemoteAddr q)) body tc"
proof -
  have "x_Tool (classify gx (call_to_classify g q tc body)) = tc_Name tc"
    using classify_tool [of "call_to_classify g q tc body"] assms(3) by (simp add: call_to_classify_def)
  with decideCall_stops [OF assms(1,2) assms(4) [unfolded decide_def Let_def] assms(5)] show ?thesis
    by (auto simp: on_record_def)
qed

text \<open>
  C2. Record before effect, at the transport.  With an actuator that keeps its contract, the
  calls of a body split into those passed on and those stopped, in order, and for every call
  that is stopped there is, before the client hears of it, a line in an export that says a call
  of this tool with this body, from this client, was blocked.
\<close>

theorem stopped_calls_on_record:
  assumes "actuator (g_act g)" and "records_only (l_queue (g_led g))"
    and "decide_calls gx q body tcs g = (calls, blocked, g')"
  shows "length calls + length blocked = length tcs \<and>
     (\<exists>stopped. subseq stopped tcs \<and> map tc_ID stopped = blocked \<and>
        (\<forall>tc \<in> set stopped. on_record (gx_codec gx) (g_led g') (coarsePrincipal (q_RemoteAddr q)) body tc))"
  using assms
proof (induction tcs arbitrary: g calls blocked)
  case (Cons tc tcs)
  let ?on = "\<lambda>led. on_record (gx_codec gx) led (coarsePrincipal (q_RemoteAddr q)) body"
  have keep: "actuator (g_act g1) \<and> records_only (l_queue (g_led g1))" if "leads_to (gx_codec gx) g g1" for g1
    using that Cons.prems(1,2) steps_grow leads_act by (fastforce simp: leads_to_def)
  from Cons.prems(3) show ?case
  proof (cases rule: decide_calls_cases)
    case (undecodable i g1 calls')
    with Cons.IH [of g1 calls' blocked] keep [OF indeterminate_leads [OF undecodable(2)]] show ?thesis
      by (auto intro: list_emb_Cons)
  next
    case (stopped i pl g1 blocked')
    let ?g2 = "noteBlockedResponse gx (coarsePrincipal (q_RemoteAddr q)) i (jsonRPCError (tc_ID tc)) g1"
    have l: "leads_to (gx_codec gx) g ?g2" using decide_leads [OF stopped(2)] note_leads leads_trans by blast
    from Cons.IH [OF _ _ stopped(5)] keep [OF l] obtain more where
      m: "length calls + length blocked' = length tcs" "subseq more tcs" "map tc_ID more = blocked'"
        "\<forall>tc \<in> set more. ?on (g_led g') tc" by auto
    have "?on (g_led g1) tc" by (rule decide_stops [OF Cons.prems(1,2) stopped(1,2,3)])
    moreover have "(ledger_step (gx_codec gx))\<^sup>*\<^sup>* (g_led g1) (g_led g')"
      using leads_trans [OF note_leads decide_calls_leads [OF stopped(5)]] by (simp add: leads_to_def)
    ultimately have "?on (g_led g') tc" using on_record_later keep [OF decide_leads [OF stopped(2)]] by blast
    with m stopped(4) show ?thesis by (intro conjI exI [of _ "tc # more"]) auto
  next
    case (forwarded i pl g1 calls')
    with Cons.IH [of g1 calls' blocked] keep [OF decide_leads [OF forwarded(2)]] show ?thesis
      by (auto intro: list_emb_Cons)
  qed
qed simp

text \<open>
  C5. Enforcement can be bypassed by reusing an id.  When filtering leaves nothing, because every
  element of a batch carries the id of a blocked call, while some call of it was allowed, the
  body goes to the upstream as it came, the blocked calls included, although the ledger holds
  that they were blocked.
\<close>

theorem id_reuse_bypasses_blocking:
  assumes "q_Body q = Some body" and "q_Method q = ''POST''" and "\<not> q_BodyFails q" and "int (length body) \<le> maxInspect"
    and "decide_calls gx q body (ParseToolsCalls body) g = (calls, blocked, g')" and "calls \<noteq> []"
    and "filterBlockedCalls body (blockedSet blocked) = None"
  shows "fst (ServeHTTP gx upstream q g) = PassedOn (q\<lparr>q_Txn := ''''\<rparr>) \<and> blocked \<noteq> []"
proof -
  have b: "blocked \<noteq> []" using assms(7) by (auto simp: filterBlockedCalls_def blockedSet_def)
  have "ParseToolsCalls body \<noteq> []" using assms(5,6) by auto
  with assms b have "admit_body gx q body g = ((PassedOn q, calls), g')" by (simp add: admit_body_def)
  with assms have "fst (fst (admit gx q g)) = PassedOn (q\<lparr>q_Txn := ''''\<rparr>)" by (simp add: admit_def without_txn_def)
  then have "fst (ServeHTTP gx upstream q g) = PassedOn (q\<lparr>q_Txn := ''''\<rparr>)"
    by (cases "admit gx q g") (auto simp: ServeHTTP_def Let_def)
  with b show ?thesis by blast
qed



section \<open>Witnesses\<close>

definition toy_platform :: "(ledger_record, char, char, nat, nat, nat \<times> string \<times> payload, string gomap) platform" where
  "toy_platform = \<lparr>gx_codec = toy, gx_jwt = toy_jwt, gx_cedar = toy_cedar, gx_token = (\<lambda>s. (0, s, minted)), gx_url = (\<lambda>_. None),
     gx_float = id, gx_text = itoa\<rparr>"

text \<open>The ledger has the client's chain open.\<close>

definition toy_open :: "(ledger_record, char) ledger" where
  "toy_open = put_part ''t/host:a'' ((new_partition 1 4 ''aa'' 0 0)\<lparr>p_f := Some ''w-77.jsonl'', p_buf := [zero_record]\<rparr>)
     (toy_ledger [(''w-77.jsonl'', [zero_record])] (\<lambda>_. False))"

definition toy_gateway :: "(ledger_record, char, nat, nat \<times> string \<times> payload, string gomap) gateway" where
  "toy_gateway = newHTTPGateway ''up'' (NewStore toy_evaluator) (toy_service 0) toy_open ''t'' (\<lambda>_. None)"

definition toy_enforcing :: "(ledger_record, char, nat, nat \<times> string \<times> payload, string gomap) gateway" where
  "toy_enforcing = applyActuator \<lparr>pe_GurdyHome = '''', pe_HomeDir = None, pe_join = concat\<rparr> True ''off'' toy_gateway"

lemma toy_enforcing_simps [simp]:
  "g_act toy_enforcing = enforce_plan" "g_led toy_enforcing = toy_open" "g_store toy_enforcing = NewStore toy_evaluator"
  "sidecarTxn toy_enforcing = ''''" "partition_name toy_enforcing ''host:a'' = ''t/host:a''"
  by (simp_all add: toy_enforcing_def toy_gateway_def applyActuator_def newHTTPGateway_def newGateway_def Let_def
      sidecarTxn_def resolveTxnFile_def partition_name_def)

lemma toy_platform_simps [simp]: "gx_codec toy_platform = toy" "gx_cedar toy_platform = toy_cedar"
  by (simp_all add: toy_platform_def)

lemma toy_sync: "fst (AppendSync toy ''t/host:a'' rec toy_open) = None"
  by (simp add: toy_open_def sync_eval toy_def Let_def batchMaxRecords_def maxSegmentBytes_def queueCap_def)

lemma toy_queue: "records_only (l_queue toy_open)"
  by (simp add: toy_open_def toy_ledger_def put_part_def)

lemma toy_verdict:
  "pr_Decision (Evaluate toy_cedar toy_evaluator (input_of coarse x a s)) =
     (if to_lower (x_Tool x) = ''delete_file'' then Block else Allow)"
  by (simp add: Evaluate_def toy_cedar_def toy_evaluator_def input_of_def eval_request_def eval_context_def Let_def
      effect_of_def meta_of_def EnforceBlock_def)

text \<open>A batch of two calls, a denied one and an allowed one, under the ids given.\<close>

definition sample_pair :: "string \<Rightarrow> string \<Rightarrow> string" where
  "sample_pair i j = json_arr
     [json_obj [(''method'', json_key ''tools/call''), (''params'', json_obj [(''name'', json_key ''delete_file'')]), (''id'', i)],
      json_obj [(''method'', json_key ''tools/call''), (''params'', json_obj [(''name'', json_key ''ls'')]), (''id'', j)]]"

definition sample_request :: "string \<Rightarrow> request" where
  "sample_request body = \<lparr>q_Method = ''POST'', q_Host = ''p'', q_Path = ''/'', q_RemoteAddr = ''a:1'', q_Txn = '''', q_Body = Some body,
     q_BodyFails = False\<rparr>"

lemma sample_coarse: "coarsePrincipal (q_RemoteAddr (sample_request body)) = ''host:a''"
  by code_simp

lemma identify_sample: "fst (snd (fst (identify toy_platform '''' ''host:a'' ''delete_file'' toy_enforcing))) \<noteq> None"
  by code_simp

text \<open>What the toy policy makes of a call in these gateways.\<close>

lemma toy_stops:
  assumes "x_Tool (classify toy_platform c) = ''delete_file''"
    and "decideCall toy_platform '''' ''host:a'' c b toy_enforcing = ((i, pl), g')"
  shows "\<not> pl_Forward pl"
  using assms(2)
proof (rule decideCall_parts)
  fix who g2 tok res rec led
  assume tok: "tok = (if '''' = '''' then sidecarTxn toy_enforcing else '''')"
    and w: "identify toy_platform tok ''host:a'' (x_Tool (classify toy_platform c)) toy_enforcing = (who, g2)"
    and res: "res = Evaluate (gx_cedar toy_platform) (st_current (g_store g2)) (input_of ''host:a'' (classify toy_platform c) (fst who) (snd (snd who)))"
    and a: "attest (gx_codec toy_platform) (partition_name toy_enforcing ''host:a'') rec (g_act toy_enforcing (pr_Decision res)) (g_led g2) = (pl, led)"
  have w: "identify toy_platform '''' ''host:a'' ''delete_file'' toy_enforcing = (who, g2)"
    using w tok by (simp add: assms(1))
  from identify_sample w obtain c where "fst (snd who) = Some c" by auto
  then have l: "g_led g2 = toy_open" using derived_keeps_ledger w by (cases who) fastforce
  have "st_current (g_store g2) = toy_evaluator" using leads_settings [OF identify_leads [OF w]] by (simp add: NewStore_def)
  then have "pr_Decision res = Block" by (simp add: res toy_verdict assms(1))
  with a l toy_sync [of rec] show ?thesis
    by (auto simp: attest_def enforce_plan_def unattested_def split: option.splits prod.splits)
qed

lemma toy_allows:
  assumes "leads_to toy toy_enforcing g" and "x_Tool (classify toy_platform c) = ''ls''"
    and "decideCall toy_platform tok coarse c b g = ((j, pl), g')"
  shows "pl_Forward pl"
  using assms(3)
proof (rule decideCall_parts)
  fix who g2 tok res rec led
  assume w: "identify toy_platform tok coarse (x_Tool (classify toy_platform c)) g = (who, g2)"
    and res: "res = Evaluate (gx_cedar toy_platform) (st_current (g_store g2)) (input_of coarse (classify toy_platform c) (fst who) (snd (snd who)))"
    and a: "attest (gx_codec toy_platform) (partition_name g coarse) rec (g_act g (pr_Decision res)) (g_led g2) = (pl, led)"
  have "st_current (g_store g2) = toy_evaluator"
    using leads_settings [OF leads_trans [OF assms(1) identify_leads [OF w]]] by (simp add: NewStore_def)
  moreover have "to_lower ''ls'' = ''ls''" by code_simp
  ultimately have "pr_Decision res = Allow" by (simp add: res toy_verdict assms(2))
  then show ?thesis using attest_forwards [OF _ a] leads_act [OF assms(1)] by (simp add: enforce_plan_def)
qed

lemma pair_decided:
  "\<exists>i g'. decide_calls toy_platform (sample_request b) b
     [\<lparr>tc_Name = ''delete_file'', tc_Arguments = [], tc_ID = i1\<rparr>, \<lparr>tc_Name = ''ls'', tc_Arguments = [], tc_ID = i2\<rparr>] toy_enforcing =
     ([i], [i1], g')"
proof -
  let ?q = "sample_request b"
  let ?c = "call_to_classify toy_enforcing ?q \<lparr>tc_Name = ''delete_file'', tc_Arguments = [], tc_ID = i1\<rparr> b"
  have tool: "x_Tool (classify gx (call_to_classify g q tc body)) = tc_Name tc" if "tc_Name tc \<noteq> ''''" for gx g q tc body
    using classify_tool [of "call_to_classify g q tc body"] that by (simp add: call_to_classify_def)
  have q: "coarsePrincipal (q_RemoteAddr ?q) = ''host:a''" "q_Txn ?q = ''''"
    by (simp_all add: sample_coarse) (simp add: sample_request_def)
  obtain i pl g1 where d: "decide toy_platform ?q ?c b toy_enforcing = ((i, pl), g1)"
    by (cases "decide toy_platform ?q ?c b toy_enforcing") auto
  have n: "\<not> pl_Forward pl"
    by (rule toy_stops [of ?c]) (use d [unfolded decide_def Let_def q] in \<open>simp_all add: tool\<close>)
  let ?g = "noteBlockedResponse toy_platform ''host:a'' i (jsonRPCError i1) g1"
  have l: "leads_to toy toy_enforcing ?g"
    using leads_trans [OF decide_leads [OF d] note_leads] by simp
  let ?c2 = "call_to_classify ?g ?q \<lparr>tc_Name = ''ls'', tc_Arguments = [], tc_ID = i2\<rparr> b"
  obtain j pl2 g3 where d2: "decide toy_platform ?q ?c2 b ?g = ((j, pl2), g3)"
    by (cases "decide toy_platform ?q ?c2 b ?g") auto
  have "pl_Forward pl2" using toy_allows [OF l _ d2 [unfolded decide_def Let_def]] by (simp add: tool)
  with d n d2 q show ?thesis by simp
qed


lemma pair_calls:
  "ParseToolsCalls (sample_pair ''1'' ''1'') =
     [\<lparr>tc_Name = ''delete_file'', tc_Arguments = [], tc_ID = ''1''\<rparr>, \<lparr>tc_Name = ''ls'', tc_Arguments = [], tc_ID = ''1''\<rparr>]"
  by code_simp

theorem monitor_passes_through_witness:
  "fst (ServeHTTP toy_platform (\<lambda>_. []) (sample_request (sample_pair ''1'' ''1'')) toy_gateway) =
     PassedOn (sample_request (sample_pair ''1'' ''1''))"
  using monitor_passes_through [of toy_gateway "sample_request (sample_pair ''1'' ''1'')" toy_platform "\<lambda>_. []"]
  by (simp add: toy_gateway_def newHTTPGateway_def newGateway_def sample_request_def)

theorem stopped_calls_on_record_witness:
  "\<exists>i g'. decide_calls toy_platform (sample_request ''b'') ''b''
       [\<lparr>tc_Name = ''delete_file'', tc_Arguments = [], tc_ID = ''1''\<rparr>, \<lparr>tc_Name = ''ls'', tc_Arguments = [], tc_ID = ''2''\<rparr>]
       toy_enforcing = ([i], [''1''], g') \<and>
     on_record toy (g_led g') ''host:a'' ''b'' \<lparr>tc_Name = ''delete_file'', tc_Arguments = [], tc_ID = ''1''\<rparr>"
proof -
  let ?tcs = "[\<lparr>tc_Name = ''delete_file'', tc_Arguments = [], tc_ID = ''1''\<rparr>, \<lparr>tc_Name = ''ls'', tc_Arguments = [], tc_ID = ''2''\<rparr>]"
  obtain i g' where d: "decide_calls toy_platform (sample_request ''b'') ''b'' ?tcs toy_enforcing = ([i], [''1''], g')"
    using pair_decided by blast
  have h: "actuator (g_act toy_enforcing)" "records_only (l_queue (g_led toy_enforcing))"
    using enforce.actuator_axioms toy_queue by simp_all
  from stopped_calls_on_record [OF h d] obtain st where st: "subseq st ?tcs" "map tc_ID st = [''1'']"
      "\<forall>tc \<in> set st. on_record toy (g_led g') ''host:a'' ''b'' tc"
    unfolding sample_coarse toy_platform_simps by (elim conjE exE)
  from st(2) obtain tc where tc: "st = [tc]" "tc_ID tc = ''1''" by (auto simp: map_eq_Cons_conv)
  then have "tc \<in> set ?tcs" using st(1) by (simp only: subseq_singleton_left)
  with tc have "tc = hd ?tcs" by auto
  with st(3) tc(1) have "on_record toy (g_led g') ''host:a'' ''b'' (hd ?tcs)" by simp
  with d show ?thesis by auto
qed

theorem id_reuse_bypasses_blocking_witness:
  "fst (ServeHTTP toy_platform (\<lambda>_. []) (sample_request (sample_pair ''1'' ''1'')) toy_enforcing) =
     PassedOn (sample_request (sample_pair ''1'' ''1''))"
proof -
  let ?b = "sample_pair ''1'' ''1''"
  obtain i g' where d: "decide_calls toy_platform (sample_request ?b) ?b (ParseToolsCalls ?b) toy_enforcing = ([i], [''1''], g')"
    unfolding pair_calls using pair_decided by blast
  have f: "filterBlockedCalls ?b (blockedSet [''1'']) = None" "int (length ?b) \<le> maxInspect" by code_simp+
  have q: "q_Body (sample_request ?b) = Some ?b" "q_Method (sample_request ?b) = ''POST''" "\<not> q_BodyFails (sample_request ?b)"
      "sample_request ?b\<lparr>q_Txn := ''''\<rparr> = sample_request ?b"
    by (simp_all add: sample_request_def)
  from id_reuse_bypasses_blocking [OF q(1-3) f(2) d _ f(1), of "\<lambda>_. []"] q(4) show ?thesis by simp
qed

end
