(* ===== verification/Shim_Relay.thy ===== *)
theory Shim_Relay
  imports Gateway_Http Shim_Pending
begin

text \<open>
  The stdio transport, \<open>proxy/cmd/gurdy-proxy/shim.go\<close>: \<open>relay\<close> and \<open>relayOut\<close>, the two
  goroutines between a client and a child process, \<open>recordResponses\<close>, and \<open>runShim\<close>.

  The goroutines share the gateway (the ledger), the correlator and the client's stream.  Each is
  a deterministic machine whose state says where it stands in its loop; one step is one access to
  something shared.  A schedule is a list that says whose turn it is, so a statement about every
  schedule is about every interleaving.  The child is any byte string on its output, available
  from the start: what a real child writes, and when, is among these runs.
\<close>

section \<open>Reading and writing\<close>

text \<open>\<open>ReadEnd\<close> is \<open>io.EOF\<close>; \<open>ReadFails\<close> any other error.\<close>

datatype read_err = ReadOK | BufferFull | ReadEnd | ReadFails string

text \<open>A reader: the bytes still to come, and the error after the last of them.\<close>

record reader =
  rd_data :: string
  rd_end :: read_err

text \<open>
  \<open>bufio.Reader.ReadSlice\<close> for the delimiter newline, with a buffer of \<open>n\<close> bytes, over a source
  that reports its error after its last byte.
\<close>

definition ReadSlice :: "int \<Rightarrow> reader \<Rightarrow> (string \<times> read_err) \<times> reader" where
  "ReadSlice n rd =
     (let line = takeWhile (\<lambda>c. c \<noteq> CHR 0x0A) (rd_data rd);
          cut = (\<lambda>k err. ((take k (rd_data rd), err), rd\<lparr>rd_data := drop k (rd_data rd)\<rparr>))
      in if int (length line) < n \<and> length line < length (rd_data rd) then cut (Suc (length line)) ReadOK
         else if n \<le> int (length (rd_data rd)) then cut (nat n) BufferFull
         else cut (length (rd_data rd)) (rd_end rd))"

datatype side = Inbound | Outbound

text \<open>
  A writer: the bytes taken, with who wrote them, and a schedule of failures (how many bytes a
  failing write takes before its error).
\<close>

record sink =
  sk_log :: "(side \<times> string) list"
  sk_fails :: "nat \<Rightarrow> (nat \<times> string) option"

definition sink_write :: "side \<Rightarrow> string \<Rightarrow> sink \<Rightarrow> string option \<times> sink" where
  "sink_write who b s =
     (case sk_fails s (length (sk_log s)) of
        None \<Rightarrow> (None, s\<lparr>sk_log := sk_log s @ [(who, b)]\<rparr>)
      | Some (n, e) \<Rightarrow> (Some e, s\<lparr>sk_log := sk_log s @ [(who, take n b)]\<rparr>))"

definition sink_bytes :: "side \<Rightarrow> sink \<Rightarrow> string" where
  "sink_bytes who s = concat (map snd (filter (\<lambda>(w, b). w = who) (sk_log s)))"

section \<open>The machines\<close>

datatype shim_error = WriteBlocked string | WriteChild string | ReadClient string | WriteClient string | ReadChild string

text \<open>
  Where \<open>relay\<close> stands.  \<open>InRead skipping\<close> is the top of the loop.  \<open>InCalls tcs blocked chunk
  err\<close> has the calls of the line still to decide; \<open>InTrack\<close> has decided one and not yet tracked
  it; \<open>InDeny\<close> is about to write the denial; \<open>InAnswer\<close> and \<open>InNote\<close> are inside
  \<open>recordResponses\<close>, before a claim and after it; \<open>InWrite\<close> is about to write to the child.
\<close>

datatype in_pc =
    InRead bool
  | InCalls "tool_call list" "string list" string read_err
  | InTrack tool_call string bool "tool_call list" "string list" string read_err
  | InDeny tool_call "tool_call list" "string list" string read_err
  | InAnswer "response list" "tool_call list" "string list" string read_err
  | InNote string response "response list" "tool_call list" "string list" string read_err
  | InWrite string read_err
  | InDone "shim_error option"

datatype out_pc =
    OutRead bool
  | OutAnswer "response list" string read_err
  | OutNote string response "response list" string read_err
  | OutWrite string read_err
  | OutDone "shim_error option"

record ('l, 'k, 's, 'tok, 'pol) shim =
  sh_g :: "('l, 'k, 's, 'tok, 'pol) gateway"
  sh_pend :: pending
  sh_client :: sink
  sh_child :: sink
  sh_from_client :: reader
  sh_from_child :: reader
  sh_in :: in_pc
  sh_out :: out_pc

text \<open>\<open>bytes.TrimRight(line, "\r\n")\<close>.\<close>

definition trim_line :: "string \<Rightarrow> string" where
  "trim_line s = rev (dropWhile (\<lambda>c. c = CHR 0x0D \<or> c = CHR 0x0A) (rev s))"

text \<open>One response of \<open>recordResponses\<close>: the record it appends.\<close>

definition note_response :: "('l, 'k, 'p, 's, 'q, 'tok, 'pol) platform \<Rightarrow> string \<Rightarrow> string \<Rightarrow> response \<Rightarrow>
    ('l, 'k, 's, 'tok, 'pol) gateway \<Rightarrow> ('l, 'k, 's, 'tok, 'pol) gateway" where
  "note_response gx coarse callID r g =
     g\<lparr>g_led := AppendResponse (partition_name g coarse)
        (zero_record\<lparr>r_TS := fmt_time (gx_codec gx) (g_now g), r_CallID := callID,
           r_RespHash := HashBody (gx_codec gx) (rs_Raw r), r_Bytes := Some (int (length (rs_Raw r)))\<rparr>) (g_led g)\<rparr>"

definition answers_of :: "string \<Rightarrow> response list" where
  "answers_of line = ParseResponses (trim_line line)"

text \<open>The switch at the foot of \<open>relay\<close>'s loop, and of \<open>relayOut\<close>'s.\<close>

fun in_next :: "read_err \<Rightarrow> in_pc" where
  "in_next ReadOK = InRead False"
| "in_next BufferFull = InRead True"
| "in_next ReadEnd = InDone None"
| "in_next (ReadFails e) = InDone (Some (ReadClient e))"

fun out_next :: "read_err \<Rightarrow> out_pc" where
  "out_next ReadOK = OutRead False"
| "out_next BufferFull = OutRead True"
| "out_next ReadEnd = OutDone None"
| "out_next (ReadFails e) = OutDone (Some (ReadChild e))"

text \<open>What the shim hands to the extractors: a tool and its arguments.\<close>

definition shim_call :: "tool_call \<Rightarrow> intercepted" where
  "shim_call tc =
     \<lparr>c_Tool = tc_Name tc, c_Arguments = tc_Arguments tc, c_Host = '''', c_Path = '''', c_Body = '''', c_Signature = None\<rparr>"

text \<open>Reading a line, and what is done with it before its first call is decided.\<close>

definition in_read :: "('l, 'k, 'p, 's, 'q, 'tok, 'pol) platform \<Rightarrow> string \<Rightarrow> bool \<Rightarrow>
    ('l, 'k, 's, 'tok, 'pol) shim \<Rightarrow> ('l, 'k, 's, 'tok, 'pol) shim" where
  "in_read gx coarse skipping s =
     (let ((chunk, err), rd) = ReadSlice maxInspect (sh_from_client s); s = s\<lparr>sh_from_client := rd\<rparr>
      in if chunk = [] then s\<lparr>sh_in := in_next err\<rparr>
         else if skipping then s\<lparr>sh_in := InWrite chunk err\<rparr>
         else if err = BufferFull then
           (let (callID, g) = indeterminateCall gx coarse AssertionAbsent ''line exceeds inspection limit'' (sh_g s)
            in s\<lparr>sh_g := g, sh_in := InWrite chunk err\<rparr>)
         else s\<lparr>sh_in := InCalls (ParseToolsCalls chunk) [] chunk err\<rparr>)"

text \<open>The head of the loop over the calls, and after it the filter.\<close>

fun in_calls :: "('l, 'k, 'p, 's, 'q, 'tok, 'pol) platform \<Rightarrow> string \<Rightarrow> tool_call list \<Rightarrow> string list \<Rightarrow> string \<Rightarrow> read_err \<Rightarrow>
    ('l, 'k, 's, 'tok, 'pol) shim \<Rightarrow> ('l, 'k, 's, 'tok, 'pol) shim" where
  "in_calls gx coarse [] blocked chunk err s =
     (case (if blocked = [] then Some chunk else filterBlockedCalls chunk (blockedSet blocked)) of
        None \<Rightarrow> s\<lparr>sh_in := in_next err\<rparr>
      | Some left \<Rightarrow> s\<lparr>sh_in := InWrite left err\<rparr>)"
| "in_calls gx coarse (tc # tcs) blocked chunk err s =
     (if tc_Name tc = '''' then
        (let (callID, g) = indeterminateCall gx coarse AssertionAbsent ''undecodable tools/call params'' (sh_g s)
         in s\<lparr>sh_g := g, sh_in := InTrack tc callID True tcs blocked chunk err\<rparr>)
      else
        (let ((callID, pl), g) = decideCall gx '''' coarse (shim_call tc) chunk (sh_g s)
         in s\<lparr>sh_g := g, sh_in := InTrack tc callID (pl_Forward pl) tcs blocked chunk err\<rparr>))"

definition denial_line :: "string \<Rightarrow> string" where
  "denial_line i = jsonRPCError i @ [CHR 0x0A]"

text \<open>One step of \<open>relay\<close>.\<close>

fun in_step :: "('l, 'k, 'p, 's, 'q, 'tok, 'pol) platform \<Rightarrow> string \<Rightarrow> in_pc \<Rightarrow>
    ('l, 'k, 's, 'tok, 'pol) shim \<Rightarrow> ('l, 'k, 's, 'tok, 'pol) shim" where
  "in_step gx coarse (InRead skipping) s = in_read gx coarse skipping s"
| "in_step gx coarse (InCalls tcs blocked chunk err) s = in_calls gx coarse tcs blocked chunk err s"
| "in_step gx coarse (InTrack tc callID forward tcs blocked chunk err) s =
     s\<lparr>sh_pend := track (tc_ID tc) callID (sh_pend s),
       sh_in := (if forward then InCalls tcs blocked chunk err else InDeny tc tcs (tc_ID tc # blocked) chunk err)\<rparr>"
| "in_step gx coarse (InDeny tc tcs blocked chunk err) s =
     (case sink_write Inbound (denial_line (tc_ID tc)) (sh_client s) of
        (Some e, c) \<Rightarrow> s\<lparr>sh_client := c, sh_in := InDone (Some (WriteBlocked e))\<rparr>
      | (None, c) \<Rightarrow> s\<lparr>sh_client := c, sh_in := InAnswer (answers_of (denial_line (tc_ID tc))) tcs blocked chunk err\<rparr>)"
| "in_step gx coarse (InAnswer [] tcs blocked chunk err) s = s\<lparr>sh_in := InCalls tcs blocked chunk err\<rparr>"
| "in_step gx coarse (InAnswer (r # rs) tcs blocked chunk err) s =
     (let (callID, p) = claim (rs_ID r) (sh_pend s)
      in s\<lparr>sh_pend := p,
           sh_in := (if callID = '''' then InAnswer rs tcs blocked chunk err else InNote callID r rs tcs blocked chunk err)\<rparr>)"
| "in_step gx coarse (InNote callID r rs tcs blocked chunk err) s =
     s\<lparr>sh_g := note_response gx coarse callID r (sh_g s), sh_in := InAnswer rs tcs blocked chunk err\<rparr>"
| "in_step gx coarse (InWrite chunk err) s =
     (case sink_write Inbound chunk (sh_child s) of
        (Some e, c) \<Rightarrow> s\<lparr>sh_child := c, sh_in := InDone (Some (WriteChild e))\<rparr>
      | (None, c) \<Rightarrow> s\<lparr>sh_child := c, sh_in := in_next err\<rparr>)"
| "in_step gx coarse (InDone e) s = s"

text \<open>One step of \<open>relayOut\<close>.\<close>

definition out_read :: "bool \<Rightarrow> ('l, 'k, 's, 'tok, 'pol) shim \<Rightarrow> ('l, 'k, 's, 'tok, 'pol) shim" where
  "out_read skipping s =
     (let ((chunk, err), rd) = ReadSlice maxInspect (sh_from_child s); s = s\<lparr>sh_from_child := rd\<rparr>
      in if chunk = [] then s\<lparr>sh_out := out_next err\<rparr>
         else if \<not> skipping \<and> err \<noteq> BufferFull then s\<lparr>sh_out := OutAnswer (answers_of chunk) chunk err\<rparr>
         else s\<lparr>sh_out := OutWrite chunk err\<rparr>)"

fun out_step :: "('l, 'k, 'p, 's, 'q, 'tok, 'pol) platform \<Rightarrow> string \<Rightarrow> out_pc \<Rightarrow>
    ('l, 'k, 's, 'tok, 'pol) shim \<Rightarrow> ('l, 'k, 's, 'tok, 'pol) shim" where
  "out_step gx coarse (OutRead skipping) s = out_read skipping s"
| "out_step gx coarse (OutAnswer [] chunk err) s = s\<lparr>sh_out := OutWrite chunk err\<rparr>"
| "out_step gx coarse (OutAnswer (r # rs) chunk err) s =
     (let (callID, p) = claim (rs_ID r) (sh_pend s)
      in s\<lparr>sh_pend := p, sh_out := (if callID = '''' then OutAnswer rs chunk err else OutNote callID r rs chunk err)\<rparr>)"
| "out_step gx coarse (OutNote callID r rs chunk err) s =
     s\<lparr>sh_g := note_response gx coarse callID r (sh_g s), sh_out := OutAnswer rs chunk err\<rparr>"
| "out_step gx coarse (OutWrite chunk err) s =
     (case sink_write Outbound chunk (sh_client s) of
        (Some e, c) \<Rightarrow> s\<lparr>sh_client := c, sh_out := OutDone (Some (WriteClient e))\<rparr>
      | (None, c) \<Rightarrow> s\<lparr>sh_client := c, sh_out := out_next err\<rparr>)"
| "out_step gx coarse (OutDone e) s = s"

definition turn :: "('l, 'k, 'p, 's, 'q, 'tok, 'pol) platform \<Rightarrow> string \<Rightarrow> side \<Rightarrow>
    ('l, 'k, 's, 'tok, 'pol) shim \<Rightarrow> ('l, 'k, 's, 'tok, 'pol) shim" where
  "turn gx coarse w s = (case w of Inbound \<Rightarrow> in_step gx coarse (sh_in s) s | Outbound \<Rightarrow> out_step gx coarse (sh_out s) s)"

text \<open>A run, the turns in order.\<close>

definition relays :: "('l, 'k, 'p, 's, 'q, 'tok, 'pol) platform \<Rightarrow> string \<Rightarrow> side list \<Rightarrow>
    ('l, 'k, 's, 'tok, 'pol) shim \<Rightarrow> ('l, 'k, 's, 'tok, 'pol) shim" where
  "relays gx coarse sched s = fold (turn gx coarse) sched s"

section \<open>The shim\<close>

text \<open>\<open>filepath.Base\<close>.\<close>

definition path_base :: "string \<Rightarrow> string" where
  "path_base p =
     (let slash = (\<lambda>c. c = CHR ''/''); t = rev (dropWhile slash (rev p))
      in if p = '''' then ''.'' else if t = '''' then ''/'' else rev (takeWhile (\<lambda>c. \<not> slash c) (rev t)))"

text \<open>
  The child process: which of the calls that start it fails, what it writes, and the error
  \<open>Wait\<close> reports.
\<close>

record child =
  cd_StdinPipe :: "string option"
  cd_StdoutPipe :: "string option"
  cd_Start :: "string option"
  cd_output :: reader
  cd_stdin :: sink
  cd_Wait :: "string option"

datatype run_error = Spawn string | Exit string | Relaying shim_error

definition shim_start :: "('l, 'k, 's, 'tok, 'pol) gateway \<Rightarrow> child \<Rightarrow> reader \<Rightarrow> sink \<Rightarrow> ('l, 'k, 's, 'tok, 'pol) shim" where
  "shim_start g c input out =
     \<lparr>sh_g = g, sh_pend = pending_init, sh_client = out, sh_child = cd_stdin c, sh_from_client = input, sh_from_child = cd_output c,
      sh_in = InRead False, sh_out = OutRead False\<rparr>"

definition list_of :: "'a option \<Rightarrow> 'a list" where
  "list_of x = (case x of None \<Rightarrow> [] | Some a \<Rightarrow> [a])"

text \<open>
  \<open>runShim\<close> with the turns its goroutines are given: \<open>None\<close> while \<open>relayOut\<close> is still running.
  The errors that are joined; \<open>relay\<close>'s counts when it has returned.
\<close>

definition runShim :: "('l, 'k, 'p, 's, 'q, 'tok, 'pol) platform \<Rightarrow> child \<Rightarrow> string \<Rightarrow> reader \<Rightarrow> sink \<Rightarrow> side list \<Rightarrow>
    ('l, 'k, 's, 'tok, 'pol) gateway \<Rightarrow> run_error list option \<times> ('l, 'k, 's, 'tok, 'pol) shim" where
  "runShim gx c argv0 input out sched g =
     (case (cd_StdinPipe c, cd_StdoutPipe c, cd_Start c) of
        (Some e, _, _) \<Rightarrow> (Some [Spawn e], shim_start g c input out)
      | (None, Some e, _) \<Rightarrow> (Some [Spawn e], shim_start g c input out)
      | (None, None, Some e) \<Rightarrow> (Some [Spawn e], shim_start g c input out)
      | (None, None, None) \<Rightarrow>
          (let s = relays gx (''stdio:'' @ path_base argv0) sched (shim_start g c input out) in
           case sh_out s of
             OutDone copyErr \<Rightarrow>
               (Some (map Exit (list_of (cd_Wait c)) @ map Relaying (list_of copyErr) @
                  map Relaying (case sh_in s of InDone e \<Rightarrow> list_of e | _ \<Rightarrow> [])), s)
           | _ \<Rightarrow> (None, s)))"


section \<open>Reading takes bytes from the front\<close>

definition reader_ok :: "reader \<Rightarrow> bool" where
  "reader_ok rd \<longleftrightarrow> rd_end rd \<noteq> ReadOK \<and> rd_end rd \<noteq> BufferFull"

definition last_read :: "read_err \<Rightarrow> bool" where
  "last_read err \<longleftrightarrow> err \<noteq> ReadOK \<and> err \<noteq> BufferFull"

lemma ReadSlice_split:
  assumes "ReadSlice n rd = ((chunk, err), rd')" and "0 < n"
  shows "rd_data rd = chunk @ rd_data rd'" and "rd_end rd' = rd_end rd" and "last_read err \<Longrightarrow> rd_data rd' = [] \<and> rd_end rd = err"
    and "chunk = [] \<Longrightarrow> rd_data rd = [] \<and> rd_end rd = err"
  using assms by (auto simp: ReadSlice_def Let_def last_read_def split: if_splits)

lemma maxInspect_pos [simp]: "0 < maxInspect"
  by (simp add: maxInspect_def)

lemmas read_split = ReadSlice_split [OF _ maxInspect_pos]

lemma write_cases:
  assumes "sink_write who b s = (r, s')"
  obtains (all) "r = None" "sk_log s' = sk_log s @ [(who, b)]" "sk_fails s' = sk_fails s"
  | (part) n e where "r = Some e" "sk_log s' = sk_log s @ [(who, take n b)]" "sk_fails s' = sk_fails s"
  using assms by (auto simp: sink_write_def split: option.splits prod.splits)

lemma sink_bytes_app [simp]:
  "sk_log s' = sk_log s @ [(who, b)] \<Longrightarrow> sink_bytes w s' = sink_bytes w s @ (if who = w then b else [])"
  by (simp add: sink_bytes_def)

lemma relays_Nil [simp]: "relays gx coarse [] s = s"
  by (simp add: relays_def)

lemma relays_snoc [simp]: "relays gx coarse (sched @ [w]) s = turn gx coarse w (relays gx coarse sched s)"
  by (simp add: relays_def)

lemma relays_app: "relays gx coarse (a @ b) s = relays gx coarse b (relays gx coarse a s)"
  by (simp add: relays_def)

text \<open>An invariant of both machines holds along every schedule.\<close>

lemma relays_inv:
  assumes "P s" and "\<And>s. P s \<Longrightarrow> P (in_step gx coarse (sh_in s) s)" and "\<And>s. P s \<Longrightarrow> P (out_step gx coarse (sh_out s) s)"
  shows "P (relays gx coarse sched s)"
proof (induction sched rule: rev_induct)
  case (snoc w sched)
  then show ?case using assms(2,3) by (cases w) (simp_all add: turn_def)
qed (simp add: assms(1))

section \<open>What each machine leaves to the other\<close>

lemma in_read_frame [simp]:
  "sh_out (in_read gx coarse k s) = sh_out s" "sh_from_child (in_read gx coarse k s) = sh_from_child s"
  "sh_pend (in_read gx coarse k s) = sh_pend s" "sh_client (in_read gx coarse k s) = sh_client s"
  "sh_child (in_read gx coarse k s) = sh_child s"
  by (simp_all add: in_read_def split_beta Let_def)

lemma in_calls_frame [simp]:
  "sh_out (in_calls gx coarse tcs b c e s) = sh_out s" "sh_from_child (in_calls gx coarse tcs b c e s) = sh_from_child s"
  "sh_pend (in_calls gx coarse tcs b c e s) = sh_pend s" "sh_client (in_calls gx coarse tcs b c e s) = sh_client s"
  "sh_child (in_calls gx coarse tcs b c e s) = sh_child s" "sh_from_client (in_calls gx coarse tcs b c e s) = sh_from_client s"
  by (cases tcs; simp add: split_beta Let_def split: option.split)+

lemma in_step_frame [simp]:
  "sh_out (in_step gx coarse pc s) = sh_out s" "sh_from_child (in_step gx coarse pc s) = sh_from_child s"
  by (induction gx coarse pc s rule: in_step.induct) (simp_all add: split_beta Let_def split: option.split)

lemma out_step_frame [simp]:
  "sh_in (out_step gx coarse pc s) = sh_in s" "sh_from_client (out_step gx coarse pc s) = sh_from_client s"
  "sh_child (out_step gx coarse pc s) = sh_child s"
  by (induction gx coarse pc s rule: out_step.induct) (simp_all add: out_read_def split_beta Let_def split: option.split)


section \<open>The way out\<close>

text \<open>What a machine has read and not yet written, and the error of that read.\<close>

fun out_held :: "out_pc \<Rightarrow> (string \<times> read_err) option" where
  "out_held (OutAnswer rs chunk err) = Some (chunk, err)"
| "out_held (OutNote c r rs chunk err) = Some (chunk, err)"
| "out_held (OutWrite chunk err) = Some (chunk, err)"
| "out_held pc = None"

fun moved :: "string \<Rightarrow> string \<Rightarrow> reader \<Rightarrow> (string \<times> read_err) option \<Rightarrow> bool" where
  "moved D got rd None \<longleftrightarrow> got @ rd_data rd = D"
| "moved D got rd (Some (chunk, err)) \<longleftrightarrow>
     got @ chunk @ rd_data rd = D \<and> (last_read err \<longrightarrow> rd_data rd = [] \<and> rd_end rd = err)"

fun out_ok :: "string \<Rightarrow> string \<Rightarrow> reader \<Rightarrow> out_pc \<Rightarrow> bool" where
  "out_ok D got rd (OutDone (Some (WriteClient e))) \<longleftrightarrow> prefix got D"
| "out_ok D got rd (OutDone e) \<longleftrightarrow> got = D"
| "out_ok D got rd pc \<longleftrightarrow> moved D got rd (out_held pc)"

definition out_inv :: "string \<Rightarrow> ('l, 'k, 's, 'tok, 'pol) shim \<Rightarrow> bool" where
  "out_inv D s \<longleftrightarrow> reader_ok (sh_from_child s) \<and> out_ok D (sink_bytes Outbound (sh_client s)) (sh_from_child s) (sh_out s)"

lemma in_step_client_out [simp]:
  "sink_bytes Outbound (sh_client (in_step gx coarse pc s)) = sink_bytes Outbound (sh_client s)"
proof (induction gx coarse pc s rule: in_step.induct)
  case (4 gx coarse tc tcs blocked chunk err s)
  obtain r c where w: "sink_write Inbound (denial_line (tc_ID tc)) (sh_client s) = (r, c)" by fastforce
  then show ?case by (cases rule: write_cases) (simp_all add: w)
qed (simp_all add: split_beta Let_def split: option.split)

lemma in_step_out_inv: "out_inv D s \<Longrightarrow> out_inv D (in_step gx coarse pc s)"
  by (simp add: out_inv_def)

lemma out_next_inv:
  assumes "reader_ok rd" and "last_read err \<longrightarrow> rd_data rd = [] \<and> rd_end rd = err"
    and "sink_bytes Outbound c @ rd_data rd = D"
  shows "out_inv D (s\<lparr>sh_client := c, sh_from_child := rd, sh_out := out_next err\<rparr>)"
  using assms by (cases err) (auto simp: out_inv_def last_read_def reader_ok_def)

lemma out_step_out_inv:
  assumes "out_inv D s" and "sh_out s = pc"
  shows "out_inv D (out_step gx coarse pc s)"
proof (cases pc)
  case (OutRead k)
  obtain chunk err rd where r: "ReadSlice maxInspect (sh_from_child s) = ((chunk, err), rd)"
    by (cases "ReadSlice maxInspect (sh_from_child s)") auto
  note sp = read_split [OF r]
  from assms OutRead have i: "reader_ok (sh_from_child s)" "sink_bytes Outbound (sh_client s) @ rd_data (sh_from_child s) = D"
    by (simp_all add: out_inv_def)
  have rd: "reader_ok rd" using i(1) sp(2) by (simp add: reader_ok_def)
  show ?thesis
  proof (cases "chunk = []")
    case True
    with sp i rd have "out_inv D (s\<lparr>sh_client := sh_client s, sh_from_child := rd, sh_out := out_next err\<rparr>)"
      by (intro out_next_inv) auto
    with True OutRead r show ?thesis by (simp add: out_read_def)
  next
    case False
    with OutRead r sp i rd show ?thesis by (auto simp: out_read_def out_inv_def Let_def)
  qed
next
  case (OutAnswer rs chunk err)
  with assms show ?thesis by (cases rs) (auto simp: out_inv_def split_beta Let_def)
next
  case (OutNote c r rs chunk err)
  with assms show ?thesis by (auto simp: out_inv_def Let_def)
next
  case (OutWrite chunk err)
  obtain r c where w: "sink_write Outbound chunk (sh_client s) = (r, c)" by fastforce
  then show ?thesis
  proof (cases rule: write_cases)
    case all
    from assms OutWrite all have "out_inv D (s\<lparr>sh_client := c, sh_from_child := sh_from_child s, sh_out := out_next err\<rparr>)"
      by (intro out_next_inv) (auto simp: out_inv_def)
    with OutWrite w all show ?thesis by simp
  next
    case (part n e)
    from assms OutWrite have "D = sink_bytes Outbound (sh_client s) @ chunk @ rd_data (sh_from_child s)"
      by (simp add: out_inv_def)
    then have "prefix (sink_bytes Outbound (sh_client s) @ take n chunk) D" by (simp add: take_is_prefix prefix_prefix)
    with assms(1) OutWrite w part show ?thesis by (simp add: out_inv_def)
  qed
next
  case (OutDone e)
  with assms show ?thesis by simp
qed

lemma out_inv_relays: "out_inv D s \<Longrightarrow> out_inv D (relays gx coarse sched s)"
  by (rule relays_inv) (auto intro: in_step_out_inv out_step_out_inv)

text \<open>
  C20. The way out is transparent.  In every interleaving, what the client has received of the
  child's output is a prefix of it, byte for byte; and when \<open>relayOut\<close> has returned without a
  write error it is all of it.  Recording the responses never delays, drops or changes a byte.
\<close>

theorem client_sees_child_output:
  assumes "reader_ok (cd_output c)" and "sk_log out = []"
    and "s = relays gx coarse sched (shim_start g c input out)"
  shows "prefix (sink_bytes Outbound (sh_client s)) (rd_data (cd_output c)) \<and>
     (\<forall>e. sh_out s = OutDone e \<longrightarrow> (\<nexists>m. e = Some (WriteClient m)) \<longrightarrow>
        sink_bytes Outbound (sh_client s) = rd_data (cd_output c))"
proof -
  have "out_inv (rd_data (cd_output c)) (shim_start g c input out)"
    using assms(1,2) by (simp add: out_inv_def shim_start_def sink_bytes_def)
  then have i: "out_inv (rd_data (cd_output c)) s" using out_inv_relays assms(3) by blast
  then show ?thesis
    by (cases "(rd_data (cd_output c), sink_bytes Outbound (sh_client s), sh_from_child s, sh_out s)" rule: out_ok.cases)
      (auto simp: out_inv_def)
qed


section \<open>Both machines come to an end\<close>

text \<open>
  A machine among others: its own moves make progress until it is finished, and those of the
  others do not undo it.  Given turns again and again, it finishes.
\<close>

locale fair_machine =
  fixes move :: "side \<Rightarrow> 's \<Rightarrow> 's" and me :: side and key :: "'s \<Rightarrow> 'k" and before :: "('k \<times> 'k) set"
    and alive :: "'s \<Rightarrow> bool" and fin :: "'s \<Rightarrow> bool"
  assumes wf_before: "wf before"
    and stays_alive: "alive s \<Longrightarrow> alive (move w s)"
    and mine: "alive s \<Longrightarrow> \<not> fin s \<Longrightarrow> (key (move me s), key s) \<in> before"
    and theirs: "w \<noteq> me \<Longrightarrow> key (move w s) = key s"
begin

lemma alive_fold: "alive s \<Longrightarrow> alive (fold move ws s)"
  by (induction ws arbitrary: s) (simp_all add: stays_alive)

lemma key_fold: "me \<notin> set ws \<Longrightarrow> key (fold move ws s) = key s"
  by (induction ws arbitrary: s) (auto simp: theirs)

lemma finishes:
  assumes "alive s" and "\<And>n. \<exists>m \<ge> n. sched m = me"
  shows "\<exists>n. fin (fold move (map sched [0..<n]) s)"
  using assms
proof (induction "key s" arbitrary: s sched rule: wf_induct_rule [OF wf_before])
  case 1
  obtain m where m: "sched m = me" "\<And>k. k < m \<Longrightarrow> sched k \<noteq> me"
    using 1(3) [of 0] exists_least_iff [of "\<lambda>m. sched m = me"] by auto
  let ?s = "fold move (map sched [0..<m]) s"
  have k: "key ?s = key s" using m(2) by (intro key_fold) fastforce
  have a: "alive ?s" using 1(2) by (rule alive_fold)
  show ?case
  proof (cases "fin ?s")
    case False
    let ?later = "\<lambda>n. sched (n + Suc m)"
    have "\<exists>n. fin (fold move (map ?later [0..<n]) (move me ?s))"
    proof (rule 1(1))
      show "(key (move me ?s), key s) \<in> before" using mine [OF a False] k by simp
      show "alive (move me ?s)" using a by (rule stays_alive)
      fix n
      obtain j where "j \<ge> n + Suc m" "sched j = me" using 1(3) by blast
      then show "\<exists>i \<ge> n. ?later i = me" by (intro exI [of _ "j - Suc m"]) auto
    qed
    then obtain n where n: "fin (fold move (map ?later [0..<n]) (move me ?s))" by blast
    have "[0..<n + Suc m] = [0..<Suc m] @ map (\<lambda>i. i + Suc m) [0..<n]"
      using upt_add_eq_append [of 0 "Suc m" n] map_add_upt [of "Suc m" n] by (simp add: add.commute)
    then have "map sched [0..<n + Suc m] = map sched [0..<m] @ me # map ?later [0..<n]"
      using m(1) by (simp add: comp_def)
    then show ?thesis using n by (intro exI [of _ "n + Suc m"]) (simp del: upt_Suc)
  qed auto
qed

end


text \<open>
  What is left to do: the bytes to read, how far the loop is from its top, the calls of the line
  still to decide, how far the current one has come, and the responses still to look at.
\<close>

type_synonym work = "nat \<times> nat \<times> nat \<times> nat \<times> nat"

definition less_work :: "(work \<times> work) set" where
  "less_work = less_than <*lex*> less_than <*lex*> less_than <*lex*> less_than <*lex*> less_than"

fun in_work :: "in_pc \<Rightarrow> nat \<times> nat \<times> nat \<times> nat" where
  "in_work (InDone e) = (0, 0, 0, 0)"
| "in_work (InRead k) = (1, 0, 0, 0)"
| "in_work (InWrite chunk err) = (2, 0, 0, 0)"
| "in_work (InCalls tcs blocked chunk err) = (3, length tcs, 0, 0)"
| "in_work (InAnswer rs tcs blocked chunk err) = (3, length tcs, 1, 2 * length rs)"
| "in_work (InNote c r rs tcs blocked chunk err) = (3, length tcs, 1, 2 * length rs + 1)"
| "in_work (InDeny tc tcs blocked chunk err) = (3, length tcs, 2, 0)"
| "in_work (InTrack tc c f tcs blocked chunk err) = (3, length tcs, 3, 0)"

fun out_work :: "out_pc \<Rightarrow> nat \<times> nat \<times> nat \<times> nat" where
  "out_work (OutDone e) = (0, 0, 0, 0)"
| "out_work (OutRead k) = (1, 0, 0, 0)"
| "out_work (OutWrite chunk err) = (2, 0, 0, 0)"
| "out_work (OutAnswer rs chunk err) = (3, 0, 1, 2 * length rs)"
| "out_work (OutNote c r rs chunk err) = (3, 0, 1, 2 * length rs + 1)"

definition in_left :: "('l, 'k, 's, 'tok, 'pol) shim \<Rightarrow> work" where
  "in_left s = (length (rd_data (sh_from_client s)), in_work (sh_in s))"

definition out_left :: "('l, 'k, 's, 'tok, 'pol) shim \<Rightarrow> work" where
  "out_left s = (length (rd_data (sh_from_child s)), out_work (sh_out s))"

definition in_done :: "('l, 'k, 's, 'tok, 'pol) shim \<Rightarrow> bool" where
  "in_done s \<longleftrightarrow> (\<exists>e. sh_in s = InDone e)"

definition out_done :: "('l, 'k, 's, 'tok, 'pol) shim \<Rightarrow> bool" where
  "out_done s \<longleftrightarrow> (\<exists>e. sh_out s = OutDone e)"

lemma wf_less_work: "wf less_work"
  unfolding less_work_def by (intro wf_lex_prod wf_less_than)

lemma in_next_work: "last_read err \<Longrightarrow> in_work (in_next err) = (0, 0, 0, 0)"
  by (cases err) (simp_all add: last_read_def)

lemma in_next_less: "fst (in_work (in_next err)) \<le> 1"
  by (cases err) simp_all

lemma out_next_work: "last_read err \<Longrightarrow> out_work (out_next err) = (0, 0, 0, 0)"
  by (cases err) (simp_all add: last_read_def)

lemma out_next_less: "fst (out_work (out_next err)) \<le> 1"
  by (cases err) simp_all

lemma in_next_below: "2 \<le> c \<Longrightarrow> ((n, in_work (in_next err)), (n, c, t, p, q)) \<in> less_work"
  by (cases err) (simp_all add: less_work_def)

lemma out_next_below: "2 \<le> c \<Longrightarrow> ((n, out_work (out_next err)), (n, c, t, p, q)) \<in> less_work"
  by (cases err) (simp_all add: less_work_def)

lemma in_read_less:
  assumes "reader_ok (sh_from_client s)"
  shows "(in_left (in_read gx coarse k s), (length (rd_data (sh_from_client s)), in_work (InRead k))) \<in> less_work"
proof -
  obtain chunk err rd where r: "ReadSlice maxInspect (sh_from_client s) = ((chunk, err), rd)"
    by (cases "ReadSlice maxInspect (sh_from_client s)") auto
  note sp = read_split [OF r]
  show ?thesis
  proof (cases "chunk = []")
    case True
    with sp assms have "last_read err" by (simp add: last_read_def reader_ok_def)
    with True r sp show ?thesis by (simp add: in_read_def in_left_def in_next_work less_work_def)
  next
    case False
    with sp have "length (rd_data rd) < length (rd_data (sh_from_client s))" by simp
    with False r show ?thesis by (simp add: in_read_def in_left_def split_beta Let_def less_work_def)
  qed
qed

lemma in_step_less:
  assumes "reader_ok (sh_from_client s)" and "\<not> in_done s"
  shows "(in_left (in_step gx coarse (sh_in s) s), in_left s) \<in> less_work"
proof -
  have "(in_left (in_step gx coarse pc s), (length (rd_data (sh_from_client s)), in_work pc)) \<in> less_work"
    if "reader_ok (sh_from_client s)" "\<nexists>e. pc = InDone e" for pc
    using that
  proof (induction gx coarse pc s rule: in_step.induct)
    case (1 gx coarse k s)
    from in_read_less [OF 1(1)] show ?case by simp
  next
    case (2 gx coarse tcs blocked chunk err s)
    show ?case
      by (cases tcs) (simp_all add: in_left_def split_beta Let_def in_next_below split: option.split, simp_all add: less_work_def)
  next
    case (4 gx coarse tc tcs blocked chunk err s)
    then show ?case by (simp add: in_left_def split_beta less_work_def split: option.split)
  next
    case (8 gx coarse chunk err s)
    show ?case by (cases err) (simp_all add: in_left_def split_beta less_work_def split: option.split)
  next
    case (9 gx coarse e s)
    then show ?case by simp
  qed (simp_all add: in_read_less in_left_def split_beta less_work_def)
  with assms show ?thesis by (simp add: in_left_def [of s] in_done_def)
qed

lemma out_step_less:
  assumes "reader_ok (sh_from_child s)" and "\<not> out_done s"
  shows "(out_left (out_step gx coarse (sh_out s) s), out_left s) \<in> less_work"
proof (cases "sh_out s")
  case (OutRead k)
  obtain chunk err rd where r: "ReadSlice maxInspect (sh_from_child s) = ((chunk, err), rd)"
    by (cases "ReadSlice maxInspect (sh_from_child s)") auto
  note sp = read_split [OF r]
  show ?thesis
  proof (cases "chunk = []")
    case True
    with sp assms have "last_read err" by (simp add: last_read_def reader_ok_def)
    with True r sp OutRead show ?thesis by (simp add: out_read_def out_left_def out_next_work less_work_def)
  next
    case False
    with sp have "length (rd_data rd) < length (rd_data (sh_from_child s))" by simp
    with False r OutRead show ?thesis by (simp add: out_read_def out_left_def Let_def less_work_def)
  qed
next
  case (OutAnswer rs chunk err)
  then show ?thesis by (cases rs) (simp_all add: out_left_def split_beta less_work_def)
next
  case (OutWrite chunk err)
  then show ?thesis by (cases err) (simp_all add: out_left_def split_beta less_work_def split: option.split)
qed (use assms in \<open>simp_all add: out_left_def less_work_def out_done_def\<close>)


lemma in_read_reader: "reader_ok (sh_from_client (in_read gx coarse k s)) = reader_ok (sh_from_client s)"
proof -
  obtain chunk err rd where r: "ReadSlice maxInspect (sh_from_client s) = ((chunk, err), rd)"
    by (cases "ReadSlice maxInspect (sh_from_client s)") auto
  with read_split(2) [OF r] show ?thesis by (simp add: in_read_def reader_ok_def split_beta Let_def)
qed

lemma in_step_reader [simp]: "reader_ok (sh_from_client (in_step gx coarse pc s)) = reader_ok (sh_from_client s)"
  by (induction gx coarse pc s rule: in_step.induct) (simp_all add: in_read_reader split_beta split: option.split)

lemma out_step_reader [simp]: "reader_ok (sh_from_child (out_step gx coarse pc s)) = reader_ok (sh_from_child s)"
proof (induction gx coarse pc s rule: out_step.induct)
  case (1 gx coarse k s)
  obtain chunk err rd where r: "ReadSlice maxInspect (sh_from_child s) = ((chunk, err), rd)"
    by (cases "ReadSlice maxInspect (sh_from_child s)") auto
  with read_split(2) [OF r] show ?case by (simp add: out_read_def reader_ok_def Let_def)
qed (simp_all add: split_beta split: option.split)

lemma out_step_in_left: "in_left (out_step gx coarse pc s) = in_left s"
  by (simp add: in_left_def)

lemma in_step_out_left: "out_left (in_step gx coarse pc s) = out_left s"
  by (simp add: out_left_def)

interpretation client_side: fair_machine "turn gx coarse" Inbound in_left less_work "\<lambda>s. reader_ok (sh_from_client s)" in_done
  for gx coarse
proof
  show "wf less_work" by (rule wf_less_work)
qed (auto simp: turn_def in_step_less out_step_in_left split: side.split)

interpretation child_side: fair_machine "turn gx coarse" Outbound out_left less_work "\<lambda>s. reader_ok (sh_from_child s)" out_done
  for gx coarse
proof
  show "wf less_work" by (rule wf_less_work)
qed (auto simp: turn_def out_step_less in_step_out_left split: side.split)



section \<open>The way in, when nothing is stopped\<close>

fun in_ok :: "string \<Rightarrow> string \<Rightarrow> reader \<Rightarrow> in_pc \<Rightarrow> bool" where
  "in_ok D got rd (InDone (Some (WriteChild e))) \<longleftrightarrow> prefix got D"
| "in_ok D got rd (InDone (Some (WriteBlocked e))) \<longleftrightarrow> False"
| "in_ok D got rd (InDone e) \<longleftrightarrow> got = D"
| "in_ok D got rd (InRead k) \<longleftrightarrow> moved D got rd None"
| "in_ok D got rd (InWrite chunk err) \<longleftrightarrow> moved D got rd (Some (chunk, err))"
| "in_ok D got rd (InCalls tcs b chunk err) \<longleftrightarrow> b = [] \<and> moved D got rd (Some (chunk, err))"
| "in_ok D got rd (InTrack tc c f tcs b chunk err) \<longleftrightarrow> f \<and> b = [] \<and> moved D got rd (Some (chunk, err))"
| "in_ok D got rd pc \<longleftrightarrow> False"

definition in_inv :: "string \<Rightarrow> ('l, 'k, 's, 'tok, 'pol) shim \<Rightarrow> bool" where
  "in_inv D s \<longleftrightarrow> reader_ok (sh_from_client s) \<and> in_ok D (sink_bytes Inbound (sh_child s)) (sh_from_client s) (sh_in s)"

lemma out_step_in_inv: "in_inv D s \<Longrightarrow> in_inv D (out_step gx coarse pc s)"
  by (simp add: in_inv_def)

lemma in_next_inv:
  assumes "reader_ok rd" and "last_read err \<longrightarrow> rd_data rd = [] \<and> rd_end rd = err"
    and "sink_bytes Inbound c @ rd_data rd = D"
  shows "in_inv D (s\<lparr>sh_child := c, sh_from_client := rd, sh_in := in_next err\<rparr>)"
  using assms by (cases err) (auto simp: in_inv_def last_read_def reader_ok_def)

lemma in_step_in_inv:
  assumes "in_inv D s" and "sh_in s = pc"
    and "\<And>tc tcs b chunk err. pc = InCalls (tc # tcs) b chunk err \<Longrightarrow>
      pl_Forward (snd (fst (decideCall gx '''' coarse (shim_call tc) chunk (sh_g s))))"
  shows "in_inv D (in_step gx coarse pc s)"
proof (cases pc)
  case (InRead k)
  obtain chunk err rd where r: "ReadSlice maxInspect (sh_from_client s) = ((chunk, err), rd)"
    by (cases "ReadSlice maxInspect (sh_from_client s)") auto
  note sp = read_split [OF r]
  from assms InRead have i: "reader_ok (sh_from_client s)" "sink_bytes Inbound (sh_child s) @ rd_data (sh_from_client s) = D"
    by (simp_all add: in_inv_def)
  have rd: "reader_ok rd" using i(1) sp(2) by (simp add: reader_ok_def)
  show ?thesis
  proof (cases "chunk = []")
    case True
    with sp i rd have "in_inv D (s\<lparr>sh_child := sh_child s, sh_from_client := rd, sh_in := in_next err\<rparr>)"
      by (intro in_next_inv) auto
    with True InRead r show ?thesis by (simp add: in_read_def)
  next
    case False
    with InRead r sp i rd show ?thesis by (auto simp: in_read_def in_inv_def Let_def split_beta)
  qed
next
  case (InCalls tcs b chunk err)
  with assms show ?thesis by (cases tcs) (simp_all add: in_inv_def split_beta Let_def)
next
  case (InTrack tc c f tcs b chunk err)
  with assms show ?thesis by (simp add: in_inv_def)
next
  case (InWrite chunk err)
  obtain r c where w: "sink_write Inbound chunk (sh_child s) = (r, c)" by fastforce
  then show ?thesis
  proof (cases rule: write_cases)
    case all
    from assms InWrite all have "in_inv D (s\<lparr>sh_child := c, sh_from_client := sh_from_client s, sh_in := in_next err\<rparr>)"
      by (intro in_next_inv) (auto simp: in_inv_def)
    with InWrite w all show ?thesis by simp
  next
    case (part n e)
    from assms InWrite have "D = sink_bytes Inbound (sh_child s) @ chunk @ rd_data (sh_from_client s)"
      by (simp add: in_inv_def)
    then have "prefix (sink_bytes Inbound (sh_child s) @ take n chunk) D" by (simp add: take_is_prefix prefix_prefix)
    with assms(1) InWrite w part show ?thesis by (simp add: in_inv_def)
  qed
qed (use assms in \<open>simp_all add: in_inv_def\<close>)

lemma in_inv_prefix:
  "in_inv D s \<Longrightarrow> prefix (sink_bytes Inbound (sh_child s)) D \<and>
     (\<forall>e. sh_in s = InDone e \<longrightarrow> (\<nexists>m. e = Some (WriteChild m)) \<longrightarrow> sink_bytes Inbound (sh_child s) = D)"
  by (cases "(D, sink_bytes Inbound (sh_child s), sh_from_client s, sh_in s)" rule: in_ok.cases)
    (auto simp: in_inv_def)

lemma in_inv_start: "reader_ok input \<Longrightarrow> sk_log (cd_stdin c) = [] \<Longrightarrow> in_inv (rd_data input) (shim_start g c input out)"
  by (simp add: in_inv_def shim_start_def sink_bytes_def)

lemma note_act [simp]: "g_act (note_response gx coarse i r g) = g_act g"
  by (simp add: note_response_def)

lemma out_step_act [simp]: "g_act (sh_g (out_step gx coarse pc s)) = g_act (sh_g s)"
  by (induction gx coarse pc s rule: out_step.induct) (simp_all add: split_beta out_read_def Let_def split: option.split)

lemma decideCall_act: "g_act (snd (decideCall gx tok coarse c b g)) = g_act g"
  using leads_act [OF decideCall_leads] by (metis prod.collapse)

lemma indeterminateCall_act: "g_act (snd (indeterminateCall gx coarse st rs g)) = g_act g"
  using leads_act [OF indeterminateCall_leads] by (metis prod.collapse)

lemma in_step_act [simp]: "g_act (sh_g (in_step gx coarse pc s)) = g_act (sh_g s)"
proof (induction gx coarse pc s rule: in_step.induct)
  case (2 gx coarse tcs blocked chunk err s)
  show ?case by (cases tcs) (simp_all add: split_beta Let_def decideCall_act indeterminateCall_act split: option.split)
qed (simp_all add: in_read_def split_beta Let_def indeterminateCall_act split: option.split)

text \<open>
  C0. In monitor mode the way in is transparent too: in every interleaving the child has received
  a prefix of the client's bytes, and all of them when \<open>relay\<close> has returned without a write error.
\<close>

theorem monitor_child_sees_client:
  assumes "g_act g = monitor_plan" and "reader_ok input" and "sk_log (cd_stdin c) = []"
    and "s = relays gx coarse sched (shim_start g c input out)"
  shows "prefix (sink_bytes Inbound (sh_child s)) (rd_data input) \<and>
     (\<forall>e. sh_in s = InDone e \<longrightarrow> (\<nexists>m. e = Some (WriteChild m)) \<longrightarrow> sink_bytes Inbound (sh_child s) = rd_data input)"
proof -
  have f: "pl_Forward (snd (fst (decideCall gx '''' coarse k b h)))" if "g_act h = monitor_plan" for h k b
    using decideCall_monitor [OF that] by (metis prod.collapse)
  have "in_inv (rd_data input) s \<and> g_act (sh_g s) = monitor_plan"
    unfolding assms(4)
  proof (rule relays_inv)
    show "in_inv (rd_data input) (shim_start g c input out) \<and> g_act (sh_g (shim_start g c input out)) = monitor_plan"
      using in_inv_start assms(1-3) by (simp add: shim_start_def)
  qed (auto intro: in_step_in_inv out_step_in_inv f)
  then show ?thesis using in_inv_prefix by blast
qed

text \<open>
  Enforcement ends where inspection does: a line of more than \<open>maxInspect\<close> bytes.
\<close>

fun uninspected :: "in_pc \<Rightarrow> string \<Rightarrow> bool" where
  "uninspected (InRead k) rest \<longleftrightarrow> k \<or> maxInspect \<le> int (length rest)"
| "uninspected (InWrite chunk err) rest \<longleftrightarrow> err \<noteq> ReadOK"
| "uninspected (InDone e) rest \<longleftrightarrow> True"
| "uninspected pc rest \<longleftrightarrow> False"

lemma uninspected_next: "err \<noteq> ReadOK \<Longrightarrow> uninspected (in_next err) rest"
  by (cases err) simp_all

lemma ReadSlice_no_newline:
  assumes "ReadSlice n rd = ((chunk, err), rd')" and "CHR 0x0A \<notin> set (rd_data rd)" and "rd_end rd \<noteq> ReadOK"
  shows "err \<noteq> ReadOK" and "n \<le> int (length (rd_data rd)) \<Longrightarrow> err = BufferFull"
proof -
  have "takeWhile (\<lambda>c. c \<noteq> CHR 0x0A) (rd_data rd) = rd_data rd"
    using assms(2) by (intro takeWhile_eq_all_conv [THEN iffD2]) auto
  with assms show "err \<noteq> ReadOK" "n \<le> int (length (rd_data rd)) \<Longrightarrow> err = BufferFull"
    by (auto simp: ReadSlice_def Let_def split: if_splits)
qed

definition big_inv :: "string \<Rightarrow> ('l, 'k, 's, 'tok, 'pol) shim \<Rightarrow> bool" where
  "big_inv D s \<longleftrightarrow> in_inv D s \<and> CHR 0x0A \<notin> set (rd_data (sh_from_client s)) \<and> uninspected (sh_in s) (rd_data (sh_from_client s)) \<and>
     filter (\<lambda>(w, b). w = Inbound) (sk_log (sh_client s)) = []"

lemma in_step_big: "big_inv D s \<Longrightarrow> sh_in s = pc \<Longrightarrow> big_inv D (in_step gx coarse pc s)"
proof -
  assume b: "big_inv D s" and pc: "sh_in s = pc"
  have i: "in_inv D (in_step gx coarse pc s)" using b pc by (intro in_step_in_inv) (auto simp: big_inv_def)
  show ?thesis
  proof (cases pc)
    case (InRead k)
    obtain chunk err rd where r: "ReadSlice maxInspect (sh_from_client s) = ((chunk, err), rd)"
      by (cases "ReadSlice maxInspect (sh_from_client s)") auto
    note sp = read_split [OF r]
    have n: "CHR 0x0A \<notin> set (rd_data (sh_from_client s))" "rd_end (sh_from_client s) \<noteq> ReadOK" "k \<or> maxInspect \<le> int (length (rd_data (sh_from_client s)))"
      using b pc InRead by (auto simp: big_inv_def in_inv_def reader_ok_def)
    note e = ReadSlice_no_newline [OF r n(1,2)]
    have "CHR 0x0A \<notin> set (rd_data rd)" using n(1) sp(1) by auto
    with i b InRead r n(3) e uninspected_next [OF e(1)] show ?thesis
      by (auto simp: big_inv_def in_read_def split_beta Let_def)
  next
    case (InWrite chunk err)
    with i b pc uninspected_next [of err] show ?thesis by (auto simp: big_inv_def split_beta split: option.split)
  qed (use i b pc in \<open>simp_all add: big_inv_def\<close>)
qed

lemma out_step_big: "big_inv D s \<Longrightarrow> big_inv D (out_step gx coarse pc s)"
proof -
  have "filter (\<lambda>(w, b). w = Inbound) (sk_log (sh_client (out_step gx coarse pc s))) =
      filter (\<lambda>(w, b). w = Inbound) (sk_log (sh_client s))"
  proof (induction gx coarse pc s rule: out_step.induct)
    case (5 gx coarse chunk err s)
    obtain r c where w: "sink_write Outbound chunk (sh_client s) = (r, c)" by fastforce
    then show ?case by (cases rule: write_cases) (simp_all add: w)
  qed (simp_all add: split_beta out_read_def Let_def)
  then show "big_inv D s \<Longrightarrow> big_inv D (out_step gx coarse pc s)" by (simp add: big_inv_def out_step_in_inv)
qed

text \<open>
  C0. A long line passes enforcement.  Whatever the policies and the actuator, when the client
  sends one line of at least \<open>maxInspect\<close> bytes, in every interleaving the child receives it
  unchanged, none of its calls is denied, and \<open>relay\<close> ends having written all of it.
\<close>

theorem long_line_uninspected:
  assumes "maxInspect \<le> int (length (rd_data input))" and "CHR 0x0A \<notin> set (rd_data input)" and "reader_ok input"
    and "sk_log (cd_stdin c) = []" and "sk_log out = []" and "s = relays gx coarse sched (shim_start g c input out)"
  shows "prefix (sink_bytes Inbound (sh_child s)) (rd_data input) \<and> sink_bytes Inbound (sh_client s) = [] \<and>
     (\<forall>e. sh_in s = InDone e \<longrightarrow> (\<nexists>m. e = Some (WriteChild m)) \<longrightarrow> sink_bytes Inbound (sh_child s) = rd_data input)"
proof -
  have "big_inv (rd_data input) s"
    unfolding assms(6)
  proof (rule relays_inv)
    show "big_inv (rd_data input) (shim_start g c input out)"
      using in_inv_start [OF assms(3,4)] assms(1,2,5) by (simp add: big_inv_def shim_start_def)
  qed (auto intro: in_step_big out_step_big)
  then show ?thesis using in_inv_prefix by (auto simp: big_inv_def sink_bytes_def)
qed


section \<open>Witnesses\<close>

definition quiet :: "string \<Rightarrow> child" where
  "quiet b = \<lparr>cd_StdinPipe = None, cd_StdoutPipe = None, cd_Start = None, cd_output = \<lparr>rd_data = b, rd_end = ReadEnd\<rparr>,
     cd_stdin = \<lparr>sk_log = [], sk_fails = (\<lambda>_. None)\<rparr>, cd_Wait = None\<rparr>"

definition typed :: "string \<Rightarrow> reader" where
  "typed b = \<lparr>rd_data = b, rd_end = ReadEnd\<rparr>"

definition screen :: sink where
  "screen = \<lparr>sk_log = [], sk_fails = (\<lambda>_. None)\<rparr>"

definition asking :: string where
  "asking = json_obj [(''method'', json_key ''tools/call''), (''params'', json_obj [(''name'', json_key ''ls'')]), (''id'', json_key ''a'')]"

definition answering :: string where
  "answering = json_obj [(''result'', json_key ''r''), (''id'', json_key ''a'')]"

lemma quiet_simps [simp]:
  "cd_output (quiet b) = typed b" "sk_log (cd_stdin (quiet b)) = []" "sk_log screen = []" "rd_data (typed b) = b" "reader_ok (typed b)"
  by (simp_all add: quiet_def typed_def screen_def reader_ok_def)

theorem client_sees_child_output_witness:
  "sink_bytes Outbound (sh_client (relays toy_platform ''h'' (replicate 4 Outbound) (shim_start toy_gateway (quiet ''ok'') (typed []) screen))) = ''ok''"
proof -
  have "sh_out (relays toy_platform ''h'' (replicate 4 Outbound) (shim_start toy_gateway (quiet ''ok'') (typed []) screen)) = OutDone None"
    by code_simp
  with client_sees_child_output [of "quiet ''ok''" screen _ toy_platform "''h''" "replicate 4 Outbound" toy_gateway "typed []", OF _ _ refl]
  show ?thesis by simp
qed


theorem monitor_child_sees_client_witness:
  "prefix (sink_bytes Inbound (sh_child (relays toy_platform ''h'' (replicate 5 Inbound) (shim_start toy_gateway (quiet []) (typed asking) screen)))) asking"
proof -
  have g: "g_act toy_gateway = monitor_plan" by (simp add: toy_gateway_def newHTTPGateway_def newGateway_def)
  from monitor_child_sees_client [of toy_gateway "typed asking" "quiet []" _ toy_platform "''h''" "replicate 5 Inbound" screen, OF g _ _ refl]
  show ?thesis by simp
qed

theorem long_line_uninspected_witness:
  "prefix (sink_bytes Inbound (sh_child (relays toy_platform ''h'' (replicate 3 Inbound)
     (shim_start toy_enforcing (quiet []) (typed (replicate (nat maxInspect) CHR ''x'')) screen)))) (replicate (nat maxInspect) CHR ''x'')"
proof -
  have l: "maxInspect \<le> int (length (rd_data (typed (replicate (nat maxInspect) CHR ''x''))))" "CHR 0x0A \<notin> set (rd_data (typed (replicate (nat maxInspect) CHR ''x'')))"
    by simp_all
  from long_line_uninspected [of _ "quiet []" screen _ toy_platform "''h''" "replicate 3 Inbound" toy_enforcing, OF l _ _ _ refl]
  show ?thesis by simp
qed

end
