(* ===== verification/Shim_Session.thy ===== *)
theory Shim_Session
  imports Shim_Relay Block_Filter Ledger_Paths "HOL-Library.Multiset"
begin

text \<open>
  What a stdio session (\<open>Shim_Relay\<close>) promises as a whole: the response records it writes,
  the composition of its two relays with the correlator of \<open>Shim_Pending\<close>, and enforcement.
\<close>

section \<open>A session joins each response once\<close>

text \<open>What a turn does to the correlator, and the response record it appends, as (id, call).\<close>

fun in_events :: "in_pc \<Rightarrow> event list" where
  "in_events (InTrack tc callID f tcs b c e) = [Track (tc_ID tc) callID]"
| "in_events (InAnswer (r # rs) tcs b c e) = [Claim (rs_ID r)]"
| "in_events pc = []"

fun out_events :: "out_pc \<Rightarrow> event list" where
  "out_events (OutAnswer (r # rs) c e) = [Claim (rs_ID r)]"
| "out_events pc = []"

fun in_notes :: "in_pc \<Rightarrow> (string \<times> string) list" where
  "in_notes (InNote callID r rs tcs b c e) = [(rs_ID r, callID)]"
| "in_notes pc = []"

fun out_notes :: "out_pc \<Rightarrow> (string \<times> string) list" where
  "out_notes (OutNote callID r rs c e) = [(rs_ID r, callID)]"
| "out_notes pc = []"

definition turn_events :: "side \<Rightarrow> ('l, 'k, 's, 'tok, 'pol) shim \<Rightarrow> event list" where
  "turn_events w s = (case w of Inbound \<Rightarrow> in_events (sh_in s) | Outbound \<Rightarrow> out_events (sh_out s))"

definition turn_notes :: "side \<Rightarrow> ('l, 'k, 's, 'tok, 'pol) shim \<Rightarrow> (string \<times> string) list" where
  "turn_notes w s = (case w of Inbound \<Rightarrow> in_notes (sh_in s) | Outbound \<Rightarrow> out_notes (sh_out s))"

text \<open>Over a run, most recent first.\<close>

fun history :: "('l, 'k, 'p, 's, 'q, 'tok, 'pol) platform \<Rightarrow> string \<Rightarrow> side list \<Rightarrow> ('l, 'k, 's, 'tok, 'pol) shim \<Rightarrow> event list" where
  "history gx coarse [] s = []"
| "history gx coarse (w # ws) s = history gx coarse ws (turn gx coarse w s) @ turn_events w s"

fun noted :: "('l, 'k, 'p, 's, 'q, 'tok, 'pol) platform \<Rightarrow> string \<Rightarrow> side list \<Rightarrow> ('l, 'k, 's, 'tok, 'pol) shim \<Rightarrow>
    (string \<times> string) list" where
  "noted gx coarse [] s = []"
| "noted gx coarse (w # ws) s = noted gx coarse ws (turn gx coarse w s) @ turn_notes w s"

lemma history_snoc: "history gx coarse (ws @ [w]) s = turn_events w (relays gx coarse ws s) @ history gx coarse ws s"
  by (induction ws arbitrary: s) (simp_all add: relays_def)

lemma noted_snoc: "noted gx coarse (ws @ [w]) s = turn_notes w (relays gx coarse ws s) @ noted gx coarse ws s"
  by (induction ws arbitrary: s) (simp_all add: relays_def)

text \<open>A turn changes the correlator by its event, and holds what a claim gave it.\<close>

lemma turn_pend: "sh_pend (turn gx coarse w s) = after pend_step (sh_pend s) (turn_events w s)"
proof (cases w)
  case Inbound
  have "sh_pend (in_step gx coarse pc s) = after pend_step (sh_pend s) (in_events pc)" for pc
    by (induction gx coarse pc s rule: in_step.induct) (simp_all add: pend_step_def split_beta split: option.split)
  with Inbound show ?thesis by (simp add: turn_def turn_events_def)
next
  case Outbound
  have "sh_pend (out_step gx coarse pc s) = after pend_step (sh_pend s) (out_events pc)" for pc
    by (induction gx coarse pc s rule: out_step.induct) (simp_all add: pend_step_def split_beta out_read_def Let_def split: option.split)
  with Outbound show ?thesis by (simp add: turn_def turn_events_def)
qed

lemma after_append: "after st s (a @ b) = after st (after st s b) a"
  by (induction a) simp_all

lemma relays_pend: "sh_pend (relays gx coarse ws s) = after pend_step (sh_pend s) (history gx coarse ws s)"
  by (induction ws rule: rev_induct) (simp_all add: turn_pend history_snoc after_append)

definition claimed :: "event list \<Rightarrow> pending \<Rightarrow> (string \<times> string) list" where
  "claimed es p = concat (map (\<lambda>e. case e of Claim i \<Rightarrow> if fst (claim i p) = '''' then [] else [(i, fst (claim i p))] | Track i c \<Rightarrow> []) es)"

lemma in_next_notes [simp]: "in_notes (in_next err) = []"
  by (cases err) simp_all

lemma out_next_notes [simp]: "out_notes (out_next err) = []"
  by (cases err) simp_all

lemma in_step_claims: "sh_in s = pc \<Longrightarrow> in_notes (sh_in (in_step gx coarse pc s)) = claimed (in_events pc) (sh_pend s)"
proof (induction gx coarse pc s rule: in_step.induct)
  case (2 gx coarse tcs blocked chunk err s)
  show ?case by (cases tcs) (simp_all add: claimed_def split_beta Let_def split: option.split)
qed (simp_all add: claimed_def in_read_def split_beta Let_def split: option.split)

lemma out_step_claims: "sh_out s = pc \<Longrightarrow> out_notes (sh_out (out_step gx coarse pc s)) = claimed (out_events pc) (sh_pend s)"
  by (induction gx coarse pc s rule: out_step.induct) (simp_all add: claimed_def out_read_def split_beta Let_def split: option.split)

lemma turn_claims:
  "mset (in_notes (sh_in (turn gx coarse w s))) + mset (out_notes (sh_out (turn gx coarse w s))) + mset (turn_notes w s) =
   mset (in_notes (sh_in s)) + mset (out_notes (sh_out s)) + mset (claimed (turn_events w s) (sh_pend s))"
  by (cases w) (simp_all add: turn_def turn_notes_def turn_events_def in_step_claims out_step_claims)

text \<open>The records appended, with those about to be, are the answers the history gives.\<close>

lemma answers_event:
  "length es \<le> 1 \<Longrightarrow> answers claim st (es @ h) = claimed es (st h) @ answers claim st h"
  by (cases es) (auto simp: claimed_def split: event.split)

lemma turn_events_one: "length (turn_events w s) \<le> 1"
proof -
  have "length (in_events pc) \<le> 1" for pc by (cases pc rule: in_events.cases) simp_all
  moreover have "length (out_events pc) \<le> 1" for pc by (cases pc rule: out_events.cases) simp_all
  ultimately show ?thesis by (simp add: turn_events_def split: side.split)
qed

lemma notes_are_answers:
  assumes "sh_pend s = pending_init" and "sh_in s = InRead False" and "sh_out s = OutRead False"
  shows "mset (in_notes (sh_in (relays gx coarse ws s))) + mset (out_notes (sh_out (relays gx coarse ws s))) +
     mset (noted gx coarse ws s) = mset (answers claim (after pend_step pending_init) (history gx coarse ws s))"
proof (induction ws rule: rev_induct)
  case (snoc w ws)
  let ?s = "relays gx coarse ws s"
  have "sh_pend ?s = after pend_step pending_init (history gx coarse ws s)" using relays_pend assms(1) by metis
  then have "mset (answers claim (after pend_step pending_init) (history gx coarse (ws @ [w]) s)) =
      mset (claimed (turn_events w ?s) (sh_pend ?s)) + mset (answers claim (after pend_step pending_init) (history gx coarse ws s))"
    by (simp add: history_snoc answers_event [OF turn_events_one])
  with snoc turn_claims [of gx coarse w ?s] show ?case by (simp add: noted_snoc ac_simps) 
qed (use assms in simp)

lemma distinct_submset: "mset xs \<subseteq># mset ys \<Longrightarrow> distinct ys \<Longrightarrow> distinct xs"
proof -
  assume "mset xs \<subseteq># mset ys" "distinct ys"
  then obtain zs where "mset ys = mset (xs @ zs)" by (metis ex_mset mset_append mset_subset_eq_exists_conv)
  with \<open>distinct ys\<close> have "distinct (xs @ zs)" using mset_eq_imp_distinct_iff by blast
  then show "distinct xs" by simp
qed

text \<open>Call ids are fresh: one for each use of the source of randomness.\<close>

lemma identify_rand: "identify gx tok coarse tool g = (who, g') \<Longrightarrow> g_rand g' = g_rand g"
proof -
  have m: "g_rand (snd (autoMint gx coarse g)) = g_rand g" for g
    by (simp add: autoMint_def Let_def split_beta split: option.split sum.split)
  have d: "g_rand (snd (derive_checked gx tok coarse tool g)) = g_rand g" for tok g
    by (simp add: derive_checked_def Let_def split_beta split: sum.split)
  have "g_rand (snd (identify gx tok coarse tool g)) = g_rand g"
    by (simp add: identify_def Let_def split_beta d m split: option.split sum.split)
  then show "identify gx tok coarse tool g = (who, g') \<Longrightarrow> g_rand g' = g_rand g" by simp
qed

lemma decideCall_rand:
  assumes "decideCall gx tok coarse c b g = ((i, pl), g')"
  shows "i = gx_text gx (g_rand g) \<and> g_rand g' = Suc (g_rand g)"
  using assms by (rule decideCall_parts) (auto dest: identify_rand)

lemma indeterminateCall_rand: "indeterminateCall gx coarse st rs g = (i, g') \<Longrightarrow> i = gx_text gx (g_rand g) \<and> g_rand g' = Suc (g_rand g)"
  by (auto simp: indeterminateCall_def newCallID_def Let_def)

definition fresh_upto :: "('l, 'k, 'p, 's, 'q, 'tok, 'pol) platform \<Rightarrow> nat \<Rightarrow> string list \<Rightarrow> bool" where
  "fresh_upto gx n cs \<longleftrightarrow> distinct cs \<and> set cs \<subseteq> gx_text gx ` {..<n}"

lemma fresh_step: "inj (gx_text gx) \<Longrightarrow> fresh_upto gx n cs \<Longrightarrow> fresh_upto gx (Suc n) (gx_text gx n # cs)"
  by (auto simp: fresh_upto_def inj_eq)

lemma fresh_skip: "fresh_upto gx n cs \<Longrightarrow> fresh_upto gx (Suc n) cs"
  by (auto simp: fresh_upto_def)

fun deciding :: "in_pc \<Rightarrow> string list" where
  "deciding (InTrack tc callID f tcs b c e) = [callID]"
| "deciding pc = []"

lemma deciding_next [simp]: "deciding (in_next err) = []"
  by (cases err) simp_all

lemma tracked_append: "tracked (a @ b) = tracked a @ tracked b"
  by (induction a rule: tracked.induct) simp_all

lemma in_step_fresh:
  assumes "inj (gx_text gx)" and "fresh_upto gx (g_rand (sh_g s)) (deciding pc @ cs)" and "sh_in s = pc"
  shows "fresh_upto gx (g_rand (sh_g (in_step gx coarse pc s))) (deciding (sh_in (in_step gx coarse pc s)) @ tracked (in_events pc) @ cs)"
  using assms
proof (induction gx coarse pc s rule: in_step.induct)
  case (1 gx coarse k s)
  obtain i g where "indeterminateCall gx coarse AssertionAbsent ''line exceeds inspection limit'' (sh_g s) = (i, g)" by fastforce
  with indeterminateCall_rand [OF this] 1 show ?case by (auto simp: in_read_def split_beta Let_def intro: fresh_skip)
next
  case (2 gx coarse tcs blocked chunk err s)
  show ?case
  proof (cases tcs)
    case Nil
    with 2 show ?thesis by (simp split: option.split)
  next
    case (Cons tc ts)
    obtain i g where i: "indeterminateCall gx coarse AssertionAbsent ''undecodable tools/call params'' (sh_g s) = (i, g)" by fastforce
    obtain j pl h where d: "decideCall gx '''' coarse (shim_call tc) chunk (sh_g s) = ((j, pl), h)"
      by (cases "decideCall gx '''' coarse (shim_call tc) chunk (sh_g s)") auto
    from Cons 2 i d indeterminateCall_rand [OF i] decideCall_rand [OF d] show ?thesis by (auto intro: fresh_step)
  qed
qed (auto simp: split_beta note_response_def split: option.split)

lemma out_step_rand [simp]: "g_rand (sh_g (out_step gx coarse pc s)) = g_rand (sh_g s)"
  by (induction gx coarse pc s rule: out_step.induct)
    (simp_all add: split_beta note_response_def out_read_def Let_def split: option.split)

lemma out_tracked [simp]: "tracked (out_events pc) = []"
  by (cases pc rule: out_events.cases) simp_all

lemma relays_fresh:
  assumes "inj (gx_text gx)" and "sh_in s = InRead False"
  shows "fresh_upto gx (g_rand (sh_g (relays gx coarse ws s))) (deciding (sh_in (relays gx coarse ws s)) @ tracked (history gx coarse ws s))"
proof (induction ws rule: rev_induct)
  case (snoc w ws)
  with in_step_fresh [OF assms(1)] show ?case
    by (cases w) (simp_all add: turn_def turn_events_def history_snoc tracked_append)
qed (use assms in \<open>simp add: fresh_upto_def\<close>)



section \<open>The way in, when calls are stopped\<close>

lemma note_response_leads: "leads_to cx g (note_response gx coarse i r g)"
  by (rule leads_one) (auto simp: note_response_def settings_def intro: ledger_step.AppendResponse)

lemma out_step_leads: "leads_to cx (sh_g s) (sh_g (out_step gx coarse pc s))"
  by (induction gx coarse pc s rule: out_step.induct)
    (auto simp: split_beta out_read_def Let_def note_response_leads split: option.split)

lemma in_step_leads: "leads_to (gx_codec gx) (sh_g s) (sh_g (in_step gx coarse pc s))"
proof (induction gx coarse pc s rule: in_step.induct)
  case (1 gx coarse k s)
  obtain i g where "indeterminateCall gx coarse AssertionAbsent ''line exceeds inspection limit'' (sh_g s) = (i, g)" by fastforce
  with indeterminateCall_leads [OF this, of "gx_codec gx"] show ?case by (simp add: in_read_def split_beta Let_def)
next
  case (2 gx coarse tcs blocked chunk err s)
  show ?case
  proof (cases tcs)
    case (Cons tc ts)
    obtain i g where i: "indeterminateCall gx coarse AssertionAbsent ''undecodable tools/call params'' (sh_g s) = (i, g)" by fastforce
    obtain j pl h where d: "decideCall gx '''' coarse (shim_call tc) chunk (sh_g s) = ((j, pl), h)"
      by (cases "decideCall gx '''' coarse (shim_call tc) chunk (sh_g s)") auto
    from Cons i d indeterminateCall_leads [OF i, of "gx_codec gx"] decideCall_leads [OF d] show ?thesis by simp
  qed (simp split: option.split)
qed (auto simp: split_beta note_response_leads split: option.split)

text \<open>
  What became of a call of the line: \<open>f\<close> says whether it was let through.  A named one was decided
  on the bytes of this line, and if it was stopped that is on record.
\<close>

definition judged :: "('l, 'k, 'p, 's, 'q, 'tok, 'pol) platform \<Rightarrow> string \<Rightarrow> string \<Rightarrow> ('l, 'k, 's, 'tok, 'pol) gateway \<Rightarrow>
    ('l, 'k, 's, 'tok, 'pol) gateway \<Rightarrow> tool_call \<Rightarrow> bool \<Rightarrow> bool" where
  "judged gx coarse chunk g0 g tc f \<longleftrightarrow>
     (if tc_Name tc = '''' then f
      else (\<exists>g1 i pl g2. leads_to (gx_codec gx) g0 g1 \<and> decideCall gx '''' coarse (shim_call tc) chunk g1 = ((i, pl), g2) \<and>
              pl_Forward pl = f) \<and>
           (\<not> f \<longrightarrow> on_record (gx_codec gx) (g_led g) coarse chunk tc))"

definition stopped_of :: "(tool_call \<times> bool) list \<Rightarrow> tool_call list" where
  "stopped_of ds = map fst (filter (\<lambda>d. \<not> snd d) ds)"

definition denials :: "('l, 'k, 's, 'tok, 'pol) shim \<Rightarrow> (side \<times> string) list" where
  "denials s = filter (\<lambda>(w, b). w = Inbound) (sk_log (sh_client s))"

lemma stopped_snoc [simp]: "stopped_of (ds @ [(tc, f)]) = stopped_of ds @ (if f then [] else [tc])"
  by (simp add: stopped_of_def)

text \<open>
  Inside a line: what has been decided so far, and that the client has been told of what was
  stopped, up to \<open>d\<close>, the denial that is due.
\<close>

definition so_far :: "('l, 'k, 'p, 's, 'q, 'tok, 'pol) platform \<Rightarrow> string \<Rightarrow> string \<Rightarrow> ('l, 'k, 's, 'tok, 'pol) shim \<Rightarrow>
    ('l, 'k, 's, 'tok, 'pol) shim \<Rightarrow> tool_call list \<Rightarrow> string list \<Rightarrow> tool_call list \<Rightarrow> (tool_call \<times> bool) list \<Rightarrow> bool" where
  "so_far gx coarse chunk s0 s tcs blocked due ds \<longleftrightarrow>
     map fst ds @ tcs = ParseToolsCalls chunk \<and> blocked = rev (map tc_ID (stopped_of ds)) \<and>
     denials s @ map (\<lambda>tc. (Inbound, denial_line (tc_ID tc))) due =
       denials s0 @ map (\<lambda>tc. (Inbound, denial_line (tc_ID tc))) (stopped_of ds) \<and>
     sh_child s = sh_child s0 \<and> (\<forall>(tc, f) \<in> set ds. judged gx coarse chunk (sh_g s0) (sh_g s) tc f)"

definition left_over :: "string \<Rightarrow> string list \<Rightarrow> string option" where
  "left_over chunk blocked = (if blocked = [] then Some chunk else filterBlockedCalls chunk (blockedSet blocked))"

fun line_ok :: "('l, 'k, 'p, 's, 'q, 'tok, 'pol) platform \<Rightarrow> string \<Rightarrow> string \<Rightarrow> ('l, 'k, 's, 'tok, 'pol) shim \<Rightarrow>
    ('l, 'k, 's, 'tok, 'pol) shim \<Rightarrow> in_pc \<Rightarrow> bool" where
  "line_ok gx coarse chunk s0 s (InCalls tcs b c e) \<longleftrightarrow> c = chunk \<and> (\<exists>ds. so_far gx coarse chunk s0 s tcs b [] ds)"
| "line_ok gx coarse chunk s0 s (InTrack tc i f tcs b c e) \<longleftrightarrow> c = chunk \<and>
     (\<exists>ds. so_far gx coarse chunk s0 s (tc # tcs) b [] ds \<and> judged gx coarse chunk (sh_g s0) (sh_g s) tc f)"
| "line_ok gx coarse chunk s0 s (InDeny tc tcs b c e) \<longleftrightarrow> c = chunk \<and>
     (\<exists>ds. so_far gx coarse chunk s0 s tcs b [tc] (ds @ [(tc, False)]))"
| "line_ok gx coarse chunk s0 s (InAnswer rs tcs b c e) \<longleftrightarrow> c = chunk \<and> (\<exists>ds. so_far gx coarse chunk s0 s tcs b [] ds)"
| "line_ok gx coarse chunk s0 s (InNote i r rs tcs b c e) \<longleftrightarrow> c = chunk \<and> (\<exists>ds. so_far gx coarse chunk s0 s tcs b [] ds)"
| "line_ok gx coarse chunk s0 s (InWrite left e) \<longleftrightarrow>
     (\<exists>ds b. so_far gx coarse chunk s0 s [] b [] ds \<and> left_over chunk b = Some left)"
| "line_ok gx coarse chunk s0 s pc \<longleftrightarrow> True"

lemma line_next [simp]: "line_ok gx coarse chunk s0 s (in_next err)"
  by (cases err) simp_all

definition sound_gateway :: "('l, 'k, 'p) codec \<Rightarrow> ('l, 'k, 's, 'tok, 'pol) gateway \<Rightarrow> ('l, 'k, 's, 'tok, 'pol) gateway \<Rightarrow> bool" where
  "sound_gateway cx g0 g \<longleftrightarrow> leads_to cx g0 g \<and> actuator (g_act g) \<and> records_only (l_queue (g_led g))"

lemma sound_later:
  assumes "sound_gateway cx g0 g" and "leads_to cx g g'"
  shows "sound_gateway cx g0 g'"
proof -
  have "leads_to cx g0 g'" using assms leads_trans by (auto simp: sound_gateway_def)
  moreover have "records_only (l_queue (g_led g'))" using assms steps_grow by (auto simp: sound_gateway_def leads_to_def)
  ultimately show ?thesis using assms(1) leads_act [OF assms(2)] by (simp add: sound_gateway_def)
qed

lemma judged_later:
  assumes "judged gx coarse chunk g0 g tc f" and "leads_to (gx_codec gx) g g'" and "sound_gateway (gx_codec gx) g0 g"
  shows "judged gx coarse chunk g0 g' tc f"
  using assms on_record_later [of "gx_codec gx" "g_led g" "g_led g'" coarse chunk tc]
  by (auto simp: judged_def sound_gateway_def leads_to_def)

lemma so_far_later:
  assumes "so_far gx coarse chunk s0 s tcs b due ds" and "leads_to (gx_codec gx) (sh_g s) (sh_g s')"
    and "sound_gateway (gx_codec gx) (sh_g s0) (sh_g s)" and "denials s' = denials s" and "sh_child s' = sh_child s"
  shows "so_far gx coarse chunk s0 s' tcs b due ds"
  using assms judged_later [OF _ assms(2,3)] by (auto simp: so_far_def)

lemma line_ok_later:
  assumes "line_ok gx coarse chunk s0 s pc" and "leads_to (gx_codec gx) (sh_g s) (sh_g s')"
    and "sound_gateway (gx_codec gx) (sh_g s0) (sh_g s)" and "denials s' = denials s" and "sh_child s' = sh_child s"
  shows "line_ok gx coarse chunk s0 s' pc"
  using assms(1) so_far_later [OF _ assms(2-5)] judged_later [OF _ assms(2,3)] by (cases pc) (simp_all, blast+)

lemma judged_call:
  assumes "sound_gateway (gx_codec gx) g0 g" and "tc_Name tc \<noteq> ''''"
    and "decideCall gx '''' coarse (shim_call tc) chunk g = ((i, pl), g')"
  shows "judged gx coarse chunk g0 g' tc (pl_Forward pl)"
proof -
  have "on_record (gx_codec gx) (g_led g') coarse chunk tc" if n: "\<not> pl_Forward pl"
  proof -
    have "x_Tool (classify gx (shim_call tc)) = tc_Name tc"
      using classify_tool [of "shim_call tc"] assms(2) by (simp add: shim_call_def)
    with decideCall_stops [OF _ _ assms(3) n] assms(1) show ?thesis by (auto simp: on_record_def sound_gateway_def)
  qed
  with assms show ?thesis unfolding judged_def sound_gateway_def by auto
qed


lemma denials_write:
  assumes "sink_write w b (sh_client s) = (r, c)"
  shows "denials (s\<lparr>sh_client := c, sh_in := pc\<rparr>) =
     denials s @ (if w = Inbound then [(Inbound, if r = None then b else take (fst (the (sk_fails (sh_client s) (length (sk_log (sh_client s)))))) b)] else [])"
  using assms by (auto simp: denials_def sink_write_def split: option.splits prod.splits)

lemma out_step_denials: "denials (out_step gx coarse pc s) = denials s"
proof (induction gx coarse pc s rule: out_step.induct)
  case (5 gx coarse chunk err s)
  obtain r c where w: "sink_write Outbound chunk (sh_client s) = (r, c)" by fastforce
  then show ?case by (cases rule: write_cases) (simp_all add: w denials_def)
qed (simp_all add: split_beta out_read_def Let_def denials_def)

lemma in_step_line:
  assumes "sound_gateway (gx_codec gx) (sh_g s0) (sh_g s)" and "line_ok gx coarse chunk s0 s pc" and "sh_in s = pc" and "\<nexists>k. pc = InRead k"
  shows "line_ok gx coarse chunk s0 (in_step gx coarse pc s) (sh_in (in_step gx coarse pc s))"
proof -
  note later = so_far_later [OF _ in_step_leads assms(1)]
  show ?thesis
  proof (cases pc)
    case (InCalls tcs b c e)
    with assms(2) obtain ds where c: "c = chunk" and ds: "so_far gx coarse chunk s0 s tcs b [] ds" by auto
    show ?thesis
    proof (cases tcs)
      case Nil
      show ?thesis
      proof (cases "left_over chunk b")
        case None
        with InCalls Nil c show ?thesis by (simp add: left_over_def)
      next
        case (Some left)
        have "so_far gx coarse chunk s0 (s\<lparr>sh_in := InWrite left e\<rparr>) [] b [] ds"
          using ds Nil by (simp add: so_far_def denials_def)
        with Some have "line_ok gx coarse chunk s0 (s\<lparr>sh_in := InWrite left e\<rparr>) (InWrite left e)" by auto
        with Some InCalls Nil c show ?thesis by (simp add: left_over_def)
      qed
    next
      case (Cons tc ts)
      show ?thesis
      proof (cases "tc_Name tc = ''''")
        case True
        obtain i g where i: "indeterminateCall gx coarse AssertionAbsent ''undecodable tools/call params'' (sh_g s) = (i, g)" by fastforce
        let ?s = "s\<lparr>sh_g := g, sh_in := InTrack tc i True ts b c e\<rparr>"
        have "so_far gx coarse chunk s0 ?s tcs b [] ds"
          using so_far_later [OF ds, of ?s] indeterminateCall_leads [OF i, of "gx_codec gx"] assms(1) by (simp add: denials_def)
        with True InCalls Cons c i show ?thesis by (auto simp: judged_def)
      next
        case False
        obtain i pl g where d: "decideCall gx '''' coarse (shim_call tc) chunk (sh_g s) = ((i, pl), g)"
          by (cases "decideCall gx '''' coarse (shim_call tc) chunk (sh_g s)") auto
        let ?s = "s\<lparr>sh_g := g, sh_in := InTrack tc i (pl_Forward pl) ts b c e\<rparr>"
        have "so_far gx coarse chunk s0 ?s tcs b [] ds"
          using so_far_later [OF ds, of ?s] decideCall_leads [OF d] assms(1) by (simp add: denials_def)
        with False InCalls Cons c d judged_call [OF assms(1) False d] show ?thesis by auto
      qed
    qed
  next
    case (InTrack tc i f tcs b c e)
    with assms(2) obtain ds where c: "c = chunk" and ds: "so_far gx coarse chunk s0 s (tc # tcs) b [] ds"
      and j: "judged gx coarse chunk (sh_g s0) (sh_g s) tc f" by auto
    let ?s = "in_step gx coarse pc s"
    have g: "sh_g ?s = sh_g s" "denials ?s = denials s" "sh_child ?s = sh_child s" by (simp_all add: InTrack denials_def)
    show ?thesis
    proof (cases f)
      case True
      have "so_far gx coarse chunk s0 ?s tcs b [] (ds @ [(tc, True)])" using ds j True g by (simp add: so_far_def)
      with True InTrack c show ?thesis by auto
    next
      case False
      have "so_far gx coarse chunk s0 ?s tcs (tc_ID tc # b) [tc] (ds @ [(tc, False)])" using ds j False g by (simp add: so_far_def)
      with False InTrack c show ?thesis by auto
    qed
  next
    case (InDeny tc tcs b c e)
    with assms(2) obtain ds where c: "c = chunk" and ds: "so_far gx coarse chunk s0 s tcs b [tc] (ds @ [(tc, False)])" by auto
    obtain r cl where w: "sink_write Inbound (denial_line (tc_ID tc)) (sh_client s) = (r, cl)" by fastforce
    show ?thesis
    proof (cases r)
      case None
      let ?s = "in_step gx coarse pc s"
      have "denials ?s = denials s @ [(Inbound, denial_line (tc_ID tc))]"
        using denials_write [OF w] InDeny w None by simp
      then have "so_far gx coarse chunk s0 ?s tcs b [] (ds @ [(tc, False)])"
        using ds InDeny w None by (auto simp: so_far_def)
      with InDeny w None c show ?thesis by auto
    qed (use InDeny w in simp)
  next
    case (InAnswer rs tcs b c e)
    with assms(2) obtain ds where c: "c = chunk" and ds: "so_far gx coarse chunk s0 s tcs b [] ds" by auto
    have "so_far gx coarse chunk s0 (in_step gx coarse pc s) tcs b [] ds"
      by (rule later [OF ds]) (cases rs; simp add: InAnswer denials_def split_beta)+
    with InAnswer c show ?thesis by (cases rs) (auto simp: split_beta)
  next
    case (InNote i r rs tcs b c e)
    with assms(2) obtain ds where c: "c = chunk" and ds: "so_far gx coarse chunk s0 s tcs b [] ds" by auto
    have "so_far gx coarse chunk s0 (in_step gx coarse pc s) tcs b [] ds"
      by (rule later [OF ds]) (simp_all add: InNote denials_def)
    with InNote c show ?thesis by auto
  next
    case (InWrite left e)
    then show ?thesis by (simp add: split_beta split: option.split)
  qed (use assms in simp_all)
qed

text \<open>Until the next line is read.\<close>

definition line_inv :: "('l, 'k, 'p, 's, 'q, 'tok, 'pol) platform \<Rightarrow> string \<Rightarrow> string \<Rightarrow> ('l, 'k, 's, 'tok, 'pol) shim \<Rightarrow>
    ('l, 'k, 's, 'tok, 'pol) shim \<Rightarrow> bool" where
  "line_inv gx coarse chunk s0 s \<longleftrightarrow> sound_gateway (gx_codec gx) (sh_g s0) (sh_g s) \<and>
     length (rd_data (sh_from_client s)) \<le> length (rd_data (sh_from_client s0)) \<and>
     (length (rd_data (sh_from_client s)) = length (rd_data (sh_from_client s0)) \<longrightarrow> line_ok gx coarse chunk s0 s (sh_in s))"

lemma in_step_data:
  "length (rd_data (sh_from_client (in_step gx coarse pc s))) \<le> length (rd_data (sh_from_client s))"
proof (induction gx coarse pc s rule: in_step.induct)
  case (1 gx coarse k s)
  obtain chunk err rd where r: "ReadSlice maxInspect (sh_from_client s) = ((chunk, err), rd)"
    by (cases "ReadSlice maxInspect (sh_from_client s)") auto
  with read_split(1) [OF r] show ?case by (simp add: in_read_def split_beta Let_def)
qed (simp_all add: split_beta split: option.split)

lemma in_read_line:
  assumes "length (rd_data (sh_from_client (in_read gx coarse k s))) = length (rd_data (sh_from_client s))"
  shows "line_ok gx coarse chunk s0 (in_read gx coarse k s) (sh_in (in_read gx coarse k s))"
proof -
  obtain c err rd where r: "ReadSlice maxInspect (sh_from_client s) = ((c, err), rd)"
    by (cases "ReadSlice maxInspect (sh_from_client s)") auto
  have "sh_from_client (in_read gx coarse k s) = rd" by (simp add: in_read_def r split_beta Let_def)
  with assms read_split(1) [OF r] have "c = []" by simp
  with r show ?thesis by (simp add: in_read_def)
qed

lemma line_inv_in: "line_inv gx coarse chunk s0 s \<Longrightarrow> line_inv gx coarse chunk s0 (in_step gx coarse (sh_in s) s)"
proof -
  assume i: "line_inv gx coarse chunk s0 s"
  let ?s = "in_step gx coarse (sh_in s) s"
  have le: "length (rd_data (sh_from_client ?s)) \<le> length (rd_data (sh_from_client s))" by (rule in_step_data)
  have snd: "sound_gateway (gx_codec gx) (sh_g s0) (sh_g ?s)"
    by (rule sound_later [OF _ in_step_leads]) (use i in \<open>simp add: line_inv_def\<close>)
  have "line_ok gx coarse chunk s0 ?s (sh_in ?s)" if e: "length (rd_data (sh_from_client ?s)) = length (rd_data (sh_from_client s0))"
  proof (cases "\<exists>k. sh_in s = InRead k")
    case True
    then obtain k where k: "sh_in s = InRead k" by blast
    with e le i show ?thesis by (auto simp: line_inv_def intro: in_read_line)
  next
    case False
    with e le i show ?thesis by (intro in_step_line) (auto simp: line_inv_def)
  qed
  with i le snd show ?thesis by (auto simp: line_inv_def)
qed

lemma line_inv_out: "line_inv gx coarse chunk s0 s \<Longrightarrow> line_inv gx coarse chunk s0 (out_step gx coarse pc s)"
proof -
  assume i: "line_inv gx coarse chunk s0 s"
  have "sound_gateway (gx_codec gx) (sh_g s0) (sh_g (out_step gx coarse pc s))"
    by (rule sound_later [OF _ out_step_leads]) (use i in \<open>simp add: line_inv_def\<close>)
  moreover have "line_ok gx coarse chunk s0 (out_step gx coarse pc s) (sh_in s)" if "line_ok gx coarse chunk s0 s (sh_in s)"
    by (rule line_ok_later [OF that out_step_leads _ out_step_denials]) (use i in \<open>simp_all add: line_inv_def\<close>)
  ultimately show ?thesis using i by (simp add: line_inv_def)
qed




section \<open>Witnesses\<close>


definition two_calls :: string where
  "two_calls = sample_pair (json_key ''a'') (json_key ''b'')"

definition first_call :: tool_call where
  "first_call = \<lparr>tc_Name = ''delete_file'', tc_Arguments = [], tc_ID = json_key ''a''\<rparr>"

definition second_call :: tool_call where
  "second_call = \<lparr>tc_Name = ''ls'', tc_Arguments = [], tc_ID = json_key ''b''\<rparr>"

lemma two_calls_parsed: "ParseToolsCalls two_calls = [first_call, second_call]"
  by code_simp

lemma two_denials: "denial_line (tc_ID first_call) \<noteq> denial_line (tc_ID second_call)"
  by code_simp

lemma two_calls_left: "\<exists>left. filterBlockedCalls two_calls (blockedSet [tc_ID first_call]) = Some left"
proof -
  have "filterBlockedCalls two_calls (blockedSet [tc_ID first_call]) \<noteq> None" by code_simp
  then show ?thesis by blast
qed

lemma first_answer: "\<exists>r. answers_of (denial_line (tc_ID first_call)) = [r] \<and> rs_ID r = tc_ID first_call"
proof -
  have "map rs_ID (answers_of (denial_line (tc_ID first_call))) = [tc_ID first_call]" by code_simp
  then show ?thesis by (auto simp: map_eq_Cons_conv)
qed

definition at_line :: "(ledger_record, char, nat, nat \<times> string \<times> payload, string gomap) shim" where
  "at_line = (shim_start toy_enforcing (quiet []) (typed []) screen)\<lparr>sh_in := InCalls (ParseToolsCalls two_calls) [] two_calls ReadEnd\<rparr>"

lemma at_line_runs:
  "\<exists>left s. s = relays toy_platform ''host:a'' (replicate 9 Inbound) at_line \<and> sh_in s = InWrite left ReadEnd \<and>
     sh_from_client s = sh_from_client at_line \<and> denials s = [(Inbound, denial_line (tc_ID first_call))]"
proof -
  obtain i pl g1 where d: "decideCall toy_platform '''' ''host:a'' (shim_call first_call) two_calls toy_enforcing = ((i, pl), g1)"
    by (cases "decideCall toy_platform '''' ''host:a'' (shim_call first_call) two_calls toy_enforcing") auto
  have t: "x_Tool (classify toy_platform (shim_call first_call)) = ''delete_file''" "x_Tool (classify toy_platform (shim_call second_call)) = ''ls''"
    using classify_tool [of "shim_call first_call"] classify_tool [of "shim_call second_call"]
    by (simp_all add: shim_call_def first_call_def second_call_def)
  have n: "\<not> pl_Forward pl" by (rule toy_stops [OF t(1) d])
  have "i = itoa 0" using decideCall_rand [OF d] by (simp add: toy_platform_def toy_enforcing_def toy_gateway_def applyActuator_def newHTTPGateway_def newGateway_def Let_def)
  then have i: "i \<noteq> ''''" using dec_length [of 0] by auto
  obtain r where r: "answers_of (denial_line (tc_ID first_call)) = [r]" "rs_ID r = tc_ID first_call" using first_answer by blast
  let ?g = "note_response toy_platform ''host:a'' i r g1"
  obtain j pl2 g2 where d2: "decideCall toy_platform '''' ''host:a'' (shim_call second_call) two_calls ?g = ((j, pl2), g2)"
    by (cases "decideCall toy_platform '''' ''host:a'' (shim_call second_call) two_calls ?g") auto
  have "leads_to toy toy_enforcing ?g" using leads_trans [OF _ note_response_leads] decideCall_leads [OF d] by simp
  then have f: "pl_Forward pl2" by (rule toy_allows [OF _ t(2) d2])
  obtain left where l: "filterBlockedCalls two_calls (blockedSet [tc_ID first_call]) = Some left" using two_calls_left by blast
  have names: "tc_Name first_call \<noteq> ''''" "tc_Name second_call \<noteq> ''''" "trackable (tc_ID first_call)"
    by (simp_all add: first_call_def second_call_def) code_simp
  have nine: "replicate 9 Inbound = [Inbound, Inbound, Inbound, Inbound, Inbound, Inbound, Inbound, Inbound, Inbound]"
    by (simp add: eval_nat_numeral)
  have w: "sink_write Inbound b screen = (None, screen\<lparr>sk_log := [(Inbound, b)]\<rparr>)" for b by (simp add: sink_write_def screen_def)
  show ?thesis
    unfolding nine
    using d n i r d2 f l names
    by (simp add: at_line_def shim_start_def relays_def turn_def two_calls_parsed w denials_def pending_init_def
        track_def claim_def maxPending_def join_slot_def Let_def)
qed


end
