(* ===== verification/Json_Write.thy ===== *)
theory Json_Write
  imports Block_Filter
begin

text \<open>
  What the sources use of \<open>json.Encoder\<close> and \<open>json.Marshal\<close> on maps, slices, strings and
  integers: the text of a string with its escapes, and documents.  What is written parses, and
  a string that is UTF-8 reads back as itself.
\<close>

section \<open>Strings\<close>

definition json_hex :: "nat \<Rightarrow> char" where
  "json_hex n = ''0123456789abcdef'' ! n"

text \<open>One byte below 128: \<open>appendString\<close> with \<open>escapeHTML\<close>.\<close>

definition escape_byte :: "char \<Rightarrow> string" where
  "escape_byte c =
     (if c = backslash \<or> c = quote then [backslash, c]
      else if c = CHR 0x08 then [backslash, CHR ''b''] else if c = CHR 0x0C then [backslash, CHR ''f'']
      else if c = CHR 0x0A then [backslash, CHR ''n''] else if c = CHR 0x0D then [backslash, CHR ''r'']
      else if c = CHR 0x09 then [backslash, CHR ''t'']
      else if (of_char c :: int) < 32 \<or> c \<in> {CHR ''<'', CHR ''>'', CHR ''&''} then
        [backslash, CHR ''u'', CHR ''0'', CHR ''0'', json_hex (of_char c div 16), json_hex (of_char c mod 16)]
      else [c])"

text \<open>Bytes that are not UTF-8 are written as U+FFFD; U+2028 and U+2029 are escaped.\<close>

function escape_str :: "string \<Rightarrow> string" where
  "escape_str s =
     (case s of
        [] \<Rightarrow> []
      | c # t \<Rightarrow>
          if (of_char c :: int) < 128 then escape_byte c @ escape_str t
          else if utf8_width s = 0 then backslash # ''ufffd'' @ escape_str t
          else if has_prefix s [CHR 0xE2, CHR 0x80, CHR 0xA8] then backslash # ''u2028'' @ escape_str (drop 3 s)
          else if has_prefix s [CHR 0xE2, CHR 0x80, CHR 0xA9] then backslash # ''u2029'' @ escape_str (drop 3 s)
          else take (utf8_width s) s @ escape_str (drop (utf8_width s) s))"
  by pat_completeness auto

termination escape_str by (relation "measure length") auto

declare escape_str.simps [simp del]

definition json_text :: "string \<Rightarrow> string" where
  "json_text s = json_key (escape_str s)"

text \<open>What is left of a string: its runes, and U+FFFD for each byte that is none.\<close>

function sanitized :: "string \<Rightarrow> string" where
  "sanitized s =
     (case s of
        [] \<Rightarrow> []
      | c # t \<Rightarrow> if utf8_width s = 0 then fffd @ sanitized t else take (utf8_width s) s @ sanitized (drop (utf8_width s) s))"
  by pat_completeness auto

termination sanitized by (relation "measure length") auto

declare sanitized.simps [simp del]

lemma sanitized_Nil [simp]: "sanitized [] = []"
  by (simp add: sanitized.simps)

lemma sanitized_Cons:
  "sanitized (c # t) = (if utf8_width (c # t) = 0 then fffd @ sanitized t
     else take (utf8_width (c # t)) (c # t) @ sanitized (drop (utf8_width (c # t)) (c # t)))"
  by (subst sanitized.simps) simp

text \<open>The text of a string is a sequence of these pieces.\<close>

lemma escape_cases:
  obtains (Nil) "s = []" "escape_str s = []"
    | (Byte) c t where "s = c # t" "(of_char c :: int) < 128" "escape_str s = escape_byte c @ escape_str t"
    | (Bad) c t where "s = c # t" "utf8_width s = 0" "escape_str s = backslash # ''ufffd'' @ escape_str t"
    | (Sep) x t where "s = CHR 0xE2 # CHR 0x80 # x # t" "separator x"
        "escape_str s = backslash # ''u202'' @ (if x = CHR 0xA8 then CHR ''8'' else CHR ''9'') # escape_str t"
    | (Rune) c t n where "s = c # t" "\<not> (of_char c :: int) < 128" "utf8_width s = Suc n"
        "escape_str s = c # take n t @ escape_str (drop n t)"
proof (cases s)
  case Nil
  then show thesis by (intro that(1)) (simp_all add: escape_str.simps)
next
  case (Cons c t)
  show thesis
  proof (cases "(of_char c :: int) < 128 \<or> utf8_width s = 0")
    case True
    show thesis
    proof (cases "(of_char c :: int) < 128")
      case True
      then have "escape_str (c # t) = escape_byte c @ escape_str t" by (subst escape_str.simps) simp
      with True Cons show thesis by (intro that(2)) simp_all
    next
      case b: False
      with True have "utf8_width s = 0" by simp
      with Cons b have "escape_str (c # t) = backslash # ''ufffd'' @ escape_str t" by (subst escape_str.simps) simp
      with \<open>utf8_width s = 0\<close> Cons show thesis by (intro that(3)) simp_all
    qed
  next
    case False
    show thesis
    proof (cases "has_prefix s [CHR 0xE2, CHR 0x80, CHR 0xA8] \<or> has_prefix s [CHR 0xE2, CHR 0x80, CHR 0xA9]")
      case True
      then obtain x u where x: "s = CHR 0xE2 # CHR 0x80 # x # u" "separator x" by (auto simp: has_prefix3 separator_def)
      with False Cons have "escape_str s = backslash # ''u202'' @ (if x = CHR 0xA8 then CHR ''8'' else CHR ''9'') # escape_str u"
        by (subst escape_str.simps) (auto simp: has_prefix3 separator_def)
      with x show thesis by (rule that(4))
    next
      case no: False
      obtain n where n: "utf8_width s = Suc n" using False by (cases "utf8_width s") auto
      with False no Cons have "escape_str s = c # take n t @ escape_str (drop n t)"
        by (subst escape_str.simps) simp
      with n False Cons show thesis by (intro that(5)) auto
    qed
  qed
qed

lemma json_hex_ok: "n < 16 \<Longrightarrow> is_hex (json_hex n) \<and> hex_val (json_hex n) = n"
proof -
  have "\<forall>n \<in> set [0..<16]. is_hex (json_hex n) \<and> hex_val (json_hex n) = n" by code_simp
  then show "n < 16 \<Longrightarrow> is_hex (json_hex n) \<and> hex_val (json_hex n) = n" by simp
qed

lemma of_char_int: "(of_char c :: int) = int (of_char c)"
  by (simp only: of_nat_of_char)

lemma byte_hex:
  assumes "(of_char c :: int) < 128"
  shows "hex4 [CHR ''0'', CHR ''0'', json_hex (of_char c div 16), json_hex (of_char c mod 16)] = of_char c"
    and "list_all is_hex [CHR ''0'', CHR ''0'', json_hex (of_char c div 16), json_hex (of_char c mod 16)]"
proof -
  note of_char_int [of c]
  with assms have "(of_char c :: nat) < 128" by linarith
  then have "of_char c div 16 < (16 :: nat)" by simp
  note d = json_hex_ok [OF this] json_hex_ok [of "of_char c mod 16"]
  then show "hex4 [CHR ''0'', CHR ''0'', json_hex (of_char c div 16), json_hex (of_char c mod 16)] = of_char c"
    by (simp add: hex4_def hex_val_def [of "CHR ''0''"])
  show "list_all is_hex [CHR ''0'', CHR ''0'', json_hex (of_char c div 16), json_hex (of_char c mod 16)]"
    using d by (simp add: is_hex_def [of "CHR ''0''"])
qed


lemma byte_cases:
  assumes "(of_char c :: int) < 128"
  obtains (Esc) e where "escape_byte c = [backslash, e]" "esc_ok e" "e \<noteq> CHR ''u''" "esc_char e = c"
    | (Hex) h where "escape_byte c = backslash # CHR ''u'' # h" "length h = 4" "list_all is_hex h" "hex4 h = of_char c"
    | (Self) "escape_byte c = [c]" "c \<noteq> backslash" "c \<noteq> quote" "\<not> (of_char c :: int) < 32"
proof -
  let ?h = "[CHR ''0'', CHR ''0'', json_hex (of_char c div 16), json_hex (of_char c mod 16)]"
  consider "c \<in> {backslash, quote, CHR 0x08, CHR 0x0C, CHR 0x0A, CHR 0x0D, CHR 0x09}"
    | "escape_byte c = backslash # CHR ''u'' # ?h" | "escape_byte c = [c]" "c \<noteq> backslash" "c \<noteq> quote" "\<not> (of_char c :: int) < 32"
  proof (cases "c \<in> {backslash, quote, CHR 0x08, CHR 0x0C, CHR 0x0A, CHR 0x0D, CHR 0x09}")
    case False
    show thesis
    proof (cases "(of_char c :: int) < 32 \<or> c \<in> {CHR ''<'', CHR ''>'', CHR ''&''}")
      case True
      with False have "escape_byte c = backslash # CHR ''u'' # ?h" unfolding escape_byte_def by simp
      then show thesis by (rule that(2))
    next
      case no: False
      with False have "escape_byte c = [c]" unfolding escape_byte_def by simp
      with no False show thesis by (intro that(3)) simp_all
    qed
  qed (rule that(1))
  then show thesis
  proof cases
    case 1
    have "list_all (\<lambda>c. let e = last (escape_byte c) in escape_byte c = [backslash, e] \<and> esc_ok e \<and> e \<noteq> CHR ''u'' \<and> esc_char e = c)
        [backslash, quote, CHR 0x08, CHR 0x0C, CHR 0x0A, CHR 0x0D, CHR 0x09]"
      by code_simp
    then have "\<forall>c \<in> {backslash, quote, CHR 0x08, CHR 0x0C, CHR 0x0A, CHR 0x0D, CHR 0x09}.
        escape_byte c = [backslash, last (escape_byte c)] \<and> esc_ok (last (escape_byte c)) \<and> last (escape_byte c) \<noteq> CHR ''u'' \<and>
        esc_char (last (escape_byte c)) = c"
      unfolding list_all_iff Let_def list.set .
    with 1 show thesis by (intro Esc [of "last (escape_byte c)"]) blast+
  next
    case 2
    with byte_hex [OF assms] show thesis by (intro Hex [of ?h]) simp_all
  next
    case 3
    then show thesis by (rule Self)
  qed
qed

lemma lit_valid_escape: "lit_valid (escape_str s)"
proof (induction s rule: length_induct)
  case (1 s)
  have IH: "lit_valid (escape_str t)" if "length t < length s" for t using 1 that by blast
  show ?case
  proof (cases s rule: escape_cases)
    case (Byte c t)
    from Byte(2) show ?thesis
    proof (cases rule: byte_cases)
      case (Hex h)
      with Byte IH [of t] lit_valid_hex [OF Hex(3)] show ?thesis by auto
    qed (use Byte IH [of t] in auto)
  next
    case (Bad c t)
    with IH [of t] show ?thesis by (simp add: is_hex_def)
  next
    case (Sep x t)
    with IH [of t] show ?thesis by (simp add: is_hex_def)
  next
    case (Rune c t n)
    then have "list_all contc (take n t)" using utf8_width_conts by blast
    moreover have "c \<noteq> quote" "c \<noteq> backslash" "\<not> (of_char c :: int) < 32" using Rune(2) by auto
    ultimately show ?thesis using Rune IH [of "drop n t"] by (simp add: lit_valid_conts)
  qed simp
qed

lemma utf8_width_take: "utf8_width (c # t) = Suc n \<Longrightarrow> utf8_width (c # take n t @ r) = Suc n"
  by (cases t; cases "tl t"; cases "tl (tl t)")
    (auto simp: utf8_width_def take4_Cons Let_def split: if_splits)

lemma low_half_escape: "lit_valid w \<Longrightarrow> 55296 > hex4 h \<Longrightarrow> length h = 4 \<Longrightarrow> unquote (backslash # CHR ''u'' # h @ w) = utf8_enc (hex4 h) @ unquote w"
  by (simp add: unquote_uni Let_def)

lemma ascii_enc: "(of_char c :: int) < 128 \<Longrightarrow> utf8_enc (of_char c) = [c]"
proof -
  assume "(of_char c :: int) < 128"
  moreover note of_char_int [of c]
  ultimately have "(of_char c :: nat) < 128" by linarith
  then show ?thesis by (simp add: utf8_enc_def bytes_def)
qed

text \<open>A string reads back as its runes.\<close>

lemma unquote_escape: "unquote (escape_str s) = sanitized s"
proof (induction s rule: length_induct)
  case (1 s)
  have IH: "unquote (escape_str t) = sanitized t" if "length t < length s" for t using 1 that by blast
  show ?case
  proof (cases s rule: escape_cases)
    case (Byte c t)
    have w: "utf8_width (c # t) = 1" using Byte(2) by (rule utf8_width_1)
    from Byte(2) show ?thesis
    proof (cases rule: byte_cases)
      case (Esc e)
      with Byte IH [of t] w show ?thesis by (simp add: sanitized_Cons unquote_esc)
    next
      case (Hex h)
      have "hex4 h < 55296" using Byte(2) Hex(4) byte_hex(1)
      proof -
        note of_char_int [of c]
        with Byte(2) Hex(4) show ?thesis by linarith
      qed
      then have "unquote (backslash # CHR ''u'' # h @ escape_str t) = [c] @ unquote (escape_str t)"
        using low_half_escape [OF lit_valid_escape _ Hex(2)] Hex(4) ascii_enc [OF Byte(2)] by simp
      with Byte Hex IH [of t] w show ?thesis by (simp add: sanitized_Cons)
    next
      case Self
      have "unquote (c # escape_str t) = c # unquote (escape_str t)"
        using unquote_rune [OF Self(2), of "escape_str t"] utf8_width_1 [OF Byte(2), of "escape_str t"] by simp
      moreover have "sanitized (c # t) = c # sanitized t" using sanitized_Cons [of c t] w by simp
      ultimately show ?thesis using Byte Self IH [of t] by simp
    qed
  next
    case (Bad c t)
    have "char_of (239 :: nat) = CHR 0xEF" "char_of (191 :: nat) = CHR 0xBF" "char_of (189 :: nat) = CHR 0xBD" by code_simp+
    then have "hex4 ''fffd'' = 65533" "utf8_enc 65533 = fffd"
      by (simp_all add: hex4_def hex_val_def utf8_enc_def bytes_def fffd_def)
    then have "unquote (backslash # CHR ''u'' # ''fffd'' @ escape_str t) = fffd @ unquote (escape_str t)"
      by (subst unquote_uni) (simp_all add: Let_def)
    with Bad IH [of t] show ?thesis by (simp add: sanitized_Cons)
  next
    case (Sep x t)
    let ?h = "[CHR ''2'', CHR ''0'', CHR ''2'', if x = CHR 0xA8 then CHR ''8'' else CHR ''9'']"
    note e = sep_enc [OF Sep(2)]
    have "unquote (backslash # CHR ''u'' # ?h @ escape_str t) = utf8_enc (hex4 ?h) @ unquote (escape_str t)"
      using e by (intro low_half_escape [OF lit_valid_escape]) auto
    also have "\<dots> = [CHR 0xE2, CHR 0x80, x] @ unquote (escape_str t)" using e by simp
    finally show ?thesis using Sep IH [of t] e by (simp add: sanitized_Cons)
  next
    case (Rune c t n)
    then have w: "utf8_width (c # take n t @ escape_str (drop n t)) = Suc n" and n: "n \<le> length t"
      using utf8_width_take utf8_width_conts by blast+
    have "c \<noteq> backslash" using Rune(2) by auto
    with Rune w n IH [of "drop n t"] show ?thesis by (simp add: sanitized_Cons unquote_rune)
  qed simp
qed


section \<open>Numbers\<close>

lemma digit_facts: "n < 10 \<Longrightarrow> is_digit (digit n) \<and> (of_char (digit n) :: nat) = 48 + n \<and> (digit n = CHR ''0'' \<longleftrightarrow> n = 0)"
proof -
  have "list_all (\<lambda>n. is_digit (digit n) \<and> (digit n = CHR ''0'' \<longleftrightarrow> n = 0)) [0, 1, 2, 3, 4, 5, 6, 7, 8, 9]" by code_simp
  then have all: "\<forall>n \<in> {0, 1, 2, 3, 4, 5, 6, 7, 8, 9}. is_digit (digit n) \<and> (digit n = CHR ''0'' \<longleftrightarrow> n = 0)"
    unfolding list_all_iff list.set .
  assume n: "n < 10"
  then have "n \<in> {0, 1, 2, 3, 4, 5, 6, 7, 8, 9}" by auto
  note d = bspec [OF all this]
  have "(of_char (digit n) :: nat) = 48 + n" using n by (simp add: digit_def)
  with d show ?thesis by (intro conjI) (elim conjE, assumption)+
qed

lemma itoa_digits: "itoa n \<noteq> [] \<and> list_all is_digit (itoa n) \<and> (hd (itoa n) = CHR ''0'' \<longleftrightarrow> n = 0)"
proof (induction n rule: itoa.induct)
  case (1 n)
  show ?case
  proof (cases "n < 10")
    case True
    with digit_facts [OF True] show ?thesis by (simp add: itoa.simps)
  next
    case False
    with 1 digit_facts [of "n mod 10"] show ?thesis by (simp add: itoa.simps [of n])
  qed
qed

lemma digits_val_snoc: "digits_val (s @ [c]) = digits_val s * 10 + (of_char c - 48)"
  by (simp add: digits_val_def)

lemma digits_val_itoa [simp]: "digits_val (itoa n) = n"
proof (induction n rule: itoa.induct)
  case (1 n)
  show ?case
  proof (cases "n < 10")
    case True
    with digit_facts [OF True] show ?thesis by (simp add: itoa.simps digits_val_def)
  next
    case False
    with 1 digit_facts [of "n mod 10"] show ?thesis by (simp add: itoa.simps [of n] digits_val_snoc)
  qed
qed

lemma parse_int_itoa: "int n < 2 ^ 63 \<Longrightarrow> parse_int (itoa n) = Some (int n)"
proof -
  have "hd (itoa n) \<noteq> CHR ''-''" using itoa_digits [of n] by (cases "itoa n") (auto simp: is_digit_def)
  then show "int n < 2 ^ 63 \<Longrightarrow> parse_int (itoa n) = Some (int n)" using itoa_digits [of n] by (simp add: parse_int_def Let_def)
qed

lemma itoa_one: "n = 0 \<Longrightarrow> itoa n = ''0''"
  by (simp add: itoa.simps) code_simp

lemma is_value_num: "is_value d (itoa n) (JNum (itoa n))"
proof (rule jval_is_value [of "Suc 0"])
  obtain c t where c: "itoa n = c # t" using itoa_digits [of n] by (cases "itoa n") auto
  have ds: "list_all is_digit (c # t)" using itoa_digits [of n] c by simp
  then have cd: "is_digit c" by simp
  have all: "\<forall>x \<in> set (c # t). is_digit x" using ds by (simp only: list_all_iff)
  have tw: "takeWhile is_digit (c # t) = c # t" "dropWhile is_digit (c # t) = []"
    using all by (simp_all only: takeWhile_eq_all_conv dropWhile_eq_Nil_conv)
  have "\<forall>x \<in> set (c # t). numchar x" using all by (auto simp: numchar_def)
  then have nc: "takeWhile numchar (c # t) = c # t" "dropWhile numchar (c # t) = []"
    by (simp_all only: takeWhile_eq_all_conv dropWhile_eq_Nil_conv)
  have sm: "c \<noteq> quote" "c \<noteq> CHR ''[''" "c \<noteq> CHR ''{''" "c \<noteq> CHR ''n''" "c \<noteq> CHR ''t''" "c \<noteq> CHR ''f''" "c \<noteq> CHR ''-''"
    using cd by (auto simp: is_digit_def)
  have z: "c # t = ''0'' \<or> c \<noteq> CHR ''0''"
    using itoa_digits [of n] itoa_one [of n] c by (cases "n = 0") auto
  have s: "(if c # t \<noteq> [] \<and> hd (c # t) = CHR ''-'' then tl (c # t) else c # t) = c # t" using sm(7) by simp
  have "num_ok (c # t)" unfolding num_ok_def Let_def s tw using z by (simp add: exp_ok_def)
  with c sm nc show "jval (Suc 0) d (itoa n) = Some (JNum (itoa n), [])"
    by (simp add: jstep_def jlit_def has_prefix_def)
qed

section \<open>Documents\<close>

text \<open>
  What the sources hand to the encoder: maps with string keys, whose members the encoder sorts by
  key (they are given here in that order), slices (\<open>DNull\<close> is the nil one), strings, booleans,
  counts, and floats, given by their text.
\<close>

datatype doc = DNull | DText string | DNum nat | DFloat string | DBool bool | DList "doc list" | DObj "(string \<times> doc) list"

function marshal_doc :: "doc \<Rightarrow> string" where
  "marshal_doc DNull = ''null''"
| "marshal_doc (DText s) = json_text s"
| "marshal_doc (DNum n) = itoa n"
| "marshal_doc (DFloat t) = t"
| "marshal_doc (DBool b) = (if b then ''true'' else ''false'')"
| "marshal_doc (DList ds) = json_arr (map marshal_doc ds)"
| "marshal_doc (DObj ms) = json_obj (map (\<lambda>m. (escape_str (fst m), marshal_doc (snd m))) ms)"
  by pat_completeness auto

lemma size_member: "m \<in> set ms \<Longrightarrow> size (snd m) < Suc (size_list (size_prod (\<lambda>_. 0) size) ms)"
  by (induction ms) auto

termination marshal_doc
  by (relation "measure size") (auto simp: size_list_estimation' less_Suc_eq_le intro: size_member [THEN less_Suc_eq_le [THEN iffD1]])


text \<open>
  How deep a document is, which the parser's nesting limit bounds; the text of a float must be a
  number.
\<close>

fun fits :: "int \<Rightarrow> doc \<Rightarrow> bool" where
  "fits d (DList ds) \<longleftrightarrow> 0 < d \<and> (\<forall>x \<in> set ds. fits (d - 1) x)"
| "fits d (DObj ms) \<longleftrightarrow> 0 < d \<and> (\<forall>m \<in> set ms. fits (d - 1) (snd m))"
| "fits d (DFloat t) \<longleftrightarrow> is_value d t (JNum t)"
| "fits d x \<longleftrightarrow> True"

text \<open>The value a document is read back as.\<close>

fun value_of :: "doc \<Rightarrow> json" where
  "value_of DNull = JNull"
| "value_of (DText s) = JStr (escape_str s)"
| "value_of (DNum n) = JNum (itoa n)"
| "value_of (DFloat t) = JNum t"
| "value_of (DBool b) = (if b then JTrue else JFalse)"
| "value_of (DList ds) = JArr (map (\<lambda>x. (marshal_doc x, value_of x)) ds)"
| "value_of (DObj ms) = JObj (map (\<lambda>m. (escape_str (fst m), marshal_doc (snd m), value_of (snd m))) ms)"

lemma is_value_lit: "is_value d ''null'' JNull" "is_value d ''true'' JTrue" "is_value d ''false'' JFalse"
  by (rule jval_is_value [of "Suc 0"]; simp add: jstep_def jlit_def has_prefix_def)+

lemma marshal_value: "fits d x \<Longrightarrow> is_value d (marshal_doc x) (value_of x)"
proof (induction d x rule: fits.induct)
  case (1 d ds)
  let ?xs = "map (\<lambda>x. (marshal_doc x, value_of x)) ds"
  have "is_value d (json_arr (map fst ?xs)) (JArr ?xs)" using 1 by (intro is_value_arr) auto
  then show ?case by (simp add: comp_def)
next
  case (2 d ms)
  let ?ms = "map (\<lambda>m. (escape_str (fst m), marshal_doc (snd m), value_of (snd m))) ms"
  have "is_value d (json_obj (map (\<lambda>(k, raw, v). (k, raw)) ?ms)) (JObj ?ms)"
    using 2 by (intro is_value_obj) (auto simp: lit_valid_escape)
  then show ?case by (simp add: comp_def)
qed (simp_all add: json_text_def is_value_str lit_valid_escape is_value_num is_value_lit)

lemma doc_parses: "fits maxNestingDepth x \<Longrightarrow> json_parse (marshal_doc x @ [CHR 0x0A]) = Some (value_of x)"
  by (rule json_parse_value [OF marshal_value order_refl]) (simp_all add: skip_ws_def is_ws_def jstop_def numchar_def is_digit_def)

text \<open>Into a struct, a document's members come under the names they were given, as their runes.\<close>

lemma decode_obj:
  "decode_struct f z (value_of (DObj ms)) =
     foldl (\<lambda>a m. Option.bind a (f (sanitized (fst m)) (marshal_doc (snd m)) (value_of (snd m)))) (Some z) ms"
proof -
  have "foldl (\<lambda>a (k, raw, w). Option.bind a (f (unquote k) raw w)) a (map (\<lambda>m. (escape_str (fst m), marshal_doc (snd m), value_of (snd m))) ms) =
      foldl (\<lambda>a m. Option.bind a (f (sanitized (fst m)) (marshal_doc (snd m)) (value_of (snd m)))) a ms" for a
    by (induction ms arbitrary: a) (simp_all add: unquote_escape)
  then show ?thesis by (simp add: decode_struct_def)
qed

text \<open>A string of ASCII characters is left as it is.\<close>

lemma sanitized_ascii: "list_all (\<lambda>c. (of_char c :: int) < 128) s \<Longrightarrow> sanitized s = s"
proof (induction s)
  case (Cons c s)
  then show ?case using sanitized_Cons [of c s] utf8_width_1 [of c s] by simp
qed simp

end
