(* ===== verification/Bundle.thy ===== *)
theory Bundle
  imports Policy Json Ledger_Record Verify_Main "HOL-Library.Multiset"
begin

text \<open>
  Policy bundles, \<open>proxy/internal/bundle/bundle.go\<close>, and the two functions of
  \<open>cmd/gurdy-proxy/main.go\<close> that load and reload them.  The file system, gzip, tar, SHA-256 and
  the Cedar parser are parameters.  gzip gives a stream of bytes and how it ends; tar gives what
  it finds in a stream it may not have read to the end.
\<close>

section \<open>Parameters\<close>

datatype stream_end = StreamEnds | StreamBroken | StreamCapped

datatype tar_end = TarDone | TarNextFails | TarBodyFails

text \<open>\<open>bl_untar\<close>: the entries, how the reading of them ended, and whether bytes beyond the last were asked for.\<close>

record 'pol bundle_lib =
  bl_cedar :: "'pol cedar"
  bl_sha :: "string \<Rightarrow> string"
  bl_stat :: "string \<Rightarrow> int option"
  bl_read :: "string \<Rightarrow> string option"
  bl_gunzip :: "string \<Rightarrow> (string \<times> stream_end) option"
  bl_untar :: "string \<times> stream_end \<Rightarrow> ((string \<times> string) list \<times> tar_end) \<times> bool"

datatype bundle_error =
    NoBundleFile | BundleTooBig | BundleUnreadable | NotGzip | ContentTooBig | BadTar | BadEntry | BadManifest
  | NoManifest | NoPolicies string | BadPolicies load_error | NoPolicyPath

section \<open>Loading\<close>

record manifest =
  m_PackID :: string
  m_Version :: string

definition maxBundleFile :: int where "maxBundleFile = 16 * 1048576"
definition maxBundleContent :: int where "maxBundleContent = 64 * 1048576"

text \<open>
  \<open>cappedReader\<close>: what can be read of the stream through it.  The error comes once \<open>n\<close> bytes
  have been read, and \<open>exceeded\<close> is set when something asks for more.
\<close>

definition cappedReader :: "int \<Rightarrow> string \<times> stream_end \<Rightarrow> string \<times> stream_end" where
  "cappedReader n s = (if n \<le> int (length (fst s)) then (take (nat n) (fst s), StreamCapped) else s)"

definition set_manifest :: "string \<Rightarrow> string \<Rightarrow> json \<Rightarrow> manifest \<Rightarrow> manifest option" where
  "set_manifest k raw v m =
     (if key_is k ''pack_id'' then map_option (\<lambda>s. m\<lparr>m_PackID := s\<rparr>) (into_string v (m_PackID m))
      else if key_is k ''version'' then map_option (\<lambda>s. m\<lparr>m_Version := s\<rparr>) (into_string v (m_Version m))
      else Some m)"

definition trim_prefix :: "string \<Rightarrow> string \<Rightarrow> string" where
  "trim_prefix s p = (if has_prefix s p then drop (length p) s else s)"

text \<open>The loop over the entries.\<close>

fun read_entries :: "(string \<times> string) list \<Rightarrow> manifest option \<times> string gomap \<Rightarrow> bundle_error + manifest option \<times> string gomap" where
  "read_entries [] acc = Inr acc"
| "read_entries (e # es) (m, ps) =
     (let name = trim_prefix (fst e) ''./'' in
      if name = ''manifest.json'' then
        (case unmarshal_struct set_manifest \<lparr>m_PackID = '''', m_Version = ''''\<rparr> (snd e) of
           None \<Rightarrow> Inl BadManifest
         | Some m \<Rightarrow> read_entries es (Some m, ps))
      else if has_suffix name ''.cedar'' then read_entries es (m, map_put name (snd e) ps)
      else read_entries es (m, ps))"

text \<open>The sources in the order of their names, each with a newline after it.\<close>

definition bundle_source :: "string gomap \<Rightarrow> string" where
  "bundle_source ps = concat (map (\<lambda>n. (case map_of ps n of None \<Rightarrow> '''' | Some b \<Rightarrow> b) @ [CHR 0x0A]) (sort_strings (map fst ps)))"

definition as_bundle :: "load_error + 'e \<Rightarrow> bundle_error + 'e" where
  "as_bundle r = (case r of Inl e \<Rightarrow> Inl (BadPolicies e) | Inr ev \<Rightarrow> Inr ev)"

definition compile_bundle :: "'pol bundle_lib \<Rightarrow> string \<Rightarrow> manifest option \<times> string gomap \<Rightarrow> bundle_error + 'pol evaluator" where
  "compile_bundle b hash12 acc =
     (case acc of
        (None, ps) \<Rightarrow> Inl NoManifest
      | (Some m, ps) \<Rightarrow>
          if m_PackID m = '''' \<or> m_Version m = '''' then Inl NoManifest
          else if ps = [] then Inl (NoPolicies (m_PackID m))
          else as_bundle (Load (bl_cedar b) (m_PackID m @ ''@'' @ m_Version m @ ''+'' @ hash12) (bundle_source ps)))"

definition loadTarball :: "'pol bundle_lib \<Rightarrow> string \<Rightarrow> string \<Rightarrow> bundle_error + 'pol evaluator" where
  "loadTarball b raw hash12 =
     (case bl_gunzip b raw of
        None \<Rightarrow> Inl NotGzip
      | Some s \<Rightarrow>
          (let s = cappedReader maxBundleContent s; ((es, ending), more) = bl_untar b s; exceeded = (more \<and> snd s = StreamCapped)
           in case read_entries es (None, []) of
                Inl e \<Rightarrow> Inl e
              | Inr acc \<Rightarrow>
                  (case ending of
                     TarDone \<Rightarrow> compile_bundle b hash12 acc
                   | TarNextFails \<Rightarrow> Inl (if exceeded then ContentTooBig else BadTar)
                   | TarBodyFails \<Rightarrow> Inl (if exceeded then ContentTooBig else BadEntry))))"

definition content_hash :: "'pol bundle_lib \<Rightarrow> string \<Rightarrow> string" where
  "content_hash b raw = hex (take 6 (bl_sha b raw))"

definition LoadBundle :: "'pol bundle_lib \<Rightarrow> string \<Rightarrow> bundle_error + 'pol evaluator" where
  "LoadBundle b path =
     (case bl_stat b path of
        None \<Rightarrow> Inl NoBundleFile
      | Some len \<Rightarrow>
          if len > maxBundleFile then Inl BundleTooBig
          else
            (case bl_read b path of
               None \<Rightarrow> Inl BundleUnreadable
             | Some raw \<Rightarrow>
                 if has_suffix path ''.cedar'' then as_bundle (Load (bl_cedar b) (''file:'' @ content_hash b raw) raw)
                 else loadTarball b raw (content_hash b raw)))"

section \<open>Loading and reloading\<close>

text \<open>\<open>starter\<close> is the embedded starter policies.\<close>

definition loadBundle :: "'pol bundle_lib \<Rightarrow> string \<Rightarrow> string \<Rightarrow> bundle_error + 'pol evaluator" where
  "loadBundle b starter path =
     (if path = '''' then as_bundle (Load (bl_cedar b) ''starter-embedded'' starter) else LoadBundle b path)"

definition reload :: "'pol bundle_lib \<Rightarrow> string \<Rightarrow> 'pol evaluator store \<Rightarrow> (bundle_error + 'pol evaluator) \<times> 'pol evaluator store" where
  "reload b path s =
     (if path = '''' then (Inl NoPolicyPath, s)
      else case LoadBundle b path of Inl e \<Rightarrow> (Inl e, s) | Inr ev \<Rightarrow> (Inr ev, Swap ev s))"

section \<open>The order of entries does not matter\<close>

lemma lex_of_char: "lexordp_eq (map (of_char :: char \<Rightarrow> nat) x) (map of_char y) \<Longrightarrow> lexordp_eq (map (of_char :: char \<Rightarrow> nat) y) (map of_char x) \<Longrightarrow> x = y"
proof -
  assume "lexordp_eq (map (of_char :: char \<Rightarrow> nat) x) (map of_char y)" "lexordp_eq (map (of_char :: char \<Rightarrow> nat) y) (map of_char x)"
  then have "map (of_char :: char \<Rightarrow> nat) x = map of_char y" by (rule lexordp_eq_antisym)
  then show "x = y" by (simp add: inj_map_eq_map inj_of_char)
qed

definition name_le :: "string \<Rightarrow> string \<Rightarrow> bool" where
  "name_le a b = lexordp_eq (map (of_char :: char \<Rightarrow> nat) a) (map of_char b)"

lemma insert_name_le: "insert_name x (y # ys) = (if name_le x y then x # y # ys else y # insert_name x ys)"
  by (simp add: name_le_def)

lemma name_le_order: "name_le a b \<Longrightarrow> name_le b c \<Longrightarrow> name_le a c" "name_le a b \<or> name_le b a"
    "name_le a b \<Longrightarrow> name_le b a \<Longrightarrow> a = b"
  unfolding name_le_def by (rule lexordp_eq_trans, assumption+, rule lexordp_eq_linear, rule lex_of_char)

lemma insert_name_commute: "insert_name x (insert_name y zs) = insert_name y (insert_name x zs)"
proof (cases "x = y")
  case False
  then have sym: "name_le y x \<longleftrightarrow> \<not> name_le x y" using name_le_order(2,3) [of x y] by blast
  show ?thesis
  proof (induction zs)
    case Nil
    show ?case by (cases "name_le x y") (simp_all add: insert_name_le sym del: insert_name.simps(2))
  next
    case (Cons z zs)
    have t: "name_le x y \<and> name_le y z \<longrightarrow> name_le x z" "name_le y x \<and> name_le x z \<longrightarrow> name_le y z"
      using name_le_order(1) by blast+
    show ?case
      by (cases "name_le x z"; cases "name_le y z"; cases "name_le x y")
        (use t Cons in \<open>simp_all add: insert_name_le sym del: insert_name.simps(2)\<close>)
  qed
qed simp

lemma sort_strings_cong: "mset xs = mset ys \<Longrightarrow> sort_strings xs = sort_strings ys"
  unfolding sort_strings_def foldr_conv_fold
  by (intro fold_multiset_equiv [THEN fun_cong]) (auto simp: insert_name_commute)


text \<open>What the loop makes of entries whose names are distinct.\<close>

definition entry_name :: "string \<times> string \<Rightarrow> string" where
  "entry_name e = trim_prefix (fst e) ''./''"

definition policies_of :: "(string \<times> string) list \<Rightarrow> string gomap" where
  "policies_of es = map (\<lambda>e. (entry_name e, snd e))
     (filter (\<lambda>e. entry_name e \<noteq> ''manifest.json'' \<and> has_suffix (entry_name e) ''.cedar'') es)"

definition manifests_of :: "(string \<times> string) list \<Rightarrow> string list" where
  "manifests_of es = map snd (filter (\<lambda>e. entry_name e = ''manifest.json'') es)"

definition decode_manifest :: "string \<Rightarrow> manifest option" where
  "decode_manifest = unmarshal_struct set_manifest \<lparr>m_PackID = '''', m_Version = ''''\<rparr>"

fun last_manifest :: "string list \<Rightarrow> manifest option \<Rightarrow> bundle_error + manifest option" where
  "last_manifest [] m = Inr m"
| "last_manifest (b # bs) m = (case decode_manifest b of None \<Rightarrow> Inl BadManifest | Some m' \<Rightarrow> last_manifest bs (Some m'))"

lemma update_fresh: "k \<notin> fst ` set ps \<Longrightarrow> map_put k v ps = ps @ [(k, v)]"
  by (induction ps) auto

lemma read_entries_spec:
  assumes "distinct (map entry_name es)" and "fst ` set ps \<inter> entry_name ` set es = {}"
  shows "read_entries es (m, ps) = (case last_manifest (manifests_of es) m of Inl e \<Rightarrow> Inl e | Inr m' \<Rightarrow> Inr (m', ps @ policies_of es))"
  using assms
proof (induction es arbitrary: m ps)
  case Nil
  then show ?case by (simp add: manifests_of_def policies_of_def)
next
  case (Cons e es)
  let ?n = "entry_name e"
  have fresh: "?n \<notin> fst ` set ps" "fst ` set ps \<inter> entry_name ` set es = {}" "?n \<notin> entry_name ` set es" using Cons.prems by auto
  show ?case
  proof (cases "?n = ''manifest.json''")
    case True
    have "read_entries (e # es) (m, ps) = (case decode_manifest (snd e) of None \<Rightarrow> Inl BadManifest | Some m' \<Rightarrow> read_entries es (Some m', ps))"
      using True by (simp add: entry_name_def decode_manifest_def)
    moreover have "manifests_of (e # es) = snd e # manifests_of es" "policies_of (e # es) = policies_of es"
      using True by (simp_all add: manifests_of_def policies_of_def)
    ultimately show ?thesis using Cons.IH [of ps] Cons.prems(1) fresh
      by (cases "decode_manifest (snd e)") (simp_all only: last_manifest.simps option.case sum.case distinct.simps list.map)
  next
    case nm: False
    then have m: "manifests_of (e # es) = manifests_of es" by (simp add: manifests_of_def)
    show ?thesis
    proof (cases "has_suffix ?n ''.cedar''")
      case True
      have "read_entries (e # es) (m, ps) = read_entries es (m, ps @ [(?n, snd e)])"
        using True nm update_fresh [OF fresh(1)] by (simp add: entry_name_def)
      moreover have "policies_of (e # es) = (?n, snd e) # policies_of es" using True nm by (simp add: policies_of_def)
      moreover have "fst ` set (ps @ [(?n, snd e)]) \<inter> entry_name ` set es = {}" using fresh by auto
      ultimately show ?thesis using Cons.IH [of "ps @ [(?n, snd e)]" m] Cons.prems(1) m by (simp split: sum.split)
    next
      case False
      have r: "read_entries (e # es) (m, ps) = read_entries es (m, ps)" using False nm by (simp add: entry_name_def)
      have p: "policies_of (e # es) = policies_of es" using False nm by (simp add: policies_of_def)
      show ?thesis unfolding r p m using Cons.IH [of ps m] Cons.prems(1) fresh by simp
    qed
  qed
qed

lemma bundle_source_cong:
  assumes "mset ps = mset qs" and "distinct (map fst ps)"
  shows "bundle_source ps = bundle_source qs"
proof -
  have k: "mset (map fst ps) = mset (map fst qs)" using assms(1) by simp
  moreover have "map_of ps = map_of qs"
    using assms mset_eq_setD [OF assms(1)] mset_eq_imp_distinct_iff [of "map fst ps" "map fst qs"] calculation
    by (intro map_of_inject_set [THEN iffD2]) auto
  ultimately show ?thesis using sort_strings_cong [OF k] by (simp add: bundle_source_def)
qed

lemma compile_cong:
  assumes "mset ps = mset qs" and "distinct (map fst ps)"
  shows "compile_bundle b h (m, ps) = compile_bundle b h (m, qs)"
proof -
  have "ps = [] \<longleftrightarrow> qs = []" using assms(1) by (metis mset_zero_iff)
  with bundle_source_cong [OF assms] show ?thesis by (simp add: compile_bundle_def split: option.split)
qed

lemma one_manifest: "distinct (map entry_name es) \<Longrightarrow> length (manifests_of es) \<le> 1"
proof (induction es)
  case (Cons e es)
  show ?case
  proof (cases "entry_name e = ''manifest.json''")
    case True
    with Cons.prems have "\<forall>x \<in> set es. entry_name x \<noteq> ''manifest.json''" by force
    then have "manifests_of es = []" unfolding manifests_of_def by (simp add: filter_empty_conv)
    with True show ?thesis by (simp add: manifests_of_def)
  next
    case False
    with Cons show ?thesis by (simp add: manifests_of_def)
  qed
qed (simp add: manifests_of_def)

lemma manifests_cong:
  assumes "mset es = mset fs" and "distinct (map entry_name es)"
  shows "manifests_of es = manifests_of fs"
proof -
  have m: "mset (manifests_of es) = mset (manifests_of fs)" using assms(1) by (simp add: manifests_of_def)
  then have "length (manifests_of es) = length (manifests_of fs)" by (rule mset_eq_length)
  with one_manifest [OF assms(2)] m show ?thesis
    by (cases "manifests_of es"; cases "manifests_of fs") auto
qed

text \<open>
  Packing order does not matter.  Two archives of the same entries, in whatever order tar
  stored them, compile to the same bundle or fail alike, provided no name occurs twice.
\<close>

theorem bundle_order_irrelevant:
  assumes "bl_gunzip b raw = Some s" and "bl_gunzip b raw' = Some s'"
    and "bl_untar b (cappedReader maxBundleContent s) = ((es, TarDone), x)"
    and "bl_untar b (cappedReader maxBundleContent s') = ((fs, TarDone), x')"
    and "mset es = mset fs" and "distinct (map entry_name es)"
  shows "loadTarball b raw h = loadTarball b raw' h"
proof -
  have d: "distinct (map entry_name fs)"
    using assms(5,6) by (metis mset_eq_imp_distinct_iff mset_map)
  have dp: "distinct (map fst (policies_of es))"
    using assms(6) by (simp add: policies_of_def comp_def distinct_map_filter)
  have "mset (policies_of es) = mset (policies_of fs)" using assms(5) by (simp add: policies_of_def)
  note c = compile_cong [OF this dp]
  show ?thesis
    using assms(1-4) read_entries_spec [OF assms(6), of "[]" None] read_entries_spec [OF d, of "[]" None] manifests_cong [OF assms(5,6)]
    by (cases "last_manifest (manifests_of fs) None") (simp_all add: loadTarball_def Let_def c)
qed

section \<open>A version pins its content\<close>

lemma Load_version: "Load c v d = Inr ev \<Longrightarrow> ev_Version ev = v"
  by (auto simp: Load_def split: option.splits sum.splits prod.splits)

lemma hash12_length: "6 \<le> length (bl_sha b raw) \<Longrightarrow> length (content_hash b raw) = 12"
  by (simp add: content_hash_def hex_def) (simp add: sum_list_triv length_concat comp_def)

lemma LoadBundle_version:
  assumes "LoadBundle b path = Inr ev"
  shows "\<exists>raw pre. bl_read b path = Some raw \<and> ev_Version ev = pre @ content_hash b raw"
proof -
  have c: "\<exists>pre. ev_Version ev = pre @ h" if r: "compile_bundle b h acc = Inr ev" for acc h
  proof -
    from r obtain m where m: "fst acc = Some m"
      by (auto simp: compile_bundle_def split: prod.splits option.splits)
    with r have "Load (bl_cedar b) (m_PackID m @ ''@'' @ m_Version m @ ''+'' @ h) (bundle_source (snd acc)) = Inr ev"
      by (auto simp: compile_bundle_def as_bundle_def split: prod.splits if_splits sum.splits)
    from Load_version [OF this] show ?thesis by (intro exI [of _ "m_PackID m @ ''@'' @ m_Version m @ ''+''"]) simp
  qed
  from assms obtain raw where raw: "bl_read b path = Some raw" by (auto simp: LoadBundle_def split: option.splits if_splits)
  have "\<exists>pre. ev_Version ev = pre @ content_hash b raw"
  proof (cases "has_suffix path ''.cedar''")
    case True
    with assms raw have "Load (bl_cedar b) (''file:'' @ content_hash b raw) raw = Inr ev"
      by (auto simp: LoadBundle_def as_bundle_def split: option.splits if_splits sum.splits)
    from Load_version [OF this] show ?thesis by blast
  next
    case False
    with assms raw have "loadTarball b raw (content_hash b raw) = Inr ev" by (auto simp: LoadBundle_def split: option.splits if_splits)
    then show ?thesis
      by (auto simp: loadTarball_def Let_def intro: c split: option.splits prod.splits sum.splits tar_end.splits)
  qed
  with raw show ?thesis by blast
qed


text \<open>
  A version pins its content, as far as twelve hexadecimal digits do: when two loads, of
  whatever paths at whatever times, give evaluators of one version, the files they read agree in
  the first 48 bits of their SHA-256.
\<close>

theorem version_pins_content:
  assumes "LoadBundle b path = Inr e" and "LoadBundle b' path' = Inr e'" and "bl_sha b' = bl_sha b"
    and "\<And>x. 6 \<le> length (bl_sha b x)" and "ev_Version e = ev_Version e'"
  shows "\<exists>raw raw'. bl_read b path = Some raw \<and> bl_read b' path' = Some raw' \<and> take 6 (bl_sha b raw) = take 6 (bl_sha b raw')"
proof -
  obtain raw pre where r: "bl_read b path = Some raw" "ev_Version e = pre @ content_hash b raw"
    using LoadBundle_version [OF assms(1)] by blast
  obtain raw' pre' where r': "bl_read b' path' = Some raw'" "ev_Version e' = pre' @ content_hash b' raw'"
    using LoadBundle_version [OF assms(2)] by blast
  have c: "content_hash b' raw' = content_hash b raw'" using assms(3) by (simp add: content_hash_def)
  have "length (content_hash b raw) = 12" "length (content_hash b raw') = 12" using assms(4) by (simp_all add: hash12_length)
  with r(2) r'(2) assms(5) c have "content_hash b raw = content_hash b raw'" by simp
  then have "take 6 (bl_sha b raw) = take 6 (bl_sha b raw')" unfolding content_hash_def by (rule hex_inj)
  with r r' show ?thesis by blast
qed

text \<open>
  Reloading keeps the last good bundle: an error leaves the store as it is, the bundle in
  force and its history; a success puts the new bundle in force, and a rollback brings back the one
  it replaced.
\<close>

theorem reload_keeps_last_good:
  assumes "reload b path s = (r, s')"
  shows "case r of Inl e \<Rightarrow> s' = s
    | Inr ev \<Rightarrow> st_current s' = ev \<and> fst (Rollback s') = Some (st_current s) \<and> st_current (snd (Rollback s')) = st_current s"
proof (cases r)
  case (Inl e)
  with assms show ?thesis by (auto simp: reload_def split: if_splits sum.splits)
next
  case (Inr ev)
  with assms have "s' = Swap ev s" by (auto simp: reload_def split: if_splits sum.splits)
  with Inr show ?thesis
    by (cases "st_history s") (auto simp: Swap_def Rollback_def Let_def maxHistory_def)
qed

section \<open>Witnesses\<close>

text \<open>Two archives of one manifest and two policies, packed in two orders.\<close>

definition toy_manifest :: string where
  "toy_manifest = json_obj [(''pack_id'', json_key ''p''), (''version'', json_key ''1'')]"

definition toy_entries :: "(string \<times> string) list" where
  "toy_entries = [(''./manifest.json'', toy_manifest), (''b.cedar'', ''B''), (''./a.cedar'', ''A'')]"

definition toy_lib :: "string \<Rightarrow> string gomap bundle_lib" where
  "toy_lib file = \<lparr>bl_cedar = toy_cedar, bl_sha = (\<lambda>x. take 6 (x @ ''......'')), bl_stat = (\<lambda>_. Some 1), bl_read = (\<lambda>_. Some file),
     bl_gunzip = (\<lambda>x. Some (x, StreamEnds)), bl_untar = (\<lambda>s. ((if fst s = ''one'' then toy_entries else rev toy_entries, TarDone), False))\<rparr>"

lemma toy_names: "map entry_name toy_entries = [''manifest.json'', ''b.cedar'', ''a.cedar'']"
  by code_simp

theorem bundle_order_irrelevant_witness:
  "loadTarball (toy_lib ''x'') ''one'' ''h'' = loadTarball (toy_lib ''x'') ''two'' ''h'' \<and>
   (\<exists>ev. loadTarball (toy_lib ''x'') ''one'' ''h'' = Inr ev \<and> ev_Version ev = ''p@1+h'')"
proof
  have c: "cappedReader maxBundleContent (x, StreamEnds) = (x, StreamEnds)" if "length x < 10" for x
    using that by (simp add: cappedReader_def maxBundleContent_def)
  have d: "distinct (map entry_name toy_entries)" unfolding toy_names by simp
  show "loadTarball (toy_lib ''x'') ''one'' ''h'' = loadTarball (toy_lib ''x'') ''two'' ''h''"
    by (rule bundle_order_irrelevant [where es = toy_entries and fs = "rev toy_entries" and x = False and x' = False and s = "(''one'', StreamEnds)" and s' = "(''two'', StreamEnds)"])
      (simp_all add: toy_lib_def c d)
  have "\<exists>ps. read_entries toy_entries (None, []) = Inr (Some \<lparr>m_PackID = ''p'', m_Version = ''1''\<rparr>, ps) \<and> ps = [(''b.cedar'', ''B''), (''a.cedar'', ''A'')]"
    by simp code_simp
  moreover have "bundle_source [(''b.cedar'', ''B''), (''a.cedar'', ''A'')] = [CHR ''A'', CHR 0x0A, CHR ''B'', CHR 0x0A]" by code_simp
  moreover have "\<exists>ev. Load toy_cedar ''p@1+h'' [CHR ''A'', CHR 0x0A, CHR ''B'', CHR 0x0A] = Inr ev"
    by (simp add: Load_def toy_cedar_def load_one_def policy_id_def oneOf_def ann_of_def Let_def
      EnforceFlag_def EnforceBlock_def OnErrorOpen_def OnErrorClosed_def)
  ultimately show "\<exists>ev. loadTarball (toy_lib ''x'') ''one'' ''h'' = Inr ev \<and> ev_Version ev = ''p@1+h''"
    using Load_version by (fastforce simp: loadTarball_def toy_lib_def c compile_bundle_def as_bundle_def)
qed

theorem version_pins_content_witness:
  "\<exists>e. LoadBundle (toy_lib ''doc'') ''p.cedar'' = Inr e \<and> take 6 (bl_sha (toy_lib ''doc'') ''doc'') = ''doc...''"
proof -
  have s: "has_suffix ''p.cedar'' ''.cedar''" by code_simp
  have "\<exists>e. LoadBundle (toy_lib ''doc'') ''p.cedar'' = Inr e"
    using s by (simp add: LoadBundle_def toy_lib_def maxBundleFile_def as_bundle_def Load_def toy_cedar_def load_one_def policy_id_def oneOf_def
        ann_of_def Let_def EnforceFlag_def EnforceBlock_def OnErrorOpen_def OnErrorClosed_def)
  then obtain e where e: "LoadBundle (toy_lib ''doc'') ''p.cedar'' = Inr e" by blast
  have "6 \<le> length (bl_sha (toy_lib ''doc'') x)" for x by (simp add: toy_lib_def)
  from version_pins_content [OF e e refl this refl] have "\<exists>r. bl_read (toy_lib ''doc'') ''p.cedar'' = Some r" by blast
  with e show ?thesis by (simp add: toy_lib_def)
qed

theorem reload_keeps_last_good_witness:
  "snd (reload (toy_lib ''doc'') '''' (NewStore toy_evaluator)) = NewStore toy_evaluator"
  using reload_keeps_last_good [of "toy_lib ''doc''" "''''" "NewStore toy_evaluator" "Inl NoPolicyPath" "NewStore toy_evaluator"]
  by (simp add: reload_def)

end
