(* ===== verification/Admin.thy ===== *)
theory Admin
  imports Gateway_Http Bundle Json_Write Clock
begin

text \<open>
  The admin API, \<open>adminMux\<close> and \<open>csrfGuard\<close> of \<open>proxy/cmd/gurdy-proxy/main.go\<close>: the routes with
  everything they do to the policy store, the ledger, the identity service and the clock, and the
  documents they answer with.
\<close>

section \<open>The process and its environment\<close>

text \<open>
  The handlers work on the store, ledger and identity service the gateway was built with, and on
  the stages of package \<open>clock\<close>.  Parameters: \<open>url.Parse\<close> (the \<open>Host\<close> of the result), the text
  of errors and of floats, and what \<open>ServeMux\<close> itself answers when no route matches.
\<close>

record ('l, 'k, 's, 'tok, 'pol) governed =
  gv_gateway :: "('l, 'k, 's, 'tok, 'pol) gateway"
  gv_stages :: "stage list"

record 'pol admin_env =
  ae_bundle :: "'pol bundle_lib"
  ae_policyPath :: string
  ae_url_host :: "string \<Rightarrow> string option"
  ae_round :: "rat \<Rightarrow> rat"
  ae_float :: "rat \<Rightarrow> string"
  ae_bundle_text :: "bundle_error \<Rightarrow> string"
  ae_ledger_text :: "ledger_error \<Rightarrow> string"
  ae_key_text :: "key_error \<Rightarrow> string"
  ae_unrouted :: "string \<Rightarrow> string \<Rightarrow> int \<times> string"

text \<open>\<open>aq_Keep\<close> is \<open>r.URL.Query().Get("keep")\<close>; a reply is a status and a body.\<close>

record admin_request =
  aq_Method :: string
  aq_Path :: string
  aq_Keep :: string
  aq_Origin :: string
  aq_Host :: string

type_synonym reply = "int \<times> string"

section \<open>Documents\<close>

definition writeJSON :: "int \<Rightarrow> doc \<Rightarrow> reply" where
  "writeJSON status v = (status, marshal_doc v @ [CHR 0x0A])"

text \<open>A nil slice is \<open>null\<close>.\<close>

definition slice_doc :: "('a \<Rightarrow> doc) \<Rightarrow> 'a list \<Rightarrow> doc" where
  "slice_doc f xs = (if xs = [] then DNull else DList (map f xs))"

definition bundleState :: "'pol evaluator store \<Rightarrow> doc" where
  "bundleState s = (case Versions s of (cur, hist) \<Rightarrow> DObj [(''bundle'', DText cur), (''history'', slice_doc DText hist)])"

definition health_doc :: "('l, 'k, 's, 'tok, 'pol) gateway \<Rightarrow> doc" where
  "health_doc g =
     (let cur = fst (Versions (g_store g)); l = g_led g; dropped = l_Dropped l; writeErrors = l_WriteErrors l;
          identityFail = l_IdentityFail l;
          status = (if dropped + writeErrors + identityFail > 0 then ''degraded'' else ''ok'')
      in DObj [(''bundle'', DText cur),
               (''coverage'', DObj [(''dropped'', DNum (unat dropped)), (''identity_failed'', DNum (unat identityFail)),
                                    (''write_errors'', DNum (unat writeErrors))]),
               (''status'', DText status)])"

text \<open>The members of a struct come in the order of its fields.\<close>

definition snapshot_doc :: "(rat \<Rightarrow> string) \<Rightarrow> snapshot \<Rightarrow> doc" where
  "snapshot_doc fl s = DObj [(''stage'', DText (sn_Stage s)), (''count'', DNum (unat (sn_Count s))),
     (''mean_us'', DFloat (fl (sn_MeanUS s))), (''p50_us'', DFloat (fl (sn_P50US s))), (''p90_us'', DFloat (fl (sn_P90US s))),
     (''p99_us'', DFloat (fl (sn_P99US s))), (''p999_us'', DFloat (fl (sn_P999US s))), (''max_us'', DFloat (fl (sn_MaxUS s)))]"

text \<open>The section sign of \<open>Measures\<close> is the bytes C2 A7.\<close>

definition report_measures :: string where
  "report_measures = ''the proxy's own in-process work, per stage of the governance loop ('' @ [CHR 0xC2, CHR 0xA7] @
     ''4.2), timed on a monotonic clock''"

definition report_excludes :: string where
  "report_excludes = ''the network hop to and from the proxy, the upstream's own service time, and OS '' @
     ''scheduling delay. NFR-1's budget is hop + derive + extract + eval; only the terms '' @
     ''after 'hop' appear here, so these numbers are a lower bound on added latency and '' @
     ''cannot certify the gate on their own''"

definition report_accuracy :: string where
  "report_accuracy = ''log-linear buckets, 16 per octave: reported percentiles are within 6.25% of the '' @
     ''true value and are the low edge of their bucket, so they understate rather than overstate''"

definition report_doc :: "(rat \<Rightarrow> string) \<Rightarrow> snapshot list \<Rightarrow> doc" where
  "report_doc fl ss = DObj [(''measures'', DText report_measures), (''excludes'', DText report_excludes),
     (''accuracy'', DText report_accuracy), (''stages'', slice_doc (snapshot_doc fl) ss)]"

definition jwk_doc :: "jwk \<Rightarrow> doc" where
  "jwk_doc k = DObj [(''kty'', DText (jwk_kty k)), (''crv'', DText (jwk_crv k)), (''x'', DText (jwk_x k)), (''y'', DText (jwk_y k)),
     (''kid'', DText (jwk_kid k)), (''use'', DText (jwk_use k)), (''alg'', DText (jwk_alg k))]"

definition pruned_doc :: "prune_result \<Rightarrow> doc" where
  "pruned_doc r = DObj [(''partition'', DText (pr_Partition r)), (''removed_segments'', slice_doc DNum (pr_Removed r)),
     (''pruned_through_seq'', DNum (unat (pr_ThroughSeq r))), (''pruned_through_hash'', DText (pr_ThroughHash r))]"

definition error_doc :: "string \<Rightarrow> doc" where
  "error_doc e = DObj [(''error'', DText e)]"

section \<open>The handlers\<close>

definition with_gateway :: "('l, 'k, 's, 'tok, 'pol) governed \<Rightarrow> ('l, 'k, 's, 'tok, 'pol) gateway \<Rightarrow> ('l, 'k, 's, 'tok, 'pol) governed" where
  "with_gateway p g = p\<lparr>gv_gateway := g\<rparr>"

definition on_reload :: "'pol admin_env \<Rightarrow> ('l, 'k, 's, 'tok, 'pol) governed \<Rightarrow> reply \<times> ('l, 'k, 's, 'tok, 'pol) governed" where
  "on_reload ae p =
     (case reload (ae_bundle ae) (ae_policyPath ae) (g_store (gv_gateway p)) of
        (Inl e, s) \<Rightarrow>
          (writeJSON 422 (DObj [(''bundle_unchanged'', DBool True), (''error'', DText (ae_bundle_text ae e))]),
           with_gateway p ((gv_gateway p)\<lparr>g_store := s\<rparr>))
      | (Inr _, s) \<Rightarrow> (writeJSON 200 (bundleState s), with_gateway p ((gv_gateway p)\<lparr>g_store := s\<rparr>)))"

text \<open>\<open>strconv.Atoi\<close>: an optional sign and digits, in 64 bits.\<close>

definition Atoi :: "string \<Rightarrow> int option" where
  "Atoi s = (if has_prefix s ''+'' then (if list_all is_digit (tl s) then parse_int (tl s) else None) else parse_int s)"

definition keep_of :: "string \<Rightarrow> int option" where
  "keep_of v =
     (if v = '''' then Some 8
      else case Atoi v of None \<Rightarrow> None | Some n \<Rightarrow> if n < 1 then None else Some n)"

definition on_prune :: "('l, 'k, 'p, 's, 'q, 'tok, 'pol) platform \<Rightarrow> 'pol admin_env \<Rightarrow> string \<Rightarrow> ('l, 'k, 's, 'tok, 'pol) governed \<Rightarrow>
    reply \<times> ('l, 'k, 's, 'tok, 'pol) governed" where
  "on_prune gx ae v p =
     (case keep_of v of
        None \<Rightarrow> (writeJSON 400 (error_doc ''keep must be a positive integer (segments to retain per partition)''), p)
      | Some keep \<Rightarrow>
          (case Prune (gx_codec gx) keep (g_led (gv_gateway p)) of
             ((Some e, removed), l) \<Rightarrow>
               (writeJSON 422 (error_doc (ae_ledger_text ae e)), with_gateway p ((gv_gateway p)\<lparr>g_led := l\<rparr>))
           | ((None, removed), l) \<Rightarrow>
               (writeJSON 200 (DObj [(''keep'', DNum (nat keep)), (''pruned'', slice_doc pruned_doc removed)]),
                with_gateway p ((gv_gateway p)\<lparr>g_led := l\<rparr>))))"

definition jwks_doc :: "('l, 'k, 'p, 's, 'q, 'tok, 'pol) platform \<Rightarrow> 's tis \<Rightarrow> doc" where
  "jwks_doc gx t = DList (map jwk_doc (JWKS (jl_keys (gx_jwt gx)) t))"

definition on_rotate :: "('l, 'k, 'p, 's, 'q, 'tok, 'pol) platform \<Rightarrow> 'pol admin_env \<Rightarrow> ('l, 'k, 's, 'tok, 'pol) governed \<Rightarrow>
    reply \<times> ('l, 'k, 's, 'tok, 'pol) governed" where
  "on_rotate gx ae p =
     (case Rotate (jl_keys (gx_jwt gx)) (g_tis (gv_gateway p)) of
        (Some e, t) \<Rightarrow> (writeJSON 500 (error_doc (ae_key_text ae e)), with_gateway p ((gv_gateway p)\<lparr>g_tis := t\<rparr>))
      | (None, t) \<Rightarrow>
          (writeJSON 200 (DObj [(''keys'', jwks_doc gx t), (''kid'', DText (CurrentKid t))]),
           with_gateway p ((gv_gateway p)\<lparr>g_tis := t\<rparr>)))"

definition on_rollback :: "('l, 'k, 's, 'tok, 'pol) governed \<Rightarrow> reply \<times> ('l, 'k, 's, 'tok, 'pol) governed" where
  "on_rollback p =
     (case Rollback (g_store (gv_gateway p)) of
        (None, _) \<Rightarrow> (writeJSON 409 (error_doc ''policy: no bundle to roll back to''), p)
      | (Some _, s) \<Rightarrow> (writeJSON 200 (bundleState s), with_gateway p ((gv_gateway p)\<lparr>g_store := s\<rparr>)))"

section \<open>Routes\<close>

datatype route = Health | Latency | ResetLatency | PolicyState | PolicyReload | RetentionPrune | PublicKeys | KeysRotate | PolicyRollback

text \<open>A pattern for GET also matches HEAD.\<close>

definition route :: "string \<Rightarrow> string \<Rightarrow> route option" where
  "route m path =
     (if m = ''GET'' \<or> m = ''HEAD'' then
        map_of [(''/health'', Health), (''/latency'', Latency), (''/policy'', PolicyState), (''/jwks'', PublicKeys)] path
      else if m = ''DELETE'' then map_of [(''/latency'', ResetLatency)] path
      else if m = ''POST'' then
        map_of [(''/policy/reload'', PolicyReload), (''/retention/prune'', RetentionPrune), (''/keys/rotate'', KeysRotate),
                (''/policy/rollback'', PolicyRollback)] path
      else None)"

definition perform :: "('l, 'k, 'p, 's, 'q, 'tok, 'pol) platform \<Rightarrow> 'pol admin_env \<Rightarrow> string \<Rightarrow> route \<Rightarrow>
    ('l, 'k, 's, 'tok, 'pol) governed \<Rightarrow> reply \<times> ('l, 'k, 's, 'tok, 'pol) governed" where
  "perform gx ae v r p =
     (case r of
        Health \<Rightarrow> (writeJSON 200 (health_doc (gv_gateway p)), p)
      | Latency \<Rightarrow> (writeJSON 200 (report_doc (ae_float ae) (Snapshots (ae_round ae) (gv_stages p))), p)
      | ResetLatency \<Rightarrow> (writeJSON 200 (DObj [(''status'', DText ''reset'')]), p\<lparr>gv_stages := Reset (gv_stages p)\<rparr>)
      | PolicyState \<Rightarrow> (writeJSON 200 (bundleState (g_store (gv_gateway p))), p)
      | PolicyReload \<Rightarrow> on_reload ae p
      | RetentionPrune \<Rightarrow> on_prune gx ae v p
      | PublicKeys \<Rightarrow> (writeJSON 200 (DObj [(''keys'', jwks_doc gx (g_tis (gv_gateway p)))]), p)
      | KeysRotate \<Rightarrow> on_rotate gx ae p
      | PolicyRollback \<Rightarrow> on_rollback p)"

definition serve_admin :: "('l, 'k, 'p, 's, 'q, 'tok, 'pol) platform \<Rightarrow> 'pol admin_env \<Rightarrow> admin_request \<Rightarrow>
    ('l, 'k, 's, 'tok, 'pol) governed \<Rightarrow> reply \<times> ('l, 'k, 's, 'tok, 'pol) governed" where
  "serve_admin gx ae q p =
     (case route (aq_Method q) (aq_Path q) of
        None \<Rightarrow> (ae_unrouted ae (aq_Method q) (aq_Path q), p)
      | Some r \<Rightarrow> perform gx ae (aq_Keep q) r p)"

section \<open>The guard\<close>

definition is_localhost :: "string \<Rightarrow> bool" where
  "is_localhost hostport =
     (let host = (case SplitHostPort hostport of Some (h, _) \<Rightarrow> h | None \<Rightarrow> hostport)
      in host = ''localhost'' \<or> host = ''127.0.0.1'' \<or> host = ''::1'')"

definition csrfGuard :: "'pol admin_env \<Rightarrow> (admin_request \<Rightarrow> 'w \<Rightarrow> reply \<times> 'w) \<Rightarrow> admin_request \<Rightarrow> 'w \<Rightarrow> reply \<times> 'w" where
  "csrfGuard ae nxt q w =
     (if aq_Origin q \<noteq> '''' \<and> (case ae_url_host ae (aq_Origin q) of None \<Rightarrow> True | Some h \<Rightarrow> \<not> is_localhost h)
      then ((403, ''cross-origin request rejected'' @ [CHR 0x0A]), w)
      else if \<not> is_localhost (aq_Host q) then ((403, ''unexpected Host'' @ [CHR 0x0A]), w)
      else nxt q w)"

definition adminMux :: "('l, 'k, 'p, 's, 'q, 'tok, 'pol) platform \<Rightarrow> 'pol admin_env \<Rightarrow> admin_request \<Rightarrow>
    ('l, 'k, 's, 'tok, 'pol) governed \<Rightarrow> reply \<times> ('l, 'k, 's, 'tok, 'pol) governed" where
  "adminMux gx ae = csrfGuard ae (serve_admin gx ae)"

section \<open>Only from this host\<close>

text \<open>The three names, alone or with a port.\<close>

definition loopback :: "string \<Rightarrow> bool" where
  "loopback h \<longleftrightarrow> (\<exists>n \<in> {''localhost'', ''127.0.0.1'', ''::1''}. h = n \<or> (\<exists>port. h = n @ '':'' @ port \<or> h = ''['' @ n @ '']:'' @ port))"

lemma split_last_app:
  assumes "split_last c s = Some (a, b)"
  shows "s = a @ c # b"
proof -
  let ?P = "\<lambda>x. x \<noteq> c"
  from assms have c: "c \<in> set (rev s)" and ab: "a = rev (tl (dropWhile ?P (rev s)))" "b = rev (takeWhile ?P (rev s))"
    by (simp_all add: split_last_def split: if_splits)
  have "dropWhile ?P (rev s) \<noteq> []" using c by simp
  with hd_dropWhile [OF this] have d: "dropWhile ?P (rev s) = c # tl (dropWhile ?P (rev s))"
    by (metis list.collapse)
  have "rev s = takeWhile ?P (rev s) @ c # tl (dropWhile ?P (rev s))" by (subst d [symmetric]) simp
  then have "rev (rev s) = rev (takeWhile ?P (rev s) @ c # tl (dropWhile ?P (rev s)))" by (rule arg_cong)
  then show ?thesis unfolding ab by (simp only: rev_rev_ident rev_append rev.simps append_assoc append.simps)
qed

lemma SplitHostPort_shape:
  assumes "SplitHostPort s = Some (h, port)"
  shows "s = h @ '':'' @ port \<or> s = ''['' @ h @ '']:'' @ port"
proof -
  from assms obtain a where a: "split_last (CHR '':'') s = Some (a, port)" and h: "a = h \<or> a = ''['' @ h @ '']''"
    by (auto simp: SplitHostPort_def Let_def split: option.splits if_splits)
  from split_last_app [OF a] h show ?thesis by (elim disjE) simp_all
qed

lemma localhost_loopback:
  assumes "is_localhost h"
  shows "loopback h"
proof (cases "SplitHostPort h")
  case None
  with assms show ?thesis unfolding is_localhost_def loopback_def Let_def by (simp only: option.case) blast
next
  case (Some hp)
  then obtain n port where s: "SplitHostPort h = Some (n, port)" by (cases hp) simp
  with assms have "n \<in> {''localhost'', ''127.0.0.1'', ''::1''}" by (simp add: is_localhost_def)
  with SplitHostPort_shape [OF s] show ?thesis unfolding loopback_def by blast
qed


section \<open>One route, one part\<close>

lemma with_gateway_parts [simp]: "gv_gateway (with_gateway p g) = g" "gv_stages (with_gateway p g) = gv_stages p"
  by (simp_all add: with_gateway_def)

lemma perform_frame:
  "perform gx ae v rt p = (r, p') \<Longrightarrow>
     p' = p\<lparr>gv_gateway := (gv_gateway p)\<lparr>g_store := g_store (gv_gateway p'), g_led := g_led (gv_gateway p'), g_tis := g_tis (gv_gateway p')\<rparr>,
            gv_stages := gv_stages p'\<rparr>"
  by (cases rt) (auto simp: perform_def on_reload_def on_prune_def on_rotate_def on_rollback_def with_gateway_def
      split: prod.splits option.splits sum.splits)

lemma perform_store:
  "perform gx ae v rt p = (r, p') \<Longrightarrow> g_store (gv_gateway p') \<noteq> g_store (gv_gateway p) \<Longrightarrow>
     fst r = 200 \<and> (rt = PolicyReload \<or> rt = PolicyRollback)"
  by (cases rt) (auto simp: perform_def on_reload_def on_prune_def on_rotate_def on_rollback_def writeJSON_def reload_def
      split: prod.splits option.splits sum.splits if_splits)

lemma perform_led:
  "perform gx ae v rt p = (r, p') \<Longrightarrow> g_led (gv_gateway p') \<noteq> g_led (gv_gateway p) \<Longrightarrow>
     rt = RetentionPrune \<and> (\<exists>keep. keep_of v = Some keep \<and> 1 \<le> keep \<and> g_led (gv_gateway p') = snd (Prune (gx_codec gx) keep (g_led (gv_gateway p))))"
  by (cases rt) (auto simp: perform_def on_reload_def on_prune_def on_rotate_def on_rollback_def keep_of_def
      split: prod.splits option.splits sum.splits if_splits)

lemma Rotate_error: "Rotate lib t = (Some e, t') \<Longrightarrow> t_ring t' = t_ring t \<and> t_keyGen t' = t_keyGen t"
  by (auto simp: Rotate_def with_env_def Let_def split: option.splits prod.splits)

lemma perform_tis:
  "perform gx ae v rt p = (r, p') \<Longrightarrow> g_tis (gv_gateway p') \<noteq> g_tis (gv_gateway p) \<Longrightarrow>
     rt = KeysRotate \<and> (fst r = 200 \<or> t_ring (g_tis (gv_gateway p')) = t_ring (g_tis (gv_gateway p)))"
  by (cases rt) (auto simp: perform_def on_reload_def on_prune_def on_rotate_def on_rollback_def writeJSON_def
      dest!: Rotate_error split: prod.splits option.splits sum.splits if_splits)

lemma perform_stages:
  "perform gx ae v rt p = (r, p') \<Longrightarrow> gv_stages p' \<noteq> gv_stages p \<Longrightarrow> fst r = 200 \<and> rt = ResetLatency"
  by (cases rt) (auto simp: perform_def on_reload_def on_prune_def on_rotate_def on_rollback_def writeJSON_def
      split: prod.splits option.splits sum.splits if_splits)


section \<open>What health says\<close>

text \<open>A reader of the health document that knows where its counters are.\<close>

record coverage_view =
  cv_dropped :: int
  cv_write_errors :: int
  cv_identity_failed :: int

record health_view =
  hv_status :: string
  hv_coverage :: coverage_view

definition set_coverage :: "string \<Rightarrow> string \<Rightarrow> json \<Rightarrow> coverage_view \<Rightarrow> coverage_view option" where
  "set_coverage k raw v c =
     (if key_is k ''dropped'' then map_option (\<lambda>n. c\<lparr>cv_dropped := n\<rparr>) (into_int v (cv_dropped c))
      else if key_is k ''write_errors'' then map_option (\<lambda>n. c\<lparr>cv_write_errors := n\<rparr>) (into_int v (cv_write_errors c))
      else if key_is k ''identity_failed'' then map_option (\<lambda>n. c\<lparr>cv_identity_failed := n\<rparr>) (into_int v (cv_identity_failed c))
      else Some c)"

definition set_health :: "string \<Rightarrow> string \<Rightarrow> json \<Rightarrow> health_view \<Rightarrow> health_view option" where
  "set_health k raw v h =
     (if key_is k ''status'' then map_option (\<lambda>s. h\<lparr>hv_status := s\<rparr>) (into_string v (hv_status h))
      else if key_is k ''coverage'' then map_option (\<lambda>c. h\<lparr>hv_coverage := c\<rparr>) (decode_struct set_coverage (hv_coverage h) v)
      else Some h)"

definition no_health :: health_view where
  "no_health = \<lparr>hv_status = '''', hv_coverage = \<lparr>cv_dropped = 0, cv_write_errors = 0, cv_identity_failed = 0\<rparr>\<rparr>"

lemma health_keys:
  "sanitized ''bundle'' = ''bundle''" "sanitized ''coverage'' = ''coverage''" "sanitized ''status'' = ''status''"
  "sanitized ''dropped'' = ''dropped''" "sanitized ''write_errors'' = ''write_errors''" "sanitized ''identity_failed'' = ''identity_failed''"
  "sanitized ''ok'' = ''ok''" "sanitized ''degraded'' = ''degraded''"
  by (rule sanitized_ascii; code_simp)+

lemma coverage_names:
  "key_is ''dropped'' ''dropped''" "\<not> key_is ''write_errors'' ''dropped''" "\<not> key_is ''identity_failed'' ''dropped''"
  "key_is ''write_errors'' ''write_errors''" "\<not> key_is ''identity_failed'' ''write_errors''" "key_is ''identity_failed'' ''identity_failed''"
  by code_simp+

lemma health_names:
  "\<not> key_is ''bundle'' ''status''" "\<not> key_is ''bundle'' ''coverage''" "\<not> key_is ''coverage'' ''status''" "key_is ''coverage'' ''coverage''"
  "key_is ''status'' ''status''"
  by code_simp+

lemma into_int_itoa: "int n < 2 ^ 63 \<Longrightarrow> into_int (JNum (itoa n)) old = Some (int n)"
  by (simp add: into_int_def parse_int_itoa)

lemma health_parses: "json_parse (marshal_doc (health_doc g) @ [CHR 0x0A]) = Some (value_of (health_doc g))"
  by (rule doc_parses) (simp add: health_doc_def Let_def maxNestingDepth_def)

text \<open>
  C34. Health tells what the ledger lost.  A local GET of \<open>/health\<close> is answered 200 with a document
  whose \<open>coverage\<close> member holds the three counters, and whose status is \<open>ok\<close> exactly when all are
  zero, as long as their sum has not wrapped around and each fits an int64.
\<close>

theorem health_tells_losses:
  assumes "aq_Method q = ''GET''" and "aq_Path q = ''/health''" and "aq_Origin q = ''''" and "is_localhost (aq_Host q)"
    and "d = unat (l_Dropped (g_led (gv_gateway p)))" and "w = unat (l_WriteErrors (g_led (gv_gateway p)))"
    and "i = unat (l_IdentityFail (g_led (gv_gateway p)))" and "d + w + i < 2 ^ 63"
  shows "adminMux gx ae q p = ((200, snd (fst (adminMux gx ae q p))), p) \<and>
     unmarshal_struct set_health no_health (snd (fst (adminMux gx ae q p))) =
       Some \<lparr>hv_status = (if d = 0 \<and> w = 0 \<and> i = 0 then ''ok'' else ''degraded''),
             hv_coverage = \<lparr>cv_dropped = int d, cv_write_errors = int w, cv_identity_failed = int i\<rparr>\<rparr>"
proof -
  let ?l = "g_led (gv_gateway p)" and ?h = "health_doc (gv_gateway p)"
  have "aq_Method q = ''GET'' \<longrightarrow> route (aq_Method q) (aq_Path q) = Some Health" using assms(2) by (simp add: route_def)
  with assms(1-4) have m: "adminMux gx ae q p = (writeJSON 200 ?h, p)"
    by (simp add: adminMux_def csrfGuard_def serve_admin_def perform_def)
  have b: "int d < 2 ^ 63" "int w < 2 ^ 63" "int i < 2 ^ 63" using assms(8) by simp_all
  have sm: "unat (l_Dropped ?l + l_WriteErrors ?l + l_IdentityFail ?l) = d + w + i"
    using assms(5-8) by (simp add: unat_word_ariths)
  have z: "(l_Dropped ?l + l_WriteErrors ?l + l_IdentityFail ?l > 0) \<longleftrightarrow> \<not> (d = 0 \<and> w = 0 \<and> i = 0)"
    using sm by (metis add_is_0 unat_eq_zero word_neq_0_conv)
  have "decode_struct set_health no_health (value_of ?h) =
      Some \<lparr>hv_status = (if d = 0 \<and> w = 0 \<and> i = 0 then ''ok'' else ''degraded''),
             hv_coverage = \<lparr>cv_dropped = int d, cv_write_errors = int w, cv_identity_failed = int i\<rparr>\<rparr>"
    unfolding health_doc_def Let_def decode_obj z assms(5-7) [symmetric]
    by (simp add: health_keys set_health_def set_coverage_def health_names coverage_names decode_obj b [THEN into_int_itoa] no_health_def
        into_string_def unquote_escape del: value_of.simps(6) value_of.simps(7))
  with m show ?thesis by (simp add: writeJSON_def unmarshal_struct_def health_parses)
qed

section \<open>Answers are documents\<close>

definition floats_ok :: "(rat \<Rightarrow> string) \<Rightarrow> bool" where
  "floats_ok fl \<longleftrightarrow> (\<forall>x d. is_value d (fl x) (JNum (fl x)))"

lemma fits_slice: "0 < d \<Longrightarrow> (\<And>x. x \<in> set xs \<Longrightarrow> fits (d - 1) (f x)) \<Longrightarrow> fits d (slice_doc f xs)"
  by (simp add: slice_doc_def)

lemma perform_answers:
  assumes "perform gx ae v rt p = (r, p')" and "floats_ok (ae_float ae)"
  shows "\<exists>status x. r = writeJSON status x \<and> status \<in> {200, 400, 409, 422, 500} \<and> fits maxNestingDepth x"
proof -
  have b: "fits maxNestingDepth (bundleState s)" for s :: "'e evaluator store"
    by (simp add: bundleState_def maxNestingDepth_def slice_doc_def split: prod.split)
  have h: "fits maxNestingDepth (health_doc (gv_gateway p))"
    by (simp add: health_doc_def Let_def maxNestingDepth_def)
  have c: "fits maxNestingDepth (report_doc (ae_float ae) ss)" for ss
    using assms(2) by (simp add: report_doc_def snapshot_doc_def maxNestingDepth_def slice_doc_def floats_ok_def)
  have j: "fits (maxNestingDepth - 1) (jwks_doc gx t)" for t
    by (simp add: jwks_doc_def jwk_doc_def maxNestingDepth_def)
  have pd: "fits (maxNestingDepth - 1) (slice_doc pruned_doc rs)" for rs
    by (simp add: pruned_doc_def maxNestingDepth_def slice_doc_def)
  have n: "0 < maxNestingDepth" by (simp add: maxNestingDepth_def)
  show ?thesis
    using assms(1) b h c j pd n
    by (cases rt) (fastforce simp: perform_def on_reload_def on_prune_def on_rotate_def on_rollback_def error_doc_def
      split: prod.splits option.splits sum.splits if_splits)+
qed

text \<open>
  C34. Every answer of a handler is one JSON document, its status one of 200, 400, 409, 422
  and 500, whatever bytes its strings hold; floats are assumed to be written as JSON numbers.
\<close>

theorem admin_answers_are_documents:
  assumes "serve_admin gx ae q p = (r, p')" and "route (aq_Method q) (aq_Path q) \<noteq> None" and "floats_ok (ae_float ae)"
  shows "fst r \<in> {200, 400, 409, 422, 500} \<and> (\<exists>v. json_parse (snd r) = Some v)"
proof -
  from assms(1,2) obtain rt where "perform gx ae (aq_Keep q) rt p = (r, p')"
    by (auto simp: serve_admin_def)
  from perform_answers [OF this assms(3)] obtain status x
    where "r = writeJSON status x" "status \<in> {200, 400, 409, 422, 500}" "fits maxNestingDepth x" by blast
  then show ?thesis using doc_parses [of x] by (simp add: writeJSON_def)
qed

section \<open>Witnesses\<close>

definition toy_admin :: "string gomap admin_env" where
  "toy_admin = \<lparr>ae_bundle = toy_lib ''doc'', ae_policyPath = ''p.cedar'', ae_url_host = (\<lambda>s. if has_prefix s ''http://'' then Some (drop 7 s) else None),
     ae_round = (\<lambda>x. x), ae_float = (\<lambda>_. ''0''), ae_bundle_text = (\<lambda>_. ''bundle''), ae_ledger_text = (\<lambda>_. ''ledger''),
     ae_key_text = (\<lambda>_. ''key''), ae_unrouted = (\<lambda>_ _. (404, ''''))\<rparr>"

definition toy_ask :: "string \<Rightarrow> string \<Rightarrow> string \<Rightarrow> admin_request" where
  "toy_ask m path h = \<lparr>aq_Method = m, aq_Path = path, aq_Keep = '''', aq_Origin = '''', aq_Host = h\<rparr>"

definition toy_process :: "(ledger_record, char, nat, nat \<times> string \<times> payload, string gomap) governed" where
  "toy_process = \<lparr>gv_gateway = toy_gateway\<lparr>g_led := toy_open\<lparr>l_Dropped := 3, l_WriteErrors := 0, l_IdentityFail := 1\<rparr>\<rparr>,
     gv_stages = [\<lparr>sg_name = ''decide'', sg_buckets = [0, 1], sg_count = 1, sg_sum = 1, sg_maximum = 1\<rparr>]\<rparr>"

lemma toy_hosts: "is_localhost ''localhost:8091''" "\<not> is_localhost ''localhost.evil.test''"
  by code_simp+



theorem health_tells_losses_witness:
  "unmarshal_struct set_health no_health (snd (fst (adminMux toy_platform toy_admin (toy_ask ''GET'' ''/health'' ''localhost:8091'') toy_process))) =
     Some \<lparr>hv_status = ''degraded'', hv_coverage = \<lparr>cv_dropped = 3, cv_write_errors = 0, cv_identity_failed = 1\<rparr>\<rparr>"
  using health_tells_losses [of "toy_ask ''GET'' ''/health'' ''localhost:8091''" 3 toy_process 0 1 toy_platform toy_admin] toy_hosts
  by (simp add: toy_ask_def toy_process_def)

theorem admin_answers_are_documents_witness:
  "\<exists>v. json_parse (snd (fst (serve_admin toy_platform toy_admin (toy_ask ''GET'' ''/latency'' ''::1'') toy_process))) = Some v"
proof -
  let ?run = "serve_admin toy_platform toy_admin (toy_ask ''GET'' ''/latency'' ''::1'') toy_process"
  have r: "route (aq_Method (toy_ask ''GET'' ''/latency'' ''::1'')) (aq_Path (toy_ask ''GET'' ''/latency'' ''::1'')) \<noteq> None"
    by (simp add: toy_ask_def route_def)
  have "is_value d ''0'' (JNum ''0'')" for d
    by (rule jval_is_value [of "Suc 0"]) (simp add: jstep_def jlit_def has_prefix_def numchar_def is_digit_def num_ok_def Let_def exp_ok_def)
  then have "floats_ok (ae_float toy_admin)" by (simp add: floats_ok_def toy_admin_def)
  from admin_answers_are_documents [of toy_platform toy_admin _ toy_process "fst ?run" "snd ?run", OF prod.collapse [symmetric] r this]
  show ?thesis by (rule conjunct2)
qed

end
