(* ===== verification/Mint_Sock.thy ===== *)
theory Mint_Sock
  imports Admin
begin

text \<open>
  The sideband on which transactions are minted and derived, \<open>proxy/cmd/gurdy-proxy/mintsock.go\<close>:
  the two handlers of \<open>mintMux\<close> on the state of the gateway, and \<open>listenMint\<close> on the file system
  at the path of its socket.
\<close>

section \<open>Requests\<close>

text \<open>
  Decoding a \<open>[]string\<close> over one that holds something: elements go into the old array, whose
  slots a \<open>null\<close> leaves as they are.  A slice is its length and the array behind it.
\<close>

type_synonym gslice = "nat \<times> string list"

fun fill_slice :: "(string \<times> json) list \<Rightarrow> nat \<Rightarrow> string list \<Rightarrow> string list option" where
  "fill_slice [] i mem = Some mem"
| "fill_slice ((raw, w) # xs) i mem =
     (case into_string w (if i < length mem then mem ! i else '''') of
        None \<Rightarrow> None
      | Some s \<Rightarrow> fill_slice xs (Suc i) (if i < length mem then mem[i := s] else mem @ [s]))"

definition into_strings :: "json \<Rightarrow> gslice \<Rightarrow> gslice option" where
  "into_strings v old =
     (case v of
        JNull \<Rightarrow> Some (0, [])
      | JArr xs \<Rightarrow> if xs = [] then Some (0, []) else map_option (\<lambda>m. (length xs, m)) (fill_slice xs 0 (snd old))
      | _ \<Rightarrow> None)"

record scope_fields =
  sf_compartments :: gslice
  sf_resource_types :: gslice
  sf_actions :: gslice
  sf_purpose :: string

definition no_scope :: scope_fields where
  "no_scope = \<lparr>sf_compartments = (0, []), sf_resource_types = (0, []), sf_actions = (0, []), sf_purpose = ''''\<rparr>"

definition scope_of :: "scope_fields \<Rightarrow> scope" where
  "scope_of s = \<lparr>compartments = take (fst (sf_compartments s)) (snd (sf_compartments s)),
     resource_types = take (fst (sf_resource_types s)) (snd (sf_resource_types s)),
     actions = take (fst (sf_actions s)) (snd (sf_actions s)), purpose = sf_purpose s\<rparr>"

definition set_scope :: "string \<Rightarrow> string \<Rightarrow> json \<Rightarrow> scope_fields \<Rightarrow> scope_fields option" where
  "set_scope k raw v s =
     (if key_is k ''compartments'' then map_option (\<lambda>x. s\<lparr>sf_compartments := x\<rparr>) (into_strings v (sf_compartments s))
      else if key_is k ''resource_types'' then map_option (\<lambda>x. s\<lparr>sf_resource_types := x\<rparr>) (into_strings v (sf_resource_types s))
      else if key_is k ''actions'' then map_option (\<lambda>x. s\<lparr>sf_actions := x\<rparr>) (into_strings v (sf_actions s))
      else if key_is k ''purpose'' then map_option (\<lambda>x. s\<lparr>sf_purpose := x\<rparr>) (into_string v (sf_purpose s))
      else Some s)"

record mint_request =
  mr_Agent :: string
  mr_HumanActor :: string
  mr_Scope :: scope_fields
  mr_TTLSeconds :: int

definition set_mint :: "string \<Rightarrow> string \<Rightarrow> json \<Rightarrow> mint_request \<Rightarrow> mint_request option" where
  "set_mint k raw v r =
     (if key_is k ''agent'' then map_option (\<lambda>x. r\<lparr>mr_Agent := x\<rparr>) (into_string v (mr_Agent r))
      else if key_is k ''human_actor'' then map_option (\<lambda>x. r\<lparr>mr_HumanActor := x\<rparr>) (into_string v (mr_HumanActor r))
      else if key_is k ''scope'' then map_option (\<lambda>x. r\<lparr>mr_Scope := x\<rparr>) (decode_struct set_scope (mr_Scope r) v)
      else if key_is k ''ttl_seconds'' then map_option (\<lambda>x. r\<lparr>mr_TTLSeconds := x\<rparr>) (into_int v (mr_TTLSeconds r))
      else Some r)"

record derive_request =
  dr_Parent :: string
  dr_Agent :: string
  dr_Scope :: scope_fields

definition set_derive :: "string \<Rightarrow> string \<Rightarrow> json \<Rightarrow> derive_request \<Rightarrow> derive_request option" where
  "set_derive k raw v r =
     (if key_is k ''parent'' then map_option (\<lambda>x. r\<lparr>dr_Parent := x\<rparr>) (into_string v (dr_Parent r))
      else if key_is k ''agent'' then map_option (\<lambda>x. r\<lparr>dr_Agent := x\<rparr>) (into_string v (dr_Agent r))
      else if key_is k ''scope'' then map_option (\<lambda>x. r\<lparr>dr_Scope := x\<rparr>) (decode_struct set_scope (dr_Scope r) v)
      else Some r)"

text \<open>
  \<open>json.Decoder.Decode\<close>: the first value of the stream, whatever follows it; \<open>MaxBytesReader\<close>
  lets 64 KiB of the body through.
\<close>

definition maxMintBody :: nat where "maxMintBody = 65536"

definition decode_first :: "(string \<Rightarrow> string \<Rightarrow> json \<Rightarrow> 'a \<Rightarrow> 'a option) \<Rightarrow> 'a \<Rightarrow> string \<Rightarrow> 'a option" where
  "decode_first f z s =
     (let t = skip_ws s in
      case jval (2 * length t + 1) maxNestingDepth t of None \<Rightarrow> None | Some (v, _) \<Rightarrow> decode_struct f z v)"

section \<open>The handlers\<close>

text \<open>Texts of errors, and of a token; \<open>me_unrouted\<close> is what \<open>ServeMux\<close> answers by itself.\<close>

record 'tok mint_env =
  me_decode_text :: "string \<Rightarrow> string"
  me_tis_text :: "tis_error \<Rightarrow> string"
  me_token_text :: "'tok \<Rightarrow> string"
  me_unrouted :: "string \<Rightarrow> string \<Rightarrow> reply"

text \<open>\<open>time.Duration(n) * time.Second\<close> in 64 bits.\<close>

definition ttl_of :: "int \<Rightarrow> int" where
  "ttl_of n = signed_take_bit 63 (n * 1000000000)"

definition fail_with :: "int \<Rightarrow> string \<Rightarrow> reply" where
  "fail_with code text = writeJSON code (DObj [(''error'', DText text)])"

definition txn_reply :: "'tok mint_env \<Rightarrow> 'tok \<Rightarrow> reply" where
  "txn_reply me tok = writeJSON 200 (DObj [(''txn'', DText (me_token_text me tok))])"

definition no_mint :: mint_request where
  "no_mint = \<lparr>mr_Agent = '''', mr_HumanActor = '''', mr_Scope = no_scope, mr_TTLSeconds = 0\<rparr>"

definition on_mint :: "('l, 'k, 'p, 's, 'q, 'tok, 'pol) platform \<Rightarrow> 'tok mint_env \<Rightarrow> string \<Rightarrow> ('l, 'k, 's, 'tok, 'pol) gateway \<Rightarrow>
    reply \<times> ('l, 'k, 's, 'tok, 'pol) gateway" where
  "on_mint gx me body g =
     (case decode_first set_mint no_mint (take maxMintBody body) of
        None \<Rightarrow> (fail_with 400 (me_decode_text me body), g)
      | Some r \<Rightarrow>
          (case MintTxn (gx_jwt gx) (mr_Agent r) (mr_HumanActor r) (scope_of (mr_Scope r)) (ev_Version (st_current (g_store g)))
                  (ttl_of (mr_TTLSeconds r)) (g_tis g) of
             (Inl e, t) \<Rightarrow> (fail_with (if e = ErrNoAgent then 400 else 500) (me_tis_text me e), g\<lparr>g_tis := t\<rparr>)
           | (Inr tok, t) \<Rightarrow> (txn_reply me tok, g\<lparr>g_tis := t\<rparr>)))"

definition no_derive :: derive_request where
  "no_derive = \<lparr>dr_Parent = [], dr_Agent = [], dr_Scope = no_scope\<rparr>"

definition on_derive :: "('l, 'k, 'p, 's, 'q, 'tok, 'pol) platform \<Rightarrow> 'tok mint_env \<Rightarrow> string \<Rightarrow> ('l, 'k, 's, 'tok, 'pol) gateway \<Rightarrow>
    reply \<times> ('l, 'k, 's, 'tok, 'pol) gateway" where
  "on_derive gx me body g =
     (case decode_first set_derive no_derive (take maxMintBody body) of
        None \<Rightarrow> (fail_with 400 (me_decode_text me body), g)
      | Some r \<Rightarrow>
          (case DeriveChildTxn (gx_jwt gx) (gx_token gx (dr_Parent r)) (dr_Agent r) (scope_of (dr_Scope r)) (g_tis g) of
             (Inl e, t) \<Rightarrow> (fail_with (if e = ErrNoAgent then 400 else 422) (me_tis_text me e), g\<lparr>g_tis := t\<rparr>)
           | (Inr tok, t) \<Rightarrow> (txn_reply me tok, g\<lparr>g_tis := t\<rparr>)))"

definition mintMux :: "('l, 'k, 'p, 's, 'q, 'tok, 'pol) platform \<Rightarrow> 'tok mint_env \<Rightarrow> string \<Rightarrow> string \<Rightarrow> string \<Rightarrow>
    ('l, 'k, 's, 'tok, 'pol) gateway \<Rightarrow> reply \<times> ('l, 'k, 's, 'tok, 'pol) gateway" where
  "mintMux gx me m path body g =
     (if m = ''POST'' \<and> path = ''/mint'' then on_mint gx me body g
      else if m = ''POST'' \<and> path = ''/derive'' then on_derive gx me body g
      else (me_unrouted me m path, g))"

section \<open>The socket\<close>

text \<open>
  What is at the path, and how each call on the way goes.  A listener bound by the process makes
  the path a socket, open to the world until \<open>Chmod\<close>.
\<close>

datatype sock_node = SockLive | SockStale | NoSocket

record sock_fs =
  sf_node :: "sock_node option"
  sf_owner_only :: bool
  sf_dir_owner_only :: bool

record sock_faults =
  so_mkdir :: bool
  so_chmod_dir :: bool
  so_dial :: bool
  so_remove :: bool
  so_listen :: bool
  so_chmod :: bool

datatype sock_error = MkdirFails | ChmodDirFails | NotASocket | AlreadyServed | PathTooLong nat | ListenFails | ChmodFails

text \<open>
  \<open>listenMint\<close>.  A dial of a live socket may fail all the same (\<open>so_dial\<close>), and the error of
  \<open>Remove\<close> is dropped; \<open>Listen\<close> fails on a path that exists.
\<close>

definition listen_at :: "string \<Rightarrow> sock_faults \<Rightarrow> sock_fs \<Rightarrow> sock_error option \<times> sock_fs" where
  "listen_at path f fs =
     (if so_listen f \<or> sf_node fs \<noteq> None then (Some (if 100 < length path then PathTooLong (length path) else ListenFails), fs)
      else if so_chmod f then (Some ChmodFails, fs)
      else (None, fs\<lparr>sf_node := Some SockLive, sf_owner_only := True\<rparr>))"

definition listenMint :: "string \<Rightarrow> sock_faults \<Rightarrow> sock_fs \<Rightarrow> sock_error option \<times> sock_fs" where
  "listenMint path f fs =
     (if so_mkdir f then (Some MkdirFails, fs)
      else if so_chmod_dir f then (Some ChmodDirFails, fs)
      else
        let fs = fs\<lparr>sf_dir_owner_only := True\<rparr> in
        case sf_node fs of
          None \<Rightarrow> listen_at path f fs
        | Some NoSocket \<Rightarrow> (Some NotASocket, fs)
        | Some n \<Rightarrow>
            if n = SockLive \<and> \<not> so_dial f then (Some AlreadyServed, fs)
            else listen_at path f (if so_remove f then fs else fs\<lparr>sf_node := None\<rparr>))"

section \<open>The sideband is the service\<close>

lemma draw_World: "service lib (t, R, I) (draw t, R, I)"
  unfolding draw_def by (rule service.World) (simp add: t_now_def)

lemma MintTxn_service:
  assumes "jwt_ok lib" and "MintTxn lib agent human s v ttl t = (r, t')"
  shows "\<exists>R' I'. (service lib)\<^sup>*\<^sup>* (t, R, I) (t', R', I') \<and> I \<subseteq> I' \<and> (\<forall>tok. r = Inr tok \<longrightarrow> tok \<in> I')"
proof (cases r)
  case (Inl e)
  have "(service lib)\<^sup>*\<^sup>* (t, R, I) (draw (draw t), R, I)"
    using draw_World [of lib t R I] draw_World [of lib "draw t" R I] by simp
  moreover have "t' = t \<or> t' = draw (draw t)"
    using assms(2) by (auto simp: MintTxn_def split: if_splits dest!: sign_cases)
  ultimately show ?thesis using Inl by (intro exI [of _ R] exI [of _ I]) auto
next
  case (Inr tok)
  with assms obtain kid p where "jl_decode lib tok = Some (kid, p)"
    by (auto simp: MintTxn_def jwt_ok_def split: if_splits dest!: sign_cases)
  from service.Mint [OF assms(2) [unfolded Inr] this, of R I] Inr show ?thesis by (intro exI conjI) auto
qed

lemma DeriveChildTxn_service:
  assumes "genuine lib t I parent" and "DeriveChildTxn lib parent agent s t = (r, t')"
  shows "\<exists>R' I'. (service lib)\<^sup>*\<^sup>* (t, R, I) (t', R', I') \<and> I \<subseteq> I' \<and> (\<forall>tok. r = Inr tok \<longrightarrow> tok \<in> I')"
proof (cases r)
  case (Inl e)
  have "t' = t \<or> t' = draw t"
    using assms(2) by (auto simp: DeriveChildTxn_def split: if_splits sum.splits dest!: sign_cases)
  with Inl draw_World [of lib t R I] show ?thesis by (intro exI [of _ R] exI [of _ I]) auto
next
  case (Inr tok)
  from service.Child [OF assms(1) assms(2) [unfolded Inr], of R] Inr show ?thesis by (intro exI conjI) auto
qed

text \<open>The token a request presents: the parent of a derivation.\<close>

definition posted :: "('l, 'k, 'p, 's, 'q, 'tok, 'pol) platform \<Rightarrow> string \<Rightarrow> string \<Rightarrow> 'tok option" where
  "posted gx path body =
     (if path = ''/derive'' then map_option (\<lambda>r. gx_token gx (dr_Parent r)) (decode_first set_derive no_derive (take maxMintBody body))
      else None)"

lemma mintMux_service:
  assumes "jwt_ok (gx_jwt gx)" and "\<And>tok. posted gx path body = Some tok \<Longrightarrow> genuine (gx_jwt gx) (g_tis g) I tok"
    and "mintMux gx me ''POST'' path body g = (r, g')" and "path \<in> {''/mint'', ''/derive''}"
  shows "g' = g\<lparr>g_tis := g_tis g'\<rparr> \<and>
     (\<exists>R' I'. (service (gx_jwt gx))\<^sup>*\<^sup>* (g_tis g, R, I) (g_tis g', R', I') \<and> I \<subseteq> I' \<and>
        (fst r = 200 \<longrightarrow> (\<exists>tok \<in> I'. r = txn_reply me tok)))"
proof -
  consider "path = ''/mint''" "on_mint gx me body g = (r, g')" | "path = ''/derive''" "on_derive gx me body g = (r, g')"
    using assms(3,4) by (auto simp: mintMux_def split: if_splits)
  then show ?thesis
  proof cases
    case 1
    then show ?thesis using MintTxn_service [OF assms(1), of _ _ _ _ _ "g_tis g" _ _ R I]
      by (fastforce simp: on_mint_def fail_with_def writeJSON_def split: option.splits prod.splits sum.splits)
  next
    case 2
    show ?thesis
    proof (cases "decode_first set_derive no_derive (take maxMintBody body)")
      case None
      with 2 show ?thesis by (fastforce simp: on_derive_def fail_with_def writeJSON_def)
    next
      case (Some d)
      then have "genuine (gx_jwt gx) (g_tis g) I (gx_token gx (dr_Parent d))"
        using assms(2) 2(1) by (simp add: posted_def)
      from 2(2) DeriveChildTxn_service [OF this, of _ _ _ _ R] Some show ?thesis
        by (fastforce simp: on_derive_def fail_with_def writeJSON_def split: prod.splits sum.splits)
    qed
  qed
qed

text \<open>
  C25. The sideband refines the identity service.  Whatever is posted to it, well-formed or not, the
  service takes only steps of the abstract service, which mints roots and derives children; a
  credential that is handed out is one of the tokens that service issued; and the rest of the
  gateway stays as it is.  What is relied on is that the parent presented, if it checks under a
  key of the service, was issued by it.
\<close>

theorem sideband_is_service:
  assumes "jwt_ok (gx_jwt gx)" and "\<And>tok. posted gx path body = Some tok \<Longrightarrow> genuine (gx_jwt gx) (g_tis g) I tok"
    and "mintMux gx me ''POST'' path body g = (r, g')" and "path \<in> {''/mint'', ''/derive''}"
  shows "g' = g\<lparr>g_tis := g_tis g'\<rparr> \<and>
     (\<exists>R' I'. (service (gx_jwt gx))\<^sup>*\<^sup>* (g_tis g, R, I) (g_tis g', R', I') \<and> I \<subseteq> I' \<and>
        (fst r = 200 \<longrightarrow> (\<exists>tok \<in> I'. r = txn_reply me tok)))"
  using assms by (rule mintMux_service)

section \<open>What a minted credential is worth\<close>

lemma clamp_ttl_range: "0 < clamp_ttl ttl \<and> clamp_ttl ttl \<le> MaxTxnTTL"
  by (simp add: clamp_ttl_def Let_def DefaultTxnTTL_def MaxTxnTTL_def)

lemma numeric_date_after: "0 < d \<Longrightarrow> d \<le> k * 1000000000 \<Longrightarrow> numeric_date t \<le> numeric_date (t + d) \<and> numeric_date (t + d) \<le> numeric_date t + k"
proof -
  assume d: "0 < d" "d \<le> k * 1000000000"
  have "t div 1000000000 \<le> (t + d) div 1000000000" using d(1) by (intro zdiv_mono1) simp_all
  moreover have "(t + d) div 1000000000 \<le> (t + k * 1000000000) div 1000000000" using d(2) by (intro zdiv_mono1) simp_all
  moreover have "(t + k * 1000000000) div 1000000000 = t div 1000000000 + k" by simp
  ultimately show ?thesis by (simp add: numeric_date_def)
qed

text \<open>
  C26. Whatever \<open>ttl_seconds\<close> a client asks for, a product that overflows 64 bits included, the
  credential it is handed lives at most four hours; it names an agent that is not blank as the
  whole lineage, carries the version of the policies in force, and opens no parent.
\<close>

theorem minted_lifetime_bounded:
  assumes "jwt_ok (gx_jwt gx)" and "mintMux gx me ''POST'' ''/mint'' body g = ((200, text), g')"
  shows "\<exists>tok kid p agent iat ex. (200, text) = txn_reply me tok \<and> jl_decode (gx_jwt gx) tok = Some (kid, p) \<and>
     trim_space agent \<noteq> '''' \<and> p_lineage p = [jl_utf8 (gx_jwt gx) agent] \<and>
     p_pol_ver p = jl_utf8 (gx_jwt gx) (ev_Version (st_current (g_store g))) \<and> p_parent_txn p = jl_utf8 (gx_jwt gx) '''' \<and>
     p_iat p = Some iat \<and> p_exp p = Some ex \<and> iat = numeric_date (t_now (g_tis g)) \<and> iat \<le> ex \<and> ex \<le> iat + 4 * 3600"
proof -
  let ?lib = "gx_jwt gx"
  from assms(2) have "on_mint gx me body g = ((200, text), g')" by (simp add: mintMux_def)
  then obtain r where d: "decode_first set_mint no_mint (take maxMintBody body) = Some r"
    by (cases "decode_first set_mint no_mint (take maxMintBody body)")
      (simp_all add: on_mint_def fail_with_def writeJSON_def)
  let ?mint = "MintTxn ?lib (mr_Agent r) (mr_HumanActor r) (scope_of (mr_Scope r)) (ev_Version (st_current (g_store g)))
      (ttl_of (mr_TTLSeconds r)) (g_tis g)"
  from d assms(2) obtain tok t where m: "?mint = (Inr tok, t)" and t: "txn_reply me tok = (200, text)"
    by (cases ?mint; cases "fst ?mint") (auto simp: mintMux_def on_mint_def fail_with_def writeJSON_def split: if_splits)
  define c where "c = mint_claims ?lib (mr_Agent r) (mr_HumanActor r) (scope_of (mr_Scope r)) (ev_Version (st_current (g_store g)))
      (ttl_of (mr_TTLSeconds r)) (g_tis g)"
  note s = MintTxn_signed [OF m, folded c_def]
  from s have jd: "jl_decode ?lib tok = Some (jl_utf8 ?lib (kr_curKid (t_ring (g_tis g))), text_of (jl_utf8 ?lib) (txn_payload c))"
    using jwt_okD(1) [OF assms(1)] by blast
  have n: "numeric_date (t_now (g_tis g)) \<le> numeric_date (t_now (g_tis g) + clamp_ttl (ttl_of (mr_TTLSeconds r))) \<and>
      numeric_date (t_now (g_tis g) + clamp_ttl (ttl_of (mr_TTLSeconds r))) \<le> numeric_date (t_now (g_tis g)) + 4 * 3600"
    using clamp_ttl_range [of "ttl_of (mr_TTLSeconds r)"] by (intro numeric_date_after) (simp_all add: MaxTxnTTL_def)
  have p: "p_lineage (text_of (jl_utf8 ?lib) (txn_payload c)) = [jl_utf8 ?lib (mr_Agent r)]"
    "p_pol_ver (text_of (jl_utf8 ?lib) (txn_payload c)) = jl_utf8 ?lib (ev_Version (st_current (g_store g)))"
    "p_parent_txn (text_of (jl_utf8 ?lib) (txn_payload c)) = jl_utf8 ?lib ''''"
    "p_iat (text_of (jl_utf8 ?lib) (txn_payload c)) = Some (numeric_date (t_now (g_tis g)))"
    "p_exp (text_of (jl_utf8 ?lib) (txn_payload c)) = Some (numeric_date (t_now (g_tis g) + clamp_ttl (ttl_of (mr_TTLSeconds r))))"
    by (simp_all add: text_of_def txn_payload_def c_def mint_claims_def)
  from s have a: "trim_space (mr_Agent r) \<noteq> ''''" by simp
  show ?thesis
    using t [symmetric] jd p n a by blast
qed

text \<open>
  The socket: a file that is no socket is never removed, a socket that answers is left to the
  process that serves it, and what is listened on is open to its owner only.
\<close>

theorem socket_spares_others:
  assumes "listenMint path f fs = (r, fs')"
  shows "(sf_node fs = Some NoSocket \<longrightarrow> r \<noteq> None \<and> sf_node fs' = Some NoSocket) \<and>
     (sf_node fs = Some SockLive \<and> \<not> so_dial f \<longrightarrow> r \<noteq> None \<and> sf_node fs' = Some SockLive) \<and>
     (r = None \<longrightarrow> sf_node fs' = Some SockLive \<and> sf_owner_only fs' \<and> sf_dir_owner_only fs')"
  using assms by (auto simp: listenMint_def listen_at_def Let_def split: if_splits option.splits sock_node.splits)

section \<open>Witnesses\<close>

definition toy_mint_env :: "(nat \<times> string \<times> payload) mint_env" where
  "toy_mint_env = \<lparr>me_decode_text = (\<lambda>_. ''bad body''), me_tis_text = (\<lambda>_. ''tis''), me_token_text = (\<lambda>tok. fst (snd tok)),
     me_unrouted = (\<lambda>_ _. (404, ''''))\<rparr>"

definition toy_mint_body :: string where
  "toy_mint_body = json_obj [(''agent'', json_key ''agent''), (''scope'', json_obj [(''actions'', json_arr [json_key ''read''])]),
     (''ttl_seconds'', ''60'')]"

lemma toy_mint_decodes:
  "decode_first set_mint no_mint toy_mint_body =
     Some \<lparr>mr_Agent = ''agent'', mr_HumanActor = '''', mr_Scope = no_scope\<lparr>sf_actions := (1, [''read''])\<rparr>, mr_TTLSeconds = 60\<rparr>"
  by code_simp

lemma toy_mint_reply:
  "\<exists>text g'. mintMux toy_platform toy_mint_env ''POST'' ''/mint'' toy_mint_body toy_gateway = ((200, text), g')"
proof -
  have "trim_space ''agent'' \<noteq> ''''" by code_simp
  moreover have "length toy_mint_body < maxMintBody" by (simp add: maxMintBody_def toy_mint_body_def json_obj_def json_arr_def json_key_def)
  ultimately show ?thesis
    by (simp add: mintMux_def on_mint_def toy_mint_decodes MintTxn_def sign_def toy_platform_def toy_jwt_def toy_keys_def txn_reply_def writeJSON_def)
qed

theorem minted_lifetime_bounded_witness:
  "\<exists>text g' tok p iat ex. mintMux toy_platform toy_mint_env ''POST'' ''/mint'' toy_mint_body toy_gateway = ((200, text), g') \<and>
     p_iat p = Some iat \<and> p_exp p = Some ex \<and> ex \<le> iat + 4 * 3600 \<and> (200, text) = txn_reply toy_mint_env (3, tok, p)"
proof -
  obtain out g' where m: "mintMux toy_platform toy_mint_env ''POST'' ''/mint'' toy_mint_body toy_gateway = ((200, out), g')"
    using toy_mint_reply by blast
  have "jwt_ok (gx_jwt toy_platform)" by (simp add: toy_platform_def toy_jwt_ok)
  from minted_lifetime_bounded [OF this m] obtain tok kid p iat ex where
    "(200, out) = txn_reply toy_mint_env tok" "jl_decode (gx_jwt toy_platform) tok = Some (kid, p)"
    "p_iat p = Some iat" "p_exp p = Some ex" "ex \<le> iat + 4 * 3600" by blast
  moreover from this(1,2) have "(200, out) = txn_reply toy_mint_env (3, kid, p)"
    by (cases tok) (simp add: toy_platform_def txn_reply_def toy_mint_env_def)
  ultimately show ?thesis using m by blast
qed

theorem sideband_is_service_witness:
  "\<exists>R' I'. (service (gx_jwt toy_platform))\<^sup>*\<^sup>* (g_tis toy_gateway, {}, {})
     (g_tis (snd (mintMux toy_platform toy_mint_env ''POST'' ''/mint'' toy_mint_body toy_gateway)), R', I') \<and> I' \<noteq> {}"
proof -
  obtain out g' where m: "mintMux toy_platform toy_mint_env ''POST'' ''/mint'' toy_mint_body toy_gateway = ((200, out), g')"
    using toy_mint_reply by blast
  have j: "jwt_ok (gx_jwt toy_platform)" by (simp add: toy_platform_def toy_jwt_ok)
  have g: "genuine (gx_jwt toy_platform) (g_tis toy_gateway) {} tok" if "posted toy_platform ''/mint'' toy_mint_body = Some tok" for tok
    using that by (simp add: posted_def)
  from sideband_is_service [OF j g m, of "{}"] show ?thesis by (fastforce simp: m)
qed

end
