(* ===== verification/Bench.thy ===== *)
theory Bench
  imports Admin Mcp "HOL-Library.Signed_Division"
begin

text \<open>
  The load generator \<open>proxy/cmd/gurdy-bench/main.go\<close>: the open-loop schedule and what it measures,
  percentiles, the pooling of the baseline arms, the verdicts, the soak, and the counters it reads
  from the admin API.  Durations are nanoseconds; where the code subtracts them it does so in 64
  bits.  \<open>rnd\<close> is the rounding of \<open>float64\<close>, as in theory \<open>Clock\<close>.
\<close>

section \<open>Results\<close>

record result =
  rs_label :: string
  rs_lat :: "int list"
  rs_max :: int
  rs_maxLag :: int
  rs_errors :: int
  rs_saturated :: int
  rs_window :: int

definition sub64 :: "int \<Rightarrow> int \<Rightarrow> int" where
  "sub64 a b = signed_take_bit 63 (a - b)"

definition window_seconds :: "(rat \<Rightarrow> rat) \<Rightarrow> int \<Rightarrow> rat" where
  "window_seconds rnd d = rnd (rnd (of_int (d div 1000000000)) + rnd (rnd (of_int (d mod 1000000000)) / 1000000000))"

definition achieved :: "(rat \<Rightarrow> rat) \<Rightarrow> result \<Rightarrow> rat" where
  "achieved rnd r =
     (if rs_window r = 0 then 0 else rnd (rnd (of_nat (length (rs_lat r))) / window_seconds rnd (rs_window r)))"

text \<open>The index \<open>int(math.Ceil(p/100*float64(len))) - 1\<close>, brought into range.\<close>

definition rank_of :: "(rat \<Rightarrow> rat) \<Rightarrow> rat \<Rightarrow> nat \<Rightarrow> int" where
  "rank_of rnd p n = \<lceil>rnd (rnd (rnd p / 100) * rnd (of_nat n))\<rceil>"

definition pct :: "(rat \<Rightarrow> rat) \<Rightarrow> rat \<Rightarrow> result \<Rightarrow> int" where
  "pct rnd p r =
     (if rs_lat r = [] then 0
      else
        let i = rank_of rnd p (length (rs_lat r)) - 1; i = (if i < 0 then 0 else i);
            i = (if i \<ge> int (length (rs_lat r)) then int (length (rs_lat r)) - 1 else i)
        in rs_lat r ! nat i)"

definition pool :: "result \<Rightarrow> result \<Rightarrow> result" where
  "pool a b =
     (let lat = sort (rs_lat a @ rs_lat b)
      in \<lparr>rs_label = ''baseline'', rs_lat = lat, rs_max = (if lat = [] then 0 else last lat),
          rs_maxLag = max (rs_maxLag a) (rs_maxLag b), rs_errors = 0, rs_saturated = 0, rs_window = rs_window a + rs_window b\<rparr>)"

section \<open>Verdicts\<close>

record counters =
  ct_dropped :: int
  ct_writeErrors :: int
  ct_identityFailed :: int

datatype problem =
    Disagree int | BaselineTail int | BaselineMedian int | Failures int | RecordsDropped int | LedgerErrors int
  | BehindSchedule int | InFlightCap int | UnderRate rat | AddedMedian int | AddedTail int

definition resolvable :: "(rat \<Rightarrow> rat) \<Rightarrow> result \<Rightarrow> result \<Rightarrow> result \<Rightarrow> int \<Rightarrow> int \<Rightarrow> problem list" where
  "resolvable rnd a b baseline p50Gate p99Gate =
     (let drift = sub64 (pct rnd 99 a) (pct rnd 99 b); drift = (if drift < 0 then sub64 0 drift else drift)
      in (if drift > p99Gate then [Disagree drift] else []) @
         (if pct rnd 99 baseline > p99Gate then [BaselineTail (pct rnd 99 baseline)] else []) @
         (if pct rnd 50 baseline > p50Gate then [BaselineMedian (pct rnd 50 baseline)] else []))"

definition verdict :: "(rat \<Rightarrow> rat) \<Rightarrow> result \<Rightarrow> result \<Rightarrow> counters \<Rightarrow> counters \<Rightarrow> int \<Rightarrow> int \<Rightarrow> int \<Rightarrow> problem list" where
  "verdict rnd baseline governed before after rate p50Gate p99Gate =
     (let dropped = sub64 (ct_dropped after) (ct_dropped before); werr = sub64 (ct_writeErrors after) (ct_writeErrors before);
          d50 = sub64 (pct rnd 50 governed) (pct rnd 50 baseline); d99 = sub64 (pct rnd 99 governed) (pct rnd 99 baseline)
      in (if rs_errors governed > 0 then [Failures (rs_errors governed)] else []) @
         (if dropped > 0 then [RecordsDropped dropped] else []) @
         (if werr > 0 then [LedgerErrors werr] else []) @
         (if rs_maxLag governed > 50 * 1000000 then [BehindSchedule (rs_maxLag governed)] else []) @
         (if rs_saturated governed > 0 then [InFlightCap (rs_saturated governed)] else []) @
         (if achieved rnd governed < rnd (rnd (of_int rate) * rnd (95 / 100)) then [UnderRate (achieved rnd governed)] else []) @
         (if d50 > p50Gate then [AddedMedian d50] else []) @
         (if d99 > p99Gate \<and> pct rnd 99 baseline \<le> p99Gate then [AddedTail d99] else []))"

text \<open>The end of \<open>main\<close>: what is reported, and whether the process exits 1.\<close>

definition bench_exit :: "(rat \<Rightarrow> rat) \<Rightarrow> result \<Rightarrow> result \<Rightarrow> result \<Rightarrow> counters \<Rightarrow> counters \<Rightarrow> int \<Rightarrow> int \<Rightarrow> int \<Rightarrow> bool \<Rightarrow>
    problem list \<times> bool" where
  "bench_exit rnd a governed b before after rate p50Gate p99Gate gated =
     (let baseline = pool a b;
          problems = resolvable rnd a b baseline p50Gate p99Gate @ verdict rnd baseline governed before after rate p50Gate p99Gate
      in (problems, gated \<and> problems \<noteq> []))"

section \<open>The counters\<close>

text \<open>
  \<open>dropCounters\<close>: the errors of the decoder are dropped, and what was decoded before them stays.
  \<open>get\<close> is \<open>http.Get\<close> of the health document: its body, or nothing.
\<close>

definition set_counters :: "string \<Rightarrow> json \<Rightarrow> counters \<Rightarrow> counters" where
  "set_counters k v c =
     (if key_is k ''dropped'' then (case into_int v (ct_dropped c) of None \<Rightarrow> c | Some n \<Rightarrow> c\<lparr>ct_dropped := n\<rparr>)
      else if key_is k ''write_errors'' then (case into_int v (ct_writeErrors c) of None \<Rightarrow> c | Some n \<Rightarrow> c\<lparr>ct_writeErrors := n\<rparr>)
      else if key_is k ''identity_failed'' then (case into_int v (ct_identityFailed c) of None \<Rightarrow> c | Some n \<Rightarrow> c\<lparr>ct_identityFailed := n\<rparr>)
      else c)"

definition no_counters :: counters where
  "no_counters = \<lparr>ct_dropped = 0, ct_writeErrors = 0, ct_identityFailed = 0\<rparr>"

definition decode_counters :: "string \<Rightarrow> counters" where
  "decode_counters s =
     (let t = skip_ws s in
      case jval (2 * length t + 1) maxNestingDepth t of
        Some (JObj ms, _) \<Rightarrow> foldl (\<lambda>c (k, raw, v). set_counters (unquote k) v c) no_counters ms
      | _ \<Rightarrow> no_counters)"

definition dropCounters :: "string \<Rightarrow> string option \<Rightarrow> counters" where
  "dropCounters admin get =
     (if admin = '''' then no_counters
      else case get of None \<Rightarrow> no_counters | Some body \<Rightarrow> decode_counters body)"

section \<open>The schedule\<close>

text \<open>
  The loop of \<open>run\<close> over the instants at which requests are due, counted from its start, with
  whether each is measured.  It may not end: \<open>None\<close>.  The instants stay below the end of the
  window plus one interval, so that the product does not wrap around in 64 bits.
\<close>

partial_function (option) due_loop :: "int \<Rightarrow> int \<Rightarrow> int \<Rightarrow> int \<Rightarrow> (int \<times> bool) list option" where
  "due_loop interval warm e i =
     (if i * interval > e then Some []
      else Option.bind (due_loop interval warm e (i + 1)) (\<lambda>rest. Some ((i * interval, warm \<le> i * interval) # rest)))"

text \<open>A rate of 0 panics: \<open>time.Second / time.Duration(rate)\<close> divides by zero.\<close>

definition schedule :: "int \<Rightarrow> int \<Rightarrow> int \<Rightarrow> (int \<times> bool) list option" where
  "schedule rate warmup dur =
     (if rate = 0 then None else due_loop (1000000000 sdiv rate) warmup (warmup + dur) 0)"

text \<open>What becomes of one request: whether a slot was free when it was due, when it was started, and its end.\<close>

datatype answer = NoRequest | NoAnswer | Answered int int

record outcome =
  oc_slot :: bool
  oc_started :: int
  oc_answer :: answer

text \<open>\<open>fire\<close>, with the goroutine it starts; the answer carries its status and the instant it was read.\<close>

definition fire :: "int \<times> bool \<Rightarrow> outcome \<Rightarrow> result \<Rightarrow> result" where
  "fire d oc r =
     (let r = (if oc_slot oc then r else r\<lparr>rs_saturated := rs_saturated r + 1\<rparr>)
      in case oc_answer oc of
           Answered status fin \<Rightarrow>
             if status \<ge> 500 then r\<lparr>rs_errors := rs_errors r + 1\<rparr>
             else if \<not> snd d then r
             else r\<lparr>rs_lat := rs_lat r @ [fin - fst d],
                    rs_maxLag := (if oc_started oc - fst d > rs_maxLag r then oc_started oc - fst d else rs_maxLag r)\<rparr>
         | _ \<Rightarrow> r\<lparr>rs_errors := rs_errors r + 1\<rparr>)"

definition fire_all :: "((int \<times> bool) \<times> outcome) list \<Rightarrow> result \<Rightarrow> result" where
  "fire_all fs r = fold (\<lambda>(d, oc). fire d oc) fs r"

text \<open>
  \<open>run\<close>: the environment gives each request its outcome.  Requests finish in any order; what is
  collected is sorted, counted or maximised.
\<close>

definition finish_run :: "result \<Rightarrow> result" where
  "finish_run r = (let lat = sort (rs_lat r) in r\<lparr>rs_lat := lat, rs_max := (if lat = [] then 0 else last lat)\<rparr>)"

definition run_bench :: "string \<Rightarrow> int \<Rightarrow> int \<Rightarrow> int \<Rightarrow> (nat \<Rightarrow> outcome) \<Rightarrow> result option" where
  "run_bench label rate warmup dur env =
     (case schedule rate warmup dur of
        None \<Rightarrow> None
      | Some ds \<Rightarrow>
          Some (finish_run (fire_all (zip ds (map env [0..<length ds]))
            \<lparr>rs_label = label, rs_lat = [], rs_max = 0, rs_maxLag = 0, rs_errors = 0, rs_saturated = 0, rs_window = dur\<rparr>)))"

section \<open>The soak\<close>

definition pctChange :: "(rat \<Rightarrow> rat) \<Rightarrow> int \<Rightarrow> int \<Rightarrow> rat" where
  "pctChange rnd a b =
     (if a = 0 then 0 else rnd (rnd (rnd (rnd (of_int b) - rnd (of_int a)) / rnd (of_int a)) * 100))"

text \<open>The numbers on the three lines: from, to, and the change.\<close>

definition driftLines :: "(rat \<Rightarrow> rat) \<Rightarrow> result \<Rightarrow> result \<Rightarrow> (int \<times> int \<times> rat) \<times> (int \<times> int \<times> rat) \<times> rat \<times> rat" where
  "driftLines rnd a b =
     ((pct rnd 50 a, pct rnd 50 b, pctChange rnd (pct rnd 50 a) (pct rnd 50 b)),
      (pct rnd 99 a, pct rnd 99 b, pctChange rnd (pct rnd 99 a) (pct rnd 99 b)), achieved rnd a, achieved rnd b)"

text \<open>
  \<open>soakRun\<close>: the windows one after the other, the first with a warm-up; then the drift from the
  first to the last, and whether evidence was lost, which needs an admin address.  \<open>None\<close> is a
  refusal to start or a window that does not end.
\<close>

fun soak_windows :: "nat \<Rightarrow> int \<Rightarrow> int \<Rightarrow> int \<Rightarrow> (nat \<Rightarrow> nat \<Rightarrow> outcome) \<Rightarrow> nat \<Rightarrow> result list option" where
  "soak_windows 0 rate warmup window env i = Some []"
| "soak_windows (Suc n) rate warmup window env i =
     (case run_bench (''w'' @ (if i < 9 then ''0'' else '''') @ itoa (i + 1)) rate (if i = 0 then warmup else 0) window (env i) of
        None \<Rightarrow> None
      | Some r \<Rightarrow> map_option ((#) r) (soak_windows n rate warmup window env (i + 1)))"

definition soakRun :: "(rat \<Rightarrow> rat) \<Rightarrow> string \<Rightarrow> string \<Rightarrow> int \<Rightarrow> int \<Rightarrow> int \<Rightarrow> int \<Rightarrow> (nat \<Rightarrow> nat \<Rightarrow> outcome) \<Rightarrow> string option \<Rightarrow> string option \<Rightarrow>
    (((int \<times> int \<times> rat) \<times> (int \<times> int \<times> rat) \<times> rat \<times> rat) \<times> bool option) option" where
  "soakRun rnd proxyURL admin rate warmup window total_s env get0 get1 =
     (let windows = total_s sdiv window in
      if proxyURL = '''' \<or> windows < 2 then None
      else
        case soak_windows (nat windows) rate warmup window env 0 of
          None \<Rightarrow> None
        | Some rs \<Rightarrow>
            (let before = dropCounters admin get0; after = dropCounters admin get1
             in Some (driftLines rnd (hd rs) (last rs),
                  if admin = '''' then None
                  else Some (ct_dropped after > ct_dropped before \<or> ct_writeErrors after > ct_writeErrors before))))"

section \<open>The body\<close>

text \<open>\<open>strings.Replace\<close> with a count of 1.\<close>

fun cut_at :: "string \<Rightarrow> string \<Rightarrow> (string \<times> string) option" where
  "cut_at w [] = (if w = [] then Some ([], []) else None)"
| "cut_at w (c # s) =
     (if has_prefix (c # s) w then Some ([], drop (length w) (c # s))
      else map_option (\<lambda>(a, b). (c # a, b)) (cut_at w s))"

definition replace_first :: "string \<Rightarrow> string \<Rightarrow> string \<Rightarrow> string" where
  "replace_first s old new = (case cut_at old s of None \<Rightarrow> s | Some (a, b) \<Rightarrow> a @ new @ b)"

definition body_shell :: string where
  "body_shell = ''{\"jsonrpc\":\"2.0\",\"id\":1,\"method\":\"tools/call\",\"params\":{\"name\":\"read_file\",\"arguments\":{\"path\":\"/workspace/notes.txt\",\"pad\":\"\"}}}''"

definition mcpBody :: "int \<Rightarrow> string" where
  "mcpBody n =
     (let pad = n - int (length body_shell) in
      if pad > 0
      then replace_first body_shell ''\"pad\":\"\"'' (''\"pad\":\"'' @ replicate (nat pad) CHR ''x'' @ ''\"'')
      else body_shell)"

section \<open>The gate never sees a loss\<close>

lemma set_counters_other:
  "set_counters ''bundle'' v c = c" "set_counters ''coverage'' v c = c" "set_counters ''status'' v c = c"
proof -
  have "\<not> key_is ''bundle'' ''dropped''" "\<not> key_is ''bundle'' ''write_errors''" "\<not> key_is ''bundle'' ''identity_failed''"
    "\<not> key_is ''coverage'' ''dropped''" "\<not> key_is ''coverage'' ''write_errors''" "\<not> key_is ''coverage'' ''identity_failed''"
    "\<not> key_is ''status'' ''dropped''" "\<not> key_is ''status'' ''write_errors''" "\<not> key_is ''status'' ''identity_failed''"
    by code_simp+
  then show "set_counters ''bundle'' v c = c" "set_counters ''coverage'' v c = c" "set_counters ''status'' v c = c"
    by (simp_all add: set_counters_def)
qed

lemma health_counters: "decode_counters (marshal_doc (health_doc g) @ [CHR 0x0A]) = no_counters"
proof -
  let ?h = "health_doc g" and ?s = "marshal_doc (health_doc g) @ [CHR 0x0A]"
  have v: "is_value maxNestingDepth (marshal_doc ?h) (value_of ?h)"
    by (rule marshal_value) (simp add: health_doc_def Let_def maxNestingDepth_def)
  have "jval (2 * length ?s + 1) maxNestingDepth ?s = Some (value_of ?h, [CHR 0x0A])"
    using v by (intro is_value_embed [of maxNestingDepth]) (simp_all add: jstop_def numchar_def is_digit_def)
  moreover have "skip_ws ?s = ?s" by (rule is_value_skip [OF v])
  ultimately have "decode_counters ?s =
      (case value_of ?h of JObj ms \<Rightarrow> foldl (\<lambda>c (k, raw, v). set_counters (unquote k) v c) no_counters ms | _ \<Rightarrow> no_counters)"
    by (simp add: decode_counters_def Let_def split: json.split)
  also have "\<dots> = no_counters"
    by (simp add: health_doc_def Let_def unquote_escape health_keys set_counters_other)
  finally show ?thesis .
qed

text \<open>
  C39. The evidence gate of the load generator is blind.  It looks for the loss counters at the top
  of the health document, the proxy puts them under \<open>coverage\<close>: whatever the ledger lost before and
  during a run, the counters read are zero, and the verdict never says that records were dropped
  or that writes failed.
\<close>

theorem drop_gate_blind:
  assumes "aq_Method q = ''GET''" and "aq_Path q = ''/health''" and "aq_Origin q = ''''" and "is_localhost (aq_Host q)"
    and "before = dropCounters admin (Some (snd (fst (adminMux gx ae q p))))"
    and "after = dropCounters admin (Some (snd (fst (adminMux gx ae q p'))))"
    and "(problems, bad) = bench_exit rnd a governed b before after rate p50Gate p99Gate gated"
  shows "before = no_counters \<and> after = no_counters \<and> (\<forall>d. RecordsDropped d \<notin> set problems \<and> LedgerErrors d \<notin> set problems)"
proof -
  have m: "adminMux gx ae q p = (writeJSON 200 (health_doc (gv_gateway p)), p)" for p
    using assms(1-4) by (simp add: adminMux_def csrfGuard_def serve_admin_def perform_def route_def)
  have "before = no_counters" "after = no_counters"
    using assms(5,6) by (simp_all add: m writeJSON_def dropCounters_def health_counters)
  moreover from this have "\<forall>d. RecordsDropped d \<notin> set problems \<and> LedgerErrors d \<notin> set problems"
    using assms(7) by (simp add: bench_exit_def resolvable_def verdict_def Let_def sub64_def no_counters_def)
  ultimately show ?thesis by simp
qed

section \<open>The schedule ends\<close>

lemma le_div_int:
  assumes "0 < (k :: int)"
  shows "i \<le> e div k \<longleftrightarrow> i * k \<le> e"
proof
  assume "i \<le> e div k"
  then have "i * k \<le> e div k * k" using assms by (intro mult_right_mono) auto
  moreover have "e div k * k + e mod k = e" by (rule div_mult_mod_eq)
  moreover have "0 \<le> e mod k" using assms by (rule pos_mod_sign)
  ultimately show "i * k \<le> e" by linarith
next
  assume "i * k \<le> e"
  from zdiv_mono1 [OF this assms] assms show "i \<le> e div k" by simp
qed

lemma due_loop_shape:
  assumes "0 < interval"
  shows "due_loop interval warm e i = Some (map (\<lambda>j. (j * interval, warm \<le> j * interval)) [i..e div interval])"
proof (induction "nat (e div interval + 1 - i)" arbitrary: i)
  case 0
  then have "\<not> i \<le> e div interval" by simp
  with le_div_int [OF assms, of i e] have "e < i * interval" "e div interval < i" by linarith+
  then show ?case by (subst due_loop.simps) simp
next
  case (Suc n)
  then have i: "i \<le> e div interval" and n: "n = nat (e div interval + 1 - (i + 1))" by simp_all
  with Suc.hyps(1) [OF n] le_div_int [OF assms, of i e] show ?case by (subst due_loop.simps) (simp add: upto.simps [of i])
qed

lemma due_loop_endless:
  assumes "due_loop interval warm e i = Some ds"
  shows "\<not> (interval \<le> 0 \<and> 0 \<le> e \<and> 0 \<le> i)"
proof (rule due_loop.raw_induct [OF _ assms])
  fix loop :: "int \<Rightarrow> int \<Rightarrow> int \<Rightarrow> int \<Rightarrow> (int \<times> bool) list option" and interval warm e i :: int and ds
  assume ih: "\<And>interval warm e i ds. loop interval warm e i = Some ds \<Longrightarrow> \<not> (interval \<le> 0 \<and> 0 \<le> e \<and> 0 \<le> i)"
    and b: "(if e < i * interval then Some []
       else Option.bind (loop interval warm e (i + 1)) (\<lambda>rest. Some ((i * interval, warm \<le> i * interval) # rest))) = Some ds"
  show "\<not> (interval \<le> 0 \<and> 0 \<le> e \<and> 0 \<le> i)"
  proof
    assume a: "interval \<le> 0 \<and> 0 \<le> e \<and> 0 \<le> i"
    then have "\<not> i * interval > e" using mult_nonneg_nonpos [of i interval] by simp
    with b obtain rest where "loop interval warm e (i + 1) = Some rest" by (auto split: bind_splits if_splits)
    from ih [OF this] a show False by simp
  qed
qed

text \<open>What the loop collects, request by request.\<close>

definition counted :: "(int \<times> bool) \<times> outcome \<Rightarrow> bool" where
  "counted f = (case oc_answer (snd f) of Answered status fin \<Rightarrow> status < 500 \<and> snd (fst f) | _ \<Rightarrow> False)"

definition failing :: "(int \<times> bool) \<times> outcome \<Rightarrow> bool" where
  "failing f = (case oc_answer (snd f) of Answered status fin \<Rightarrow> \<not> status < 500 | _ \<Rightarrow> True)"

definition latency :: "(int \<times> bool) \<times> outcome \<Rightarrow> int" where
  "latency f = (case oc_answer (snd f) of Answered status fin \<Rightarrow> fin - fst (fst f) | _ \<Rightarrow> 0)"

lemma fire_all_collects:
  "rs_lat (fire_all fs r) = rs_lat r @ map latency (filter counted fs) \<and>
   rs_errors (fire_all fs r) = rs_errors r + int (length (filter failing fs))"
proof (induction fs arbitrary: r)
  case (Cons f fs)
  obtain d m oc where f: "f = ((d, m), oc)" by (metis prod.collapse)
  have "fire_all (f # fs) r = fire_all fs (fire (d, m) oc r)" by (simp add: fire_all_def f)
  with Cons.IH [of "fire (d, m) oc r"] show ?case
    by (cases "oc_answer oc") (auto simp: f fire_def counted_def failing_def latency_def Let_def)
qed (simp add: fire_all_def)

lemma schedule_shape:
  assumes "1 \<le> rate" and "rate \<le> 1000000000"
  shows "schedule rate warmup dur = Some (map (\<lambda>j. (j * (1000000000 div rate), warmup \<le> j * (1000000000 div rate)))
     [0..(warmup + dur) div (1000000000 div rate)])"
proof -
  have "0 < 1000000000 div rate" using assms zdiv_mono1 [of rate 1000000000 rate] by simp
  moreover have "1000000000 sdiv rate = 1000000000 div rate" using assms by (simp add: signed_divide_int_def)
  ultimately show ?thesis using assms by (simp add: schedule_def due_loop_shape)
qed

text \<open>
  C39. The open loop.  With a rate from 1 to \<open>10^9\<close> a run returns.  It fires one request at each
  multiple of the interval up to the end of the window; each that is due after the warm-up and
  answered below 500 contributes the time from the instant it was due, so that waiting for a slot
  or for the generator counts; and what failed is counted whether it was measured or not.  With a
  rate above \<open>10^9\<close> the interval is zero and the loop never ends.
\<close>

theorem open_loop_run:
  assumes "0 \<le> warmup" and "0 \<le> dur"
  shows "(1 \<le> rate \<and> rate \<le> 1000000000 \<longrightarrow>
      (\<exists>r. run_bench label rate warmup dur env = Some r \<and>
        (let k = 1000000000 div rate; n = nat ((warmup + dur) div k + 1);
             fs = map (\<lambda>j. ((int j * k, warmup \<le> int j * k), env j)) [0..<n]
         in sorted (rs_lat r) \<and> mset (rs_lat r) = mset (map latency (filter counted fs)) \<and>
            rs_errors r = int (length (filter failing fs))))) \<and>
     (1000000000 < rate \<longrightarrow> run_bench label rate warmup dur env = None)"
proof (intro conjI impI)
  assume r: "1 \<le> rate \<and> rate \<le> 1000000000"
  define k where "k = 1000000000 div rate"
  define n where "n = nat ((warmup + dur) div k + 1)"
  define fs where "fs = map (\<lambda>j. ((int j * k, warmup \<le> int j * k), env j)) [0..<n]"
  have "0 < k" using r zdiv_mono1 [of rate 1000000000 rate] by (simp add: k_def)
  then have n: "int n = (warmup + dur) div k + 1" using assms by (simp add: n_def pos_imp_zdiv_nonneg_iff)
  have u: "[0..(warmup + dur) div k] = map int [0..<n]"
  proof -
    have "[0..int m - 1] = map int [0..<m]" for m by (induction m) (simp_all add: upto_rec2)
    from this [of n] n show ?thesis by simp
  qed
  define ds where "ds = map (\<lambda>j. (int j * k, warmup \<le> int j * k)) [0..<n]"
  have "schedule rate warmup dur = Some ds"
    using schedule_shape [of rate warmup dur] r u by (simp add: k_def [symmetric] ds_def comp_def)
  moreover have "zip ds (map env [0..<length ds]) = fs"
    by (simp add: ds_def fs_def zip_map_map zip_same_conv_map)
  ultimately have "run_bench label rate warmup dur env = Some (finish_run (fire_all fs
      \<lparr>rs_label = label, rs_lat = [], rs_max = 0, rs_maxLag = 0, rs_errors = 0, rs_saturated = 0, rs_window = dur\<rparr>))"
    by (simp add: run_bench_def)
  then show "\<exists>r. run_bench label rate warmup dur env = Some r \<and>
        (let k = 1000000000 div rate; n = nat ((warmup + dur) div k + 1);
             fs = map (\<lambda>j. ((int j * k, warmup \<le> int j * k), env j)) [0..<n]
         in sorted (rs_lat r) \<and> mset (rs_lat r) = mset (map latency (filter counted fs)) \<and>
            rs_errors r = int (length (filter failing fs)))"
    unfolding Let_def k_def [symmetric] n_def [symmetric] fs_def [symmetric]
    by (intro exI conjI, assumption) (simp_all add: finish_run_def Let_def fire_all_collects)
next
  assume "1000000000 < rate"
  then have "schedule rate warmup dur = due_loop 0 warmup (warmup + dur) 0"
    by (simp add: schedule_def signed_divide_int_def)
  with due_loop_endless [of 0 warmup "warmup + dur" 0] assms show "run_bench label rate warmup dur env = None"
    by (cases "due_loop 0 warmup (warmup + dur) 0") (auto simp: run_bench_def)
qed

section \<open>The body is a call\<close>

definition body_params :: "nat \<Rightarrow> doc" where
  "body_params k = DObj [(''name'', DText ''read_file''),
     (''arguments'', DObj [(''path'', DText ''/workspace/notes.txt''), (''pad'', DText (replicate k CHR ''x''))])]"

definition body_doc :: "nat \<Rightarrow> doc" where
  "body_doc k = DObj [(''jsonrpc'', DText ''2.0''), (''id'', DNum 1), (''method'', DText ''tools/call''), (''params'', body_params k)]"

lemma escape_pad: "escape_str (replicate k CHR ''x'') = replicate k CHR ''x''"
proof (induction k)
  case (Suc k)
  have "escape_byte CHR ''x'' = ''x''" "(of_char CHR ''x'' :: int) < 128" by code_simp+
  then have "escape_str (CHR ''x'' # replicate k CHR ''x'') = CHR ''x'' # escape_str (replicate k CHR ''x'')"
    by (subst escape_str.simps) simp
  with Suc show ?case by simp
qed (simp add: escape_str.simps)

lemma body_texts:
  "escape_str ''name'' = ''name''" "escape_str ''read_file'' = ''read_file''" "escape_str ''arguments'' = ''arguments''"
  "escape_str ''path'' = ''path''" "escape_str ''/workspace/notes.txt'' = ''/workspace/notes.txt''" "escape_str ''pad'' = ''pad''"
  "escape_str ''jsonrpc'' = ''jsonrpc''" "escape_str ''2.0'' = ''2.0''" "escape_str ''id'' = ''id''" "escape_str ''method'' = ''method''"
  "escape_str ''tools/call'' = ''tools/call''" "escape_str ''params'' = ''params''" "itoa (Suc 0) = ''1''"
  by code_simp+

lemma body_sanitized:
  "sanitized ''name'' = ''name''" "sanitized ''read_file'' = ''read_file''" "sanitized ''arguments'' = ''arguments''"
  "sanitized ''path'' = ''path''" "sanitized ''pad'' = ''pad''" "sanitized ''jsonrpc'' = ''jsonrpc''" "sanitized ''id'' = ''id''"
  "sanitized ''method'' = ''method''" "sanitized ''tools/call'' = ''tools/call''" "sanitized ''params'' = ''params''"
  by (rule sanitized_ascii; code_simp)+

lemma body_names:
  "\<not> key_is ''jsonrpc'' ''method''" "\<not> key_is ''jsonrpc'' ''id''" "\<not> key_is ''jsonrpc'' ''params''"
  "\<not> key_is ''jsonrpc'' ''result''" "\<not> key_is ''jsonrpc'' ''error''" "\<not> key_is ''id'' ''method''" "key_is ''id'' ''id''"
  "key_is ''method'' ''method''" "\<not> key_is ''params'' ''method''" "\<not> key_is ''params'' ''id''" "key_is ''params'' ''params''"
  "key_is ''name'' ''name''" "\<not> key_is ''arguments'' ''name''" "key_is ''arguments'' ''arguments''"
  by code_simp+

lemma shell_cut: "cut_at ''\"pad\":\"\"'' body_shell =
    Some (''{\"jsonrpc\":\"2.0\",\"id\":1,\"method\":\"tools/call\",\"params\":{\"name\":\"read_file\",\"arguments\":{\"path\":\"/workspace/notes.txt\",'', ''}}}'')"
  by code_simp

lemma body_is_doc: "marshal_doc (body_doc k) =
    ''{\"jsonrpc\":\"2.0\",\"id\":1,\"method\":\"tools/call\",\"params\":{\"name\":\"read_file\",\"arguments\":{\"path\":\"/workspace/notes.txt\",\"pad\":\"'' @
      replicate k CHR ''x'' @ ''\"}}}''"
  by (simp add: body_doc_def body_params_def body_texts escape_pad json_text_def json_key_def json_obj_def)

lemma mcpBody_doc: "mcpBody n = marshal_doc (body_doc (nat (n - int (length body_shell))))"
proof (cases "n - int (length body_shell) > 0")
  case True
  then show ?thesis by (simp add: mcpBody_def replace_first_def shell_cut body_is_doc)
next
  case False
  then have "nat (n - int (length body_shell)) = 0" by simp
  with False show ?thesis by (simp add: mcpBody_def body_is_doc) (simp add: body_shell_def)
qed

lemma doc_value: "fits maxNestingDepth x \<Longrightarrow> json_parse (marshal_doc x) = Some (value_of x)"
  by (rule is_value_parse [OF marshal_value order_refl])

text \<open>
  C0. The body the generator posts is a real call at every size: it parses as exactly one
  \<open>tools/call\<close>, of the tool \<open>read_file\<close> under the id \<open>1\<close>, and it is as long as asked for, or as
  the frame without padding.
\<close>

theorem bench_body_is_a_call:
  "(\<exists>tc. ParseToolsCalls (mcpBody n) = [tc] \<and> tc_Name tc = ''read_file'' \<and> tc_ID tc = ''1'' \<and>
      map fst (tc_Arguments tc) = [''path'', ''pad'']) \<and>
   int (length (mcpBody n)) = max n (int (length body_shell))"
proof
  define k where "k = nat (n - int (length body_shell))"
  have f: "fits maxNestingDepth (body_doc k)" "fits maxNestingDepth (body_params k)"
    by (simp_all add: body_doc_def body_params_def maxNestingDepth_def)
  note p = doc_value [OF f(1)] and q = doc_value [OF f(2)]
  have s: "\<exists>v. unmarshal_params (marshal_doc (body_params k)) = Some \<lparr>cp_Name = ''read_file'',
      cp_Arguments = [(''path'', v), (''pad'', JStr (replicate k CHR ''x''))]\<rparr>"
    unfolding unmarshal_params_def unmarshal_struct_def q
    by (simp add: body_params_def decode_obj body_sanitized set_params_def body_names into_string_def unquote_escape
        into_any_map_def any_ok.simps escape_pad del: value_of.simps(7)) (simp add: any_ok.simps unquote_escape body_sanitized escape_pad)
  have "unmarshal_frame (marshal_doc (body_doc k)) = Some (no_frame\<lparr>f_Method := Some ''tools/call'', f_ID := Some (itoa 1),
      f_Params := Some (marshal_doc (body_params k))\<rparr>)"
    unfolding frame_of_value [OF p]
    by (simp add: body_doc_def decode_obj body_sanitized set_frame_def body_names into_pstring_def unquote_escape no_frame_def
        del: value_of.simps(7))
  with s have "\<exists>tc. call_of_frame (marshal_doc (body_doc k)) = Some tc \<and> tc_Name tc = ''read_file'' \<and> tc_ID tc = ''1'' \<and>
      map fst (tc_Arguments tc) = [''path'', ''pad'']"
    by (auto simp: call_of_frame_def id_of_def no_frame_def body_texts)
  moreover have "ParseToolsCalls (marshal_doc (body_doc k)) = List.map_filter call_of_frame [marshal_doc (body_doc k)]"
    by (rule calls_of_value [OF p]) (simp add: body_doc_def)
  ultimately show "\<exists>tc. ParseToolsCalls (mcpBody n) = [tc] \<and> tc_Name tc = ''read_file'' \<and> tc_ID tc = ''1'' \<and>
      map fst (tc_Arguments tc) = [''path'', ''pad'']"
    unfolding mcpBody_doc k_def [symmetric] by (auto simp: map_filter_simps)
  have l: "length body_shell = length (marshal_doc (body_doc 0))" by (simp add: body_is_doc body_shell_def)
  show "int (length (mcpBody n)) = max n (int (length body_shell))"
    unfolding mcpBody_doc body_is_doc l by simp
qed

section \<open>Pooling\<close>

text \<open>
  Ranks taken exactly: the percentile is the value at the rank \<open>ceil (p/100 * n)\<close>.
\<close>

definition exact_rank :: "(rat \<Rightarrow> rat) \<Rightarrow> rat \<Rightarrow> nat \<Rightarrow> bool" where
  "exact_rank rnd p n \<longleftrightarrow> rank_of rnd p n = \<lceil>p / 100 * of_nat n\<rceil>"

definition below :: "'a :: linorder \<Rightarrow> 'a list \<Rightarrow> nat" where
  "below x xs = length (filter (\<lambda>y. y \<le> x) xs)"

lemma below_mset: "mset xs = mset ys \<Longrightarrow> below x xs = below x ys"
  unfolding below_def by (metis mset_filter size_mset)

lemma below_append: "below x (xs @ ys) = below x xs + below x ys"
  by (simp add: below_def)

lemma sorted_nth_le: "sorted xs \<Longrightarrow> i < length xs \<Longrightarrow> xs ! i \<le> x \<longleftrightarrow> i < below x xs"
proof (induction xs arbitrary: i)
  case (Cons a xs)
  show ?case
  proof (cases "a \<le> x")
    case True
    with Cons show ?thesis by (cases i) (auto simp: below_def)
  next
    case False
    then have "\<forall>y \<in> set (a # xs). \<not> y \<le> x" using Cons.prems(1) by auto
    moreover from this have "below x (a # xs) = 0" by (simp add: below_def filter_empty_conv)
    ultimately show ?thesis using nth_mem [OF Cons.prems(2)] by auto
  qed
qed simp

lemma pct_le:
  assumes "exact_rank rnd p (length (rs_lat r))" and "0 < p" and "p \<le> 100" and "rs_lat r \<noteq> []" and "sorted (rs_lat r)"
  shows "pct rnd p r \<le> x \<longleftrightarrow> \<lceil>p / 100 * of_nat (length (rs_lat r))\<rceil> \<le> int (below x (rs_lat r))"
proof -
  let ?n = "length (rs_lat r)" and ?k = "\<lceil>p / 100 * of_nat (length (rs_lat r))\<rceil>"
  have n: "0 < ?n" using assms(4) by simp
  have lo: "1 \<le> ?k" using assms(2) n by (simp add: le_ceiling_iff)
  have "p / 100 * of_nat ?n \<le> 1 * of_nat ?n" using assms(3) by (intro mult_right_mono) simp_all
  then have hi: "?k \<le> int ?n" by (simp add: ceiling_le_iff)
  have "pct rnd p r = rs_lat r ! nat (?k - 1)"
    using assms(1,4) lo hi by (simp add: pct_def exact_rank_def Let_def)
  moreover have "nat (?k - 1) < ?n" using lo hi by linarith
  ultimately show ?thesis using sorted_nth_le [OF assms(5), of "nat (?k - 1)" x] lo by linarith
qed

text \<open>
  Pooling the two baseline arms brackets: every percentile of the pool lies between those of
  the arms, so the pooled baseline never claims a machine quieter than its quieter arm or noisier
  than its noisier one.
\<close>

theorem pool_brackets:
  assumes "exact_rank rnd p (length (rs_lat a))" and "exact_rank rnd p (length (rs_lat b))"
    and "exact_rank rnd p (length (rs_lat a) + length (rs_lat b))" and "0 < p" and "p \<le> 100"
    and "rs_lat a \<noteq> []" and "rs_lat b \<noteq> []" and "sorted (rs_lat a)" and "sorted (rs_lat b)"
  shows "min (pct rnd p a) (pct rnd p b) \<le> pct rnd p (pool a b) \<and> pct rnd p (pool a b) \<le> max (pct rnd p a) (pct rnd p b)"
proof -
  let ?c = "\<lambda>n :: nat. \<lceil>p / 100 * of_nat n\<rceil>" and ?m = "length (rs_lat a)" and ?n = "length (rs_lat b)"
  have l: "rs_lat (pool a b) = sort (rs_lat a @ rs_lat b)" by (simp add: pool_def Let_def)
  have "length (rs_lat (pool a b)) \<noteq> 0" using assms(6) by (simp add: l)
  then have ne: "rs_lat (pool a b) \<noteq> []" by simp
  have bl: "below x (rs_lat (pool a b)) = below x (rs_lat a) + below x (rs_lat b)" for x
    unfolding l using below_mset [of "sort (rs_lat a @ rs_lat b)" "rs_lat a @ rs_lat b"] by (simp add: below_append)
  note A = pct_le [OF assms(1,4,5,6,8)] and B = pct_le [OF assms(2,4,5,7,9)]
  have C: "pct rnd p (pool a b) \<le> x \<longleftrightarrow> ?c (?m + ?n) \<le> int (below x (rs_lat a)) + int (below x (rs_lat b))" for x
    using pct_le [OF _ assms(4,5) ne, of rnd x] assms(3) bl [of x] by (simp add: l)
  have s: "p / 100 * of_nat (?m + ?n) = p / 100 * of_nat ?m + p / 100 * of_nat ?n" by (simp add: algebra_simps)
  have up: "?c (?m + ?n) \<le> ?c ?m + ?c ?n" unfolding s by (rule ceiling_add_le)
  have dn: "?c ?m + ?c ?n - 1 \<le> ?c (?m + ?n)" unfolding s by linarith
  let ?M = "max (pct rnd p a) (pct rnd p b)" and ?x = "min (pct rnd p a) (pct rnd p b) - 1"
  have "pct rnd p (pool a b) \<le> ?M" using A [of ?M] B [of ?M] C [of ?M] up by linarith
  moreover have "\<not> pct rnd p (pool a b) \<le> ?x" using A [of ?x] B [of ?x] C [of ?x] dn by linarith
  ultimately show ?thesis by linarith
qed

section \<open>Witnesses\<close>

definition toy_arm :: "int list \<Rightarrow> result" where
  "toy_arm ls = \<lparr>rs_label = ''arm'', rs_lat = ls, rs_max = 0, rs_maxLag = 0, rs_errors = 0, rs_saturated = 0, rs_window = 1000000000\<rparr>"

theorem drop_gate_blind_witness:
  "dropCounters ''http://localhost:8091''
     (Some (snd (fst (adminMux toy_platform toy_admin (toy_ask ''GET'' ''/health'' ''localhost:8091'') toy_process)))) = no_counters \<and>
   l_Dropped (g_led (gv_gateway toy_process)) = 3"
proof
  have q: "aq_Method (toy_ask ''GET'' ''/health'' ''localhost:8091'') = ''GET''" "aq_Path (toy_ask ''GET'' ''/health'' ''localhost:8091'') = ''/health''"
    "aq_Origin (toy_ask ''GET'' ''/health'' ''localhost:8091'') = ''''" "is_localhost (aq_Host (toy_ask ''GET'' ''/health'' ''localhost:8091''))"
    using toy_hosts by (simp_all add: toy_ask_def)
  show "dropCounters ''http://localhost:8091''
     (Some (snd (fst (adminMux toy_platform toy_admin (toy_ask ''GET'' ''/health'' ''localhost:8091'') toy_process)))) = no_counters"
    using drop_gate_blind [OF q refl refl prod.collapse, of "''http://localhost:8091''" toy_platform toy_admin toy_process toy_process id "toy_arm []" "toy_arm []"
      "toy_arm []" 1 0 0 True] by blast
  show "l_Dropped (g_led (gv_gateway toy_process)) = 3" by (simp add: toy_process_def)
qed

theorem open_loop_run_witness:
  "\<exists>r. run_bench ''w01'' 1000000000 1 1 (\<lambda>i. \<lparr>oc_slot = True, oc_started = int i, oc_answer = Answered 200 (int i + 5)\<rparr>) = Some r \<and>
     mset (rs_lat r) = {#5, 5#}"
proof -
  let ?env = "\<lambda>i. \<lparr>oc_slot = True, oc_started = int i, oc_answer = Answered 200 (int i + 5)\<rparr>"
  let ?fs = "map (\<lambda>j. ((int j * 1, 1 \<le> int j * 1), ?env j)) [0..<Suc (Suc (Suc 0))]"
  have l: "map latency (filter counted ?fs) = [5, 5]" by (simp add: counted_def latency_def)
  have n: "1000000000 div 1000000000 = (1 :: int)" "nat ((1 + 1) div 1 + 1 :: int) = Suc (Suc (Suc 0))" by simp_all
  have z: "(0 :: int) \<le> 1" "1 \<le> (1000000000 :: int) \<and> (1000000000 :: int) \<le> 1000000000" by simp_all
  from open_loop_run [OF z(1) z(1), of 1000000000 "''w01''" ?env, unfolded Let_def n, THEN conjunct1, THEN mp, OF z(2)]
  have "\<exists>r. run_bench ''w01'' 1000000000 1 1 ?env = Some r \<and> mset (rs_lat r) = mset (map latency (filter counted ?fs))" by blast
  then show ?thesis unfolding l by simp
qed

theorem pool_brackets_witness:
  "pct (\<lambda>x. x) 50 (pool (toy_arm [1, 4]) (toy_arm [2, 9])) \<in> {1..2}"
proof -
  have e: "exact_rank (\<lambda>x. x) 50 n" for n by (simp add: exact_rank_def rank_of_def)
  have "pct (\<lambda>x. x) 50 (toy_arm [1, 4]) = 1" "pct (\<lambda>x. x) 50 (toy_arm [2, 9]) = 2"
    by (simp_all add: pct_def rank_of_def toy_arm_def)
  with pool_brackets [OF e e e, of "toy_arm [1, 4]" "toy_arm [2, 9]"] show ?thesis by (simp add: toy_arm_def)
qed

end
