(* ===== verification/Conform.thy ===== *)
theory Conform
  imports Ledger_Evidence Json_Write
begin

text \<open>
  The conformance runner \<open>proxy/cmd/gurdy-conform/main.go\<close>: what it refuses as a case, how it
  judges the export a case leaves behind, what its reference driver sends, and how it counts.
  Case files are taken as decoded; processes, sockets and HTTP are the environment.
\<close>

section \<open>Cases\<close>

text \<open>A scope or the arguments of a call are documents, as decoded into \<open>map[string]any\<close>.\<close>

record mint_step =
  ms_As :: string
  ms_Agent :: string
  ms_HumanActor :: string
  ms_Scope :: doc

record derive_step =
  ds_From :: string
  ds_As :: string
  ds_Agent :: string
  ds_Scope :: doc
  ds_ExpectRefused :: bool

record call_step =
  cs_Txn :: string
  cs_Tool :: string
  cs_Args :: doc
  cs_Body :: string
  cs_Path :: string
  cs_In :: string

record case_step =
  st_Mint :: "mint_step option"
  st_Derive :: "derive_step option"
  st_Call :: "call_step option"

text \<open>A nil slice of lineage differs from an empty one: \<open>rm_Lineage\<close> is an option.\<close>

record record_match =
  rm_Action :: string
  rm_Tool :: string
  rm_Decision :: string
  rm_AssertionStatus :: string
  rm_AssertedPrincipal :: string
  rm_AssertedHumanActor :: string
  rm_PrincipalTier :: string
  rm_ActionApplied :: string
  rm_PolicyMode :: string
  rm_Lineage :: "string list option"
  rm_PrincipalPrefix :: string
  rm_Policy :: string
  rm_NoAssertedFields :: bool
  rm_SameTxnAs :: "int option"
  rm_Answered :: bool

record expectation =
  ex_Records :: "record_match list"
  ex_UpstreamNeverSawHeader :: "string list"
  ex_DriverErrorContains :: "string list"
  ex_UpstreamCalls :: "int option"
  ex_AllowOpenExport :: bool

record known_gap =
  kg_Why :: string
  kg_ClosesWith :: string

record test_case =
  tk_Name :: string
  tk_Kind :: string
  tk_KnownGap :: "known_gap option"
  tk_Steps :: "case_step list"
  tk_Expect :: expectation

definition kindSDK :: string where "kindSDK = ''sdk''"
definition kindWire :: string where "kindWire = ''wire''"
definition execContexts :: "string list" where "execContexts = ['''', ''thread'', ''async'', ''process'']"

definition kind_of_case :: "test_case \<Rightarrow> string" where
  "kind_of_case c = (if tk_Kind c = '''' then kindSDK else tk_Kind c)"

datatype case_error = UnknownKind string | BareGap | UnknownContext nat string | ForgedInSDK nat

text \<open>The first step for which \<open>f\<close> has an error.\<close>

fun first_error :: "(nat \<Rightarrow> case_step \<Rightarrow> case_error option) \<Rightarrow> nat \<Rightarrow> case_step list \<Rightarrow> case_error option" where
  "first_error f i [] = None"
| "first_error f i (s # ss) = (case f i s of Some e \<Rightarrow> Some e | None \<Rightarrow> first_error f (i + 1) ss)"

definition bad_context :: "nat \<Rightarrow> case_step \<Rightarrow> case_error option" where
  "bad_context i s =
     (case st_Call s of None \<Rightarrow> None | Some c \<Rightarrow> if cs_In c \<notin> set execContexts then Some (UnknownContext i (cs_In c)) else None)"

definition bad_credential :: "nat \<Rightarrow> case_step \<Rightarrow> case_error option" where
  "bad_credential i s =
     (case st_Call s of None \<Rightarrow> None | Some c \<Rightarrow> if cs_Txn c = ''forged'' then Some (ForgedInSDK i) else None)"

definition validate :: "test_case \<Rightarrow> case_error option" where
  "validate c =
     (if kind_of_case c \<noteq> kindSDK \<and> kind_of_case c \<noteq> kindWire then Some (UnknownKind (kind_of_case c))
      else if (case tk_KnownGap c of None \<Rightarrow> False | Some g \<Rightarrow> kg_Why g = '''' \<or> kg_ClosesWith g = '''') then Some BareGap
      else case first_error bad_context 0 (tk_Steps c) of
        Some e \<Rightarrow> Some e
      | None \<Rightarrow> if kind_of_case c = kindWire then None else first_error bad_credential 0 (tk_Steps c))"

section \<open>Reading the export\<close>

text \<open>
  A file of the export: its base name and its bytes, if it can be read.  \<open>scan_text\<close> is
  \<open>bufio.ScanLines\<close>, \<open>split_lines\<close> is \<open>strings.Split\<close> at newlines.
\<close>

type_synonym export_file = "string \<times> string option"

type_synonym export_record = "json gomap"

fun split_lines :: "string \<Rightarrow> string list" where
  "split_lines [] = [[]]"
| "split_lines (c # s) =
     (if c = CHR 0x0A then [] # split_lines s
      else case split_lines s of [] \<Rightarrow> [[c]] | l # ls \<Rightarrow> (c # l) # ls)"

definition drop_cr :: "string \<Rightarrow> string" where
  "drop_cr l = (if l \<noteq> [] \<and> last l = CHR 0x0D then butlast l else l)"

definition scan_text :: "string \<Rightarrow> string list" where
  "scan_text s = (let ls = split_lines s in map drop_cr (if last ls = [] then butlast ls else ls))"

definition any_string :: "json option \<Rightarrow> string" where
  "any_string v = (case v of Some (JStr l) \<Rightarrow> unquote l | _ \<Rightarrow> '''')"

definition field_text :: "export_record \<Rightarrow> string \<Rightarrow> string" where
  "field_text rec f = any_string (map_of rec f)"

text \<open>\<open>json.Unmarshal\<close> into a nil \<open>map[string]any\<close>.\<close>

definition line_record :: "string \<Rightarrow> export_record option" where
  "line_record line = Option.bind (json_parse line) (\<lambda>v. into_any_map v [])"

datatype export_error = NoExport | DoesNotVerify string | Unsigned string int | Truncated string | CannotRead string

definition check_file :: "('l, 'k, 'p) codec \<Rightarrow> (string \<Rightarrow> 'l) \<Rightarrow> bool \<Rightarrow> export_file \<Rightarrow> export_error option" where
  "check_file cx line allowOpen f =
     (case snd f of
        None \<Rightarrow> Some (DoesNotVerify (fst f))
      | Some text \<Rightarrow>
          (case VerifyFile cx (map line (scan_text text)) None of
             Inl _ \<Rightarrow> Some (DoesNotVerify (fst f))
           | Inr res \<Rightarrow>
               if allowOpen then None
               else if v_Uncovered res > 0 then Some (Unsigned (fst f) (v_Uncovered res))
               else if has_prefix (fst f) ProxyPartition \<and> v_CleanEnd res \<noteq> Some True then Some (Truncated (fst f))
               else None))"

text \<open>The records of a workload file, and what the loop over its lines collects.\<close>

definition file_records :: "export_file \<Rightarrow> export_record list" where
  "file_records f =
     (if has_prefix (fst f) ProxyPartition then []
      else case snd f of None \<Rightarrow> [] | Some text \<Rightarrow> List.map_filter line_record (split_lines (trim_space text)))"

definition decisions_in :: "export_record list \<Rightarrow> export_record list" where
  "decisions_in rs = filter (\<lambda>r. field_text r ''kind'' = ''decision'') rs"

definition answers_in :: "export_record list \<Rightarrow> string list" where
  "answers_in rs = filter (\<lambda>i. i \<noteq> '''') (map (\<lambda>r. field_text r ''call_id'') (filter (\<lambda>r. field_text r ''kind'' = ''response'') rs))"

fun read_export :: "('l, 'k, 'p) codec \<Rightarrow> (string \<Rightarrow> 'l) \<Rightarrow> bool \<Rightarrow> export_file list \<Rightarrow> export_error + export_record list \<times> string list" where
  "read_export cx line allowOpen [] = Inr ([], [])"
| "read_export cx line allowOpen (f # fs) =
     (case check_file cx line allowOpen f of
        Some e \<Rightarrow> Inl e
      | None \<Rightarrow>
          (case read_export cx line allowOpen fs of
             Inl e \<Rightarrow> Inl e
           | Inr (ds, as) \<Rightarrow> Inr (decisions_in (file_records f) @ ds, answers_in (file_records f) @ as)))"

text \<open>\<open>fs\<close> is what \<open>Glob\<close> finds, in the order of the names.\<close>

definition decisionRecords :: "('l, 'k, 'p) codec \<Rightarrow> (string \<Rightarrow> 'l) \<Rightarrow> export_file list \<Rightarrow> bool \<Rightarrow>
    export_error + export_record list \<times> string list" where
  "decisionRecords cx line fs allowOpen = (if fs = [] then Inl NoExport else read_export cx line allowOpen fs)"

section \<open>Judging\<close>

datatype finding =
    NeverExecuted nat | NotRefused nat | ReasonLacks nat string | HeaderSeen nat string | UpstreamSaw int int
  | ExportFails export_error | RecordCount nat nat | Differs nat string string string | PolicyQuiet nat string
  | PrincipalDisplaced nat string | LineageDiffers nat "string list" "string list" | TxnOutOfRange nat int
  | OtherTxn nat string int string | Unanswered nat string | AssertedAnyway nat string

definition check_field :: "nat \<Rightarrow> export_record \<Rightarrow> string \<times> string \<Rightarrow> finding list" where
  "check_field i got fw =
     (if snd fw = '''' then []
      else if field_text got (fst fw) \<noteq> snd fw then [Differs i (fst fw) (field_text got (fst fw)) (snd fw)] else [])"

definition wanted_fields :: "record_match \<Rightarrow> (string \<times> string) list" where
  "wanted_fields w =
     [(''action'', rm_Action w), (''tool'', rm_Tool w), (''decision'', rm_Decision w), (''assertion_status'', rm_AssertionStatus w),
      (''asserted_principal'', rm_AssertedPrincipal w), (''asserted_human_actor'', rm_AssertedHumanActor w),
      (''principal_tier'', rm_PrincipalTier w), (''action_applied'', rm_ActionApplied w), (''policy_mode'', rm_PolicyMode w)]"

text \<open>Elements of an array field: the \<open>policy_id\<close> of those that are objects, the strings of a lineage.\<close>

definition member_text :: "json \<Rightarrow> string \<Rightarrow> string" where
  "member_text v k =
     (case v of JObj ms \<Rightarrow> any_string (map_of (foldl (\<lambda>m (k, raw, w). map_put (unquote k) w m) [] ms) k) | _ \<Rightarrow> '''')"

definition fired_policies :: "export_record \<Rightarrow> string list" where
  "fired_policies got =
     (case map_of got ''policy_effects'' of
        Some (JArr xs) \<Rightarrow> filter (\<lambda>i. i \<noteq> '''') (map (\<lambda>x. member_text (snd x) ''policy_id'') xs)
      | _ \<Rightarrow> [])"

definition lineage_of :: "export_record \<Rightarrow> string list" where
  "lineage_of got = (case map_of got ''lineage'' of Some (JArr xs) \<Rightarrow> map (\<lambda>x. any_string (Some (snd x))) xs | _ \<Rightarrow> [])"

text \<open>\<open>strings.Join (l, ">")\<close>.\<close>

fun join_arrows :: "string list \<Rightarrow> string" where
  "join_arrows [] = ''''"
| "join_arrows [x] = x"
| "join_arrows (x # y # ys) = x @ ''>'' @ join_arrows (y # ys)"

definition check_policy :: "nat \<Rightarrow> record_match \<Rightarrow> export_record \<Rightarrow> finding list" where
  "check_policy i w got =
     (if rm_Policy w \<noteq> '''' \<and> rm_Policy w \<notin> set (fired_policies got) then [PolicyQuiet i (rm_Policy w)] else [])"

definition check_principal :: "nat \<Rightarrow> record_match \<Rightarrow> export_record \<Rightarrow> finding list" where
  "check_principal i w got =
     (if rm_PrincipalPrefix w \<noteq> '''' \<and> \<not> has_prefix (field_text got ''principal'') (rm_PrincipalPrefix w)
      then [PrincipalDisplaced i (field_text got ''principal'')] else [])"

definition check_lineage :: "nat \<Rightarrow> record_match \<Rightarrow> export_record \<Rightarrow> finding list" where
  "check_lineage i w got =
     (case rm_Lineage w of
        None \<Rightarrow> []
      | Some l \<Rightarrow> if join_arrows (lineage_of got) \<noteq> join_arrows l then [LineageDiffers i (lineage_of got) l] else [])"

definition check_txn :: "nat \<Rightarrow> record_match \<Rightarrow> export_record \<Rightarrow> export_record list \<Rightarrow> finding list" where
  "check_txn i w got every =
     (case rm_SameTxnAs w of
        None \<Rightarrow> []
      | Some j \<Rightarrow>
          let mine = field_text got ''txn_id'' in
          if j < 0 \<or> j \<ge> int (length every) then [TxnOutOfRange i j]
          else let theirs = field_text (every ! nat j) ''txn_id''
               in if mine = '''' \<or> mine \<noteq> theirs then [OtherTxn i mine j theirs] else [])"

definition check_answered :: "nat \<Rightarrow> record_match \<Rightarrow> export_record \<Rightarrow> string list \<Rightarrow> finding list" where
  "check_answered i w got answered =
     (if rm_Answered w \<and> field_text got ''call_id'' \<notin> set answered then [Unanswered i (field_text got ''call_id'')] else [])"

definition check_unasserted :: "nat \<Rightarrow> record_match \<Rightarrow> export_record \<Rightarrow> finding list" where
  "check_unasserted i w got =
     (if rm_NoAssertedFields w
      then map (AssertedAnyway i) (filter (\<lambda>f. map_of got f \<noteq> None \<and> map_of got f \<noteq> Some JNull)
        [''asserted_principal'', ''asserted_human_actor'', ''asserted_scope'', ''lineage''])
      else [])"

definition matchRecord :: "nat \<Rightarrow> record_match \<Rightarrow> export_record \<Rightarrow> export_record list \<Rightarrow> string list \<Rightarrow> finding list" where
  "matchRecord i w got every answered =
     concat (map (check_field i got) (wanted_fields w)) @ check_policy i w got @ check_principal i w got @ check_lineage i w got @
     check_txn i w got every @ check_answered i w got answered @ check_unasserted i w got"

record step_result =
  sr_Index :: int
  sr_Refused :: bool
  sr_Reason :: string

text \<open>\<open>byIndex\<close>: of several entries for one step the last counts.\<close>

definition entry_of :: "step_result list \<Rightarrow> nat \<Rightarrow> step_result option" where
  "entry_of tr i = map_of (rev (map (\<lambda>r. (sr_Index r, r)) tr)) (int i)"

definition check_refusal :: "string list \<Rightarrow> step_result list \<Rightarrow> nat \<times> case_step \<Rightarrow> finding list" where
  "check_refusal wants tr s =
     (case st_Derive (snd s) of
        None \<Rightarrow> []
      | Some d \<Rightarrow>
          if \<not> ds_ExpectRefused d then []
          else case entry_of tr (fst s) of
            None \<Rightarrow> [NeverExecuted (fst s)]
          | Some got \<Rightarrow>
              if \<not> sr_Refused got then [NotRefused (fst s)]
              else map (ReasonLacks (fst s)) (filter (\<lambda>w. \<not> str_contains (sr_Reason got) w) wants))"

text \<open>What the upstream saw is a list of headers, each as its \<open>Get\<close>.\<close>

definition check_headers :: "(string \<Rightarrow> string) list \<Rightarrow> string \<Rightarrow> finding list" where
  "check_headers saw h = map (\<lambda>(i, hdr). HeaderSeen i h) (filter (\<lambda>(i, hdr). hdr h \<noteq> '''') (enumerate 0 saw))"

definition check_records :: "record_match list \<Rightarrow> export_record list \<Rightarrow> string list \<Rightarrow> finding list" where
  "check_records wants got answered =
     (if length got \<noteq> length wants then [RecordCount (length wants) (length got)]
      else concat (map (\<lambda>(i, w, r). matchRecord i w r got answered) (enumerate 0 (zip wants got))))"

definition judge :: "('l, 'k, 'p) codec \<Rightarrow> (string \<Rightarrow> 'l) \<Rightarrow> test_case \<Rightarrow> export_file list \<Rightarrow> (string \<Rightarrow> string) list \<Rightarrow>
    step_result list \<Rightarrow> finding list" where
  "judge cx line c fs saw tr =
     (let e = tk_Expect c in
      concat (map (check_refusal (ex_DriverErrorContains e) tr) (enumerate 0 (tk_Steps c))) @
      concat (map (check_headers saw) (ex_UpstreamNeverSawHeader e)) @
      (case ex_UpstreamCalls e of
         None \<Rightarrow> []
       | Some n \<Rightarrow> if int (length saw) \<noteq> n then [UpstreamSaw (int (length saw)) n] else []) @
      (case decisionRecords cx line fs (ex_AllowOpenExport e) of
         Inl err \<Rightarrow> [ExportFails err]
       | Inr (decisions, answered) \<Rightarrow> check_records (ex_Records e) decisions answered))"

section \<open>The reference driver\<close>

text \<open>
  The world answers posts to the sideband with a status and a decoded map, and requests to the
  proxy with success or failure; \<open>quoted\<close> is the verb \<open>%q\<close>.
\<close>

record proxied_call =
  pc_Path :: string
  pc_Body :: string
  pc_Txn :: "string option"

record 'w driver_env =
  dv_post :: "string \<Rightarrow> string \<Rightarrow> 'w \<Rightarrow> (int \<times> (string \<rightharpoonup> string)) \<times> 'w"
  dv_call :: "proxied_call \<Rightarrow> 'w \<Rightarrow> bool \<times> 'w"
  dv_quoted :: "string \<Rightarrow> string"

definition text_at :: "(string \<rightharpoonup> string) \<Rightarrow> string \<Rightarrow> string" where
  "text_at m k = (case m k of None \<Rightarrow> '''' | Some s \<Rightarrow> s)"

definition mint_body :: "mint_step \<Rightarrow> string" where
  "mint_body m = marshal_doc (DObj [(''agent'', DText (ms_Agent m)), (''human_actor'', DText (ms_HumanActor m)), (''scope'', ms_Scope m)])"

definition derive_body :: "string \<Rightarrow> derive_step \<Rightarrow> string" where
  "derive_body parent d = marshal_doc (DObj [(''agent'', DText (ds_Agent d)), (''parent'', DText parent), (''scope'', ds_Scope d)])"

definition call_body :: "'w driver_env \<Rightarrow> call_step \<Rightarrow> string" where
  "call_body dv c =
     (if cs_Body c \<noteq> '''' then cs_Body c
      else ''{\"jsonrpc\":\"2.0\",\"id\":1,\"method\":\"tools/call\",\"params\":{\"name\":'' @ dv_quoted dv (cs_Tool c) @
        '',\"arguments\":'' @ marshal_doc (cs_Args c) @ ''}}'')"

definition forged_txn :: string where "forged_txn = ''eyJhbGciOiJFUzI1NiJ9.forged.signature''"

definition txn_header :: "(string \<rightharpoonup> string) \<Rightarrow> string \<Rightarrow> string option" where
  "txn_header tokens t =
     (if t = '''' \<or> t = ''none'' then None else if t = ''forged'' then Some forged_txn else Some (text_at tokens t))"

record 'w driving =
  dr_tokens :: "string \<rightharpoonup> string"
  dr_steps :: "step_result list"
  dr_world :: 'w

definition issue :: "'w driver_env \<Rightarrow> int \<Rightarrow> string \<Rightarrow> string \<Rightarrow> string \<Rightarrow> 'w driving \<Rightarrow> 'w driving" where
  "issue dv i url body name d =
     (case dv_post dv url body (dr_world d) of
        ((code, out), w) \<Rightarrow>
          if code \<noteq> 200
          then d\<lparr>dr_steps := dr_steps d @ [\<lparr>sr_Index = i, sr_Refused = True, sr_Reason = text_at out ''error''\<rparr>], dr_world := w\<rparr>
          else d\<lparr>dr_tokens := (dr_tokens d)(name \<mapsto> text_at out ''txn''),
                 dr_steps := dr_steps d @ [\<lparr>sr_Index = i, sr_Refused = False, sr_Reason = ''''\<rparr>], dr_world := w\<rparr>)"

text \<open>A step with a mint is a mint whatever else it has; the flag says that a call failed.\<close>

fun drive :: "'w driver_env \<Rightarrow> int \<Rightarrow> case_step list \<Rightarrow> 'w driving \<Rightarrow> bool \<times> 'w driving" where
  "drive dv i [] d = (False, d)"
| "drive dv i (s # ss) d =
     (case st_Mint s of
        Some m \<Rightarrow> drive dv (i + 1) ss (issue dv i ''http://tis/mint'' (mint_body m) (ms_As m) d)
      | None \<Rightarrow>
          (case st_Derive s of
             Some m \<Rightarrow> drive dv (i + 1) ss (issue dv i ''http://tis/derive'' (derive_body (text_at (dr_tokens d) (ds_From m)) m) (ds_As m) d)
           | None \<Rightarrow>
               (case st_Call s of
                  None \<Rightarrow> drive dv (i + 1) ss d
                | Some c \<Rightarrow>
                    (case dv_call dv \<lparr>pc_Path = cs_Path c, pc_Body = call_body dv c, pc_Txn = txn_header (dr_tokens d) (cs_Txn c)\<rparr> (dr_world d) of
                       (True, w) \<Rightarrow>
                         drive dv (i + 1) ss (d\<lparr>dr_steps := dr_steps d @ [\<lparr>sr_Index = i, sr_Refused = False, sr_Reason = ''''\<rparr>], dr_world := w\<rparr>)
                     | (False, w) \<Rightarrow> (True, d\<lparr>dr_world := w\<rparr>)))))"

definition directDriver :: "'w driver_env \<Rightarrow> test_case \<Rightarrow> 'w \<Rightarrow> bool \<times> 'w driving" where
  "directDriver dv c w = drive dv 0 (tk_Steps c) \<lparr>dr_tokens = Map.empty, dr_steps = [], dr_world = w\<rparr>"

section \<open>The suite\<close>

text \<open>
  \<open>runCase\<close> as far as it decides: what the driver reported, whether the proxy came up and went
  down, and the judgement of what it left; \<open>None\<close> is a proxy that never came up.
\<close>

datatype case_problem = NeverUp | DriverError | NoShutdown | Judged finding

record case_run =
  cr_Transcript :: "step_result list"
  cr_DriverError :: bool
  cr_CleanExit :: bool
  cr_Files :: "export_file list"
  cr_Saw :: "(string \<Rightarrow> string) list"

definition runCase :: "('l, 'k, 'p) codec \<Rightarrow> (string \<Rightarrow> 'l) \<Rightarrow> test_case \<Rightarrow> case_run option \<Rightarrow> case_problem list" where
  "runCase cx line c r =
     (case r of
        None \<Rightarrow> [NeverUp]
      | Some r \<Rightarrow>
          (if cr_DriverError r then [DriverError] else []) @ (if cr_CleanExit r then [] else [NoShutdown]) @
          map Judged (judge cx line c (cr_Files r) (cr_Saw r) (cr_Transcript r)))"

text \<open>A case runs on the built-in driver when it is a wire case, whatever driver was asked for.\<close>

definition use_driver :: "string \<Rightarrow> test_case \<Rightarrow> string" where
  "use_driver driver c = (if kind_of_case c = kindWire then ''direct'' else driver)"

record tally =
  ty_failed :: nat
  ty_wire :: nat
  ty_gaps :: nat

text \<open>The loop of \<open>main\<close>: a file that does not decode is \<open>None\<close>; \<open>run\<close> is the world's run of a case on a driver.\<close>

definition count_case :: "('l, 'k, 'p) codec \<Rightarrow> (string \<Rightarrow> 'l) \<Rightarrow> (test_case \<Rightarrow> string \<Rightarrow> case_run option) \<Rightarrow> string \<Rightarrow>
    test_case option \<Rightarrow> tally \<Rightarrow> tally" where
  "count_case cx line run driver f t =
     (case f of
        None \<Rightarrow> t\<lparr>ty_failed := ty_failed t + 1\<rparr>
      | Some c \<Rightarrow>
          if validate c \<noteq> None then t\<lparr>ty_failed := ty_failed t + 1\<rparr>
          else
            let t = (if kind_of_case c = kindWire then t\<lparr>ty_wire := ty_wire t + 1\<rparr> else t)
            in if runCase cx line c (run c (use_driver driver c)) \<noteq> [] then t\<lparr>ty_failed := ty_failed t + 1\<rparr>
               else if tk_KnownGap c \<noteq> None then t\<lparr>ty_gaps := ty_gaps t + 1\<rparr> else t)"

definition run_suite :: "('l, 'k, 'p) codec \<Rightarrow> (string \<Rightarrow> 'l) \<Rightarrow> (test_case \<Rightarrow> string \<Rightarrow> case_run option) \<Rightarrow> string \<Rightarrow>
    test_case option list \<Rightarrow> int \<times> tally" where
  "run_suite cx line run driver fs =
     (let t = fold (count_case cx line run driver) fs \<lparr>ty_failed = 0, ty_wire = 0, ty_gaps = 0\<rparr>
      in (if fs = [] then 2 else if ty_failed t > 0 then 1 else 0, t))"

section \<open>What a pass means\<close>

definition record_ok :: "record_match \<Rightarrow> export_record \<Rightarrow> export_record list \<Rightarrow> string list \<Rightarrow> bool" where
  "record_ok w got every answered \<longleftrightarrow>
     (\<forall>(f, v) \<in> set (wanted_fields w). v = '''' \<or> field_text got f = v) \<and>
     (rm_Policy w = '''' \<or> rm_Policy w \<in> set (fired_policies got)) \<and>
     has_prefix (field_text got ''principal'') (rm_PrincipalPrefix w) \<and>
     (\<forall>l. rm_Lineage w = Some l \<longrightarrow> join_arrows (lineage_of got) = join_arrows l) \<and>
     (\<forall>j. rm_SameTxnAs w = Some j \<longrightarrow> 0 \<le> j \<and> j < int (length every) \<and> field_text got ''txn_id'' \<noteq> '''' \<and>
        field_text (every ! nat j) ''txn_id'' = field_text got ''txn_id'') \<and>
     (rm_Answered w \<longrightarrow> field_text got ''call_id'' \<in> set answered) \<and>
     (rm_NoAssertedFields w \<longrightarrow> (\<forall>f \<in> {''asserted_principal'', ''asserted_human_actor'', ''asserted_scope'', ''lineage''}.
        map_of got f = None \<or> map_of got f = Some JNull))"

definition file_ok :: "('l, 'k, 'p) codec \<Rightarrow> (string \<Rightarrow> 'l) \<Rightarrow> bool \<Rightarrow> export_file \<Rightarrow> bool" where
  "file_ok cx line allowOpen f \<longleftrightarrow>
     (\<exists>text. snd f = Some text \<and> export_ok cx None (map line (scan_text text)) \<and>
        (\<not> allowOpen \<longrightarrow> (\<exists>res. VerifyFile cx (map line (scan_text text)) None = Inr res \<and> v_Uncovered res \<le> 0 \<and>
           (has_prefix (fst f) ProxyPartition \<longrightarrow> v_CleanEnd res = Some True))))"

definition case_holds :: "('l, 'k, 'p) codec \<Rightarrow> (string \<Rightarrow> 'l) \<Rightarrow> test_case \<Rightarrow> export_file list \<Rightarrow> (string \<Rightarrow> string) list \<Rightarrow>
    step_result list \<Rightarrow> bool" where
  "case_holds cx line c fs saw tr \<longleftrightarrow>
     (let e = tk_Expect c; ds = concat (map (\<lambda>f. decisions_in (file_records f)) fs);
          as = concat (map (\<lambda>f. answers_in (file_records f)) fs)
      in (\<forall>i < length (tk_Steps c). \<forall>d. st_Derive (tk_Steps c ! i) = Some d \<longrightarrow> ds_ExpectRefused d \<longrightarrow>
            (\<exists>r. entry_of tr i = Some r \<and> sr_Refused r \<and> (\<forall>w \<in> set (ex_DriverErrorContains e). str_contains (sr_Reason r) w))) \<and>
         (\<forall>h \<in> set (ex_UpstreamNeverSawHeader e). \<forall>hdr \<in> set saw. hdr h = '''') \<and>
         (\<forall>n. ex_UpstreamCalls e = Some n \<longrightarrow> int (length saw) = n) \<and>
         fs \<noteq> [] \<and> (\<forall>f \<in> set fs. file_ok cx line (ex_AllowOpenExport e) f) \<and>
         length ds = length (ex_Records e) \<and>
         (\<forall>i < length ds. record_ok (ex_Records e ! i) (ds ! i) ds as))"

lemma has_prefix_Nil [simp]: "has_prefix s ''''"
  by (simp add: has_prefix_def)

lemma concat_map_Nil: "concat (map f xs) = [] \<longleftrightarrow> (\<forall>x \<in> set xs. f x = [])"
  by (induction xs) auto

lemma check_field_iff: "check_field i got fw = [] \<longleftrightarrow> snd fw = [] \<or> field_text got (fst fw) = snd fw"
  by (simp add: check_field_def)

lemma matchRecord_iff: "matchRecord i w got every answered = [] \<longleftrightarrow> record_ok w got every answered"
proof -
  have e1: "concat (map (check_field i got) (wanted_fields w)) = [] \<longleftrightarrow> (\<forall>(f, v) \<in> set (wanted_fields w). v = '''' \<or> field_text got f = v)"
    by (simp add: concat_map_Nil check_field_iff split_beta)
  have e2: "check_policy i w got = [] \<longleftrightarrow> rm_Policy w = '''' \<or> rm_Policy w \<in> set (fired_policies got)"
    by (simp add: check_policy_def)
  have e3: "check_principal i w got = [] \<longleftrightarrow> has_prefix (field_text got ''principal'') (rm_PrincipalPrefix w)"
    by (auto simp: check_principal_def)
  have e4: "check_lineage i w got = [] \<longleftrightarrow> (\<forall>l. rm_Lineage w = Some l \<longrightarrow> join_arrows (lineage_of got) = join_arrows l)"
    by (simp add: check_lineage_def split: option.split)
  have e5: "check_txn i w got every = [] \<longleftrightarrow>
      (\<forall>j. rm_SameTxnAs w = Some j \<longrightarrow> 0 \<le> j \<and> j < int (length every) \<and> field_text got ''txn_id'' \<noteq> '''' \<and>
        field_text (every ! nat j) ''txn_id'' = field_text got ''txn_id'')"
    by (auto simp: check_txn_def Let_def split: option.split)
  have e6: "check_answered i w got answered = [] \<longleftrightarrow> (rm_Answered w \<longrightarrow> field_text got ''call_id'' \<in> set answered)"
    by (simp add: check_answered_def)
  have e7: "check_unasserted i w got = [] \<longleftrightarrow>
      (rm_NoAssertedFields w \<longrightarrow> (\<forall>f \<in> {''asserted_principal'', ''asserted_human_actor'', ''asserted_scope'', ''lineage''}.
        map_of got f = None \<or> map_of got f = Some JNull))"
    by (simp add: check_unasserted_def filter_empty_conv)
  show ?thesis by (simp only: matchRecord_def record_ok_def append_is_Nil_conv e1 e2 e3 e4 e5 e6 e7)
qed

lemma concat_enumerate: "concat (map f (enumerate 0 xs)) = [] \<longleftrightarrow> (\<forall>i < length xs. f (i, xs ! i) = [])"
  by (auto simp: in_set_enumerate_eq)

lemma check_records_iff:
  "check_records wants got answered = [] \<longleftrightarrow>
     length got = length wants \<and> (\<forall>i < length got. record_ok (wants ! i) (got ! i) got answered)"
proof (cases "length got = length wants")
  case True
  have "concat (map (\<lambda>(i, w, r). matchRecord i w r got answered) (enumerate 0 (zip wants got))) = [] \<longleftrightarrow>
      (\<forall>i < length got. record_ok (wants ! i) (got ! i) got answered)"
    unfolding concat_enumerate using True by (simp add: matchRecord_iff)
  then show ?thesis using True by (simp add: check_records_def)
next
  case False
  then show ?thesis by (simp add: check_records_def)
qed

lemma check_file_iff: "check_file cx line allowOpen f = None \<longleftrightarrow> file_ok cx line allowOpen f"
proof (cases "snd f")
  case None
  then show ?thesis by (simp add: check_file_def file_ok_def)
next
  case (Some b)
  then show ?thesis
    using verify_accepts_iff [of cx "map line (scan_text b)" None]
    by (cases "VerifyFile cx (map line (scan_text b)) None") (auto simp: check_file_def file_ok_def not_less)
qed

lemma read_export_iff:
  "(case read_export cx line allowOpen fs of Inl e \<Rightarrow> False | Inr (ds, as) \<Rightarrow> P ds as) \<longleftrightarrow>
     (\<forall>f \<in> set fs. file_ok cx line allowOpen f) \<and>
     P (concat (map (\<lambda>f. decisions_in (file_records f)) fs)) (concat (map (\<lambda>f. answers_in (file_records f)) fs))"
proof (induction fs arbitrary: P)
  case (Cons f fs)
  show ?case
  proof (cases "check_file cx line allowOpen f")
    case None
    then have "file_ok cx line allowOpen f" by (simp add: check_file_iff)
    with None Cons.IH [of "\<lambda>ds as. P (decisions_in (file_records f) @ ds) (answers_in (file_records f) @ as)"]
    show ?thesis by (cases "read_export cx line allowOpen fs") auto
  next
    case (Some e)
    then have "\<not> file_ok cx line allowOpen f" by (simp add: check_file_iff [symmetric])
    with Some show ?thesis by simp
  qed
qed simp

lemma decisionRecords_iff:
  "(case decisionRecords cx line fs allowOpen of Inl e \<Rightarrow> False | Inr (ds, as) \<Rightarrow> P ds as) \<longleftrightarrow>
     fs \<noteq> [] \<and> (\<forall>f \<in> set fs. file_ok cx line allowOpen f) \<and>
     P (concat (map (\<lambda>f. decisions_in (file_records f)) fs)) (concat (map (\<lambda>f. answers_in (file_records f)) fs))"
  by (simp add: decisionRecords_def read_export_iff)

lemma check_refusal_iff:
  "check_refusal wants tr (i, s) = [] \<longleftrightarrow>
     (\<forall>d. st_Derive s = Some d \<longrightarrow> ds_ExpectRefused d \<longrightarrow>
        (\<exists>r. entry_of tr i = Some r \<and> sr_Refused r \<and> (\<forall>w \<in> set wants. str_contains (sr_Reason r) w)))"
  by (auto simp: check_refusal_def filter_empty_conv split: option.split)

lemma check_headers_iff: "check_headers saw h = [] \<longleftrightarrow> (\<forall>hdr \<in> set saw. hdr h = [])"
  by (simp add: check_headers_def filter_empty_conv all_set_conv_all_nth nth_enumerate_eq)

lemma judge_iff: "judge cx line c fs saw tr = [] \<longleftrightarrow> case_holds cx line c fs saw tr"
proof -
  let ?e = "tk_Expect c"
  have "concat (map (check_refusal (ex_DriverErrorContains ?e) tr) (enumerate 0 (tk_Steps c))) = [] \<longleftrightarrow>
      (\<forall>i < length (tk_Steps c). check_refusal (ex_DriverErrorContains ?e) tr (i, tk_Steps c ! i) = [])"
    by (rule concat_enumerate)
  moreover have "concat (map (check_headers saw) (ex_UpstreamNeverSawHeader ?e)) = [] \<longleftrightarrow>
      (\<forall>h \<in> set (ex_UpstreamNeverSawHeader ?e). \<forall>hdr \<in> set saw. hdr h = '''')"
    by (simp add: concat_map_Nil check_headers_iff)
  moreover have "(case ex_UpstreamCalls ?e of None \<Rightarrow> [] | Some n \<Rightarrow> if int (length saw) \<noteq> n then [UpstreamSaw (int (length saw)) n] else []) = [] \<longleftrightarrow>
      (\<forall>n. ex_UpstreamCalls ?e = Some n \<longrightarrow> int (length saw) = n)"
    by (simp split: option.split)
  moreover have "(case decisionRecords cx line fs (ex_AllowOpenExport ?e) of Inl err \<Rightarrow> [ExportFails err]
       | Inr (decisions, answered) \<Rightarrow> check_records (ex_Records ?e) decisions answered) = [] \<longleftrightarrow>
      (case decisionRecords cx line fs (ex_AllowOpenExport ?e) of Inl err \<Rightarrow> False
       | Inr (decisions, answered) \<Rightarrow> check_records (ex_Records ?e) decisions answered = [])"
    by (simp split: sum.split prod.split)
  ultimately show ?thesis
    unfolding judge_def case_holds_def Let_def append_is_Nil_conv check_refusal_iff decisionRecords_iff check_records_iff by blast
qed


section \<open>What a green suite means\<close>

definition case_passes :: "('l, 'k, 'p) codec \<Rightarrow> (string \<Rightarrow> 'l) \<Rightarrow> test_case \<Rightarrow> case_run option \<Rightarrow> bool" where
  "case_passes cx line c r \<longleftrightarrow>
     (\<exists>x. r = Some x \<and> \<not> cr_DriverError x \<and> cr_CleanExit x \<and> case_holds cx line c (cr_Files x) (cr_Saw x) (cr_Transcript x))"

lemma runCase_iff: "runCase cx line c r = [] \<longleftrightarrow> case_passes cx line c r"
  by (cases r) (simp_all add: runCase_def case_passes_def judge_iff)

definition good_file :: "('l, 'k, 'p) codec \<Rightarrow> (string \<Rightarrow> 'l) \<Rightarrow> (test_case \<Rightarrow> string \<Rightarrow> case_run option) \<Rightarrow> string \<Rightarrow> test_case option \<Rightarrow> bool" where
  "good_file cx line run driver f \<longleftrightarrow>
     (\<exists>c. f = Some c \<and> validate c = None \<and> case_passes cx line c (run c (if kind_of_case c = kindWire then ''direct'' else driver)))"

lemma count_case_parts:
  "ty_failed (count_case cx line run driver f t) = ty_failed t + (if good_file cx line run driver f then 0 else 1)"
  "ty_gaps (count_case cx line run driver f t) =
     ty_gaps t + (if good_file cx line run driver f \<and> tk_KnownGap (the f) \<noteq> None then 1 else 0)"
  by (cases f; auto simp: count_case_def good_file_def Let_def runCase_iff use_driver_def)+

lemma count_all:
  "ty_failed (fold (count_case cx line run driver) fs t) = ty_failed t + length (filter (\<lambda>f. \<not> good_file cx line run driver f) fs) \<and>
   ty_gaps (fold (count_case cx line run driver) fs t) =
     ty_gaps t + length (filter (\<lambda>f. good_file cx line run driver f \<and> tk_KnownGap (the f) \<noteq> None) fs)"
  by (induction fs arbitrary: t) (simp_all add: count_case_parts)

text \<open>
  C38. The suite exits 0 exactly when there are cases and every file is a valid case that passed,
  run by the built-in driver when it is a wire case, a documented gap included: a gap that no
  longer reproduces fails.  Every file is counted once, as failed, as a gap, or as passed, and a
  gap is never among the passed.
\<close>

theorem suite_passes_exactly:
  "(fst (run_suite cx line run driver fs) = 0 \<longleftrightarrow> fs \<noteq> [] \<and>
      (\<forall>f \<in> set fs. \<exists>c. f = Some c \<and> validate c = None \<and>
         case_passes cx line c (run c (if kind_of_case c = kindWire then ''direct'' else driver)))) \<and>
   length fs = ty_failed (snd (run_suite cx line run driver fs)) + ty_gaps (snd (run_suite cx line run driver fs)) +
      length (filter (\<lambda>f. \<exists>c. f = Some c \<and> tk_KnownGap c = None \<and> validate c = None \<and>
         case_passes cx line c (run c (if kind_of_case c = kindWire then ''direct'' else driver))) fs)"
proof
  note c = count_all [of cx line run driver fs "\<lparr>ty_failed = 0, ty_wire = 0, ty_gaps = 0\<rparr>"]
  show "fst (run_suite cx line run driver fs) = 0 \<longleftrightarrow> fs \<noteq> [] \<and>
      (\<forall>f \<in> set fs. \<exists>c. f = Some c \<and> validate c = None \<and>
         case_passes cx line c (run c (if kind_of_case c = kindWire then ''direct'' else driver)))"
    using c by (auto simp: run_suite_def Let_def good_file_def filter_empty_conv)
  have "length fs = length (filter (\<lambda>f. \<not> good_file cx line run driver f) fs) +
      length (filter (\<lambda>f. good_file cx line run driver f \<and> tk_KnownGap (the f) \<noteq> None) fs) +
      length (filter (\<lambda>f. good_file cx line run driver f \<and> tk_KnownGap (the f) = None) fs)"
    by (induction fs) auto
  moreover have "(\<exists>c. f = Some c \<and> tk_KnownGap c = None \<and> validate c = None \<and>
         case_passes cx line c (run c (if kind_of_case c = kindWire then ''direct'' else driver))) \<longleftrightarrow>
      good_file cx line run driver f \<and> tk_KnownGap (the f) = None" for f
    by (cases f) (simp_all only: good_file_def option.simps simp_thms option.sel, blast)
  ultimately show "length fs = ty_failed (snd (run_suite cx line run driver fs)) + ty_gaps (snd (run_suite cx line run driver fs)) +
      length (filter (\<lambda>f. \<exists>c. f = Some c \<and> tk_KnownGap c = None \<and> validate c = None \<and>
         case_passes cx line c (run c (if kind_of_case c = kindWire then ''direct'' else driver))) fs)"
    using c by (simp add: run_suite_def Let_def)
qed

text \<open>
  Two matchers say less than they seem to.  Lineages are compared with their agents joined by
  arrows, so one agent whose name holds an arrow passes for two; and a post that never reached the
  service is reported as a refusal, like one that was refused.
\<close>

lemma lineage_match_is_ambiguous:
  assumes "lineage_of got = [a @ ''>'' @ b]" and "rm_Lineage w = Some [a, b]"
  shows "check_lineage i w got = []"
  using assms by (simp add: check_lineage_def)

lemma outage_counts_as_refusal:
  assumes "dv_post dv url body (dr_world d) = ((0, out), w)"
  shows "\<exists>r. last (dr_steps (issue dv i url body name d)) = r \<and> sr_Index r = i \<and> sr_Refused r"
  using assms by (simp add: issue_def)

section \<open>Witnesses\<close>

text \<open>An export of one file of two lines, a header and its signature; a case that expects no records.\<close>

definition toy_line :: "string \<Rightarrow> ledger_record" where
  "toy_line s = (if s = ''h'' then one_header else one_sig)"

definition toy_files :: "export_file list" where
  "toy_files = [(''w.jsonl'', Some [CHR ''h'', CHR 0x0A, CHR ''s'', CHR 0x0A])]"

definition toy_case :: "known_gap option \<Rightarrow> test_case" where
  "toy_case g = \<lparr>tk_Name = ''c'', tk_Kind = '''', tk_KnownGap = g, tk_Steps = [],
     tk_Expect = \<lparr>ex_Records = [], ex_UpstreamNeverSawHeader = [''Gurdy-Txn''], ex_DriverErrorContains = [], ex_UpstreamCalls = Some 0,
       ex_AllowOpenExport = True\<rparr>\<rparr>"

lemma one_unpinned: "\<exists>res. VerifyFile toy_once [one_header, one_sig] None = Inr res"
  unfolding verify_accepts_iff export_ok_def
  by (intro exI [of _ one_header] exI [of _ "[one_sig]"])
     (simp add: first_ok_def body_ok_def one_header_def one_sig_def is_header_def anchor_def file_key_def file_kid_def
       maxLine_def sig_ok_def verifyBatchSig_def zero_record_def count_kind_def kind_of_def line_hash_def)

lemma toy_file_ok: "file_ok toy_once toy_line True (hd toy_files)"
proof -
  have "\<exists>res. VerifyFile toy_once [one_header, one_sig] None = Inr res" by (rule one_unpinned)
  then have "export_ok toy_once None [one_header, one_sig]" by (simp only: verify_accepts_iff)
  moreover have "scan_text [CHR ''h'', CHR 0x0A, CHR ''s'', CHR 0x0A] = [''h'', ''s'']" by code_simp
  ultimately show ?thesis by (simp add: file_ok_def toy_files_def toy_line_def)
qed

lemma toy_no_records: "file_records (hd toy_files) = []"
  by code_simp

lemma toy_case_holds: "case_holds toy_once toy_line (toy_case g) toy_files [] []"
proof -
  have "toy_files = [hd toy_files]" by (simp add: toy_files_def)
  then show ?thesis using toy_file_ok toy_no_records
    by (simp add: case_holds_def toy_case_def) (simp add: toy_files_def decisions_in_def)
qed


theorem suite_passes_exactly_witness:
  "fst (run_suite toy_once toy_line
     (\<lambda>c d. Some \<lparr>cr_Transcript = [], cr_DriverError = False, cr_CleanExit = True, cr_Files = toy_files, cr_Saw = []\<rparr>) ''direct''
     [Some (toy_case None), Some (toy_case (Some \<lparr>kg_Why = ''w'', kg_ClosesWith = ''c''\<rparr>))]) = 0"
proof -
  have "validate (toy_case None) = None" "validate (toy_case (Some \<lparr>kg_Why = ''w'', kg_ClosesWith = ''c''\<rparr>)) = None"
    by (simp_all add: validate_def kind_of_case_def kindSDK_def toy_case_def)
  moreover have "case_passes toy_once toy_line (toy_case g)
      (Some \<lparr>cr_Transcript = [], cr_DriverError = False, cr_CleanExit = True, cr_Files = toy_files, cr_Saw = []\<rparr>)" for g
    by (simp add: case_passes_def toy_case_holds)
  ultimately show ?thesis
    by (subst suite_passes_exactly [THEN conjunct1]) simp
qed

end
