(* ===== verification/Flush_Writer.thy ===== *)
theory Flush_Writer
  imports Prelude "HOL-Library.Multiset"
begin

text \<open>
  The buffered writer of the decision log, \<open>proxy/cmd/gurdy-proxy/flushwriter.go\<close>: callers append
  under a lock, a goroutine swaps the buffer out on a ticker and writes it with the lock released,
  and \<open>Close\<close> flushes once more.  A step is one access under the lock or one write to the output;
  a list of steps is an interleaving.
\<close>

section \<open>The writer\<close>

text \<open>
  \<open>fw_flusher\<close> is what the goroutine has swapped out and not yet written, \<open>fw_closing\<close> the same
  for \<open>Close\<close>; \<open>fw_live\<close> is false once the goroutine has seen \<open>done\<close>.
\<close>

datatype closing = NotClosed | Closing string | CloseReturned

record flush_writer =
  fw_buf :: string
  fw_out :: string
  fw_flusher :: "string option"
  fw_live :: bool
  fw_closing :: closing

definition newFlushWriter :: flush_writer where
  "newFlushWriter = \<lparr>fw_buf = '''', fw_out = '''', fw_flusher = None, fw_live = True, fw_closing = NotClosed\<rparr>"

text \<open>The first half of \<open>flush\<close>, under the lock: what was swapped out, if anything.\<close>

definition swap_out :: "flush_writer \<Rightarrow> string option \<times> flush_writer" where
  "swap_out f = (if fw_buf f = '''' then (None, f) else (Some (fw_buf f), f\<lparr>fw_buf := ''''\<rparr>))"

text \<open>The second half: the output takes all, or fails after some bytes, and the rest is gone.\<close>

definition write_out :: "string \<Rightarrow> nat option \<Rightarrow> flush_writer \<Rightarrow> flush_writer" where
  "write_out b fails f = f\<lparr>fw_out := fw_out f @ (case fails of None \<Rightarrow> b | Some n \<Rightarrow> take n b)\<rparr>"

text \<open>A caller's \<open>Write\<close>, the goroutine's tick, its write and its end, and the two halves of \<open>Close\<close>.\<close>

datatype log_event = Write string | Tick | TickWrite "nat option" | SeesDone | Close | CloseWrite "nat option"

text \<open>
  One step; what cannot happen changes nothing.  The goroutine does not look at the ticker again
  before it has written; a second \<open>Close\<close> is a no-op; a tick may still win against \<open>done\<close>.
\<close>

fun log_step :: "log_event \<Rightarrow> flush_writer \<Rightarrow> flush_writer" where
  "log_step (Write p) f = f\<lparr>fw_buf := fw_buf f @ p\<rparr>"
| "log_step Tick f =
     (if fw_live f \<and> fw_flusher f = None then (let (b, f) = swap_out f in f\<lparr>fw_flusher := b\<rparr>) else f)"
| "log_step (TickWrite fails) f =
     (case fw_flusher f of None \<Rightarrow> f | Some b \<Rightarrow> (write_out b fails f)\<lparr>fw_flusher := None\<rparr>)"
| "log_step SeesDone f = (if fw_flusher f = None \<and> fw_closing f \<noteq> NotClosed then f\<lparr>fw_live := False\<rparr> else f)"
| "log_step Close f =
     (if fw_closing f = NotClosed
      then (let (b, f) = swap_out f in f\<lparr>fw_closing := (case b of None \<Rightarrow> CloseReturned | Some b \<Rightarrow> Closing b)\<rparr>) else f)"
| "log_step (CloseWrite fails) f =
     (case fw_closing f of Closing b \<Rightarrow> (write_out b fails f)\<lparr>fw_closing := CloseReturned\<rparr> | _ \<Rightarrow> f)"

definition log_run :: "log_event list \<Rightarrow> flush_writer" where
  "log_run es = fold log_step es newFlushWriter"

section \<open>Every line is there once\<close>

definition written :: "log_event list \<Rightarrow> string list" where
  "written es = List.map_filter (\<lambda>e. case e of Write p \<Rightarrow> Some p | _ \<Rightarrow> None) es"

text \<open>What is on its way: taken by the goroutine, by \<open>Close\<close>, or in the buffer.\<close>

definition in_flusher :: "flush_writer \<Rightarrow> string" where
  "in_flusher f = (case fw_flusher f of None \<Rightarrow> '''' | Some b \<Rightarrow> b)"

definition in_close :: "flush_writer \<Rightarrow> string" where
  "in_close f = (case fw_closing f of Closing b \<Rightarrow> b | _ \<Rightarrow> '''')"

definition output_fails :: "log_event \<Rightarrow> bool" where
  "output_fails e = (case e of TickWrite (Some n) \<Rightarrow> True | CloseWrite (Some n) \<Rightarrow> True | _ \<Rightarrow> False)"

definition whole_lines :: "string list \<Rightarrow> flush_writer \<Rightarrow> bool" where
  "whole_lines ps f \<longleftrightarrow>
     (\<exists>t c b out. concat t = in_flusher f \<and> concat c = in_close f \<and> concat b = fw_buf f \<and> concat out = fw_out f \<and>
        mset ps = mset out + mset t + mset c + mset b \<and> (fw_closing f = NotClosed \<longrightarrow> ps = out @ t @ b))"

lemmas on_its_way = in_flusher_def in_close_def

lemma log_step_lines:
  assumes "whole_lines ps f" and "\<not> output_fails e"
  shows "whole_lines (ps @ written [e]) (log_step e f)"
proof -
  obtain t c b out where i: "concat t = in_flusher f" "concat c = in_close f" "concat b = fw_buf f" "concat out = fw_out f"
      "mset ps = mset out + mset t + mset c + mset b" "fw_closing f = NotClosed \<longrightarrow> ps = out @ t @ b"
    using assms(1) unfolding whole_lines_def by blast
  have same: ?thesis if "log_step e f = f" "written [e] = []"
    using assms(1) that by simp
  show ?thesis
  proof (cases e)
    case (Write p)
    show ?thesis unfolding whole_lines_def
      by (rule exI [of _ t], rule exI [of _ c], rule exI [of _ "b @ [p]"], rule exI [of _ out])
        (use i Write in \<open>auto simp: on_its_way written_def map_filter_simps\<close>)
  next
    case Tick
    show ?thesis
    proof (cases "fw_live f \<and> fw_flusher f = None \<and> fw_buf f \<noteq> ''''")
      case True
      show ?thesis unfolding whole_lines_def
        by (rule exI [of _ "t @ b"], rule exI [of _ c], rule exI [of _ "[]"], rule exI [of _ out])
          (use i Tick True in \<open>auto simp: on_its_way written_def map_filter_simps swap_out_def\<close>)
    next
      case False
      then have "log_step e f = f" using Tick by (auto simp: swap_out_def)
      then show ?thesis using Tick by (intro same) (simp_all add: written_def map_filter_simps)
    qed
  next
    case (TickWrite fails)
    then have n: "fails = None" using assms(2) by (cases fails) (simp_all add: output_fails_def)
    show ?thesis
    proof (cases "fw_flusher f")
      case None
      then show ?thesis using TickWrite by (intro same) (simp_all add: written_def map_filter_simps)
    next
      case (Some x)
      show ?thesis unfolding whole_lines_def
        by (rule exI [of _ "[]"], rule exI [of _ c], rule exI [of _ b], rule exI [of _ "out @ t"])
          (use i TickWrite n Some in \<open>auto simp: on_its_way written_def map_filter_simps write_out_def\<close>)
    qed
  next
    case SeesDone
    show ?thesis unfolding whole_lines_def
      by (rule exI [of _ t], rule exI [of _ c], rule exI [of _ b], rule exI [of _ out])
        (use i SeesDone in \<open>auto simp: on_its_way written_def map_filter_simps\<close>)
  next
    case Close
    show ?thesis
    proof (cases "fw_closing f = NotClosed")
      case True
      show ?thesis unfolding whole_lines_def
        by (rule exI [of _ t], rule exI [of _ "c @ b"], rule exI [of _ "[]"], rule exI [of _ out])
          (use i Close True in \<open>auto simp: on_its_way written_def map_filter_simps swap_out_def\<close>)
    next
      case False
      then show ?thesis using Close by (intro same) (simp_all add: written_def map_filter_simps)
    qed
  next
    case (CloseWrite fails)
    then have n: "fails = None" using assms(2) by (cases fails) (simp_all add: output_fails_def)
    show ?thesis
    proof (cases "fw_closing f")
      case (Closing x)
      show ?thesis unfolding whole_lines_def
        by (rule exI [of _ t], rule exI [of _ "[]"], rule exI [of _ b], rule exI [of _ "out @ c"])
          (use i CloseWrite n Closing in \<open>auto simp: on_its_way written_def map_filter_simps write_out_def\<close>)
    qed (use CloseWrite in \<open>auto intro!: same assms(1) simp: written_def map_filter_simps\<close>)
  qed
qed

lemma log_run_lines: "\<forall>e \<in> set es. \<not> output_fails e \<Longrightarrow> whole_lines (written es) (log_run es)"
proof (induction es rule: rev_induct)
  case Nil
  show ?case unfolding whole_lines_def
    by (rule exI [of _ "[]"], rule exI [of _ "[]"], rule exI [of _ "[]"], rule exI [of _ "[]"])
      (simp add: on_its_way log_run_def newFlushWriter_def written_def map_filter_simps)
next
  case (snoc e es)
  have "whole_lines (written es @ written [e]) (log_step e (log_run es))"
    using snoc by (intro log_step_lines) simp_all
  then show ?case by (simp add: log_run_def written_def map_filter_def)
qed

text \<open>
  C31. The log buffer neither loses, repeats nor tears a line, whatever the interleaving of callers,
  ticker and \<open>Close\<close>: as long as the output takes what it is given, the output followed by what
  the flusher holds, what \<open>Close\<close> holds and the buffer is made of exactly the lines written, each
  whole and once; and up to \<open>Close\<close> they are in the order of the writes.  So what a hard kill
  loses is what was in those three places.
\<close>

theorem log_keeps_lines:
  assumes "\<forall>e \<in> set es. \<not> output_fails e"
  shows "(\<exists>ls. mset ls = mset (written es) \<and>
       concat ls = fw_out (log_run es) @ in_flusher (log_run es) @ in_close (log_run es) @ fw_buf (log_run es)) \<and>
     (fw_closing (log_run es) = NotClosed \<longrightarrow>
       concat (written es) = fw_out (log_run es) @ in_flusher (log_run es) @ fw_buf (log_run es))"
proof -
  from log_run_lines [OF assms] obtain t c b out where
    i: "concat t = in_flusher (log_run es)" "concat c = in_close (log_run es)" "concat b = fw_buf (log_run es)"
      "concat out = fw_out (log_run es)" "mset (written es) = mset out + mset t + mset c + mset b"
      "fw_closing (log_run es) = NotClosed \<longrightarrow> written es = out @ t @ b"
    unfolding whole_lines_def by blast
  then show ?thesis by (intro conjI exI [of _ "out @ t @ c @ b"]) simp_all
qed

text \<open>
  \<open>Close\<close> does not wait for the flusher: it can return, and the process end, with lines still in
  the flusher's hands; and what it writes can come out before what was logged earlier.
\<close>

lemma close_overtakes_flusher:
  "fw_closing (log_run [Write ''a'', Tick, Write ''b'', Close, CloseWrite None]) = CloseReturned \<and>
   in_flusher (log_run [Write ''a'', Tick, Write ''b'', Close, CloseWrite None]) = ''a'' \<and>
   fw_out (log_run [Write ''a'', Tick, Write ''b'', Close, CloseWrite None, TickWrite None]) = ''ba''"
  by code_simp

text \<open>After \<open>Close\<close> a write still succeeds; once the goroutine is gone nothing flushes it.\<close>

lemma write_after_close:
  assumes "fw_closing f = CloseReturned" and "\<not> fw_live f" and "fw_flusher f = None"
  shows "fw_out (fold log_step es f) = fw_out f"
proof -
  have "fw_out (fold log_step es f) = fw_out f \<and> fw_closing (fold log_step es f) = CloseReturned \<and>
      \<not> fw_live (fold log_step es f) \<and> fw_flusher (fold log_step es f) = None"
  proof (induction es rule: rev_induct)
    case (snoc e es)
    then show ?case by (cases e) auto
  qed (use assms in simp)
  then show ?thesis by blast
qed

theorem log_keeps_lines_witness:
  "\<exists>ls. mset ls = {#''a'', ''b''#} \<and> concat ls = ''ba''"
proof -
  let ?es = "[Write ''a'', Tick, Write ''b'', Close, CloseWrite None, TickWrite None]"
  have f: "\<forall>e \<in> set ?es. \<not> output_fails e" by (simp add: output_fails_def)
  have e: "fw_out (log_run ?es) = ''ba''" "in_flusher (log_run ?es) = ''''" "in_close (log_run ?es) = ''''" "fw_buf (log_run ?es) = ''''"
    "written ?es = [''a'', ''b'']"
    by code_simp+
  from log_keeps_lines [OF f, THEN conjunct1] show ?thesis unfolding e by simp
qed

end
