(* ===== verification/Version.thy ===== *)
theory Version
  imports Prelude
begin

text \<open>
  The build a header names, \<open>proxy/internal/version/version.go\<close>.  Parameters: the three strings
  set at link time and what \<open>debug.ReadBuildInfo\<close> returns.
\<close>

record build =
  bd_version :: string
  bd_commit :: string
  bd_date :: string
  bd_info :: "(string \<times> string) list option"
  bd_platform :: string

text \<open>The first setting of a key.\<close>

definition setting :: "build \<Rightarrow> string \<Rightarrow> string option" where
  "setting b k = (case bd_info b of None \<Rightarrow> None | Some ss \<Rightarrow> map_of ss k)"

definition Commit :: "build \<Rightarrow> string" where
  "Commit b =
     (if bd_commit b \<noteq> '''' then bd_commit b
      else case setting b ''vcs.revision'' of None \<Rightarrow> '''' | Some v \<Rightarrow> v)"

definition Modified :: "build \<Rightarrow> bool" where
  "Modified b = (case setting b ''vcs.modified'' of None \<Rightarrow> False | Some v \<Rightarrow> v = ''true'')"

definition Producer :: "build \<Rightarrow> string" where
  "Producer b =
     (let s = ''gurdy/'' @ bd_version b; c = Commit b;
          s = (if c \<noteq> '''' then s @ ''+'' @ take 12 c else s)
      in if Modified b then s @ ''+dirty'' else s)"

text \<open>\<open>String\<close>; \<open>bd_platform\<close> is the toolchain line.\<close>

definition version_string :: "build \<Rightarrow> string \<Rightarrow> string" where
  "version_string b binary =
     (let s = binary @ '' '' @ bd_version b;
          s = (if Commit b \<noteq> '''' then s @ '' ('' @ Commit b @ (if Modified b then '', dirty'' else '''') @ '')'' else s);
          s = (if bd_date b \<noteq> '''' then s @ '' built '' @ bd_date b else s)
      in s @ [CHR 0x0A] @ bd_platform b)"

section \<open>The producer names the build\<close>

text \<open>
  Version, short commit and cleanness can be read back from the producer, when the version holds
  no plus sign (a tag with build metadata does) and commits are hexadecimal, so that none reads
  \<open>dirty\<close>.
\<close>

definition hex_commit :: "string \<Rightarrow> bool" where
  "hex_commit c \<longleftrightarrow> set c \<subseteq> set ''0123456789abcdef''"

lemma split_plus: "CHR ''+'' \<notin> set a \<Longrightarrow> CHR ''+'' \<notin> set b \<Longrightarrow> (xs = [] \<or> hd xs = CHR ''+'') \<Longrightarrow> (ys = [] \<or> hd ys = CHR ''+'') \<Longrightarrow>
    a @ xs = b @ ys \<longleftrightarrow> a = b \<and> xs = ys"
proof (induction a arbitrary: b)
  case Nil
  then show ?case by (cases b; cases xs) auto
next
  case (Cons c a)
  then show ?case by (cases b; cases ys) auto
qed

definition tail_of :: "string \<Rightarrow> bool \<Rightarrow> string" where
  "tail_of c m = (if c \<noteq> '''' then ''+'' @ take 12 c else '''') @ (if m then ''+dirty'' else '''')"

lemma Producer_tail: "Producer b = ''gurdy/'' @ bd_version b @ tail_of (Commit b) (Modified b)"
  by (simp add: Producer_def tail_of_def Let_def)

lemma hex_short: "hex_commit c \<Longrightarrow> CHR ''+'' \<notin> set (take n c) \<and> take n c \<noteq> ''dirty''"
proof
  assume h: "hex_commit c"
  then have s: "set (take n c) \<subseteq> set ''0123456789abcdef''" using set_take_subset [of n c] by (auto simp: hex_commit_def)
  then show "CHR ''+'' \<notin> set (take n c)" by auto
  show "take n c \<noteq> ''dirty''"
  proof
    assume "take n c = ''dirty''"
    with s have "CHR ''y'' \<in> set ''0123456789abcdef''" by auto
    then show False by simp
  qed
qed

lemma tail_inj:
  assumes "hex_commit c" and "hex_commit d" and "tail_of c m = tail_of d n"
  shows "take 12 c = take 12 d \<and> m = n"
proof -
  have short: "x \<noteq> '''' \<longleftrightarrow> take 12 x \<noteq> ''''" for x :: string by (cases x) simp_all
  have sp: "take 12 c @ (if m then ''+dirty'' else '''') = take 12 d @ (if n then ''+dirty'' else '''') \<longleftrightarrow>
      take 12 c = take 12 d \<and> m = n"
    by (subst split_plus) (use hex_short [OF assms(1)] hex_short [OF assms(2)] in auto)
  show ?thesis
  proof (cases "c = ''''"; cases "d = ''''")
    assume "c = ''''" "d = ''''"
    then show ?thesis using assms(3) by (cases m; cases n) (simp_all add: tail_of_def)
  next
    assume e: "c = ''''" "d \<noteq> ''''"
    have "take 12 d @ (if n then ''+dirty'' else '''') \<noteq> ''dirty''"
      using hex_short [OF assms(2), of 12] by (cases n) (auto dest: arg_cong [where f = "\<lambda>x. CHR ''+'' \<in> set x"])
    then show ?thesis using e assms(3) by (cases m) (simp_all add: tail_of_def)
  next
    assume e: "c \<noteq> ''''" "d = ''''"
    have "take 12 c @ (if m then ''+dirty'' else '''') \<noteq> ''dirty''"
      using hex_short [OF assms(1), of 12] by (cases m) (auto dest: arg_cong [where f = "\<lambda>x. CHR ''+'' \<in> set x"])
    then show ?thesis using e assms(3) by (cases n) (simp_all add: tail_of_def)
  next
    assume "c \<noteq> ''''" "d \<noteq> ''''"
    then show ?thesis using assms(3) sp by (simp add: tail_of_def)
  qed
qed

theorem producer_names_build:
  assumes "CHR ''+'' \<notin> set (bd_version a)" and "CHR ''+'' \<notin> set (bd_version b)" and "hex_commit (Commit a)" and "hex_commit (Commit b)"
    and "Producer a = Producer b"
  shows "bd_version a = bd_version b \<and> take 12 (Commit a) = take 12 (Commit b) \<and> Modified a = Modified b"
proof -
  have t: "tail_of c m = [] \<or> hd (tail_of c m) = CHR ''+''" for c m by (simp add: tail_of_def)
  from assms(5) have "bd_version a @ tail_of (Commit a) (Modified a) = bd_version b @ tail_of (Commit b) (Modified b)"
    by (simp add: Producer_tail)
  with split_plus [OF assms(1,2) t t] tail_inj [OF assms(3,4)] show ?thesis by blast
qed

text \<open>Without the hypothesis on commits it fails: a commit named \<open>dirty\<close> passes for no commit and a modified tree.\<close>

lemma producer_ambiguous:
  "Producer \<lparr>bd_version = ''v1'', bd_commit = ''dirty'', bd_date = '''', bd_info = None, bd_platform = ''''\<rparr> =
   Producer \<lparr>bd_version = ''v1'', bd_commit = '''', bd_date = '''', bd_info = Some [(''vcs.modified'', ''true'')], bd_platform = ''''\<rparr>"
  by (simp add: Producer_def Commit_def Modified_def setting_def)

end
