(* ===== verification/Process.thy ===== *)
theory Process
  imports Mint_Sock Shim_Session Version
begin

text \<open>
  The process \<open>gurdy-proxy\<close>, \<open>main\<close> of \<open>proxy/cmd/gurdy-proxy/main.go\<close>: how its parts are put
  together, the entrances through which the world acts on them, and how it ends.
\<close>

section \<open>Starting\<close>

text \<open>The flags; \<open>fl_Command\<close> is what follows them when \<open>-stdio\<close> is given.\<close>

record flags =
  fl_Upstream :: string
  fl_Policy :: string
  fl_DeployID :: string
  fl_Tenant :: string
  fl_LedgerDir :: string
  fl_StateDir :: string
  fl_MintSock :: string
  fl_Command :: "string list option"
  fl_Enforce :: bool
  fl_TxnFile :: string

text \<open>
  The machine it starts on: \<open>url.Parse\<close> (the \<open>Host\<close>), \<open>filepath.Abs\<close>, the ledger's key as
  \<open>keyfile\<close> finds or makes it, files, and the node at the path of the socket.
\<close>

record ('l, 'k, 's, 'pol) host =
  ho_url_host :: "string \<Rightarrow> string option"
  ho_bundle :: "'pol bundle_lib"
  ho_starter :: string
  ho_keys :: "'s keyenv"
  ho_abs :: "string \<Rightarrow> string"
  ho_ledger_key :: "'k option"
  ho_disk :: "'l list gomap"
  ho_fault :: "nat \<Rightarrow> bool"
  ho_env :: process_env
  ho_files :: "string \<Rightarrow> string option"
  ho_sock :: sock_fs
  ho_sock_faults :: sock_faults
  ho_build :: build
  ho_stages :: "stage list"

datatype fatal = NoCommand | BadUpstream | PolicyFails bundle_error | IdentityFails key_error | LedgerFails ledger_error | SocketFails sock_error

definition target_host :: "('l, 'k, 's, 'pol) host \<Rightarrow> flags \<Rightarrow> fatal + string" where
  "target_host ho fl =
     (case fl_Command fl of
        Some c \<Rightarrow> if c = [] then Inl NoCommand else Inr ''''
      | None \<Rightarrow>
          (case ho_url_host ho (fl_Upstream fl) of
             None \<Rightarrow> Inl BadUpstream
           | Some h \<Rightarrow> if h = '''' then Inl BadUpstream else Inr h))"

definition state_file :: "('l, 'k, 's, 'pol) host \<Rightarrow> flags \<Rightarrow> string \<Rightarrow> string" where
  "state_file ho fl name = pe_join (ho_env ho) [fl_StateDir fl, name]"

definition open_ledger :: "('l, 'k, 'p, 's, 'q, 'tok, 'pol) platform \<Rightarrow> ('l, 'k, 's, 'pol) host \<Rightarrow> flags \<Rightarrow> 's tis \<Rightarrow>
    ledger_error + ('l, 'k) ledger" where
  "open_ledger gx ho fl t =
     Open (gx_codec gx) (ho_abs ho (fl_LedgerDir fl)) (ho_abs ho (state_file ho fl ''ledger-key.pem'')) (ho_ledger_key ho)
       \<lparr>id_Tenant = fl_Tenant fl, id_Instance = Instance t, id_Producer = Producer (ho_build ho)\<rparr>
       (ho_disk ho) (ho_fault ho) (t_now t)"

definition open_socket :: "('l, 'k, 's, 'pol) host \<Rightarrow> flags \<Rightarrow> sock_error option" where
  "open_socket ho fl =
     (if fl_MintSock fl = ''off'' then None
      else fst (listenMint (if fl_MintSock fl = '''' then state_file ho fl ''tis.sock'' else fl_MintSock fl) (ho_sock_faults ho) (ho_sock ho)))"

definition assemble :: "('l, 'k, 's, 'pol) host \<Rightarrow> flags \<Rightarrow> string \<Rightarrow> 'pol evaluator \<Rightarrow> 's tis \<Rightarrow> ('l, 'k) ledger \<Rightarrow>
    ('l, 'k, 's, 'tok, 'pol) gateway" where
  "assemble ho fl host ev t led =
     applyActuator (ho_env ho) (fl_Enforce fl) (fl_TxnFile fl)
       (if fl_Command fl = None then newHTTPGateway host (NewStore ev) t led (fl_Tenant fl) (ho_files ho)
        else newGateway (NewStore ev) t led (fl_Tenant fl) (ho_files ho))"

text \<open>\<open>main\<close> up to the point where it serves; every failure ends the process.\<close>

definition start_up :: "('l, 'k, 'p, 's, 'q, 'tok, 'pol) platform \<Rightarrow> ('l, 'k, 's, 'pol) host \<Rightarrow> flags \<Rightarrow>
    fatal + ('l, 'k, 's, 'tok, 'pol) governed" where
  "start_up gx ho fl =
     (case target_host ho fl of
        Inl e \<Rightarrow> Inl e
      | Inr host \<Rightarrow>
     (case loadBundle (ho_bundle ho) (ho_starter ho) (fl_Policy fl) of
        Inl e \<Rightarrow> Inl (PolicyFails e)
      | Inr ev \<Rightarrow>
     (case fst (Tis.New (gx_jwt gx) (fl_DeployID fl) (state_file ho fl ''tis-key.pem'') (ho_keys ho)) of
        Inl e \<Rightarrow> Inl (IdentityFails e)
      | Inr t \<Rightarrow>
     (case open_ledger gx ho fl t of
        Inl e \<Rightarrow> Inl (LedgerFails e)
      | Inr led \<Rightarrow>
     (case open_socket ho fl of
        Some e \<Rightarrow> Inl (SocketFails e)
      | None \<Rightarrow> Inr \<lparr>gv_gateway = assemble ho fl host ev t led, gv_stages = ho_stages ho\<rparr>)))))"

section \<open>Running\<close>

text \<open>
  What acts on a process that serves HTTP: a request with what the upstream answers, a post to the
  sideband, an admin request, SIGHUP, the minute tick of key rotation, the ledger's writer and its
  tick, and time.
\<close>

datatype entrance =
    Request request "request \<Rightarrow> writer_event list"
  | Post string string
  | Ask admin_request
  | Hangup
  | RotateTick
  | WriterRuns
  | LedgerTick
  | Passes nat

definition rotate_tick :: "('k, 'p, 'tok) jwtlib \<Rightarrow> 'k tis \<Rightarrow> 'k tis" where
  "rotate_tick lib t = (if RotateDue (t_now t) t then snd (Rotate (jl_keys lib) t) else t)"

definition on_gateway :: "(('l, 'k, 's, 'tok, 'pol) gateway \<Rightarrow> ('l, 'k, 's, 'tok, 'pol) gateway) \<Rightarrow>
    ('l, 'k, 's, 'tok, 'pol) governed \<Rightarrow> ('l, 'k, 's, 'tok, 'pol) governed" where
  "on_gateway f p = p\<lparr>gv_gateway := f (gv_gateway p)\<rparr>"

definition pass_time :: "nat \<Rightarrow> ('l, 'k, 's, 'tok, 'pol) gateway \<Rightarrow> ('l, 'k, 's, 'tok, 'pol) gateway" where
  "pass_time n g =
     (let t = g_tis g; now = t_now t + int n
      in g\<lparr>g_tis := with_env t ((t_env t)\<lparr>ke_now := now\<rparr>), g_led := (g_led g)\<lparr>l_now := now\<rparr>\<rparr>)"

fun proxy_step :: "('l, 'k, 'p, 's, 'q, 'tok, 'pol) platform \<Rightarrow> 'pol admin_env \<Rightarrow> 'tok mint_env \<Rightarrow> entrance \<Rightarrow>
    ('l, 'k, 's, 'tok, 'pol) governed \<Rightarrow> ('l, 'k, 's, 'tok, 'pol) governed" where
  "proxy_step gx ae me (Request q upstream) p = on_gateway (\<lambda>g. snd (ServeHTTP gx upstream q g)) p"
| "proxy_step gx ae me (Post path body) p = on_gateway (\<lambda>g. snd (mintMux gx me ''POST'' path body g)) p"
| "proxy_step gx ae me (Ask q) p = snd (adminMux gx ae q p)"
| "proxy_step gx ae me Hangup p =
     on_gateway (\<lambda>g. g\<lparr>g_store := snd (reload (ae_bundle ae) (ae_policyPath ae) (g_store g))\<rparr>) p"
| "proxy_step gx ae me RotateTick p = on_gateway (\<lambda>g. g\<lparr>g_tis := rotate_tick (gx_jwt gx) (g_tis g)\<rparr>) p"
| "proxy_step gx ae me WriterRuns p = on_gateway (\<lambda>g. g\<lparr>g_led := run_queue (gx_codec gx) (g_led g)\<rparr>) p"
| "proxy_step gx ae me LedgerTick p = on_gateway (\<lambda>g. g\<lparr>g_led := tick (gx_codec gx) (g_led g)\<rparr>) p"
| "proxy_step gx ae me (Passes n) p = on_gateway (pass_time n) p"

text \<open>The end, after a signal: the listeners are closed, in-flight requests waited for, the ledger closed.\<close>

definition shut_down :: "('l, 'k, 'p, 's, 'q, 'tok, 'pol) platform \<Rightarrow> ('l, 'k, 's, 'tok, 'pol) governed \<Rightarrow> ('l, 'k, 's, 'tok, 'pol) governed" where
  "shut_down gx p = on_gateway (\<lambda>g. g\<lparr>g_led := snd (Ledger_Ops.Close (gx_codec gx) (g_led g))\<rparr>) p"

section \<open>Accounts of the identity service\<close>

text \<open>
  The roots and tokens the service has issued are ghost state.  An account of a stretch of the
  process extends them by a run of the abstract service; the tokens the gateway minted for itself
  are among those issued.
\<close>

definition autos :: "('l, 'k, 's, 'tok, 'pol) gateway \<Rightarrow> 'tok set" where
  "autos g = (\<lambda>x. at_tok (snd x)) ` set (g_autoTxn g)"

definition account :: "('l, 'k, 'p, 's, 'q, 'tok, 'pol) platform \<Rightarrow> ('l, 'k, 's, 'tok, 'pol) gateway \<times> payload set \<times> 'tok set \<Rightarrow>
    ('l, 'k, 's, 'tok, 'pol) gateway \<times> payload set \<times> 'tok set \<Rightarrow> bool" where
  "account gx x y \<longleftrightarrow>
     (service (gx_jwt gx))\<^sup>*\<^sup>* (g_tis (fst x), snd x) (g_tis (fst y), snd y) \<and> snd (snd x) \<subseteq> snd (snd y) \<and>
     (autos (fst x) \<subseteq> snd (snd x) \<longrightarrow> autos (fst y) \<subseteq> snd (snd y))"

lemma account_refl [intro]: "account gx x x"
  by (simp add: account_def)

lemma account_trans [trans]: "account gx x y \<Longrightarrow> account gx y z \<Longrightarrow> account gx x z"
  unfolding account_def by (meson rtranclp_trans subset_trans)

lemma account_same: "g_tis g' = g_tis g \<Longrightarrow> g_autoTxn g' = g_autoTxn g \<Longrightarrow> account gx (g, R, I) (g', R, I)"
  by (simp add: account_def autos_def)

lemma account_cong: "account gx (g, R, I) (h, R', I') \<Longrightarrow> g_tis g' = g_tis h \<Longrightarrow> g_autoTxn g' = g_autoTxn h \<Longrightarrow> account gx (g, R, I) (g', R', I')"
  by (simp add: account_def autos_def)

lemma genuine_later:
  "genuine lib t I tok \<Longrightarrow> t_ring t' = t_ring t \<Longrightarrow> I \<subseteq> I' \<Longrightarrow> genuine lib t' I' tok"
  by (auto simp: genuine_def)

text \<open>The operations of the service keep the keyring.\<close>

lemma MintTxn_ring: "MintTxn lib a h s v ttl t = (r, t') \<Longrightarrow> t_ring t' = t_ring t"
  by (auto simp: MintTxn_def split: if_splits dest!: sign_cases)

lemma DeriveChildTxn_ring: "DeriveChildTxn lib p a s t = (r, t') \<Longrightarrow> t_ring t' = t_ring t"
  by (auto simp: DeriveChildTxn_def split: if_splits sum.splits dest!: sign_cases)

lemma DeriveCall_ring: "DeriveCall lib x tool t = (r, t') \<Longrightarrow> t_ring t' = t_ring t"
  by (auto simp: DeriveCall_def split: sum.splits option.splits dest!: sign_cases)

lemma VerifyCall_ring:
  assumes "VerifyCall lib x t = (r, t')"
  shows "t_ring t' = t_ring t"
proof -
  from assms consider "t' = t" | j ex ok where "claim_jti j ex t = (ok, t')"
    by (auto simp: VerifyCall_def Let_def split: sum.splits option.splits if_splits prod.splits bool.splits)
  then show ?thesis by cases (auto dest: claim_jti_frame)
qed

lemma DeriveCall_service:
  assumes "genuine lib t I x" and "DeriveCall lib x tool t = (r, t')"
  shows "\<exists>R' I'. (service lib)\<^sup>*\<^sup>* (t, R, I) (t', R', I') \<and> I \<subseteq> I' \<and> (\<forall>tok. r = Inr tok \<longrightarrow> tok \<in> I')"
proof (cases r)
  case (Inl e)
  have "t' = t \<or> t' = draw (draw t)"
    using assms(2) by (auto simp: DeriveCall_def split: sum.splits option.splits dest!: sign_cases)
  moreover have "(service lib)\<^sup>*\<^sup>* (t, R, I) (draw (draw t), R, I)"
    using draw_World [of lib t R I] draw_World [of lib "draw t" R I] by simp
  ultimately show ?thesis using Inl by (intro exI [of _ R] exI [of _ I]) auto
next
  case (Inr tok)
  from service.Call [OF assms(1) assms(2) [unfolded Inr], of R] Inr show ?thesis by (intro exI conjI) auto
qed

text \<open>
  \<open>served\<close>: the tokens presented being genuine, a stretch of the gateway within one request has an
  account.
\<close>

definition good :: "('l, 'k, 'p, 's, 'q, 'tok, 'pol) platform \<Rightarrow> 'tok set \<Rightarrow> ('l, 'k, 's, 'tok, 'pol) gateway \<Rightarrow> 'tok set \<Rightarrow> bool" where
  "good gx toks g I \<longleftrightarrow> autos g \<subseteq> I \<and> (\<forall>tok \<in> toks. genuine (gx_jwt gx) (g_tis g) I tok)"

definition served :: "('l, 'k, 'p, 's, 'q, 'tok, 'pol) platform \<Rightarrow> 'tok set \<Rightarrow> ('l, 'k, 's, 'tok, 'pol) gateway \<Rightarrow>
    ('l, 'k, 's, 'tok, 'pol) gateway \<Rightarrow> bool" where
  "served gx toks g g' \<longleftrightarrow> t_ring (g_tis g') = t_ring (g_tis g) \<and>
     (\<forall>R I. good gx toks g I \<longrightarrow> (\<exists>R' I'. account gx (g, R, I) (g', R', I')))"

lemma good_later:
  "good gx toks g I \<Longrightarrow> account gx (g, R, I) (g', R', I') \<Longrightarrow> t_ring (g_tis g') = t_ring (g_tis g) \<Longrightarrow> good gx toks g' I'"
  by (auto simp: good_def account_def intro: genuine_later)

lemma served_same: "g_tis g' = g_tis g \<Longrightarrow> g_autoTxn g' = g_autoTxn g \<Longrightarrow> served gx toks g g'"
  by (auto simp: served_def intro!: exI account_same)

lemma served_refl [intro, simp]: "served gx toks g g"
  by (rule served_same) simp_all

lemma served_trans [trans]: "served gx toks a b \<Longrightarrow> served gx toks b c \<Longrightarrow> served gx toks a c"
  unfolding served_def using good_later account_trans by (metis (no_types, lifting))

lemma autos_sub: "autos g \<subseteq> J \<longleftrightarrow> (\<forall>k a. (k, a) \<in> set (g_autoTxn g) \<longrightarrow> at_tok a \<in> J)"
  by (force simp: autos_def)

lemma set_map_put: "x \<in> set (map_put k v m) \<Longrightarrow> x = (k, v) \<or> x \<in> set m"
  by (induction m) (auto split: if_splits)

lemma autoMint_account:
  assumes "jwt_ok (gx_jwt gx)" and "autoMint gx coarse g = (r, g')"
  shows "t_ring (g_tis g') = t_ring (g_tis g) \<and>
     (autos g \<subseteq> I \<longrightarrow> (\<exists>R' I'. account gx (g, R, I) (g', R', I') \<and> (\<forall>x. r = Some x \<longrightarrow> x \<in> I')))"
proof (cases "fresh_auto (g_autoTxn g) coarse (KeyGen (g_tis g)) (g_now g)")
  case (Some tok)
  then have "g' = g" "r = Some tok" using assms(2) by (simp_all add: autoMint_def)
  moreover have "tok \<in> autos g"
    using Some by (force simp: fresh_auto_def autos_def split: option.splits if_splits dest: map_of_SomeD)
  ultimately show ?thesis using account_refl by blast
next
  case None
  let ?live = "filter (\<lambda>(k, v). g_now g < at_exp v) (g_autoTxn g)"
  obtain m t where m: "MintTxn (gx_jwt gx) (''svc:'' @ coarse) '''' top_scope (ev_Version (st_current (g_store g))) 0 (g_tis g) = (m, t)"
    by fastforce
  have t: "g_tis g' = t" and a: "\<And>J. (\<forall>tok. m = Inr tok \<longrightarrow> tok \<in> J) \<Longrightarrow> autos g \<subseteq> J \<Longrightarrow> autos g' \<subseteq> J \<and> (\<forall>x. r = Some x \<longrightarrow> x \<in> J)"
    using assms(2) None m
    by (auto simp: autoMint_def Let_def autos_sub split: sum.splits if_splits dest!: set_map_put)
  have "\<exists>R' I'. account gx (g, R, I) (g', R', I') \<and> (\<forall>x. r = Some x \<longrightarrow> x \<in> I')" if "autos g \<subseteq> I"
  proof -
    from MintTxn_service [OF assms(1) m, of R I] obtain R' I' where
      s: "(service (gx_jwt gx))\<^sup>*\<^sup>* (g_tis g, R, I) (t, R', I')" "I \<subseteq> I'" "\<forall>tok. m = Inr tok \<longrightarrow> tok \<in> I'" by blast
    with a [of I'] that t show ?thesis by (intro exI [of _ R'] exI [of _ I']) (auto simp: account_def)
  qed
  with MintTxn_ring [OF m] t show ?thesis by simp
qed

lemma derive_checked_ring:
  assumes "derive_checked gx tok coarse tool g = (r, g')"
  shows "t_ring (g_tis g') = t_ring (g_tis g)"
  using assms by (auto simp: derive_checked_def Let_def split: sum.splits prod.splits dest!: DeriveCall_ring VerifyCall_ring)

lemma derive_checked_account:
  assumes "derive_checked gx tok coarse tool g = (r, g')"
    and "genuine (gx_jwt gx) (g_tis g) I (case tok of None \<Rightarrow> gx_token gx '''' | Some x \<Rightarrow> x)"
  shows "t_ring (g_tis g') = t_ring (g_tis g) \<and> (\<exists>R' I'. account gx (g, R, I) (g', R', I'))"
proof -
  obtain d t1 where d: "DeriveCall (gx_jwt gx) (case tok of None \<Rightarrow> gx_token gx '''' | Some x \<Rightarrow> x) tool (g_tis g) = (d, t1)"
    by fastforce
  from DeriveCall_service [OF assms(2) d, of R] obtain R' I' where
    s: "(service (gx_jwt gx))\<^sup>*\<^sup>* (g_tis g, R, I) (t1, R', I')" "I \<subseteq> I'" by blast
  have au: "g_autoTxn g' = g_autoTxn g"
    using assms(1) d by (auto simp: derive_checked_def Let_def split: sum.splits prod.splits)
  consider "g_tis g' = t1" | c v t2 where "VerifyCall (gx_jwt gx) c t1 = (v, t2)" "g_tis g' = t2"
    using assms(1) d by (cases d) (auto simp: derive_checked_def Let_def split: sum.splits prod.splits)
  then show ?thesis
  proof cases
    case 1
    with s au DeriveCall_ring [OF d] show ?thesis by (intro conjI exI [of _ R'] exI [of _ I']) (auto simp: account_def autos_def)
  next
    case 2
    have "(service (gx_jwt gx))\<^sup>*\<^sup>* (g_tis g, R, I) (g_tis g', R', I')"
      using s(1) service.Verify [OF 2(1), of R' I'] 2(2) by (metis rtranclp.rtrancl_into_rtrancl)
    with s(2) au DeriveCall_ring [OF d] VerifyCall_ring [OF 2(1)] 2(2) show ?thesis
      by (intro conjI exI [of _ R'] exI [of _ I']) (auto simp: account_def autos_def)
  qed
qed

section \<open>A request, a turn, a post\<close>

lemma identify_served:
  assumes "jwt_ok (gx_jwt gx)" and "identify gx txnTok coarse tool g = (who, g')" and "{gx_token gx txnTok, gx_token gx ''''} \<subseteq> toks"
  shows "served gx toks g g'"
proof -
  obtain tok status asserted where t: "(if txnTok = '''' then (AssertionAbsent, None, None)
             else case VerifyTxn (gx_jwt gx) (gx_token gx txnTok) (g_tis g) of
               Inl _ \<Rightarrow> (AssertionInvalid, None, None)
             | Inr claims \<Rightarrow> (AssertionValid, Some claims, Some (gx_token gx txnTok))) = (status, asserted, tok)"
    by (metis prod_cases3)
  then have tk: "tok = None \<or> tok = Some (gx_token gx txnTok)" by (auto split: if_splits sum.splits)
  obtain tok1 g1 where g1: "(case tok of None \<Rightarrow> autoMint gx coarse g | Some _ \<Rightarrow> (tok, g)) = (tok1, g1)" by fastforce
  obtain call g2 where d: "derive_checked gx tok1 coarse tool g1 = (call, g2)" by fastforce
  have g': "g' = g2" using assms(2) unfolding identify_def t Let_def prod.case g1 d by simp
  have "t_ring (g_tis g1) = t_ring (g_tis g) \<and> (\<forall>R I. good gx toks g I \<longrightarrow> (\<exists>R' I'. account gx (g, R, I) (g1, R', I') \<and>
      genuine (gx_jwt gx) (g_tis g1) I' (case tok1 of None \<Rightarrow> gx_token gx '''' | Some x \<Rightarrow> x)))"
  proof (cases tok)
    case None
    then have m: "autoMint gx coarse g = (tok1, g1)" using g1 by simp
    note a = autoMint_account [OF assms(1) m]
    have "\<exists>R' I'. account gx (g, R, I) (g1, R', I') \<and>
        genuine (gx_jwt gx) (g_tis g1) I' (case tok1 of None \<Rightarrow> gx_token gx '''' | Some x \<Rightarrow> x)" if gd: "good gx toks g I" for R I
    proof -
      have "autos g \<subseteq> I" using gd by (simp add: good_def)
      with a [of I R] obtain R' I' where r: "account gx (g, R, I) (g1, R', I')" "\<forall>x. tok1 = Some x \<longrightarrow> x \<in> I'"
        "t_ring (g_tis g1) = t_ring (g_tis g)" by blast
      have "good gx toks g1 I'" by (rule good_later [OF gd r(1,3)])
      then have "genuine (gx_jwt gx) (g_tis g1) I' (gx_token gx '''')" using assms(3) by (simp add: good_def)
      with r show ?thesis by (intro exI [of _ R'] exI [of _ I']) (auto simp: genuine_def split: option.split)
    qed
    with a show ?thesis by blast
  next
    case (Some x)
    then have "tok1 = Some (gx_token gx txnTok)" "g1 = g" using g1 tk Some by auto
    moreover have "genuine (gx_jwt gx) (g_tis g) I (gx_token gx txnTok)" if "good gx toks g I" for I
      using that assms(3) by (simp add: good_def)
    ultimately show ?thesis using account_refl by (auto intro!: exI)
  qed
  note first = this
  have "t_ring (g_tis g2) = t_ring (g_tis g1)" by (rule derive_checked_ring [OF d])
  moreover have "\<exists>R' I'. account gx (g, R, I) (g2, R', I')" if "good gx toks g I" for R I
  proof -
    from first that obtain R1 I1 where a: "account gx (g, R, I) (g1, R1, I1)"
      and n: "genuine (gx_jwt gx) (g_tis g1) I1 (case tok1 of None \<Rightarrow> gx_token gx '''' | Some x \<Rightarrow> x)" by blast
    from derive_checked_account [OF d n, of R1] account_trans [OF a] show ?thesis by blast
  qed
  ultimately show ?thesis using first by (simp add: served_def g')
qed

lemma decideCall_served:
  assumes "jwt_ok (gx_jwt gx)" and "decideCall gx txnTok coarse c body g = ((i, pl), g')"
    and "{gx_token gx (if txnTok = '''' then sidecarTxn g else txnTok), gx_token gx ''''} \<subseteq> toks"
  shows "served gx toks g g'"
  using assms(2)
proof (rule decideCall_parts)
  fix who g1 tok res rec led
  assume w: "identify gx tok coarse (x_Tool (classify gx c)) g = (who, g1)" and t: "tok = (if txnTok = '''' then sidecarTxn g else txnTok)"
    and g': "g' = g1\<lparr>g_rand := Suc (g_rand g1), g_led := led\<rparr>"
  have "served gx toks g g1" by (rule identify_served [OF assms(1) w assms(3) [folded t]])
  also have "served gx toks g1 g'" by (rule served_same) (simp_all add: g')
  finally show ?thesis .
qed

lemma indeterminateCall_served: "indeterminateCall gx coarse st rs g = (i, g') \<Longrightarrow> served gx toks g g'"
  by (rule served_same) (auto simp: indeterminateCall_def newCallID_def Let_def)

text \<open>The tokens a request presents: its own or the one beside it, and what an empty text decodes to.\<close>

definition request_tokens :: "('l, 'k, 'p, 's, 'q, 'tok, 'pol) platform \<Rightarrow> request \<Rightarrow> ('l, 'k, 's, 'tok, 'pol) gateway \<Rightarrow> 'tok set" where
  "request_tokens gx q g = {gx_token gx (if q_Txn q = '''' then sidecarTxn g else q_Txn q), gx_token gx ''''}"

lemma request_tokens_later: "leads_to cx g g' \<Longrightarrow> request_tokens gx q g' = request_tokens gx q g"
  using leads_settings [of cx g g'] by (simp add: request_tokens_def)

lemma decide_served:
  assumes "jwt_ok (gx_jwt gx)" and "decide gx q c body g = ((i, pl), g')" and "request_tokens gx q g \<subseteq> toks"
  shows "served gx toks g g'"
proof -
  let ?tok = "if q_Txn q = '''' then sidecarTxn g else q_Txn q"
  have e: "(if ?tok = '''' then sidecarTxn g else ?tok) = ?tok" by auto
  have t: "{gx_token gx (if ?tok = '''' then sidecarTxn g else ?tok), gx_token gx ''''} \<subseteq> toks"
    unfolding e using assms(3) by (simp only: request_tokens_def)
  show ?thesis
    by (rule decideCall_served [OF assms(1) assms(2) [unfolded decide_def Let_def] t])
qed

lemma note_served: "served gx toks g (noteBlockedResponse gx coarse i payload g)"
  by (rule served_same) (simp_all add: noteBlockedResponse_def)

lemma indeterminate_served: "indeterminate gx q reason g = (i, g') \<Longrightarrow> served gx toks g g'"
  unfolding indeterminate_def by (rule indeterminateCall_served)

lemma decide_calls_served:
  assumes "jwt_ok (gx_jwt gx)"
  shows "decide_calls gx q body tcs g = (calls, blocked, g') \<Longrightarrow> request_tokens gx q g \<subseteq> toks \<Longrightarrow> served gx toks g g'"
proof (induction tcs arbitrary: g calls blocked)
  case (Cons tc tcs)
  from Cons.prems(1) show ?case
  proof (cases rule: decide_calls_cases)
    case (undecodable i g1 calls')
    have l: "leads_to (gx_codec gx) g g1" by (rule indeterminate_leads [OF undecodable(2)])
    from Cons.IH [OF undecodable(3)] Cons.prems(2) request_tokens_later [OF l, of gx q] have "served gx toks g1 g'" by simp
    with indeterminate_served [OF undecodable(2)] show ?thesis by (rule served_trans)
  next
    case (stopped i pl g1 blocked')
    let ?g2 = "noteBlockedResponse gx (coarsePrincipal (q_RemoteAddr q)) i (jsonRPCError (tc_ID tc)) g1"
    have l: "leads_to (gx_codec gx) g ?g2" by (rule leads_trans [OF decide_leads [OF stopped(2)] note_leads])
    from Cons.IH [OF stopped(5)] Cons.prems(2) request_tokens_later [OF l, of gx q] have "served gx toks ?g2 g'" by simp
    with served_trans [OF decide_served [OF assms stopped(2) Cons.prems(2)] note_served] show ?thesis by (rule served_trans)
  next
    case (forwarded i pl g1 calls')
    have l: "leads_to (gx_codec gx) g g1" by (rule decide_leads [OF forwarded(2)])
    from Cons.IH [OF forwarded(4)] Cons.prems(2) request_tokens_later [OF l, of gx q] have "served gx toks g1 g'" by simp
    with decide_served [OF assms forwarded(2) Cons.prems(2)] show ?thesis by (rule served_trans)
  qed
qed simp

lemma admit_other_served:
  assumes "jwt_ok (gx_jwt gx)" and "admit_other gx q body g = (d, g')" and "request_tokens gx q g \<subseteq> toks"
  shows "served gx toks g g'"
proof -
  let ?c = "\<lparr>c_Tool = '''', c_Arguments = [], c_Host = destination g q, c_Path = q_Path q, c_Body = body, c_Signature = None\<rparr>"
  show ?thesis
  proof (cases "Classify (Default (gx_url gx)) ?c")
    case None
    then show ?thesis using assms(2) by (simp add: admit_other_def Let_def)
  next
    case (Some r)
    show ?thesis
    proof (cases "x_Undecodable r")
      case True
      obtain i g1 where "indeterminate gx q (''undecodable '' @ x_Action r @ '' request'') g = (i, g1)" by fastforce
      with True Some assms(2) indeterminate_served [OF this] show ?thesis by (simp add: admit_other_def Let_def)
    next
      case False
      obtain i pl g1 where d: "decide gx q ?c body g = ((i, pl), g1)" by (cases "decide gx q ?c body g") auto
      have "served gx toks g g1" by (rule decide_served [OF assms(1) d assms(3)])
      with d False Some assms(2) show ?thesis
        by (auto simp: admit_other_def Let_def split: if_splits intro: served_trans note_served)
    qed
  qed
qed

lemma admit_body_served:
  assumes "jwt_ok (gx_jwt gx)" and "admit_body gx q body g = (d, g')" and "request_tokens gx q g \<subseteq> toks"
  shows "served gx toks g g'"
proof -
  obtain calls blocked g1 where m: "decide_calls gx q body (ParseToolsCalls body) g = (calls, blocked, g1)"
    by (cases "decide_calls gx q body (ParseToolsCalls body) g") auto
  have c: "served gx toks g g1" by (rule decide_calls_served [OF assms(1) m assms(3)])
  show ?thesis
  proof (cases "ParseToolsCalls body = []")
    case True
    with m assms(2) have "admit_other gx q body g = (d, g')" by (simp add: admit_body_def)
    then show ?thesis by (rule admit_other_served [OF assms(1) _ assms(3)])
  next
    case False
    with m assms(2) have "g' = g1" by (auto simp: admit_body_def Let_def split: if_splits option.splits)
    with c show ?thesis by simp
  qed
qed

lemma admit_served:
  assumes "jwt_ok (gx_jwt gx)" and "admit gx q g = (d, g')" and "request_tokens gx q g \<subseteq> toks"
  shows "served gx toks g g'"
proof -
  consider "g' = g" | i r where "indeterminate gx q r g = (i, g')" | b e where "admit_body gx q b g = (e, g')"
    using assms(2) by (auto simp: admit_def Let_def split: option.splits if_splits prod.splits)
  then show ?thesis
  proof cases
    case 3
    then show ?thesis by (rule admit_body_served [OF assms(1) _ assms(3)])
  qed (simp_all add: indeterminate_served)
qed

lemma ServeHTTP_served:
  assumes "jwt_ok (gx_jwt gx)" and "request_tokens gx q g \<subseteq> toks"
  shows "served gx toks g (snd (ServeHTTP gx upstream q g))"
proof -
  obtain d calls listing g1 where a: "admit gx q g = ((d, calls, listing), g1)" by (cases "admit gx q g") auto
  have "served gx toks g g1" by (rule admit_served [OF assms(1) a assms(2)])
  moreover have "served gx toks g1 (snd (ServeHTTP gx upstream q g))"
    using a by (intro served_same) (auto simp: ServeHTTP_def recordResponse_def Let_def split: disposition.split option.split)
  ultimately show ?thesis by (rule served_trans)
qed

text \<open>A turn of the stdio transport presents the token beside it.\<close>

definition turn_tokens :: "('l, 'k, 'p, 's, 'q, 'tok, 'pol) platform \<Rightarrow> ('l, 'k, 's, 'tok, 'pol) gateway \<Rightarrow> 'tok set" where
  "turn_tokens gx g = {gx_token gx (sidecarTxn g), gx_token gx ''''}"

lemma out_step_served: "served gx toks (sh_g s) (sh_g (out_step gx coarse pc s))"
  by (induction gx coarse pc s rule: out_step.induct)
    (auto simp: split_beta out_read_def Let_def note_response_def served_same split: option.split)

lemma in_step_served:
  assumes "jwt_ok (gx_jwt gx)" and "turn_tokens gx (sh_g s) \<subseteq> toks"
  shows "served gx toks (sh_g s) (sh_g (in_step gx coarse pc s))"
proof -
  have ind: "served gx toks (sh_g s) (snd (indeterminateCall gx coarse st rs (sh_g s)))" for st rs
    using indeterminateCall_served [OF prod.collapse [symmetric]] by blast
  have dec: "served gx toks (sh_g s) (snd (decideCall gx '''' coarse c body (sh_g s)))" for c body
  proof -
    obtain i pl g where d: "decideCall gx '''' coarse c body (sh_g s) = ((i, pl), g)" by (cases "decideCall gx '''' coarse c body (sh_g s)") auto
    have "served gx toks (sh_g s) g" by (rule decideCall_served [OF assms(1) d]) (use assms(2) in \<open>simp add: turn_tokens_def\<close>)
    then show ?thesis using d by simp
  qed
  show ?thesis
  proof (cases pc)
    case (InRead k)
    then show ?thesis using ind by (auto simp: in_read_def split_beta Let_def)
  next
    case (InAnswer rs tcs blocked chunk err)
    then show ?thesis by (cases rs) (auto simp: split_beta Let_def split: option.split)
  next
    case (InCalls tcs blocked chunk err)
    then show ?thesis using ind dec by (cases tcs) (auto simp: split_beta Let_def split: option.split)
  qed (auto simp: split_beta Let_def note_response_def served_same split: option.split list.split)
qed

section \<open>One step of the process\<close>

lemma admit_other_leads: "admit_other gx q body g = (d, g') \<Longrightarrow> leads_to (gx_codec gx) g g'"
proof -
  let ?c = "\<lparr>c_Tool = '''', c_Arguments = [], c_Host = destination g q, c_Path = q_Path q, c_Body = body, c_Signature = None\<rparr>"
  assume a: "admit_other gx q body g = (d, g')"
  obtain i pl g1 where d: "decide gx q ?c body g = ((i, pl), g1)" by (cases "decide gx q ?c body g") auto
  have n: "leads_to (gx_codec gx) g (noteBlockedResponse gx coarse i payload g1)" for coarse payload
    by (rule leads_trans [OF decide_leads [OF d] note_leads])
  show ?thesis
    using a d decide_leads [OF d] n
    by (auto simp: admit_other_def Let_def dest: indeterminate_leads split: option.splits if_splits prod.splits)
qed

lemma admit_leads: "admit gx q g = (d, g') \<Longrightarrow> leads_to (gx_codec gx) g g'"
proof -
  assume a: "admit gx q g = (d, g')"
  consider "g' = g" | i r where "indeterminate gx q r g = (i, g')" | b e where "admit_body gx q b g = (e, g')"
    using a by (auto simp: admit_def Let_def split: option.splits if_splits prod.splits)
  then show ?thesis
  proof cases
    case 2
    then show ?thesis by (rule indeterminate_leads)
  next
    case (3 b e)
    obtain calls blocked g1 where m: "decide_calls gx q b (ParseToolsCalls b) g = (calls, blocked, g1)"
      by (cases "decide_calls gx q b (ParseToolsCalls b) g") auto
    show ?thesis
    proof (cases "ParseToolsCalls b = []")
      case True
      with m 3 have "admit_other gx q b g = (e, g')" by (simp add: admit_body_def)
      then show ?thesis by (rule admit_other_leads)
    next
      case False
      with m 3 have "g' = g1" by (auto simp: admit_body_def Let_def split: if_splits option.splits)
      with decide_calls_leads [OF m] show ?thesis by simp
    qed
  qed simp
qed

text \<open>What no entrance changes.\<close>

definition posture :: "('l, 'k, 's, 'tok, 'pol) gateway \<Rightarrow> (decision \<Rightarrow> plan) \<times> string \<times> string \<times> string \<times> string \<times> (string \<Rightarrow> string option)" where
  "posture g = (g_act g, g_upstream g, g_tenant g, g_mode g, g_txnFile g, g_files g)"

lemma responses_steps: "(ledger_step cx)\<^sup>*\<^sup>* l (fold (\<lambda>i led. AppendResponse n (f i) led) is l)"
proof (induction "is" arbitrary: l)
  case (Cons i js)
  have "ledger_step cx l (AppendResponse n (f i) l)" by (rule ledger_step.AppendResponse)
  with Cons.IH [of "AppendResponse n (f i) l"] show ?case by simp
qed simp

lemma ServeHTTP_frame:
  defines "g' \<equiv> \<lambda>gx upstream q g. snd (ServeHTTP gx upstream q g)"
  shows "posture (g' gx upstream q g) = posture g" and "g_store (g' gx upstream q g) = g_store g"
    and "(ledger_step (gx_codec gx))\<^sup>*\<^sup>* (g_led g) (g_led (g' gx upstream q g))"
proof -
  obtain d calls listing g1 where a: "admit gx q g = ((d, calls, listing), g1)" by (cases "admit gx q g") auto
  note l = admit_leads [OF a]
  show "posture (g' gx upstream q g) = posture g" "g_store (g' gx upstream q g) = g_store g"
    using a l by (auto simp: g'_def ServeHTTP_def recordResponse_def Let_def posture_def leads_to_def settings_def split: disposition.split option.split)
  have "(ledger_step (gx_codec gx))\<^sup>*\<^sup>* (g_led g1) (g_led (g' gx upstream q g))"
    using a by (auto simp: g'_def ServeHTTP_def recordResponse_def Let_def intro: responses_steps split: disposition.split option.split)
  with l show "(ledger_step (gx_codec gx))\<^sup>*\<^sup>* (g_led g) (g_led (g' gx upstream q g))" by (auto simp: leads_to_def)
qed

text \<open>The tokens an entrance presents.\<close>

definition presented :: "('l, 'k, 'p, 's, 'q, 'tok, 'pol) platform \<Rightarrow> entrance \<Rightarrow> ('l, 'k, 's, 'tok, 'pol) gateway \<Rightarrow> 'tok set" where
  "presented gx e g =
     (case e of Request q _ \<Rightarrow> request_tokens gx q g | Post path body \<Rightarrow> set_option (posted gx path body) | _ \<Rightarrow> {})"

lemma Post_frame:
  assumes "mintMux gx me ''POST'' path body g = (r, g')"
  shows "g' = g\<lparr>g_tis := g_tis g'\<rparr>"
  using assms by (auto simp: mintMux_def on_mint_def on_derive_def split: if_splits option.splits sum.splits prod.splits)

lemma Post_account:
  assumes "jwt_ok (gx_jwt gx)" and "good gx (set_option (posted gx path body)) g I"
    and "mintMux gx me ''POST'' path body g = (r, g')"
  shows "\<exists>R' I'. account gx (g, R, I) (g', R', I')"
proof (cases "path \<in> {''/mint'', ''/derive''}")
  case True
  have gn: "\<And>tok. posted gx path body = Some tok \<Longrightarrow> genuine (gx_jwt gx) (g_tis g) I tok"
    using assms(2) by (simp add: good_def)
  obtain R' I' where "(service (gx_jwt gx))\<^sup>*\<^sup>* (g_tis g, R, I) (g_tis g', R', I')" "I \<subseteq> I'"
    using mintMux_service [OF assms(1) gn assms(3) True, of R] by blast
  moreover have "g_autoTxn g' = g_autoTxn g" using Post_frame [OF assms(3)] by (metis gateway.select_convs(10) gateway.simps(10) gateway.surjective gateway.update_convs(5))
  ultimately show ?thesis by (intro exI [of _ R'] exI [of _ I']) (auto simp: account_def autos_def)
next
  case False
  with assms(3) have "g' = g" by (auto simp: mintMux_def)
  then show ?thesis by blast
qed

lemma Turn_account: "account gx (g, R, I) (g\<lparr>g_tis := snd (Rotate (jl_keys (gx_jwt gx)) (g_tis g))\<rparr>, R, I)"
  using service.Turn [OF prod.collapse [symmetric], of "gx_jwt gx" "g_tis g" R I] by (auto simp: account_def autos_def)

lemma Ask_frame:
  assumes "adminMux gx ae q p = (r, p')"
  defines "g \<equiv> gv_gateway p" and "g' \<equiv> gv_gateway p'"
  shows "g' = g\<lparr>g_store := g_store g', g_led := g_led g', g_tis := g_tis g'\<rparr>"
    and "g_tis g' = g_tis g \<or> g_tis g' = snd (Rotate (jl_keys (gx_jwt gx)) (g_tis g))"
    and "g_led g' = g_led g \<or> (\<exists>keep \<ge> 1. g_led g' = snd (Prune (gx_codec gx) keep (g_led g)))"
    and "g_store g' = g_store g \<or> (\<exists>ev. LoadBundle (ae_bundle ae) (ae_policyPath ae) = Inr ev \<and> g_store g' = Swap ev (g_store g)) \<or>
      (\<exists>v. Rollback (g_store g) = (Some v, g_store g'))"
proof -
  consider "p' = p" | rt where "perform gx ae (aq_Keep q) rt p = (r, p')"
    using assms(1) by (auto simp: adminMux_def csrfGuard_def serve_admin_def split: if_splits option.splits)
  then have "g' = g\<lparr>g_store := g_store g', g_led := g_led g', g_tis := g_tis g'\<rparr> \<and>
      (g_tis g' = g_tis g \<or> g_tis g' = snd (Rotate (jl_keys (gx_jwt gx)) (g_tis g))) \<and>
      (g_led g' = g_led g \<or> (\<exists>keep \<ge> 1. g_led g' = snd (Prune (gx_codec gx) keep (g_led g)))) \<and>
      (g_store g' = g_store g \<or> (\<exists>ev. LoadBundle (ae_bundle ae) (ae_policyPath ae) = Inr ev \<and> g_store g' = Swap ev (g_store g)) \<or>
      (\<exists>v. Rollback (g_store g) = (Some v, g_store g')))"
  proof cases
    case 1
    then show ?thesis by (simp add: g_def g'_def)
  next
    case 2
    note led = perform_led [OF 2]
    from 2 have "g' = g\<lparr>g_store := g_store g', g_led := g_led g', g_tis := g_tis g'\<rparr>"
      "g_tis g' = g_tis g \<or> g_tis g' = snd (Rotate (jl_keys (gx_jwt gx)) (g_tis g))"
      "g_store g' = g_store g \<or> (\<exists>ev. LoadBundle (ae_bundle ae) (ae_policyPath ae) = Inr ev \<and> g_store g' = Swap ev (g_store g)) \<or>
        (\<exists>v. Rollback (g_store g) = (Some v, g_store g'))"
      unfolding g_def g'_def
      by (cases rt; auto simp: perform_def on_reload_def on_prune_def on_rotate_def on_rollback_def with_gateway_def reload_def
        split: prod.splits option.splits sum.splits if_splits)+
    with led show ?thesis by (auto simp: g_def g'_def)
  qed
  then show "g' = g\<lparr>g_store := g_store g', g_led := g_led g', g_tis := g_tis g'\<rparr>"
    "g_tis g' = g_tis g \<or> g_tis g' = snd (Rotate (jl_keys (gx_jwt gx)) (g_tis g))"
    "g_led g' = g_led g \<or> (\<exists>keep \<ge> 1. g_led g' = snd (Prune (gx_codec gx) keep (g_led g)))"
    "g_store g' = g_store g \<or> (\<exists>ev. LoadBundle (ae_bundle ae) (ae_policyPath ae) = Inr ev \<and> g_store g' = Swap ev (g_store g)) \<or>
      (\<exists>v. Rollback (g_store g) = (Some v, g_store g'))"
    by blast+
qed

lemma proxy_account:
  assumes "jwt_ok (gx_jwt gx)" and "good gx (presented gx e (gv_gateway p)) (gv_gateway p) I"
  shows "\<exists>R' I'. account gx (gv_gateway p, R, I) (gv_gateway (proxy_step gx ae me e p), R', I')"
proof -
  define g where "g = gv_gateway p"
  define g' where "g' = gv_gateway (proxy_step gx ae me e p)"
  note gd = assms(2) [folded g_def]
  have same: "g_tis g' = g_tis g \<Longrightarrow> g_autoTxn g' = g_autoTxn g \<Longrightarrow> account gx (g, R, I) (g', R, I)" by (rule account_same)
  have "\<exists>R' I'. account gx (g, R, I) (g', R', I')"
  proof (cases e)
    case (Request q upstream)
    then have g': "g' = snd (ServeHTTP gx upstream q g)" by (simp add: g'_def g_def on_gateway_def)
    have "served gx (request_tokens gx q g) g g'" unfolding g' by (rule ServeHTTP_served [OF assms(1) order_refl])
    moreover have "good gx (request_tokens gx q g) g I" using gd Request by (simp add: presented_def)
    ultimately show ?thesis unfolding served_def by blast
  next
    case (Post path body)
    obtain r h where m: "mintMux gx me ''POST'' path body g = (r, h)" by fastforce
    then have "g' = h" using Post by (simp add: g'_def g_def on_gateway_def)
    with Post_account [OF assms(1) _ m, of I R] gd Post show ?thesis by (simp add: presented_def)
  next
    case (Ask q)
    obtain r p' where a: "adminMux gx ae q p = (r, p')" by fastforce
    then have g': "g' = gv_gateway p'" using Ask by (simp add: g'_def)
    note f = Ask_frame [OF a, folded g' g_def]
    from f(1) obtain st ld ti where "g' = g\<lparr>g_store := st, g_led := ld, g_tis := ti\<rparr>" by blast
    then have "g_autoTxn g' = g_autoTxn g" by simp
    with f(2) account_cong [OF Turn_account [of gx g R I], of g'] same show ?thesis by fastforce
  next
    case RotateTick
    then have h: "g' = g\<lparr>g_tis := rotate_tick (gx_jwt gx) (g_tis g)\<rparr>" by (simp add: g'_def g_def on_gateway_def)
    have "account gx (g, R, I) (g', R, I)"
      using Turn_account [of gx g R I] same unfolding h rotate_tick_def by (simp split: if_split)
    then show ?thesis by blast
  next
    case (Passes n)
    then have "g' = pass_time n g" by (simp add: g'_def g_def on_gateway_def)
    then have "account gx (g, R, I) (g', R, I)"
      using service.World [of "g_tis g" "(t_env (g_tis g))\<lparr>ke_now := t_now (g_tis g) + int n\<rparr>" "gx_jwt gx" R I]
      by (auto simp: account_def pass_time_def Let_def autos_def)
    then show ?thesis by blast
  next
    case Hangup
    then show ?thesis using same by (auto simp: g'_def g_def on_gateway_def)
  next
    case WriterRuns
    then show ?thesis using same by (auto simp: g'_def g_def on_gateway_def)
  next
    case LedgerTick
    then show ?thesis using same by (auto simp: g'_def g_def on_gateway_def)
  qed
  then show ?thesis by (simp add: g_def g'_def)
qed

definition ledger_moves :: "('l, 'k, 'p) codec \<Rightarrow> ('l, 'k) ledger \<Rightarrow> ('l, 'k) ledger \<Rightarrow> bool" where
  "ledger_moves cx l l' \<longleftrightarrow> (ledger_step cx)\<^sup>*\<^sup>* l l' \<or> (\<exists>keep \<ge> 1. l' = snd (Prune cx keep l))"

definition policies_move :: "'pol admin_env \<Rightarrow> 'pol evaluator store \<Rightarrow> 'pol evaluator store \<Rightarrow> bool" where
  "policies_move ae s s' \<longleftrightarrow>
     s' = s \<or> (\<exists>ev. LoadBundle (ae_bundle ae) (ae_policyPath ae) = Inr ev \<and> s' = Swap ev s) \<or> (\<exists>v. Rollback s = (Some v, s'))"

lemma moves_one [simp]: "ledger_step cx l l' \<Longrightarrow> ledger_moves cx l l'" "ledger_moves cx l l" "policies_move ae s s"
  by (auto simp: ledger_moves_def policies_move_def)

lemma proxy_rest:
  assumes "g' = gv_gateway (proxy_step gx ae me e p)"
  shows "posture g' = posture (gv_gateway p) \<and> ledger_moves (gx_codec gx) (g_led (gv_gateway p)) (g_led g') \<and>
     policies_move ae (g_store (gv_gateway p)) (g_store g')"
proof -
  define g where "g = gv_gateway p"
  show ?thesis
  proof (cases e)
    case (Request q upstream)
    with ServeHTTP_frame [where gx = gx and upstream = upstream and q = q and g = "gv_gateway p"] assms show ?thesis
      by (simp add: on_gateway_def ledger_moves_def)
  next
    case (Post path body)
    obtain r h where m: "mintMux gx me ''POST'' path body g = (r, h)" by fastforce
    from Post_frame [OF m] obtain t where "h = g\<lparr>g_tis := t\<rparr>" by blast
    with m Post assms show ?thesis by (simp add: posture_def g_def on_gateway_def)
  next
    case (Ask q)
    obtain r p' where a: "adminMux gx ae q p = (r, p')" by fastforce
    then have g': "g' = gv_gateway p'" using Ask assms by simp
    note f = Ask_frame [OF a, folded g' g_def]
    from f(1) obtain st ld ti where "g' = g\<lparr>g_store := st, g_led := ld, g_tis := ti\<rparr>" by blast
    then have "posture g' = posture g" by (simp add: posture_def)
    with f(3,4) show ?thesis by (auto simp: ledger_moves_def policies_move_def g_def)
  next
    case Hangup
    with assms show ?thesis by (simp add: posture_def on_gateway_def policies_move_def reload_def split: sum.split)
  qed (use assms in \<open>auto simp: posture_def on_gateway_def pass_time_def Let_def intro: moves_one(1) ledger_step.intros\<close>)
qed

text \<open>
  C22. The process is its parts.  Whatever enters a serving process, a request with any answer of
  the upstream, a post to the sideband, an admin request, a SIGHUP, the rotation tick, the ledger's
  writer, or time: how calls are acted on, the upstream and the tenant stay as they were; the
  identity service takes only steps of the abstract service, as long as the tokens presented that
  check under its keys were issued by it, and the tokens the gateway holds are among those issued;
  the ledger takes only ledger steps, or a prune that keeps a segment; the policies in force change
  only to a bundle that was loaded, or back by one.
\<close>

theorem process_refines_parts:
  assumes "jwt_ok (gx_jwt gx)" and "autos (gv_gateway p) \<subseteq> I"
    and "\<forall>tok \<in> presented gx e (gv_gateway p). genuine (gx_jwt gx) (g_tis (gv_gateway p)) I tok"
    and "g = gv_gateway p" and "g' = gv_gateway (proxy_step gx ae me e p)"
  shows "posture g' = posture g \<and>
     (\<exists>R' I'. (service (gx_jwt gx))\<^sup>*\<^sup>* (g_tis g, R, I) (g_tis g', R', I') \<and> I \<subseteq> I' \<and> autos g' \<subseteq> I') \<and>
     ((ledger_step (gx_codec gx))\<^sup>*\<^sup>* (g_led g) (g_led g') \<or> (\<exists>keep \<ge> 1. g_led g' = snd (Prune (gx_codec gx) keep (g_led g)))) \<and>
     (g_store g' = g_store g \<or> (\<exists>ev. LoadBundle (ae_bundle ae) (ae_policyPath ae) = Inr ev \<and> g_store g' = Swap ev (g_store g)) \<or>
        (\<exists>v. Rollback (g_store g) = (Some v, g_store g')))"
proof -
  have "good gx (presented gx e (gv_gateway p)) (gv_gateway p) I" using assms(2,3) by (simp add: good_def)
  from proxy_account [OF assms(1) this, of R ae me] assms(2) have
    "\<exists>R' I'. (service (gx_jwt gx))\<^sup>*\<^sup>* (g_tis g, R, I) (g_tis g', R', I') \<and> I \<subseteq> I' \<and> autos g' \<subseteq> I'"
    by (auto simp: account_def assms(4,5))
  with proxy_rest [OF assms(5)] show ?thesis by (simp add: assms(4) ledger_moves_def policies_move_def)
qed

section \<open>A whole life\<close>

text \<open>
  A life of the process from \<open>p0\<close>, with an account of what its identity service has issued; the
  last theorem shows that whatever enters, there is one.
\<close>

inductive life :: "('l, 'k, 'p, 's, 'q, 'tok, 'pol) platform \<Rightarrow> 'pol admin_env \<Rightarrow> 'tok mint_env \<Rightarrow>
    ('l, 'k, 's, 'tok, 'pol) governed \<Rightarrow> ('l, 'k, 's, 'tok, 'pol) governed \<Rightarrow> payload set \<Rightarrow> 'tok set \<Rightarrow> bool"
  for gx ae me p0 where
  Begin: "autos (gv_gateway p0) = {} \<Longrightarrow> life gx ae me p0 p0 {} {}"
| Enter: "life gx ae me p0 p R I \<Longrightarrow>
    \<forall>tok \<in> presented gx e (gv_gateway p). genuine (gx_jwt gx) (g_tis (gv_gateway p)) I tok \<Longrightarrow>
    account gx (gv_gateway p, R, I) (gv_gateway (proxy_step gx ae me e p), R', I') \<Longrightarrow>
    life gx ae me p0 (proxy_step gx ae me e p) R' I'"

inductive_cases life_cases: "life gx ae me p0 p R I"

lemma life_parts:
  "life gx ae me p0 p R I \<Longrightarrow>
     autos (gv_gateway p) \<subseteq> I \<and> (service (gx_jwt gx))\<^sup>*\<^sup>* (g_tis (gv_gateway p0), {}, {}) (g_tis (gv_gateway p), R, I) \<and>
     posture (gv_gateway p) = posture (gv_gateway p0)"
proof (induction rule: life.induct)
  case (Enter p R I e R' I')
  then have "(service (gx_jwt gx))\<^sup>*\<^sup>* (g_tis (gv_gateway p), R, I) (g_tis (gv_gateway (proxy_step gx ae me e p)), R', I')"
    "autos (gv_gateway (proxy_step gx ae me e p)) \<subseteq> I'"
    by (auto simp: account_def)
  with Enter.IH proxy_rest [OF refl, of gx ae me e p] show ?case by (auto intro: rtranclp_trans)
qed simp

text \<open>There is always an account: a life goes on with whatever enters.\<close>

lemma life_goes_on:
  assumes "jwt_ok (gx_jwt gx)" and "life gx ae me p0 p R I"
    and "\<forall>tok \<in> presented gx e (gv_gateway p). genuine (gx_jwt gx) (g_tis (gv_gateway p)) I tok"
  shows "\<exists>R' I'. life gx ae me p0 (proxy_step gx ae me e p) R' I'"
proof -
  have "good gx (presented gx e (gv_gateway p)) (gv_gateway p) I"
    using life_parts [OF assms(2)] assms(3) by (simp add: good_def)
  from proxy_account [OF assms(1) this, of R ae me] life.Enter [OF assms(2,3)] show ?thesis by blast
qed

section \<open>What a record asserts\<close>

text \<open>The asserted fields of a record are within a root.\<close>

definition asserts_within :: "ledger_record \<Rightarrow> payload \<Rightarrow> bool" where
  "asserts_within rec r \<longleftrightarrow>
     (\<exists>s. r_AssertedScope rec = Some s \<and> permits s \<subseteq> permits (p_scope r)) \<and> r_AssertedHumanActor rec = p_act r \<and>
     (\<exists>hops. r_Lineage rec = p_lineage r @ hops)"

definition asserts_nothing :: "ledger_record \<Rightarrow> bool" where
  "asserts_nothing rec \<longleftrightarrow>
     r_AssertedScope rec = None \<and> r_AssertedHumanActor rec = '''' \<and> r_AssertedPrincipal rec = '''' \<and> r_Lineage rec = []"

lemma record_asserts:
  assumes "jwt_ok (gx_jwt gx)" and "bounded_creds (gx_jwt gx) R I" and "genuine (gx_jwt gx) (g_tis g) I (gx_token gx tok)"
    and "identify gx tok coarse tool g = (who, g1)"
    and "rec = decision_record ts callID x who coarse mode version reqHash res pl"
  shows "if r_AssertionStatus rec = AssertionValid then \<exists>r \<in> R. asserts_within rec r else asserts_nothing rec"
proof -
  obtain asserted call status where w: "who = (asserted, call, status)" by (cases who)
  note a = identify_asserted [OF assms(4) [unfolded w]]
  show ?thesis
  proof (cases asserted)
    case None
    with a have "status \<noteq> AssertionValid" by simp
    then show ?thesis using None by (simp add: assms(5) w decision_record_def asserts_nothing_def zero_record_def)
  next
    case (Some c)
    with a obtain p where p: "parse (gx_jwt gx) (gx_token gx tok) (g_tis g) = Inr p" "c = txn_of p" "status = AssertionValid"
      by (auto simp: VerifyTxn_Inr)
    from parse_bounded [OF assms(2,3) p(1)] obtain r where "r \<in> R" "Tis.within p r" by blast
    then show ?thesis using Some p(2,3)
      by (auto simp: assms(5) w decision_record_def asserts_within_def within_def txn_of_def intro!: bexI [of _ r])
  qed
qed


section \<open>How it starts and ends\<close>

text \<open>
  What serves after \<open>start_up\<close>: monitor unless enforcement was asked for, a policy that was loaded
  as the only version, no credential of its own, and, over HTTP, an upstream with a host.
\<close>

lemma start_up_ready:
  assumes "start_up gx ho fl = Inr p"
  shows "autos (gv_gateway p) = {} \<and>
     g_act (gv_gateway p) = (if fl_Enforce fl then enforce_plan else monitor_plan) \<and>
     policyMode (gv_gateway p) = (if fl_Enforce fl then ModeEnforce else ModeMonitor) \<and>
     (\<exists>ev. loadBundle (ho_bundle ho) (ho_starter ho) (fl_Policy fl) = Inr ev \<and> g_store (gv_gateway p) = NewStore ev) \<and>
     t_replay (g_tis (gv_gateway p)) = [] \<and>
     (fl_Command fl = None \<longrightarrow> g_upstream (gv_gateway p) \<noteq> '''')"
proof -
  from assms obtain host ev t led where s: "target_host ho fl = Inr host" "loadBundle (ho_bundle ho) (ho_starter ho) (fl_Policy fl) = Inr ev"
    "fst (Tis.New (gx_jwt gx) (fl_DeployID fl) (state_file ho fl ''tis-key.pem'') (ho_keys ho)) = Inr t"
    "p = \<lparr>gv_gateway = assemble ho fl host ev t led, gv_stages = ho_stages ho\<rparr>"
    unfolding start_up_def by (auto split: sum.splits option.splits)
  have "t_replay t = []" using s(3) by (auto simp: Tis.New_def split: sum.splits prod.splits)
  moreover have "fl_Command fl = None \<longrightarrow> host \<noteq> ''''" using s(1) by (auto simp: target_host_def split: option.splits if_splits)
  ultimately show ?thesis using s(2)
    by (auto simp: s(4) assemble_def applyActuator_def newHTTPGateway_def newGateway_def autos_def policyMode_def ModeEnforce_def Let_def)
qed

text \<open>
  A process that is to enforce does so for its whole life, and one that is not never stops a call:
  the actuator is the one it started with.
\<close>

lemma life_keeps_mode:
  assumes "start_up gx ho fl = Inr p0" and "life gx ae me p0 p R I"
  shows "g_act (gv_gateway p) = (if fl_Enforce fl then enforce_plan else monitor_plan)"
  using start_up_ready [OF assms(1)] life_parts [OF assms(2)] by (simp add: posture_def)

text \<open>The stdio process: the shim, and when it has returned the ledger is closed.\<close>

definition stdio_main :: "('l, 'k, 'p, 's, 'q, 'tok, 'pol) platform \<Rightarrow> child \<Rightarrow> string \<Rightarrow> reader \<Rightarrow> sink \<Rightarrow> side list \<Rightarrow>
    ('l, 'k, 's, 'tok, 'pol) governed \<Rightarrow> (run_error list \<times> ('l, 'k, 's, 'tok, 'pol) governed) option" where
  "stdio_main gx c argv0 input out sched p =
     (case runShim gx c argv0 input out sched (gv_gateway p) of
        (None, s) \<Rightarrow> None
      | (Some es, s) \<Rightarrow> Some (es, shut_down gx (p\<lparr>gv_gateway := sh_g s\<rparr>)))"

section \<open>Witnesses\<close>

text \<open>The credential the sideband mints for the sample body, and a platform on which its text is \<open>T\<close>.\<close>

definition life_root :: payload where
  "life_root = txn_payload (mint_claims toy_jwt ''agent'' '''' (scope_of (no_scope\<lparr>sf_actions := (1, [''read''])\<rparr>))
     (ev_Version toy_evaluator) (ttl_of 60) (toy_service 0))"

definition life_token :: "nat \<times> string \<times> payload" where
  "life_token = (3, KeyID toy_keys 3, life_root)"

definition life_platform :: "(ledger_record, char, char, nat, nat, nat \<times> string \<times> payload, string gomap) platform" where
  "life_platform = toy_platform\<lparr>gx_token := (\<lambda>s. if s = ''T'' then life_token else (0, s, life_root))\<rparr>"

lemma life_jwt [simp]: "gx_jwt life_platform = toy_jwt" "gx_token life_platform ''T'' = life_token"
  by (simp_all add: life_platform_def toy_platform_def)

definition minting :: entrance where "minting = Post ''/mint'' toy_mint_body"

definition life_next :: "(ledger_record, char, nat, nat \<times> string \<times> payload, string gomap) governed" where
  "life_next = proxy_step life_platform toy_admin toy_mint_env minting toy_process"

lemma toy_process_tis [simp]: "g_tis (gv_gateway toy_process) = toy_service 0" "g_autoTxn (gv_gateway toy_process) = []"
  "g_store (gv_gateway toy_process) = NewStore toy_evaluator" "sidecarTxn (gv_gateway toy_process) = ''''"
  by (simp_all add: toy_process_def toy_gateway_def newHTTPGateway_def newGateway_def sidecarTxn_def)

lemma life_next_gateway: "gv_gateway life_next = (gv_gateway toy_process)\<lparr>g_tis := draw (draw (toy_service 0))\<rparr>"
  and life_mint: "MintTxn toy_jwt ''agent'' '''' (scope_of (no_scope\<lparr>sf_actions := (1, [''read''])\<rparr>)) (ev_Version toy_evaluator) (ttl_of 60)
     (toy_service 0) = (Inr life_token, draw (draw (toy_service 0)))"
proof -
  show m: "MintTxn toy_jwt ''agent'' '''' (scope_of (no_scope\<lparr>sf_actions := (1, [''read''])\<rparr>)) (ev_Version toy_evaluator) (ttl_of 60)
     (toy_service 0) = (Inr life_token, draw (draw (toy_service 0)))"
    by (simp add: MintTxn_def sign_def life_token_def life_root_def)
  have "length toy_mint_body < maxMintBody" by (simp add: maxMintBody_def toy_mint_body_def json_obj_def json_arr_def json_key_def)
  with m show "gv_gateway life_next = (gv_gateway toy_process)\<lparr>g_tis := draw (draw (toy_service 0))\<rparr>"
    by (simp add: life_next_def minting_def on_gateway_def mintMux_def on_mint_def toy_mint_decodes NewStore_def)
qed

lemma life_lives: "life life_platform toy_admin toy_mint_env toy_process life_next {life_root} {life_token}"
  unfolding life_next_def
proof (rule life.Enter)
  show "life life_platform toy_admin toy_mint_env toy_process toy_process {} {}" by (rule life.Begin) (simp add: autos_def)
  show "\<forall>tok \<in> presented life_platform minting (gv_gateway toy_process). genuine (gx_jwt life_platform) (g_tis (gv_gateway toy_process)) {} tok"
    by (simp add: presented_def minting_def posted_def)
  have "service toy_jwt (toy_service 0, {}, {}) (draw (draw (toy_service 0)), {life_root}, {life_token})"
    by (rule service.Mint [OF life_mint]) (simp add: life_token_def)
  then have "(service toy_jwt)\<^sup>*\<^sup>* (toy_service 0, {}, {}) (draw (draw (toy_service 0)), {life_root}, {life_token})" by blast
  then show "account life_platform (gv_gateway toy_process, {}, {})
      (gv_gateway (proxy_step life_platform toy_admin toy_mint_env minting toy_process), {life_root}, {life_token})"
    by (simp add: account_def life_next_gateway [unfolded life_next_def] autos_def)
qed

theorem process_refines_parts_witness:
  "posture (gv_gateway life_next) = posture (gv_gateway toy_process) \<and>
   (\<exists>R' I'. (service toy_jwt)\<^sup>*\<^sup>* (toy_service 0, {}, {}) (g_tis (gv_gateway life_next), R', I') \<and> autos (gv_gateway life_next) \<subseteq> I')"
proof -
  have a: "autos (gv_gateway toy_process) \<subseteq> {}" by (simp add: autos_def)
  have g: "\<forall>tok \<in> presented life_platform minting (gv_gateway toy_process). genuine (gx_jwt life_platform) (g_tis (gv_gateway toy_process)) {} tok"
    by (simp add: presented_def minting_def posted_def)
  have j: "jwt_ok (gx_jwt life_platform)" by (simp add: toy_jwt_ok)
  from process_refines_parts [where R = "{}" and ae = toy_admin and me = toy_mint_env, OF j a g refl refl] show ?thesis
    by (simp only: life_next_def [symmetric] life_jwt toy_process_tis) blast
qed


end
