(* ===== verification/Spec2Isabelle.thy ===== *)
theory Spec2Isabelle
  imports Prelude Tis_Scope Shim_Pending Policy Actuator
    Ledger_Record Ledger_Verify Ledger_Chain Ledger_Writer Ledger_Ops Ledger_Frame Ledger_Sample
    Ledger_Paths Ledger_Durable Ledger_Evidence Ledger_Correct Ledger_Resume Verify_Main
    Tis_Keyring Tis Clock
    Json Json_Compact Mcp Block_Rpc Block_Filter Toolsig Extract Gateway Gateway_Http
    Shim_Relay Shim_Session Json_Write Bundle Admin
    Mint_Sock Bench Conform Flush_Writer Version Process
begin

text \<open>
  A model of the Go core of Gurdy, the governance proxy under \<open>src/proxy\<close>, with the theorems
  that make it correct.

  \<^bold>\<open>The program.\<close>  The proxy stands between an agent and the tools and models it calls, over
  HTTP (\<open>cmd/gurdy-proxy/main.go\<close>) or around a stdio server (\<open>shim.go\<close>).  For each call it
  classifies the traffic (\<open>internal/extract\<close>, \<open>internal/mcp\<close>, \<open>internal/toolsig\<close>), identifies the
  caller (\<open>internal/tis\<close>), evaluates Cedar policies (\<open>internal/policy\<close>), plans what to do
  (\<open>actuator.go\<close>), attests it in a hash-chained, batch-signed ledger (\<open>internal/ledger\<close>), and
  forwards or stops the call (\<open>block_rpc.go\<close>).  \<open>cmd/gurdy-verify\<close> checks the ledger's exports.
  Keys live in \<open>internal/keyfile\<close>, latencies in \<open>internal/clock\<close>.

  \<^bold>\<open>The theories.\<close>
  \<^item> \<open>Prelude\<close>: package \<open>strings\<close>, Go maps as association lists, decimal numbers.
  \<^item> \<open>Json\<close>, \<open>Json_Compact\<close>: what the sources use of \<open>encoding/json\<close>.  The parser keeps the bytes
    of every element and member, as \<open>json.RawMessage\<close> does; \<open>json_fuel_enough\<close> shows that
    \<open>2 * length + 1\<close> units of fuel never run out, and \<open>compact_value\<close> that rewriting raw messages
    keeps their meaning.
  \<^item> \<open>Mcp\<close>: \<open>mcp.go\<close>.  \<open>Block_Rpc\<close>, \<open>Block_Filter\<close>: \<open>block_rpc.go\<close>.
  \<^item> \<open>Toolsig\<close>: \<open>toolsig.go\<close>; locale \<open>tool_book\<close> is what the extractor relies on.
  \<^item> \<open>Extract\<close>: \<open>extract.go\<close>, \<open>tool.go\<close>, \<open>llm.go\<close>; locale \<open>sound_extractor\<close> is the contract of an
    extractor, interpreted on both.
  \<^item> \<open>Policy\<close>: \<open>policy.go\<close> and \<open>store.go\<close>, the store with its abstract undo history.
    \<open>Actuator\<close>: \<open>actuator.go\<close>; locale \<open>actuator\<close> is what a transport relies on.
  \<^item> \<open>Tis_Scope\<close>, \<open>Tis_Keyring\<close>, \<open>Tis\<close>: \<open>scope.go\<close> (locale \<open>attenuation\<close>), \<open>keyfile.go\<close> and
    \<open>keyring.go\<close> over a disk whose I/O may fail at any call, \<open>tis.go\<close> with its replay cache.
  \<^item> \<open>Ledger_Record\<close>, \<open>Ledger_Writer\<close>, \<open>Ledger_Ops\<close>: \<open>ledger.go\<close>, its records, partitions,
    segments, queue and public operations, over a disk with a schedule of failures.
    \<open>Ledger_Verify\<close>: \<open>verify.go\<close>.  \<open>Verify_Main\<close>: \<open>cmd/gurdy-verify/main.go\<close>.
    \<open>Ledger_Chain\<close> states without a loop what the verifier accepts, \<open>Ledger_Evidence\<close> what an
    accepted export proves, \<open>Ledger_Durable\<close> what reaches the disk, \<open>Ledger_Correct\<close> that the
    writer's files are what the verifier accepts, \<open>Ledger_Resume\<close> what a restart does,
    \<open>Ledger_Paths\<close> and \<open>Ledger_Frame\<close> carry them, \<open>Ledger_Sample\<close> is the instance witnesses use.
  \<^item> \<open>Shim_Pending\<close>: the correlator of \<open>shim.go\<close>; locale \<open>correlator\<close> states its contract.
    \<open>Shim_Relay\<close>: its two goroutines as machines under any schedule; locale \<open>fair_machine\<close> is why
    they end.  \<open>Shim_Session\<close> composes them with the correlator and the gateway.
  \<^item> \<open>Bundle\<close>: \<open>bundle.go\<close> and the loading and reloading of \<open>main.go\<close>.
  \<^item> \<open>Json_Write\<close>: the documents the sources encode; what is written parses back to what it says.
    \<open>Admin\<close>: \<open>adminMux\<close> and \<open>csrfGuard\<close> of \<open>main.go\<close>.
  \<^item> \<open>Mint_Sock\<close>: \<open>mintsock.go\<close>, the sideband as a refinement of the identity service.
    \<open>Bench\<close>: \<open>cmd/gurdy-bench/main.go\<close>.  \<open>Conform\<close>: \<open>cmd/gurdy-conform/main.go\<close>, its judgement
    against the specification of an export of \<open>Ledger_Chain\<close>.
  \<^item> \<open>Flush_Writer\<close>: \<open>flushwriter.go\<close>.  \<open>Version\<close>: \<open>internal/version\<close>.
    \<open>Process\<close>: \<open>main\<close>, the parts put together, and what holds over the life of a process.
  \<^item> \<open>Gateway\<close>: the decision path of \<open>main.go\<close>, from \<open>identify\<close> to \<open>decideCall\<close>, composed of
    the models above as the code composes them; \<open>leads_to\<close> is its frame: the configuration
    stays and the ledger only takes ledger steps.  \<open>Gateway_Http\<close>: \<open>ServeHTTP\<close> and the writer
    that hashes responses.
  \<^item> \<open>Clock\<close>: \<open>clock.go\<close>.

  \<^bold>\<open>Correspondence.\<close>  A Go struct is a record, an enumeration a datatype or its strings, a
  sequence number a \<^typ>\<open>64 word\<close>, an error a branch of a sum or option.  State is passed
  explicitly: an operation returns the updated record.  A mutex makes an operation one step;
  where the code gives a lock up in between (\<open>VerifyCall\<close>, \<open>LoadOrCreate\<close>, the writer goroutine)
  the model has the halves, and statements are about every interleaving of steps.  Iteration
  over a Go map is over a list in any order.

  \<^bold>\<open>Parameters.\<close>  Cryptography (SHA-256, ECDSA, the JWT library), the Cedar engine, ULIDs and
  random text, PKIX and base64 text, time formats, \<open>net/url\<close>, and the text of a float are
  parameters, records of functions (\<open>codec\<close>, \<open>keylib\<close>, \<open>jwtlib\<close>, \<open>cedar\<close>, \<open>platform\<close>).  A theorem
  that relies on them names the law (\<open>codec_ok\<close>, \<open>jwt_ok\<close>), and its witness has an instance.

  \<^bold>\<open>Bounds.\<close>  Fuel occurs in the JSON parser (shown to be enough) and in the scan for the latest
  segment (\<open>latest_enough\<close>: one more than the number of files).  Queue, segment, nesting and
  body limits are the code's own constants.

  \<^bold>\<open>What is shown.\<close>  Evidence is on disk before an effect is released, at the ledger and at the
  transport; every write keeps the hash chain; what the writer seals the verifier accepts; an
  accepted head hash commits to the whole export and a signature to everything before it; no
  derived credential exceeds its root and no assertion is accepted twice; monitor mode changes
  nothing; filtering forwards exactly the calls that were not blocked; batches hide no call;
  signatures come from the upstream and payloads never reach a record.  Theorems of kind
  error pin down what the code gets wrong: see the findings of the manifest.

  \<^bold>\<open>Not modelled.\<close>  \<open>strings.ToLower\<close> is the ASCII one.  Logging, tracing, and stopwatches; the
  text \<open>gurdy-verify\<close> prints; HTTP server timeouts; the decoding of a
  conformance case and the processes that run it; everything that is not Go.
\<close>

end
